(* ===== verification/GH_Prelude.thy ===== *)
theory GH_Prelude
  imports Main "HOL-Library.AList"
begin

text \<open>
  Shared vocabulary of the development: the scalar types of \<^verbatim>\<open>groundhog/types.py\<close>, Python
  exceptions as values, Python list indexing and slicing (negative indices included), and a
  small language of statements.

  A statement that returns nothing is a function from the state it may change to an outcome:
  \<open>Done\<close> with the new state, \<open>Raised\<close> with the exception and the state \<^emph>\<open>as mutated so
  far\<close> (Python keeps the mutations made before a \<^verbatim>\<open>raise\<close>), or \<open>Diverges\<close> when the code
  never returns (the rejection loop of \<^verbatim>\<open>Rng.below\<close> is the only such loop).
  \<open>valid\<close> is the partial-correctness triple over these outcomes, \<open>py_rules\<close> the collection of
  its proof rules.
\<close>

section \<open>Scalar types\<close>

type_synonym NodeId = int
type_synonym Term = int
type_synonym Index = int
type_synonym Tick = int

definition MICROSECOND :: Tick where "MICROSECOND = 1"
definition MILLISECOND :: Tick where "MILLISECOND = 1000 * MICROSECOND"
definition SECOND :: Tick where "SECOND = 1000 * MILLISECOND"

lemma tick_units [simp]: "MICROSECOND = 1" "MILLISECOND = 1000" "SECOND = 1000000"
  by (simp_all add: MICROSECOND_def MILLISECOND_def SECOND_def)

text \<open>A Python string is a sequence of code points.\<close>

type_synonym pystr = "nat list"

definition pystr :: "string \<Rightarrow> pystr" where
  "pystr s = map of_char s"

text \<open>The other way, for strings whose code points are below 256, as those that go into a trace are.\<close>

definition text_of :: "pystr \<Rightarrow> string" where
  "text_of s = map char_of s"

lemma text_of_pystr [simp]: "text_of (pystr s) = s"
  by (simp add: text_of_def pystr_def comp_def)

text \<open>Everything that may stand in a trace record. \<open>JDesc\<close> holds a value whose
  \<^verbatim>\<open>describe()\<close> text the code puts there; the rendering to text is not modelled.\<close>

datatype 'd jval =
    JNull
  | JBool bool
  | JInt int
  | JStr string
  | JDesc 'd
  | JList "'d jval list"
  | JObj "(string \<times> 'd jval) list"

type_synonym 'd jrecord = "(string \<times> 'd jval) list"

section \<open>Exceptions and outcomes\<close>

datatype exn =
    ValueError
  | IndexError
  | KeyError
  | StructError
  | UnicodeError
  | RuntimeError
  | ZeroDivisionError
  | InvariantViolated
  | OSError
  | DiskOSError
  | DiskOffline
  | DiskFailed
  | DiskWriteFailed nat nat

text \<open>\<^verbatim>\<open>DiskError\<close> is raised at three places of \<^verbatim>\<open>sim/disk.py\<close>, and by \<^verbatim>\<open>storage.py\<close> for an error of the
  operating system; the constructors keep which.\<close>

fun is_disk_error :: "exn \<Rightarrow> bool" where
  "is_disk_error DiskOSError = True"
| "is_disk_error DiskOffline = True"
| "is_disk_error DiskFailed = True"
| "is_disk_error (DiskWriteFailed _ _) = True"
| "is_disk_error _ = False"

datatype ('a, 's) outcome = Done 'a 's | Raised exn 's | Diverges

type_synonym ('a, 's) py = "'s \<Rightarrow> ('a, 's) outcome"
type_synonym 's stmt = "(unit, 's) py"

definition ret :: "'a \<Rightarrow> ('a, 's) py" where
  "ret x s = Done x s"

definition raise :: "exn \<Rightarrow> ('a, 's) py" where
  "raise e s = Raised e s"

definition modify :: "('s \<Rightarrow> 's) \<Rightarrow> 's stmt" where
  "modify f s = Done () (f s)"

definition bind :: "('a, 's) py \<Rightarrow> ('a \<Rightarrow> ('b, 's) py) \<Rightarrow> ('b, 's) py" where
  "bind m f s = (case m s of Done x s' \<Rightarrow> f x s' | Raised e s' \<Rightarrow> Raised e s' | Diverges \<Rightarrow> Diverges)"

definition ite :: "('s \<Rightarrow> bool) \<Rightarrow> ('a, 's) py \<Rightarrow> ('a, 's) py \<Rightarrow> ('a, 's) py" where
  "ite b m n s = (if b s then m s else n s)"

definition whenever :: "('s \<Rightarrow> bool) \<Rightarrow> 's stmt \<Rightarrow> 's stmt" where
  "whenever b m s = (if b s then m s else Done () s)"

fun block :: "'s stmt list \<Rightarrow> 's stmt" where
  "block [] s = Done () s"
| "block (m # ms) s = (case m s of Done _ s' \<Rightarrow> block ms s' | Raised e s' \<Rightarrow> Raised e s' | Diverges \<Rightarrow> Diverges)"

definition for_each :: "'x list \<Rightarrow> ('x \<Rightarrow> 's stmt) \<Rightarrow> 's stmt" where
  "for_each xs f = block (map f xs)"

definition of_sum :: "exn + 'a \<Rightarrow> ('a, 's) py" where
  "of_sum r s = (case r of Inl e \<Rightarrow> Raised e s | Inr x \<Rightarrow> Done x s)"

text \<open>\<open>on_part\<close> runs a computation on a part of the state: the part is read with \<open>get\<close> and
  written back with \<open>put\<close>, whatever the outcome.\<close>

definition on_part :: "('s \<Rightarrow> 't) \<Rightarrow> ('t \<Rightarrow> 's \<Rightarrow> 's) \<Rightarrow> ('a, 't) py \<Rightarrow> ('a, 's) py" where
  "on_part get put m s = (case m (get s) of Done x t \<Rightarrow> Done x (put t s)
     | Raised e t \<Rightarrow> Raised e (put t s) | Diverges \<Rightarrow> Diverges)"

text \<open>Taking a normal return apart.\<close>

named_theorems py_done

lemma bind_Done [py_done]:
  "bind m f s = Done y s' \<longleftrightarrow> (\<exists>x s1. m s = Done x s1 \<and> f x s1 = Done y s')"
  by (auto simp: bind_def split: outcome.splits)

lemma block_Cons_Done [py_done]:
  "block (m # ms) s = Done y s' \<longleftrightarrow> (\<exists>s1. m s = Done () s1 \<and> block ms s1 = Done y s')"
  by (auto split: outcome.splits)

lemma block_Nil_Done [py_done]: "block [] s = Done y s' \<longleftrightarrow> s' = s"
  by auto

lemma ite_Done [py_done]: "ite b m n s = Done y s' \<longleftrightarrow> (if b s then m s = Done y s' else n s = Done y s')"
  by (simp add: ite_def)

lemma whenever_Done [py_done]:
  "whenever b m s = Done y s' \<longleftrightarrow> (if b s then m s = Done y s' else s' = s)"
  by (auto simp: whenever_def)

lemma ret_Done [py_done]: "ret x s = Done y s' \<longleftrightarrow> y = x \<and> s' = s"
  by (auto simp: ret_def)

lemma raise_Done [py_done]: "raise e s = Done y s' \<longleftrightarrow> False"
  by (simp add: raise_def)

lemma modify_Done [py_done]: "modify f s = Done y s' \<longleftrightarrow> s' = f s"
  by (auto simp: modify_def)

lemma of_sum_Done [py_done]: "of_sum r s = Done y s' \<longleftrightarrow> r = Inr y \<and> s' = s"
  by (auto simp: of_sum_def split: sum.splits)

lemma on_part_Done [py_done]:
  "on_part get put m s = Done y s' \<longleftrightarrow> (\<exists>t. m (get s) = Done y t \<and> s' = put t s)"
  by (auto simp: on_part_def split: outcome.splits)

lemma if_Done [py_done]: "(if b then m else n) s = Done y s' \<longleftrightarrow> (if b then m s = Done y s' else n s = Done y s')"
  by simp

section \<open>Partial correctness of statements\<close>

definition valid :: "('s \<Rightarrow> bool) \<Rightarrow> ('a, 's) py \<Rightarrow> ('a \<Rightarrow> 's \<Rightarrow> bool) \<Rightarrow> (exn \<Rightarrow> 's \<Rightarrow> bool) \<Rightarrow> bool" where
  "valid P m Q E \<longleftrightarrow> (\<forall>s. P s \<longrightarrow> (case m s of Done x s' \<Rightarrow> Q x s' | Raised e s' \<Rightarrow> E e s' | Diverges \<Rightarrow> True))"

named_theorems py_rules

lemma validI:
  assumes "\<And>s x s'. P s \<Longrightarrow> m s = Done x s' \<Longrightarrow> Q x s'"
    and "\<And>s e s'. P s \<Longrightarrow> m s = Raised e s' \<Longrightarrow> E e s'"
  shows "valid P m Q E"
  using assms by (auto simp: valid_def split: outcome.splits)

lemma validD_Done: "valid P m Q E \<Longrightarrow> P s \<Longrightarrow> m s = Done x s' \<Longrightarrow> Q x s'"
  by (force simp: valid_def)

lemma validD_Raised: "valid P m Q E \<Longrightarrow> P s \<Longrightarrow> m s = Raised e s' \<Longrightarrow> E e s'"
  by (force simp: valid_def)

lemma valid_weaken:
  assumes "valid P' m Q' E'"
    and "\<And>s. P s \<Longrightarrow> P' s"
    and "\<And>x s. Q' x s \<Longrightarrow> Q x s"
    and "\<And>e s. E' e s \<Longrightarrow> E e s"
  shows "valid P m Q E"
  using assms unfolding valid_def by (fastforce split: outcome.splits)

lemma valid_cong: "(\<And>s. P s \<Longrightarrow> m s = m' s) \<Longrightarrow> valid P m' Q E \<Longrightarrow> valid P m Q E"
  by (simp add: valid_def)

lemma valid_ret [py_rules]: "(\<And>s. P s \<Longrightarrow> Q x s) \<Longrightarrow> valid P (ret x) Q E"
  by (simp add: valid_def ret_def)

lemma valid_raise [py_rules]: "(\<And>s. P s \<Longrightarrow> E e s) \<Longrightarrow> valid P (raise e) Q E"
  by (simp add: valid_def raise_def)

lemma valid_modify [py_rules]: "(\<And>s. P s \<Longrightarrow> Q () (f s)) \<Longrightarrow> valid P (modify f) Q E"
  by (simp add: valid_def modify_def)

lemma valid_bind [py_rules]:
  assumes "valid P m R E" and "\<And>x. valid (R x) (f x) Q E"
  shows "valid P (bind m f) Q E"
  using assms by (fastforce simp: valid_def bind_def split: outcome.splits)

lemma valid_ite [py_rules]:
  assumes "valid (\<lambda>s. P s \<and> b s) m Q E" and "valid (\<lambda>s. P s \<and> \<not> b s) n Q E"
  shows "valid P (ite b m n) Q E"
  using assms by (simp add: valid_def ite_def)

lemma valid_whenever [py_rules]:
  assumes "valid (\<lambda>s. P s \<and> b s) m Q E" and "\<And>s. P s \<Longrightarrow> \<not> b s \<Longrightarrow> Q () s"
  shows "valid P (whenever b m) Q E"
  using assms by (simp add: valid_def whenever_def)

lemma valid_block_Nil [py_rules]: "(\<And>s. P s \<Longrightarrow> Q () s) \<Longrightarrow> valid P (block []) Q E"
  by (simp add: valid_def)

lemma valid_block_Cons [py_rules]:
  assumes "valid P m (\<lambda>_. R) E" and "valid R (block ms) Q E"
  shows "valid P (block (m # ms)) Q E"
  using assms by (fastforce simp: valid_def split: outcome.splits)

lemma valid_for_each:
  assumes "\<And>x. x \<in> set xs \<Longrightarrow> valid I (f x) (\<lambda>_. I) E"
  shows "valid I (for_each xs f) (\<lambda>_. I) E"
  using assms unfolding for_each_def
proof (induction xs)
  case Nil
  then show ?case by (simp add: valid_def)
next
  case (Cons x xs)
  have "valid I (block (f x # map f xs)) (\<lambda>_. I) E"
    by (rule valid_block_Cons [where R = I]) (use Cons in auto)
  then show ?case by (simp only: list.map)
qed

lemma valid_of_sum [py_rules]:
  assumes "\<And>x s. P s \<Longrightarrow> r = Inr x \<Longrightarrow> Q x s" and "\<And>e s. P s \<Longrightarrow> r = Inl e \<Longrightarrow> E e s"
  shows "valid P (of_sum r) Q E"
  using assms by (auto simp: valid_def of_sum_def split: sum.splits)

lemma valid_on_part:
  assumes "\<And>s0. valid (\<lambda>t. P s0 \<and> t = get s0) m (\<lambda>x t. Q x (put t s0)) (\<lambda>e t. E e (put t s0))"
  shows "valid P (on_part get put m) Q E"
  using assms by (fastforce simp: valid_def on_part_def split: outcome.splits)

lemma valid_state [py_rules]:
  assumes "\<And>s0. P s0 \<Longrightarrow> valid (\<lambda>s. s = s0) (f s0) Q E"
  shows "valid P (\<lambda>s. f s s) Q E"
  using assms by (auto simp: valid_def)

section \<open>Python lists\<close>

text \<open>\<open>xs[i]\<close>, \<open>xs[i:]\<close> and \<open>xs[:i]\<close> with Python's rule for negative indices: they count from
  the end; a slice bound below the start is the start.\<close>

definition py_nth :: "'a list \<Rightarrow> int \<Rightarrow> exn + 'a" where
  "py_nth xs i =
     (let j = (if i < 0 then int (length xs) + i else i)
      in if 0 \<le> j \<and> j < int (length xs) then Inr (xs ! nat j) else Inl IndexError)"

definition py_bound :: "'a list \<Rightarrow> int \<Rightarrow> nat" where
  "py_bound xs i = nat (if i < 0 then int (length xs) + i else i)"

definition py_from :: "'a list \<Rightarrow> int \<Rightarrow> 'a list" where
  "py_from xs i = drop (py_bound xs i) xs"

definition py_upto :: "'a list \<Rightarrow> int \<Rightarrow> 'a list" where
  "py_upto xs i = take (py_bound xs i) xs"

lemma py_from_nonneg [simp]: "0 \<le> i \<Longrightarrow> py_from xs i = drop (nat i) xs"
  by (simp add: py_from_def py_bound_def)

lemma py_upto_nonneg [simp]: "0 \<le> i \<Longrightarrow> py_upto xs i = take (nat i) xs"
  by (simp add: py_upto_def py_bound_def)

lemma py_upto_from [simp]: "py_upto xs i @ py_from xs i = xs"
  by (simp add: py_upto_def py_from_def)

lemma py_nth_nonneg: "0 \<le> i \<Longrightarrow> i < int (length xs) \<Longrightarrow> py_nth xs i = Inr (xs ! nat i)"
  by (simp add: py_nth_def Let_def)

section \<open>Dictionaries that the code iterates over\<close>

text \<open>A \<^verbatim>\<open>dict\<close> whose order or size the code reads is an association list with distinct keys,
  in insertion order: \<open>AList.update\<close> overwrites in place and appends a new key at the end, as a
  Python dict does. A dict that is only looked up is a map.\<close>

definition dict_wf :: "('k \<times> 'v) list \<Rightarrow> bool" where
  "dict_wf d \<longleftrightarrow> distinct (map fst d)"

lemma dict_wf_Nil [simp]: "dict_wf []"
  by (simp add: dict_wf_def)

lemma dict_wf_update [simp]: "dict_wf d \<Longrightarrow> dict_wf (AList.update k v d)"
  by (simp add: dict_wf_def AList.distinct_update)

lemma dict_wf_delete [simp]: "dict_wf d \<Longrightarrow> dict_wf (AList.delete k d)"
  by (simp add: dict_wf_def AList.distinct_delete)

lemma in_set_delete [simp]: "x \<in> set (AList.delete k d) \<longleftrightarrow> x \<in> set d \<and> fst x \<noteq> k"
  by (auto simp: AList.delete_eq)

lemma delete_absent: "map_of d k = None \<Longrightarrow> AList.delete k d = d"
  by (force simp: AList.delete_eq map_of_eq_None_iff filter_id_conv)

lemma map_of_delete: "map_of (AList.delete k xs) = (map_of xs)(k := None)"
  by (rule delete_conv')

lemma dict_wf_map_of: "dict_wf d \<Longrightarrow> map_of d k = Some v \<longleftrightarrow> (k, v) \<in> set d"
  by (simp add: dict_wf_def)

text \<open>A \<^verbatim>\<open>dict[K, None]\<close> used as an ordered set is the list of its keys.\<close>

definition set_add :: "'k \<Rightarrow> 'k list \<Rightarrow> 'k list" where
  "set_add k ks = (if k \<in> set ks then ks else ks @ [k])"

lemma set_set_add [simp]: "set (set_add k ks) = insert k (set ks)"
  by (auto simp: set_add_def)

lemma distinct_set_add [simp]: "distinct (set_add k ks) = distinct ks"
  by (auto simp: set_add_def)

end
