(* ===== verification/Event_Queue.thy ===== *)
theory Event_Queue
  imports GH_Prelude "HOL-Library.Product_Lexorder"
begin

text \<open>
  The event queue of \<^verbatim>\<open>groundhog/sim/event.py\<close>. \<^verbatim>\<open>heapq\<close> is the standard library's priority queue;
  it is modelled by what it promises, a list kept in order of \<open>(tick, seq)\<close> whose head is what
  \<^verbatim>\<open>heappop\<close> removes. Cancellation is lazy, as in the code: a cancelled event stays in the heap and is
  skipped on the way out. \<open>live\<close> is the abstract queue, the events that will still fire, in firing
  order, and every operation is shown to act on it as a priority queue should.
\<close>

section \<open>Definitions\<close>

record ('a, 'd) event =
  ev_tick :: Tick
  ev_seq :: int
  ev_kind :: string
  ev_action :: 'a
  ev_actor :: "NodeId option"
  ev_detail :: "'d jrecord"

definition event_describe :: "('a, 'd) event \<Rightarrow> 'd jrecord" where
  "event_describe e =
     [(''tick'', JInt (ev_tick e)), (''seq'', JInt (ev_seq e)), (''kind'', JStr (ev_kind e))]
     @ (case ev_actor e of None \<Rightarrow> [] | Some n \<Rightarrow> [(''actor'', JInt n)])
     @ (if ev_detail e = [] then [] else [(''detail'', JObj (ev_detail e))])"

type_synonym ('a, 'd) heap = "(Tick \<times> int \<times> ('a, 'd) event) list"

record ('a, 'd) event_queue =
  heap :: "('a, 'd) heap"
  next_seq :: int
  pending :: "(int \<times> ('a, 'd) event) list"

definition empty_queue :: "('a, 'd) event_queue" where
  "empty_queue = \<lparr>heap = [], next_seq = 0, pending = []\<rparr>"

definition heap_key :: "Tick \<times> int \<times> ('a, 'd) event \<Rightarrow> Tick \<times> int" where
  "heap_key x = (fst x, fst (snd x))"

definition heappush :: "Tick \<times> int \<times> ('a, 'd) event \<Rightarrow> ('a, 'd) heap \<Rightarrow> ('a, 'd) heap" where
  "heappush x h = insort_key heap_key x h"

definition queue_len :: "('a, 'd) event_queue \<Rightarrow> nat" where
  "queue_len q = length (pending q)"

definition schedule ::
  "Tick \<Rightarrow> string \<Rightarrow> 'a \<Rightarrow> NodeId option \<Rightarrow> 'd jrecord \<Rightarrow> (('a, 'd) event, ('a, 'd) event_queue) py" where
  "schedule tick kind action actor detail q =
     (if tick < 0 then Raised ValueError q
      else let e = \<lparr>ev_tick = tick, ev_seq = next_seq q, ev_kind = kind, ev_action = action,
                    ev_actor = actor, ev_detail = detail\<rparr>
        in Done e \<lparr>heap = heappush (ev_tick e, ev_seq e, e) (heap q),
                   next_seq = next_seq q + 1,
                   pending = AList.update (ev_seq e) e (pending q)\<rparr>)"

definition cancel :: "('a, 'd) event \<Rightarrow> (bool, ('a, 'd) event_queue) py" where
  "cancel e q = Done (map_of (pending q) (ev_seq e) \<noteq> None)
     (q\<lparr>pending := AList.delete (ev_seq e) (pending q)\<rparr>)"

fun pop_loop ::
  "('a, 'd) heap \<Rightarrow> (int \<times> ('a, 'd) event) list \<Rightarrow>
     ('a, 'd) event option \<times> ('a, 'd) heap \<times> (int \<times> ('a, 'd) event) list" where
  "pop_loop [] p = (None, [], p)"
| "pop_loop ((_, sq, e) # h) p =
     (if map_of p sq \<noteq> None then (Some e, h, AList.delete sq p)
      else pop_loop h (AList.delete sq p))"

definition pop :: "(('a, 'd) event option, ('a, 'd) event_queue) py" where
  "pop q = (case pop_loop (heap q) (pending q) of
     (e, h, p) \<Rightarrow> Done e (q\<lparr>heap := h, pending := p\<rparr>))"

definition drop_cancelled_head :: "('a, 'd) event_queue \<Rightarrow> ('a, 'd) event_queue" where
  "drop_cancelled_head q =
     q\<lparr>heap := dropWhile (\<lambda>x. map_of (pending q) (fst (snd x)) = None) (heap q)\<rparr>"

definition peek_tick :: "(Tick option, ('a, 'd) event_queue) py" where
  "peek_tick q =
     (let q = drop_cancelled_head q
      in Done (case heap q of [] \<Rightarrow> None | x # _ \<Rightarrow> Some (fst x)) q)"

definition pending_events :: "('a, 'd) event_queue \<Rightarrow> ('a, 'd) event list" where
  "pending_events q = sort_key (\<lambda>e. (ev_tick e, ev_seq e)) (map snd (pending q))"

section \<open>Invariant and abstraction\<close>

definition queue_wf :: "('a, 'd) event_queue \<Rightarrow> bool" where
  "queue_wf q \<longleftrightarrow>
     sorted (map heap_key (heap q)) \<and> distinct (map (\<lambda>x. fst (snd x)) (heap q))
     \<and> (\<forall>(t, sq, e) \<in> set (heap q). ev_tick e = t \<and> ev_seq e = sq \<and> 0 \<le> t \<and> sq < next_seq q)
     \<and> dict_wf (pending q)
     \<and> (\<forall>(sq, e) \<in> set (pending q). (ev_tick e, sq, e) \<in> set (heap q))"

definition is_live :: "('a, 'd) event_queue \<Rightarrow> Tick \<times> int \<times> ('a, 'd) event \<Rightarrow> bool" where
  "is_live q x \<longleftrightarrow> map_of (pending q) (fst (snd x)) \<noteq> None"

definition live :: "('a, 'd) event_queue \<Rightarrow> ('a, 'd) event list" where
  "live q = map (\<lambda>x. snd (snd x)) (filter (is_live q) (heap q))"

abbreviation ev_key :: "('a, 'd) event \<Rightarrow> Tick \<times> int" where
  "ev_key e \<equiv> (ev_tick e, ev_seq e)"

lemma queue_wf_empty [simp]: "queue_wf empty_queue"
  by (simp add: queue_wf_def empty_queue_def)

lemma live_empty [simp]: "live empty_queue = []"
  by (simp add: live_def empty_queue_def)

lemma queue_wfD:
  assumes "queue_wf q"
  shows "sorted (map heap_key (heap q))" "distinct (map (\<lambda>x. fst (snd x)) (heap q))"
    "(t, sq, e) \<in> set (heap q) \<Longrightarrow> ev_tick e = t \<and> ev_seq e = sq \<and> 0 \<le> t \<and> sq < next_seq q"
    "dict_wf (pending q)"
    "map_of (pending q) sq = Some e \<Longrightarrow> (ev_tick e, sq, e) \<in> set (heap q)"
  using assms unfolding queue_wf_def by (auto dest: map_of_SomeD)

lemma set_live_iff:
  assumes "queue_wf q"
  shows "e \<in> set (live q) \<longleftrightarrow> map_of (pending q) (ev_seq e) = Some e"
proof
  assume "e \<in> set (live q)"
  then obtain t sq where h: "(t, sq, e) \<in> set (heap q)" and l: "map_of (pending q) sq \<noteq> None"
    by (auto simp: live_def is_live_def)
  from l obtain e' where e': "map_of (pending q) sq = Some e'" by blast
  from queue_wfD(5) [OF assms e'] have h': "(ev_tick e', sq, e') \<in> set (heap q)" .
  from queue_wfD(2) [OF assms] have "inj_on (\<lambda>x. fst (snd x)) (set (heap q))"
    by (simp add: distinct_map)
  from inj_onD [OF this _ h h'] have "e' = e" by simp
  with e' queue_wfD(3) [OF assms h] show "map_of (pending q) (ev_seq e) = Some e" by simp
next
  assume "map_of (pending q) (ev_seq e) = Some e"
  then show "e \<in> set (live q)"
    using queue_wfD(5) [OF assms] by (force simp: live_def is_live_def)
qed

lemma live_keys:
  assumes "queue_wf q"
  shows "map ev_key (live q) = map heap_key (filter (is_live q) (heap q))"
  using queue_wfD(3) [OF assms] by (auto simp: live_def heap_key_def)

lemma sorted_filter_map: "sorted (map f xs) \<Longrightarrow> sorted (map f (filter P xs))"
  by (induction xs) auto

lemma sorted_live: "queue_wf q \<Longrightarrow> sorted (map ev_key (live q))"
  by (simp only: live_keys sorted_filter_map queue_wfD(1))

lemma distinct_live: "queue_wf q \<Longrightarrow> distinct (map ev_seq (live q))"
proof -
  assume wf: "queue_wf q"
  have "map ev_seq (live q) = map (\<lambda>x. fst (snd x)) (filter (is_live q) (heap q))"
    using queue_wfD(3) [OF wf] by (auto simp: live_def)
  then show ?thesis using queue_wfD(2) [OF wf] by (simp add: distinct_map_filter)
qed

section \<open>Every operation acts on the live events as a priority queue\<close>

lemma map_insort_key:
  assumes "\<forall>y \<in> set (x # h). f (g y) = k y"
  shows "map g (insort_key k x h) = insort_key f (g x) (map g h)"
  using assms by (induction h) auto

lemma distinct_mapI: "distinct (map f xs) \<Longrightarrow> distinct xs"
  by (simp add: distinct_map)

lemma filter_cong_set: "(\<And>x. x \<in> set xs \<Longrightarrow> P x = Q x) \<Longrightarrow> filter P xs = filter Q xs"
  by (rule filter_cong) auto

lemma schedule_Done:
  assumes wf: "queue_wf q" and run: "schedule t k a n d q = Done e q'"
  shows "queue_wf q'" and "live q' = insort_key ev_key e (live q)"
    and "ev_tick e = t" "ev_seq e = next_seq q" "ev_kind e = k" "ev_action e = a" "ev_actor e = n"
    and "next_seq q' = next_seq q + 1" and "0 \<le> t"
proof -
  let ?x = "(t, next_seq q, e)"
  from run have t: "0 \<le> t" and e: "e = \<lparr>ev_tick = t, ev_seq = next_seq q, ev_kind = k, ev_action = a,
      ev_actor = n, ev_detail = d\<rparr>"
    and q': "q' = \<lparr>heap = insort_key heap_key ?x (heap q), next_seq = next_seq q + 1,
      pending = AList.update (next_seq q) e (pending q)\<rparr>"
    by (auto simp: schedule_def Let_def heappush_def split: if_splits)
  show "ev_tick e = t" "ev_seq e = next_seq q" "ev_kind e = k" "ev_action e = a" "ev_actor e = n"
    "next_seq q' = next_seq q + 1" "0 \<le> t"
    using e q' t by simp_all
  note D = queue_wfD [OF wf]
  have fresh: "x \<in> set (heap q) \<Longrightarrow> fst (snd x) < next_seq q" for x
    using D(3) by (cases x) auto
  have pend: "map_of (pending q') = (map_of (pending q))(next_seq q \<mapsto> e)"
    by (simp add: q' update_conv')
  show "queue_wf q'"
    unfolding queue_wf_def
  proof (intro conjI)
    show "sorted (map heap_key (heap q'))"
      using D(1) by (simp add: q' sorted_insort_key)
    show "distinct (map (\<lambda>x. fst (snd x)) (heap q'))"
      using D(2) fresh by (force simp: q' distinct_map distinct_insort set_insort_key inj_on_def)
    show "\<forall>(t, sq, e) \<in> set (heap q'). ev_tick e = t \<and> ev_seq e = sq \<and> 0 \<le> t \<and> sq < next_seq q'"
      using D(3) t by (fastforce simp: q' e set_insort_key)
    show "dict_wf (pending q')" using D(4) by (simp add: q')
    then show "\<forall>(sq, e) \<in> set (pending q'). (ev_tick e, sq, e) \<in> set (heap q')"
      using D(5) pend by (fastforce simp: dict_wf_def q' e set_insort_key map_of_eq_Some_iff [symmetric]
          simp del: map_of_eq_Some_iff split: if_splits)
  qed
  have same: "is_live q' x = is_live q x" if "x \<in> set (heap q)" for x
    using fresh [OF that] by (simp add: is_live_def pend)
  have new: "is_live q' ?x" by (simp add: is_live_def pend)
  have "filter (is_live q') (heap q') = insort_key heap_key ?x (filter (is_live q) (heap q))"
    using filter_insort [OF D(1), of "is_live q'" ?x] new filter_cong_set [of "heap q", OF same]
    by (simp add: q')
  moreover have "\<forall>y \<in> set (?x # filter (is_live q) (heap q)). ev_key (snd (snd y)) = heap_key y"
    using D(3) by (auto simp: heap_key_def e)
  ultimately show "live q' = insort_key ev_key e (live q)"
    by (simp add: live_def map_insort_key)
qed

lemma schedule_Raised: "schedule t k a n d q = Raised x q' \<Longrightarrow> t < 0 \<and> x = ValueError \<and> q' = q"
  by (auto simp: schedule_def Let_def split: if_splits)

lemma cancel_Done:
  assumes wf: "queue_wf q" and run: "cancel e q = Done b q'"
  shows "queue_wf q'" and "live q' = filter (\<lambda>x. ev_seq x \<noteq> ev_seq e) (live q)"
    and "b \<longleftrightarrow> ev_seq e \<in> ev_seq ` set (live q)" and "next_seq q' = next_seq q"
proof -
  have q': "q' = q\<lparr>pending := AList.delete (ev_seq e) (pending q)\<rparr>" and
    b: "b \<longleftrightarrow> map_of (pending q) (ev_seq e) \<noteq> None"
    using run by (auto simp: cancel_def)
  note D = queue_wfD [OF wf]
  show "next_seq q' = next_seq q" by (simp add: q')
  show "queue_wf q'"
    using wf unfolding queue_wf_def q' by auto
  have "is_live q' x = (is_live q x \<and> ev_seq (snd (snd x)) \<noteq> ev_seq e)" if "x \<in> set (heap q)" for x
    using D(3) [of "fst x" "fst (snd x)" "snd (snd x)"] that by (auto simp: is_live_def q' map_of_delete)
  then have "filter (is_live q') (heap q)
      = filter (\<lambda>x. ev_seq (snd (snd x)) \<noteq> ev_seq e) (filter (is_live q) (heap q))"
    by (auto intro: filter_cong_set)
  then show "live q' = filter (\<lambda>x. ev_seq x \<noteq> ev_seq e) (live q)"
    by (simp add: live_def q' filter_map comp_def)
  show "b \<longleftrightarrow> ev_seq e \<in> ev_seq ` set (live q)"
  proof
    assume b
    then obtain e' where e': "map_of (pending q) (ev_seq e) = Some e'" using b by blast
    then have "ev_seq e' = ev_seq e" using D(3) D(5) by blast
    with e' have "e' \<in> set (live q)" by (simp add: set_live_iff [OF wf])
    with \<open>ev_seq e' = ev_seq e\<close> show "ev_seq e \<in> ev_seq ` set (live q)" by (metis imageI)
  next
    assume "ev_seq e \<in> ev_seq ` set (live q)"
    then show b using b by (auto simp: set_live_iff [OF wf])
  qed
qed

lemma pop_loop_eq:
  "pop_loop h p = (case dropWhile (\<lambda>x. map_of p (fst (snd x)) = None) h of
      [] \<Rightarrow> (None, [], p)
    | x # h' \<Rightarrow> (Some (snd (snd x)), h', AList.delete (fst (snd x)) p))"
proof (induction h p rule: pop_loop.induct)
  case (1 p)
  then show ?case by simp
next
  case (2 t sq e h p)
  then show ?case by (auto simp: delete_absent cong: list.case_cong)
qed

lemma filter_dropWhile_not: "filter P (dropWhile (\<lambda>x. \<not> P x) xs) = filter P xs"
  by (induction xs) auto

lemma drop_cancelled_head_wf:
  assumes "queue_wf q"
  shows "queue_wf (drop_cancelled_head q)" and "live (drop_cancelled_head q) = live q"
    and "heap (drop_cancelled_head q) = [] \<or> is_live q (hd (heap (drop_cancelled_head q)))"
    and "next_seq (drop_cancelled_head q) = next_seq q"
proof -
  note D = queue_wfD [OF assms]
  let ?P = "\<lambda>x. \<not> is_live q x"
  obtain front rest where d: "drop_cancelled_head q = q\<lparr>heap := rest\<rparr>"
    and suffix: "heap q = front @ rest" and front: "\<And>x. x \<in> set front \<Longrightarrow> \<not> is_live q x"
    and hd: "rest = [] \<or> is_live q (hd rest)"
  proof
    show "drop_cancelled_head q = q\<lparr>heap := dropWhile ?P (heap q)\<rparr>"
      by (simp add: drop_cancelled_head_def is_live_def)
    show "heap q = takeWhile ?P (heap q) @ dropWhile ?P (heap q)" by simp
    show "\<not> is_live q x" if "x \<in> set (takeWhile ?P (heap q))" for x
      using that by (rule set_takeWhileD [THEN conjunct2])
    show "dropWhile ?P (heap q) = [] \<or> is_live q (hd (dropWhile ?P (heap q)))"
      using hd_dropWhile [of ?P "heap q"] by blast
  qed
  have keep: "x \<in> set rest" if "x \<in> set (heap q)" "is_live q x" for x
    using that suffix front [of x] by auto
  have live_same: "is_live (q\<lparr>heap := rest\<rparr>) = is_live q" by (simp add: is_live_def fun_eq_iff)
  show "queue_wf (drop_cancelled_head q)"
    unfolding queue_wf_def d
  proof (simp, intro conjI)
    show "sorted (map heap_key rest)" using D(1) by (simp add: suffix sorted_append)
    show "distinct (map (\<lambda>x. fst (snd x)) rest)" using D(2) by (simp add: suffix)
    show "\<forall>(t, sq, e) \<in> set rest. ev_tick e = t \<and> ev_seq e = sq \<and> 0 \<le> t \<and> sq < next_seq q"
      using D(3) suffix by auto
    show wf: "dict_wf (pending q)" by (rule D(4))
    show "\<forall>(sq, e) \<in> set (pending q). (ev_tick e, sq, e) \<in> set rest"
    proof clarify
      fix sq e
      assume "(sq, e) \<in> set (pending q)"
      then have "map_of (pending q) sq = Some e" by (simp add: dict_wf_map_of [OF wf])
      with D(5) [OF this] show "(ev_tick e, sq, e) \<in> set rest"
        by (auto intro!: keep simp: is_live_def)
    qed
  qed
  have "filter (is_live q) front = []" using front by (auto simp: filter_empty_conv)
  then show "live (drop_cancelled_head q) = live q"
    by (simp add: live_def d live_same suffix)
  show "heap (drop_cancelled_head q) = [] \<or> is_live q (hd (heap (drop_cancelled_head q)))"
    using hd by (simp add: d)
  show "next_seq (drop_cancelled_head q) = next_seq q" by (simp add: d)
qed

lemma is_live_drop [simp]: "is_live (drop_cancelled_head q) = is_live q"
  by (simp add: is_live_def drop_cancelled_head_def fun_eq_iff)

lemma live_Cons_head:
  assumes "queue_wf q" and "heap q = (t, sq, e) # h" and "is_live q (t, sq, e)"
  shows "live q = e # map (\<lambda>x. snd (snd x)) (filter (is_live q) h)" and "ev_tick e = t" "ev_seq e = sq"
  using assms queue_wfD(3) [OF assms(1), of t sq e] by (simp_all add: live_def)

lemma peek_tick_Done:
  assumes wf: "queue_wf q" and run: "peek_tick q = Done r q'"
  shows "queue_wf q'" and "live q' = live q" and "next_seq q' = next_seq q"
    and "r = (case live q of [] \<Rightarrow> None | e # _ \<Rightarrow> Some (ev_tick e))"
proof -
  have q': "q' = drop_cancelled_head q" and r: "r = (case heap q' of [] \<Rightarrow> None | x # _ \<Rightarrow> Some (fst x))"
    using run by (auto simp: peek_tick_def Let_def)
  note W = drop_cancelled_head_wf [OF wf, folded q']
  show "queue_wf q'" "live q' = live q" "next_seq q' = next_seq q" by (rule W)+
  show "r = (case live q of [] \<Rightarrow> None | e # _ \<Rightarrow> Some (ev_tick e))"
  proof (cases "heap q'")
    case Nil
    then show ?thesis using W(2) r by (simp add: live_def)
  next
    case (Cons x h)
    obtain t sq e where x: "x = (t, sq, e)" by (cases x)
    have "is_live q' x" using W(3) Cons by (simp add: q')
    with live_Cons_head [OF W(1), of t sq e h] Cons x W(2) r show ?thesis by simp
  qed
qed

lemma pop_Done:
  assumes wf: "queue_wf q" and run: "pop q = Done r q'"
  shows "queue_wf q'" and "next_seq q' = next_seq q"
    and "case r of None \<Rightarrow> live q = [] \<and> live q' = [] | Some e \<Rightarrow> live q = e # live q'"
proof -
  let ?q = "drop_cancelled_head q"
  note W = drop_cancelled_head_wf [OF wf]
  have pend: "pending ?q = pending q" by (simp add: drop_cancelled_head_def)
  have step: "pop q = (case heap ?q of [] \<Rightarrow> Done None (?q\<lparr>heap := []\<rparr>)
      | x # h \<Rightarrow> Done (Some (snd (snd x))) (?q\<lparr>heap := h, pending := AList.delete (fst (snd x)) (pending q)\<rparr>))"
    by (simp add: pop_def pop_loop_eq drop_cancelled_head_def split: list.split del: dropWhile_eq_Nil_conv)
  have "queue_wf q' \<and> next_seq q' = next_seq q
    \<and> (case r of None \<Rightarrow> live q = [] \<and> live q' = [] | Some e \<Rightarrow> live q = e # live q')"
  proof (cases "heap ?q")
    case Nil
    then have "r = None" "q' = ?q" using step run by auto
    moreover from Nil have "live ?q = []" by (simp add: live_def)
    ultimately show ?thesis using W by simp
  next
    case (Cons x h)
    obtain t sq e where x: "x = (t, sq, e)" by (cases x)
    with step run Cons have r: "r = Some e"
      and q': "q' = ?q\<lparr>heap := h, pending := AList.delete sq (pending q)\<rparr>" by auto
    have lv: "is_live ?q (t, sq, e)" using W(3) Cons x by simp
    note H = live_Cons_head [OF W(1) Cons [unfolded x] lv]
    note D = queue_wfD [OF W(1), unfolded Cons x pend]
    have other: "fst (snd y) \<noteq> sq" if "y \<in> set h" for y
      using D(2) that by force
    have wf': "queue_wf q'"
      unfolding queue_wf_def q'
    proof (simp, intro conjI)
      show "sorted (map heap_key h)" using D(1) by simp
      show "distinct (map (\<lambda>x. fst (snd x)) h)" using D(2) by simp
      show "\<forall>(t, sq, e) \<in> set h. ev_tick e = t \<and> ev_seq e = sq \<and> 0 \<le> t \<and> sq < next_seq ?q"
      proof clarify
        fix t' s e'
        assume "(t', s, e') \<in> set h"
        then show "ev_tick e' = t' \<and> ev_seq e' = s \<and> 0 \<le> t' \<and> s < next_seq ?q"
          by (intro D(3)) simp
      qed
      show "dict_wf (AList.delete sq (pending q))" using D(4) by simp
      show "\<forall>(s, e) \<in> set (AList.delete sq (pending q)). (ev_tick e, s, e) \<in> set h"
      proof clarsimp
        fix s e
        assume "(s, e) \<in> set (pending q)" and "s \<noteq> sq"
        then show "(ev_tick e, s, e) \<in> set h"
          using D(5) [of s e] by (simp add: dict_wf_map_of [OF D(4)])
      qed
    qed
    have "is_live q' y = is_live ?q y" if "y \<in> set h" for y
      using other [OF that] by (simp add: is_live_def q' map_of_delete pend)
    then have "filter (is_live q') h = filter (is_live ?q) h" by (rule filter_cong_set)
    with H(1) W(2) have "live q = e # live q'" by (simp add: live_def q')
    with wf' W(4) show ?thesis by (simp add: r q')
  qed
  then show "queue_wf q'" "next_seq q' = next_seq q"
    "case r of None \<Rightarrow> live q = [] \<and> live q' = [] | Some e \<Rightarrow> live q = e # live q'" by blast+
qed

text \<open>The debugging view \<^verbatim>\<open>pending()\<close> is the live events in firing order.\<close>

lemma pending_events_live:
  assumes "queue_wf q"
  shows "pending_events q = live q"
proof -
  note D = queue_wfD [OF assms]
  have sq: "ev_seq e = s" if "(s, e) \<in> set (pending q)" for s e
    using that D(4) by (intro D(3) [THEN conjunct2, THEN conjunct1, of "ev_tick e"] D(5))
      (simp add: dict_wf_map_of)
  have fst_snd: "map fst (pending q) = map (\<lambda>x. ev_seq (snd x)) (pending q)"
    using sq by auto
  have dm: "distinct (map ev_seq (map snd (pending q)))"
    using D(4) fst_snd by (simp add: dict_wf_def comp_def)
  have "e \<in> set (map snd (pending q)) \<longleftrightarrow> e \<in> set (live q)" for e
    using sq by (force simp: set_live_iff [OF assms] dict_wf_map_of [OF D(4)] image_iff)
  then have "set (map snd (pending q)) = set (live q)" by blast
  moreover have "inj_on ev_key (set (live q))"
    using distinct_live [OF assms] by (auto simp: distinct_map inj_on_def)
  ultimately show ?thesis
    using sorted_live [OF assms] distinct_live [OF assms] distinct_mapI [OF dm]
    by (intro map_sorted_distinct_set_unique [where f = ev_key])
      (simp_all add: pending_events_def distinct_map distinct_mapI)
qed

section \<open>Properties\<close>

text \<open>
  C29. The event queue with its lazy cancellation refines a list sorted by \<open>(tick, seq)\<close>: scheduling
  inserts a fresh event behind every event of its tick, cancelling removes the event (and reports
  whether it was still pending), \<^verbatim>\<open>peek_tick\<close> reads and \<^verbatim>\<open>pop\<close> removes the head, and \<^verbatim>\<open>pending()\<close> lists
  it; every operation keeps the queue well formed.
\<close>

theorem event_queue_refines:
  assumes "queue_wf q"
  shows "(0 \<le> t \<longrightarrow> (\<exists>e q'. schedule t k a n d q = Done e q' \<and> queue_wf q'
        \<and> e = \<lparr>ev_tick = t, ev_seq = next_seq q, ev_kind = k, ev_action = a, ev_actor = n, ev_detail = d\<rparr>
        \<and> live q' = insort_key ev_key e (live q) \<and> (\<forall>x \<in> set (live q). ev_seq x < ev_seq e)))
    \<and> (\<exists>b q'. cancel x q = Done b q' \<and> queue_wf q' \<and> (b \<longleftrightarrow> ev_seq x \<in> ev_seq ` set (live q))
        \<and> live q' = filter (\<lambda>y. ev_seq y \<noteq> ev_seq x) (live q))
    \<and> (\<exists>q'. peek_tick q = Done (case live q of [] \<Rightarrow> None | e # _ \<Rightarrow> Some (ev_tick e)) q'
        \<and> queue_wf q' \<and> live q' = live q)
    \<and> (\<exists>q'. pop q = Done (case live q of [] \<Rightarrow> None | e # _ \<Rightarrow> Some e) q'
        \<and> queue_wf q' \<and> live q' = tl (live q))
    \<and> pending_events q = live q \<and> sorted (map ev_key (live q)) \<and> distinct (map ev_seq (live q))"
proof (intro conjI impI)
  assume "0 \<le> t"
  then obtain e q' where s: "schedule t k a n d q = Done e q'"
    and e: "e = \<lparr>ev_tick = t, ev_seq = next_seq q, ev_kind = k, ev_action = a, ev_actor = n, ev_detail = d\<rparr>"
    by (simp add: schedule_def Let_def)
  moreover have "ev_seq x < next_seq q" if "x \<in> set (live q)" for x
    using that queue_wfD(3) [OF assms] unfolding live_def by fastforce
  ultimately show "\<exists>e q'. schedule t k a n d q = Done e q' \<and> queue_wf q'
        \<and> e = \<lparr>ev_tick = t, ev_seq = next_seq q, ev_kind = k, ev_action = a, ev_actor = n, ev_detail = d\<rparr>
        \<and> live q' = insort_key ev_key e (live q) \<and> (\<forall>x \<in> set (live q). ev_seq x < ev_seq e)"
    using schedule_Done(1,2) [OF assms s] by simp
next
  obtain b q' where c: "cancel x q = Done b q'" by (simp add: cancel_def)
  show "\<exists>b q'. cancel x q = Done b q' \<and> queue_wf q' \<and> (b \<longleftrightarrow> ev_seq x \<in> ev_seq ` set (live q))
        \<and> live q' = filter (\<lambda>y. ev_seq y \<noteq> ev_seq x) (live q)"
    using c cancel_Done(1-3) [OF assms c] by blast
next
  obtain r q' where p: "peek_tick q = Done r q'" by (simp add: peek_tick_def Let_def)
  then show "\<exists>q'. peek_tick q = Done (case live q of [] \<Rightarrow> None | e # _ \<Rightarrow> Some (ev_tick e)) q'
        \<and> queue_wf q' \<and> live q' = live q"
    using peek_tick_Done [OF assms p] by auto
next
  obtain r q' where p: "pop q = Done r q'"
    by (cases "pop_loop (heap q) (pending q)") (auto simp: pop_def)
  from pop_Done(3) [OF assms p] have "r = (case live q of [] \<Rightarrow> None | e # _ \<Rightarrow> Some e) \<and> live q' = tl (live q)"
    by (auto split: option.splits)
  then show "\<exists>q'. pop q = Done (case live q of [] \<Rightarrow> None | e # _ \<Rightarrow> Some e) q'
        \<and> queue_wf q' \<and> live q' = tl (live q)"
    using p pop_Done(1) [OF assms p] by blast
qed (simp_all add: assms pending_events_live sorted_live distinct_live)

theorem event_queue_refines_witness:
  "\<exists>e q'. schedule 5 ''a'' () None [] (empty_queue :: (unit, unit) event_queue) = Done e q'
     \<and> map ev_tick (live q') = [5] \<and> pending_events q' = live q'"
proof -
  let ?e = "\<lparr>ev_tick = 5, ev_seq = next_seq (empty_queue :: (unit, unit) event_queue), ev_kind = ''a'',
    ev_action = (), ev_actor = None, ev_detail = []\<rparr> :: (unit, unit) event"
  obtain q' where s: "schedule 5 ''a'' () None [] (empty_queue :: (unit, unit) event_queue) = Done ?e q'"
    and q': "queue_wf q'" "live q' = [?e]"
    using event_queue_refines [OF queue_wf_empty, of 5 "''a''" "()" None "[]", THEN conjunct1] by auto
  then show ?thesis using event_queue_refines [OF q'(1)] by auto
qed

end
