(* ===== verification/Rng.thy ===== *)
theory Rng
  imports GH_Prelude "HOL-Library.Word"
begin

text \<open>
  The generator of \<^verbatim>\<open>groundhog/sim/rng.py\<close>. \<^verbatim>\<open>random.Random(seed)\<close> is the sequence \<open>src\<close> of its 32-bit
  Mersenne Twister outputs and a position in it: every statement holds for every sequence, hence for
  the one that belongs to the seed. \<open>getrandbits\<close> is CPython's: the top bits of one output for up to
  32 bits, little-endian words above. The rejection loop of \<^verbatim>\<open>below\<close> is a \<open>partial_function\<close>: it
  returns the first candidate below the bound, and diverges when there is none.
\<close>

section \<open>Definitions\<close>

record rng =
  seed :: int
  calls :: int
  src :: "nat \<Rightarrow> 32 word"
  pos :: nat

function draw_bits :: "(nat \<Rightarrow> 32 word) \<Rightarrow> nat \<Rightarrow> nat \<Rightarrow> nat \<times> nat" where
  "draw_bits w p k =
     (if k = 0 then (0, p)
      else if k \<le> 32 then (unat (w p) div 2 ^ (32 - k), p + 1)
      else case draw_bits w (p + 1) (k - 32) of (hi, q) \<Rightarrow> (unat (w p) + 2 ^ 32 * hi, q))"
  by pat_completeness auto
termination
  by (relation "measure (\<lambda>(w, p, k). k)") auto

declare draw_bits.simps [simp del]

fun bit_length :: "nat \<Rightarrow> nat" where
  "bit_length n = (if n = 0 then 0 else Suc (bit_length (n div 2)))"

declare bit_length.simps [simp del]

partial_function (option) below_loop ::
  "(nat \<Rightarrow> 32 word) \<Rightarrow> nat \<Rightarrow> int \<Rightarrow> nat \<Rightarrow> (int \<times> nat) option" where
  "below_loop w bits n p =
     (case draw_bits w p bits of (candidate, q) \<Rightarrow>
        if int candidate < n then Some (int candidate, q) else below_loop w bits n q)"

definition below :: "int \<Rightarrow> (int, rng) py" where
  "below n r =
     (if n \<le> 0 then Raised ValueError r
      else let r = r\<lparr>calls := calls r + 1\<rparr> in
        if n = 1 then Done 0 r
        else let bits = bit_length (nat (n - 1)) in
          (case below_loop (src r) bits n (pos r) of
             None \<Rightarrow> Diverges
           | Some (candidate, q) \<Rightarrow> Done candidate (r\<lparr>pos := q\<rparr>)))"

definition between :: "int \<Rightarrow> int \<Rightarrow> (int, rng) py" where
  "between low high =
     (if high < low then raise ValueError
      else bind (below (high - low + 1)) (\<lambda>x. ret (low + x)))"

definition chance :: "int \<Rightarrow> (bool, rng) py" where
  "chance percent =
     (if \<not> (0 \<le> percent \<and> percent \<le> 100) then raise ValueError
      else bind (below 100) (\<lambda>x. ret (x < percent)))"

definition pick :: "'x list \<Rightarrow> ('x, rng) py" where
  "pick items =
     (if items = [] then raise ValueError
      else bind (below (int (length items))) (\<lambda>i. of_sum (py_nth items i)))"

section \<open>Bits\<close>

lemma draw_bits_pos: "snd (draw_bits w p k) = p + (k + 31) div 32"
proof (induction w p k rule: draw_bits.induct)
  case (1 w p k)
  show ?case
  proof (cases "k \<le> 32")
    case True
    then show ?thesis by (subst draw_bits.simps) (auto simp: div_if)
  next
    case False
    then have "(k + 31) div 32 = Suc ((k - 32 + 31) div 32)" by (simp add: div_if)
    with 1 False show ?thesis by (subst draw_bits.simps) (auto split: prod.splits)
  qed
qed

lemma bit_length_bound: "n < 2 ^ bit_length n"
proof (induction n rule: bit_length.induct)
  case (1 n)
  then show ?case by (subst bit_length.simps) auto
qed

lemma bit_length_least: "0 < n \<Longrightarrow> 2 ^ (bit_length n - 1) \<le> n"
proof (induction n rule: bit_length.induct)
  case (1 n)
  show ?case
  proof (cases "n div 2 = 0")
    case True
    with "1.prems" have "n = 1" by presburger
    then show ?thesis by (simp add: bit_length.simps)
  next
    case False
    with "1.IH" "1.prems" have "2 ^ (bit_length (n div 2) - 1) \<le> n div 2" by simp
    moreover have "0 < bit_length (n div 2)" using False by (subst bit_length.simps) simp
    then have "(2::nat) ^ (bit_length (n div 2)) = 2 * 2 ^ (bit_length (n div 2) - 1)"
      by (simp flip: power_Suc)
    ultimately have "(2::nat) ^ (bit_length (n div 2)) \<le> n" by presburger
    with "1.prems" show ?thesis by (subst bit_length.simps) simp
  qed
qed

section \<open>The rejection loop\<close>

text \<open>The \<open>i\<close>-th candidate of the loop, drawn \<open>i\<close> times \<open>words k\<close> outputs further on.\<close>

definition words :: "nat \<Rightarrow> nat" where
  "words k = (k + 31) div 32"

definition candidate :: "(nat \<Rightarrow> 32 word) \<Rightarrow> nat \<Rightarrow> nat \<Rightarrow> nat \<Rightarrow> int" where
  "candidate w k p i = int (fst (draw_bits w (p + i * words k) k))"

lemma below_loop_unfold:
  "below_loop w k n p =
     (if candidate w k p 0 < n then Some (candidate w k p 0, p + words k)
      else below_loop w k n (p + words k))"
  using draw_bits_pos [of w p k]
  by (subst below_loop.simps) (auto simp: candidate_def words_def split: prod.splits)

lemma candidate_shift: "candidate w k (p + words k) i = candidate w k p (Suc i)"
  by (simp add: candidate_def algebra_simps)

lemma below_loop_returns:
  assumes "candidate w k p i < n" and "\<And>j. j < i \<Longrightarrow> n \<le> candidate w k p j"
  shows "below_loop w k n p = Some (candidate w k p i, p + Suc i * words k)"
  using assms
proof (induction i arbitrary: p)
  case 0
  then show ?case by (subst below_loop_unfold) simp
next
  case (Suc i)
  have "\<not> candidate w k p 0 < n" using Suc.prems(2) [of 0] by simp
  moreover have "below_loop w k n (p + words k)
      = Some (candidate w k (p + words k) i, p + words k + Suc i * words k)"
    using Suc.prems by (intro Suc.IH) (auto simp: candidate_shift)
  ultimately show ?case
    by (subst below_loop_unfold) (simp add: candidate_shift algebra_simps)
qed

lemma below_loop_first:
  assumes "below_loop w k n p = Some (x, q)"
  shows "\<exists>i. x = candidate w k p i \<and> x < n \<and> (\<forall>j < i. n \<le> candidate w k p j) \<and> q = p + Suc i * words k"
proof -
  have "\<forall>x q. r = (x, q) \<longrightarrow> (\<exists>i. x = candidate w k p i \<and> x < n
      \<and> (\<forall>j < i. n \<le> candidate w k p j) \<and> q = p + Suc i * words k)"
    if "below_loop w k n p = Some r" for r
  proof (rule below_loop.raw_induct [where P = "\<lambda>w k n p r. \<forall>x q. r = (x, q) \<longrightarrow> (\<exists>i. x = candidate w k p i
      \<and> x < n \<and> (\<forall>j < i. n \<le> candidate w k p j) \<and> q = p + Suc i * words k)", OF _ that], intro allI impI)
    fix f w k n p r x q
    assume IH: "\<And>w k n p r. f w k n p = Some r \<Longrightarrow> \<forall>x q. r = (x, q) \<longrightarrow> (\<exists>i. x = candidate w k p i
        \<and> x < n \<and> (\<forall>j < i. n \<le> candidate w k p j) \<and> q = p + Suc i * words k)"
      and eq: "(case draw_bits w p k of (c, q) \<Rightarrow>
          if int c < n then Some (int c, q) else f w k n q) = Some r"
      and r: "r = (x, q)"
    have c0: "int (fst (draw_bits w p k)) = candidate w k p 0" and q0: "snd (draw_bits w p k) = p + words k"
      by (simp_all add: candidate_def words_def draw_bits_pos)
    show "\<exists>i. x = candidate w k p i \<and> x < n \<and> (\<forall>j < i. n \<le> candidate w k p j) \<and> q = p + Suc i * words k"
    proof (cases "candidate w k p 0 < n")
      case True
      with eq c0 q0 r show ?thesis by (intro exI [of _ 0]) (auto split: prod.splits)
    next
      case False
      with eq c0 q0 r have "f w k n (p + words k) = Some (x, q)" by (auto split: prod.splits)
      then obtain i where i: "x = candidate w k (p + words k) i" "x < n"
        "\<forall>j < i. n \<le> candidate w k (p + words k) j" "q = p + words k + Suc i * words k"
        using IH by blast
      have "\<forall>j < Suc i. n \<le> candidate w k p j"
        using False i(3) by (auto simp: candidate_shift less_Suc_eq_0_disj)
      with i show ?thesis by (intro exI [of _ "Suc i"]) (auto simp: candidate_shift)
    qed
  qed
  with assms show ?thesis by blast
qed

lemma candidate_nonneg [simp]: "0 \<le> candidate w k p i"
  by (simp add: candidate_def)

section \<open>What the draws return\<close>

text \<open>A draw changes only the call counter and the position.\<close>

definition same_stream :: "rng \<Rightarrow> rng \<Rightarrow> bool" where
  "same_stream r r' \<longleftrightarrow> seed r' = seed r \<and> src r' = src r"

lemma below_Done:
  "below n r = Done x r' \<Longrightarrow> 0 \<le> x \<and> x < n \<and> calls r' = calls r + 1 \<and> same_stream r r'"
  by (auto simp: below_def Let_def same_stream_def dest!: below_loop_first split: if_splits option.splits)

lemma below_Raised: "below n r = Raised e r' \<Longrightarrow> n \<le> 0 \<and> e = ValueError \<and> r' = r"
  by (auto simp: below_def Let_def split: if_splits option.splits)

lemma between_Done:
  "between low high r = Done x r' \<Longrightarrow> low \<le> x \<and> x \<le> high \<and> calls r' = calls r + 1 \<and> same_stream r r'"
  by (auto simp: between_def bind_def ret_def raise_def split: if_splits outcome.splits dest!: below_Done)

lemma between_Raised: "between low high r = Raised e r' \<Longrightarrow> high < low \<and> e = ValueError \<and> r' = r"
  by (auto simp: between_def bind_def ret_def raise_def split: if_splits outcome.splits dest!: below_Raised)

lemma chance_Done: "chance p r = Done b r' \<Longrightarrow> 0 \<le> p \<and> p \<le> 100 \<and> calls r' = calls r + 1 \<and> same_stream r r'"
  by (auto simp: chance_def bind_def ret_def raise_def split: if_splits outcome.splits dest!: below_Done)

lemma chance_Raised: "chance p r = Raised e r' \<Longrightarrow> (p < 0 \<or> 100 < p) \<and> e = ValueError \<and> r' = r"
  by (auto simp: chance_def bind_def ret_def raise_def split: if_splits outcome.splits dest!: below_Raised)

lemma chance_never: "chance 0 r = Done b r' \<Longrightarrow> \<not> b"
  by (auto simp: chance_def bind_def ret_def split: outcome.splits dest!: below_Done)

lemma chance_always: "chance 100 r = Done b r' \<Longrightarrow> b"
  by (auto simp: chance_def bind_def ret_def split: outcome.splits dest!: below_Done)

lemma pick_Done: "pick items r = Done x r' \<Longrightarrow> x \<in> set items \<and> calls r' = calls r + 1 \<and> same_stream r r'"
  by (auto simp: pick_def bind_def raise_def of_sum_def py_nth_nonneg
      split: if_splits outcome.splits sum.splits dest!: below_Done)

lemma same_stream_refl [simp]: "same_stream r r"
  by (simp add: same_stream_def)

lemma same_stream_trans: "same_stream a b \<Longrightarrow> same_stream b c \<Longrightarrow> same_stream a c"
  by (simp add: same_stream_def)

text \<open>A draw returns exactly when the stream still holds a candidate below the bound.\<close>

lemma below_returns_iff_aux:
  assumes "2 \<le> n"
  shows "(\<exists>x r'. below n r = Done x r') \<longleftrightarrow>
    (\<exists>i. candidate (src r) (bit_length (nat (n - 1))) (pos r) i < n)"
proof
  assume "\<exists>x r'. below n r = Done x r'"
  with assms show "\<exists>i. candidate (src r) (bit_length (nat (n - 1))) (pos r) i < n"
    by (auto simp: below_def Let_def dest!: below_loop_first split: option.splits)
next
  let ?c = "candidate (src r) (bit_length (nat (n - 1))) (pos r)"
  assume "\<exists>i. ?c i < n"
  then obtain i where "?c i < n" "\<And>j. j < i \<Longrightarrow> \<not> ?c j < n"
    using exists_least_iff [of "\<lambda>i. ?c i < n"] by auto
  then have "below_loop (src r) (bit_length (nat (n - 1))) n (pos r)
      = Some (?c i, pos r + Suc i * words (bit_length (nat (n - 1))))"
    by (intro below_loop_returns) (auto simp: not_less)
  with assms show "\<exists>x r'. below n r = Done x r'"
    by (auto simp: below_def Let_def)
qed

text \<open>A fair stream holds an acceptable candidate for every bound from every position on; on such a
  stream every draw returns. This is what the rejection loop needs of the Mersenne Twister.\<close>

definition fair :: "rng \<Rightarrow> bool" where
  "fair r \<longleftrightarrow> (\<forall>n p. 2 \<le> n \<longrightarrow> (\<exists>i. candidate (src r) (bit_length (nat (n - 1))) p i < n))"

lemma below_fair:
  assumes "fair r" and "1 \<le> n"
  shows "\<exists>x r'. below n r = Done x r' \<and> fair r' \<and> 0 \<le> x \<and> x < n"
proof -
  have "\<exists>x r'. below n r = Done x r'"
  proof (cases "n = 1")
    case True
    then show ?thesis by (simp add: below_def Let_def)
  next
    case False
    with assms show ?thesis by (subst below_returns_iff_aux) (auto simp: fair_def)
  qed
  then obtain x r' where b: "below n r = Done x r'" by blast
  with below_Done [OF b] assms(1) show ?thesis by (auto simp: fair_def same_stream_def)
qed

lemma between_fair:
  assumes "fair r" and "lo \<le> hi"
  shows "\<exists>x r'. between lo hi r = Done x r' \<and> fair r' \<and> lo \<le> x \<and> x \<le> hi"
  using below_fair [OF assms(1), of "hi - lo + 1"] assms(2) by (auto simp: between_def bind_def ret_def)

lemma chance_fair:
  assumes "fair r" and "0 \<le> p" "p \<le> 100"
  shows "\<exists>b r'. chance p r = Done b r' \<and> fair r'"
  using below_fair [OF assms(1), of 100] assms(2,3) by (auto simp: chance_def bind_def ret_def)

lemma chance_sure:
  assumes "fair r"
  shows "\<exists>r'. chance 0 r = Done False r' \<and> fair r'" "\<exists>r'. chance 100 r = Done True r' \<and> fair r'"
  using below_fair [OF assms, of 100] by (auto simp: chance_def bind_def ret_def)

lemma fair_stream: "same_stream r r' \<Longrightarrow> fair r' = fair r"
  by (simp add: fair_def same_stream_def)

text \<open>A stream of zeros always draws 0, the case the witnesses run on.\<close>

definition zero_stream :: "rng \<Rightarrow> bool" where
  "zero_stream r \<longleftrightarrow> src r = (\<lambda>_. 0)"

lemma draw_bits_zero: "fst (draw_bits (\<lambda>_. 0) p k) = 0"
proof (induction "\<lambda>_ :: nat. 0 :: 32 word" p k rule: draw_bits.induct)
  case (1 p k)
  then show ?case by (subst draw_bits.simps) (auto split: prod.splits)
qed

lemma below_zero:
  assumes "zero_stream r" and "0 < n"
  shows "\<exists>r'. below n r = Done 0 r' \<and> zero_stream r'"
proof -
  have "below_loop (src r) k n (pos r) = Some (0, pos r + words k)" for k
    using assms draw_bits_zero by (subst below_loop_unfold) (simp add: candidate_def zero_stream_def)
  then show ?thesis using assms by (auto simp: below_def Let_def zero_stream_def)
qed

lemma zero_stream_fair: "zero_stream r \<Longrightarrow> fair r"
  using draw_bits_zero by (auto simp: fair_def zero_stream_def candidate_def)

lemma between_zero:
  assumes "zero_stream r" and "lo \<le> hi"
  shows "\<exists>r'. between lo hi r = Done lo r' \<and> zero_stream r'"
  using below_zero [OF assms(1), of "hi - lo + 1"] assms(2) by (auto simp: between_def bind_def ret_def)

lemma chance_zero:
  assumes "zero_stream r" and "0 \<le> p" "p \<le> 100"
  shows "\<exists>r'. chance p r = Done (0 < p) r' \<and> zero_stream r'"
  using below_zero [OF assms(1), of 100] assms(2,3) by (auto simp: chance_def bind_def ret_def)

lemma below_zero_stream: "src r = (\<lambda>_. 0) \<Longrightarrow> 1 < n \<Longrightarrow>
    below n r = Done 0 (r\<lparr>calls := calls r + 1, pos := pos r + words (bit_length (nat (n - 1)))\<rparr>)"
proof -
  assume "src r = (\<lambda>_. 0)" "1 < n"
  moreover have "below_loop (\<lambda>_. 0) k n p = Some (0, p + words k)" if "0 < n" for k n p
    using that draw_bits_zero by (subst below_loop_unfold) (simp add: candidate_def)
  ultimately show ?thesis by (simp add: below_def Let_def)
qed

lemma below_one: "below 1 r = Done 0 (r\<lparr>calls := calls r + 1\<rparr>)"
  by (simp add: below_def Let_def)

section \<open>Properties\<close>

text \<open>
  \<^verbatim>\<open>below(n)\<close> returns the first candidate of the stream that is below \<open>n\<close>, having consumed exactly
  the words of the candidates up to it, and diverges exactly when there is none: the rejection
  sampling neither reduces modulo \<open>n\<close> nor skips a candidate it could have accepted.
\<close>

theorem below_first_candidate:
  assumes "2 \<le> n"
  shows "let bits = bit_length (nat (n - 1)); cand = candidate (src r) bits (pos r) in
    case below n r of
      Done x r' \<Rightarrow> 0 \<le> x \<and> x < n
        \<and> (\<exists>i. x = cand i \<and> (\<forall>j < i. n \<le> cand j)
            \<and> r' = r\<lparr>calls := calls r + 1, pos := pos r + Suc i * words bits\<rparr>)
    | Raised _ _ \<Rightarrow> False
    | Diverges \<Rightarrow> \<forall>i. n \<le> cand i"
proof -
  let ?bits = "bit_length (nat (n - 1))"
  let ?c = "candidate (src r) ?bits (pos r)"
  show ?thesis
  proof (cases "below n r")
    case (Done x r')
    with assms show ?thesis
      using below_Done [OF Done]
      by (auto simp: below_def Let_def split: option.splits dest!: below_loop_first)
  next
    case (Raised e r')
    from below_Raised [OF this] assms show ?thesis by simp
  next
    case Diverges
    then have "\<not> (\<exists>i. ?c i < n)" using below_returns_iff_aux [OF assms, of r] by auto
    then show ?thesis by (simp add: Diverges Let_def not_less)
  qed
qed

theorem below_first_candidate_witness:
  "\<exists>r'. below 3 \<lparr>seed = 0, calls = 0, src = (\<lambda>i. if i = 0 then 3221225472 else 0), pos = 0\<rparr> = Done 0 r'
     \<and> pos r' = 2"
proof -
  let ?r = "\<lparr>seed = 0, calls = 0, src = (\<lambda>i. if i = 0 then 3221225472 else 0), pos = 0\<rparr> :: rng"
  have bits: "bit_length (nat (3 - 1)) = 2" by (simp add: bit_length.simps)
  have w: "words 2 = 1" by (simp add: words_def)
  have c0: "candidate (src ?r) 2 0 0 = 3" and c1: "candidate (src ?r) 2 0 (Suc 0) = 0"
    by (simp_all add: candidate_def draw_bits.simps w)
  note B = below_first_candidate [of 3 ?r, unfolded bits Let_def]
  show ?thesis
  proof (cases "below 3 ?r")
    case (Done x r')
    with B obtain i where x: "x = candidate (src ?r) 2 0 i" "x < 3" "\<forall>j < i. 3 \<le> candidate (src ?r) 2 0 j"
      "r' = ?r\<lparr>calls := 1, pos := Suc i\<rparr>" by (auto simp: w)
    have "i \<noteq> 0" using x(1,2) c0 by (cases i) auto
    moreover have "\<not> Suc 0 < i" using x(3) c1 by auto
    ultimately have "i = Suc 0" by simp
    with x c1 Done show ?thesis by simp
  next
    case (Raised e r')
    with B show ?thesis by simp
  next
    case Diverges
    with B have "\<forall>i. 3 \<le> candidate (src ?r) 2 0 i" by simp
    from spec [OF this, of "Suc 0"] c1 show ?thesis by simp
  qed
qed

end
