(* ===== verification/Clock.thy ===== *)
theory Clock
  imports Event_Queue Rng
begin

text \<open>
  What every part of a simulation shares: the generator, the event queue, virtual time, the trace, its
  header and the count of events run (\<^verbatim>\<open>Simulator\<close> owns them, \<^verbatim>\<open>sim/world.py\<close>), and the virtual clock of \<^verbatim>\<open>groundhog/clock.py\<close> over
  them. The record is extensible: the network, a node's context and a world extend it, so the clock
  operations apply to all of them. A callback that the code hands to \<^verbatim>\<open>after\<close> is a value of the type
  \<open>'a\<close> of actions. The trace is the list of records a \<^verbatim>\<open>JsonlTrace\<close> has been given.
\<close>

section \<open>The shared state\<close>

record ('a, 'd) simcore =
  rng :: rng
  queue :: "('a, 'd) event_queue"
  now :: Tick
  trace :: "'d jrecord list"
  header :: "'d jrecord"
  events_run :: int

definition with_rng :: "('x, rng) py \<Rightarrow> ('x, ('a, 'd, 'z) simcore_scheme) py" where
  "with_rng = on_part rng (\<lambda>r c. c\<lparr>rng := r\<rparr>)"

definition with_queue :: "('x, ('a, 'd) event_queue) py \<Rightarrow> ('x, ('a, 'd, 'z) simcore_scheme) py" where
  "with_queue = on_part queue (\<lambda>q c. c\<lparr>queue := q\<rparr>)"

definition trace_write :: "'d jrecord \<Rightarrow> ('a, 'd, 'z) simcore_scheme stmt" where
  "trace_write record = modify (\<lambda>c. c\<lparr>trace := trace c @ [record]\<rparr>)"

section \<open>SimClock and SimTimer\<close>

definition clock_after ::
  "Tick \<Rightarrow> 'a \<Rightarrow> string \<Rightarrow> NodeId option \<Rightarrow> (('a, 'd) event, ('a, 'd, 'z) simcore_scheme) py" where
  "clock_after delay callback name actor c =
     (if delay < 0 then Raised ValueError c
      else with_queue (schedule (now c + delay) name callback actor []) c)"

definition timer_deadline :: "('a, 'd) event \<Rightarrow> Tick" where
  "timer_deadline timer = ev_tick timer"

definition timer_cancel :: "('a, 'd) event \<Rightarrow> (bool, ('a, 'd, 'z) simcore_scheme) py" where
  "timer_cancel timer = with_queue (cancel timer)"

definition advance_to :: "Tick \<Rightarrow> ('a, 'd, 'z) simcore_scheme stmt" where
  "advance_to tick c =
     (if tick < now c then Raised RuntimeError c else Done () (c\<lparr>now := tick\<rparr>))"

section \<open>Well-formed time\<close>

text \<open>The queue is well formed and nothing in it is due in the past.\<close>

definition core_wf :: "('a, 'd, 'z) simcore_scheme \<Rightarrow> bool" where
  "core_wf c \<longleftrightarrow> queue_wf (queue c) \<and> 0 \<le> now c \<and> (\<forall>e \<in> set (live (queue c)). now c \<le> ev_tick e)"

lemma with_rng_Done:
  "with_rng m c = Done x c' \<longleftrightarrow> (\<exists>r. m (rng c) = Done x r \<and> c' = c\<lparr>rng := r\<rparr>)"
  by (auto simp: with_rng_def on_part_def split: outcome.splits)

lemma with_rng_Raised:
  "with_rng m c = Raised e c' \<longleftrightarrow> (\<exists>r. m (rng c) = Raised e r \<and> c' = c\<lparr>rng := r\<rparr>)"
  by (auto simp: with_rng_def on_part_def split: outcome.splits)

lemma with_rng_Diverges: "with_rng m c = Diverges \<longleftrightarrow> m (rng c) = Diverges"
  by (auto simp: with_rng_def on_part_def split: outcome.splits)

lemma with_queue_Done:
  "with_queue m c = Done x c' \<longleftrightarrow> (\<exists>q. m (queue c) = Done x q \<and> c' = c\<lparr>queue := q\<rparr>)"
  by (auto simp: with_queue_def on_part_def split: outcome.splits)

lemma with_queue_Raised:
  "with_queue m c = Raised e c' \<longleftrightarrow> (\<exists>q. m (queue c) = Raised e q \<and> c' = c\<lparr>queue := q\<rparr>)"
  by (auto simp: with_queue_def on_part_def split: outcome.splits)

lemma trace_write_Done: "trace_write r c = Done x c' \<longleftrightarrow> c' = c\<lparr>trace := trace c @ [r]\<rparr>"
  by (auto simp: trace_write_def modify_def)

lemma trace_write_Raised [simp]: "trace_write r c \<noteq> Raised e c'" "trace_write r c \<noteq> Diverges"
  by (simp_all add: trace_write_def modify_def)

lemma clock_after_Done:
  assumes "clock_after d cb k a c = Done e c'" and "core_wf c"
  shows "core_wf c'" and "\<exists>q. c' = c\<lparr>queue := q\<rparr>"
    and "live (queue c') = insort_key ev_key e (live (queue c))"
    and "ev_tick e = now c + d" "ev_action e = cb" "ev_kind e = k" "ev_actor e = a"
    and "ev_seq e = next_seq (queue c)" and "0 \<le> d"
proof -
  from assms(1) obtain q where d: "0 \<le> d" and c': "c' = c\<lparr>queue := q\<rparr>"
    and s: "schedule (now c + d) k cb a [] (queue c) = Done e q"
    by (auto simp: clock_after_def with_queue_Done split: if_splits)
  have wf: "queue_wf (queue c)" using assms(2) by (simp add: core_wf_def)
  note S = schedule_Done [OF wf s]
  show "core_wf c'"
    using assms(2) S(1-3) d by (auto simp: core_wf_def c' set_insort_key)
  show "\<exists>q. c' = c\<lparr>queue := q\<rparr>" using c' by blast
  show "live (queue c') = insort_key ev_key e (live (queue c))" using S(2) by (simp add: c')
  show "ev_tick e = now c + d" "ev_action e = cb" "ev_kind e = k" "ev_actor e = a"
    "ev_seq e = next_seq (queue c)" using S by simp_all
  show "0 \<le> d" by (rule d)
qed

lemma clock_after_Raised:
  assumes "clock_after d cb k a c = Raised x c'" and "core_wf c"
  shows "d < 0" and "x = ValueError" and "c' = c"
  using assms
  by (auto simp: clock_after_def with_queue_Raised core_wf_def split: if_splits dest!: schedule_Raised)

lemma clock_after_not_Diverges [simp]: "clock_after d cb k a c \<noteq> Diverges"
  by (simp add: clock_after_def with_queue_def on_part_def schedule_def Let_def split: outcome.splits)

lemma timer_cancel_Done:
  assumes "timer_cancel e c = Done b c'" and "core_wf c"
  shows "core_wf c'" and "\<exists>q. c' = c\<lparr>queue := q\<rparr>"
    and "live (queue c') = filter (\<lambda>x. ev_seq x \<noteq> ev_seq e) (live (queue c))"
    and "b \<longleftrightarrow> ev_seq e \<in> ev_seq ` set (live (queue c))"
proof -
  from assms(1) obtain q where c': "c' = c\<lparr>queue := q\<rparr>" and s: "cancel e (queue c) = Done b q"
    by (auto simp: timer_cancel_def with_queue_Done)
  have wf: "queue_wf (queue c)" using assms(2) by (simp add: core_wf_def)
  note S = cancel_Done [OF wf s]
  show "core_wf c'" using assms(2) S(1,2) by (auto simp: core_wf_def c')
  show "\<exists>q. c' = c\<lparr>queue := q\<rparr>" using c' by blast
  show "live (queue c') = filter (\<lambda>x. ev_seq x \<noteq> ev_seq e) (live (queue c))" using S(2) by (simp add: c')
  show "b \<longleftrightarrow> ev_seq e \<in> ev_seq ` set (live (queue c))" by (rule S(3))
qed

lemma timer_cancel_total: "timer_cancel e c \<noteq> Raised x c'" "timer_cancel e c \<noteq> Diverges"
  by (simp_all add: timer_cancel_def with_queue_def on_part_def cancel_def)

lemma clock_after_returns: "0 \<le> d \<Longrightarrow> core_wf c \<Longrightarrow>
    \<exists>e q. clock_after d cb k a c = Done e (c\<lparr>queue := q\<rparr>) \<and> core_wf (c\<lparr>queue := q\<rparr>)"
  using clock_after_Done(1,2) [of d cb k a c] clock_after_Raised(1) [of d cb k a c]
  by (cases "clock_after d cb k a c") fastforce+

section \<open>The scheduler interface\<close>

text \<open>
  What the simulator loop relies on: a queue of timed events whose \<open>pop\<close> gives the earliest, and a
  way to schedule. Inside, the fact the loop needs: once nothing is due in the past, popping never
  makes time run backwards. The event queue above is the instance.
\<close>

locale scheduler =
  fixes wf :: "'q \<Rightarrow> bool"
    and events :: "'q \<Rightarrow> 'e list"
    and time :: "'e \<Rightarrow> int"
    and take_next :: "('e option, 'q) py"
  assumes events_sorted: "wf q \<Longrightarrow> sorted (map time (events q))"
    and take_next_wf: "wf q \<Longrightarrow> take_next q = Done r q' \<Longrightarrow> wf q'"
    and take_next_some: "wf q \<Longrightarrow> take_next q = Done (Some e) q' \<Longrightarrow> events q = e # events q'"
    and take_next_none: "wf q \<Longrightarrow> take_next q = Done None q' \<Longrightarrow> events q = [] \<and> events q' = []"
begin

lemma take_next_earliest:
  assumes "wf q" and "take_next q = Done (Some e) q'" and "x \<in> set (events q')"
  shows "time e \<le> time x"
  using events_sorted [OF assms(1)] take_next_some [OF assms(1,2)] assms(3) by simp

lemma take_next_not_past:
  assumes "wf q" and "take_next q = Done (Some e) q'" and "\<forall>x \<in> set (events q). t \<le> time x"
  shows "t \<le> time e" and "\<forall>x \<in> set (events q'). time e \<le> time x"
  using assms(3) take_next_some [OF assms(1,2)] take_next_earliest [OF assms(1,2)] by auto

end

lemma sorted_ticks: "sorted (map ev_key es) \<Longrightarrow> sorted (map ev_tick es)"
  by (induction es) auto

interpretation sq: scheduler queue_wf live ev_tick pop
proof
  show "sorted (map ev_tick (live q))" if "queue_wf q" for q :: "('a, 'b) event_queue"
    using sorted_live [OF that] by (rule sorted_ticks)
  show "queue_wf q'" if "queue_wf q" "pop q = Done r q'" for q q' :: "('a, 'b) event_queue" and r
    using pop_Done(1) [OF that] .
  show "live q = e # live q'" if "queue_wf q" "pop q = Done (Some e) q'" for q q' :: "('a, 'b) event_queue" and e
    using pop_Done(3) [OF that] by simp
  show "live q = [] \<and> live q' = []" if "queue_wf q" "pop q = Done None q'" for q q' :: "('a, 'b) event_queue"
    using pop_Done(3) [OF that] by simp
qed

end
