(* ===== verification/Sim_Net.thy ===== *)
theory Sim_Net
  imports Clock
begin

text \<open>
  The simulated network of \<^verbatim>\<open>groundhog/sim/net.py\<close>: drop and duplicate are drawn when a message is
  sent, partition, crash and hang are looked at when it arrives, and a hung node's messages are held
  until it wakes. The state extends the shared simulation state. The two closures a network holds are
  values: \<open>arrive_action\<close> stands for \<^verbatim>\<open>lambda: self._arrive(frm, to, msg)\<close>, and an inbox is a tag of
  type \<open>'h\<close> that names the callback it was registered with (\<open>net_arrive\<close> is given what a tag runs).
\<close>

section \<open>Definitions\<close>

datatype node_status = RUNNING | CRASHED | HUNG

record network_faults =
  latency :: "Tick \<times> Tick"
  drop_percent :: int
  duplicate_percent :: int

definition default_network_faults :: network_faults where
  "default_network_faults =
     \<lparr>latency = (1 * MILLISECOND, 10 * MILLISECOND), drop_percent = 0, duplicate_percent = 0\<rparr>"

definition network_faults_describe :: "network_faults \<Rightarrow> 'd jrecord" where
  "network_faults_describe f =
     [(''latency'', JList [JInt (fst (latency f)), JInt (snd (latency f))]),
      (''drop_percent'', JInt (drop_percent f)),
      (''duplicate_percent'', JInt (duplicate_percent f))]"

datatype partition_cut =
  Partition (side_a: "NodeId list") (side_b: "NodeId list") (one_way: bool)

definition blocks :: "partition_cut \<Rightarrow> NodeId \<Rightarrow> NodeId \<Rightarrow> bool" where
  "blocks p frm to =
     (if frm \<in> set (side_a p) \<and> to \<in> set (side_b p) then True
      else \<not> one_way p \<and> frm \<in> set (side_b p) \<and> to \<in> set (side_a p))"

definition partition_describe :: "partition_cut \<Rightarrow> 'd jrecord" where
  "partition_describe p =
     [(''side_a'', JList (map JInt (side_a p))), (''side_b'', JList (map JInt (side_b p))),
      (''one_way'', JBool (one_way p))]"

record ('a, 'd, 'm, 'h) netsim = "('a, 'd) simcore" +
  net_faults :: network_faults
  describe_msg :: "'m \<Rightarrow> 'd jval"
  arrive_action :: "NodeId \<Rightarrow> NodeId \<Rightarrow> 'm \<Rightarrow> 'a"
  inboxes :: "(NodeId \<times> 'h) list"
  status :: "NodeId \<Rightarrow> node_status option"
  held :: "NodeId \<Rightarrow> (NodeId \<times> 'm) list option"
  partition :: "partition_cut option"
  delivered :: int
  dropped :: int

definition net_record :: "string \<Rightarrow> 'd jrecord \<Rightarrow> ('a, 'd, 'm, 'h, 'z) netsim_scheme stmt" where
  "net_record kind detail c =
     trace_write ([(''kind'', JStr kind), (''tick'', JInt (now c))] @ detail) c"

definition net_record_msg ::
  "string \<Rightarrow> NodeId \<Rightarrow> NodeId \<Rightarrow> 'm \<Rightarrow> ('a, 'd, 'm, 'h, 'z) netsim_scheme stmt" where
  "net_record_msg kind frm to msg c =
     net_record kind [(''frm'', JInt frm), (''to'', JInt to), (''msg'', describe_msg c msg)] c"

definition net_register :: "NodeId \<Rightarrow> 'h \<Rightarrow> ('a, 'd, 'm, 'h, 'z) netsim_scheme stmt" where
  "net_register node_id on_message =
     ite (\<lambda>c. map_of (inboxes c) node_id \<noteq> None) (raise ValueError)
       (modify (\<lambda>c. c\<lparr>inboxes := AList.update node_id on_message (inboxes c),
                      status := (status c)(node_id := Some RUNNING),
                      held := (held c)(node_id := Some [])\<rparr>))"

definition net_node_ids :: "('a, 'd, 'm, 'h, 'z) netsim_scheme \<Rightarrow> NodeId list" where
  "net_node_ids c = sort (map fst (inboxes c))"

definition net_state :: "NodeId \<Rightarrow> (node_status, ('a, 'd, 'm, 'h, 'z) netsim_scheme) py" where
  "net_state node_id c =
     (case status c node_id of None \<Rightarrow> Raised KeyError c | Some s \<Rightarrow> Done s c)"

definition net_schedule ::
  "NodeId \<Rightarrow> NodeId \<Rightarrow> 'm \<Rightarrow> string \<Rightarrow> Tick option \<Rightarrow> ('a, 'd, 'm, 'h, 'z) netsim_scheme stmt" where
  "net_schedule frm to msg tag delay =
     bind (case delay of
             None \<Rightarrow> (\<lambda>c. with_rng (between (fst (latency (net_faults c))) (snd (latency (net_faults c)))) c)
           | Some d \<Rightarrow> ret d) (\<lambda>d.
     bind (\<lambda>c. clock_after d (arrive_action c frm to msg) tag (Some to) c) (\<lambda>_. ret ()))"

definition net_release :: "NodeId \<Rightarrow> ('a, 'd, 'm, 'h, 'z) netsim_scheme stmt" where
  "net_release node_id c =
     (case held c node_id of None \<Rightarrow> Raised KeyError c
      | Some ms \<Rightarrow>
          if ms = [] then Done () c
          else block [modify (\<lambda>c. c\<lparr>held := (held c)(node_id := Some [])\<rparr>),
                 net_record ''net.release'' [(''to'', JInt node_id), (''count'', JInt (int (length ms)))],
                 for_each ms (\<lambda>(frm, msg). net_schedule frm node_id msg ''net.deliver_held'' (Some 0))] c)"

definition net_set_state :: "NodeId \<Rightarrow> node_status \<Rightarrow> ('a, 'd, 'm, 'h, 'z) netsim_scheme stmt" where
  "net_set_state node_id st c =
     (case status c node_id of None \<Rightarrow> Raised KeyError c
      | Some previous \<Rightarrow>
          block [modify (\<lambda>c. c\<lparr>status := (status c)(node_id := Some st)\<rparr>),
            (if st = CRASHED then modify (\<lambda>c. c\<lparr>held := (held c)(node_id := Some [])\<rparr>)
             else if previous = HUNG then net_release node_id
             else ret ())] c)"

definition net_split :: "partition_cut \<Rightarrow> ('a, 'd, 'm, 'h, 'z) netsim_scheme stmt" where
  "net_split p =
     block [modify (\<lambda>c. c\<lparr>partition := Some p\<rparr>), net_record ''net.partition'' (partition_describe p)]"

definition net_heal :: "('a, 'd, 'm, 'h, 'z) netsim_scheme stmt" where
  "net_heal =
     block [(\<lambda>c. case partition c of None \<Rightarrow> Done () c
                 | Some p \<Rightarrow> net_record ''net.heal'' (partition_describe p) c),
            modify (\<lambda>c. c\<lparr>partition := None\<rparr>)]"

definition net_send :: "NodeId \<Rightarrow> NodeId \<Rightarrow> 'm \<Rightarrow> ('a, 'd, 'm, 'h, 'z) netsim_scheme stmt" where
  "net_send frm to msg =
     ite (\<lambda>c. map_of (inboxes c) to = None) (raise ValueError)
       (bind (\<lambda>c. with_rng (chance (drop_percent (net_faults c))) c) (\<lambda>lost.
          if lost then
            block [modify (\<lambda>c. c\<lparr>dropped := dropped c + 1\<rparr>), net_record_msg ''net.drop'' frm to msg]
          else
            block [net_schedule frm to msg ''net.deliver'' None,
              bind (\<lambda>c. with_rng (chance (duplicate_percent (net_faults c))) c) (\<lambda>twice.
                if twice then
                  block [net_schedule frm to msg ''net.deliver_dup'' None,
                         net_record_msg ''net.duplicate'' frm to msg]
                else ret ())]))"

definition net_drop_arrived :: "NodeId \<Rightarrow> NodeId \<Rightarrow> 'm \<Rightarrow> ('a, 'd, 'm, 'h, 'z) netsim_scheme stmt" where
  "net_drop_arrived frm to msg =
     block [modify (\<lambda>c. c\<lparr>dropped := dropped c + 1\<rparr>), net_record_msg ''net.drop'' frm to msg]"

definition net_arrive ::
  "('h \<Rightarrow> NodeId \<Rightarrow> 'm \<Rightarrow> ('a, 'd, 'm, 'h, 'z) netsim_scheme stmt) \<Rightarrow>
     NodeId \<Rightarrow> NodeId \<Rightarrow> 'm \<Rightarrow> ('a, 'd, 'm, 'h, 'z) netsim_scheme stmt" where
  "net_arrive on_message frm to msg c =
     (if (case partition c of None \<Rightarrow> False | Some p \<Rightarrow> blocks p frm to) then net_drop_arrived frm to msg c
      else (case status c to of None \<Rightarrow> Raised KeyError c
        | Some CRASHED \<Rightarrow> net_drop_arrived frm to msg c
        | Some HUNG \<Rightarrow>
            (case held c to of None \<Rightarrow> Raised KeyError c
             | Some ms \<Rightarrow> block [modify (\<lambda>c. c\<lparr>held := (held c)(to := Some (ms @ [(frm, msg)]))\<rparr>),
                                net_record_msg ''net.hold'' frm to msg] c)
        | Some RUNNING \<Rightarrow>
            block [modify (\<lambda>c. c\<lparr>delivered := delivered c + 1\<rparr>),
              (\<lambda>c. case map_of (inboxes c) to of None \<Rightarrow> Raised KeyError c
                   | Some h \<Rightarrow> on_message h frm msg c)] c))"

section \<open>Scheduling a delivery\<close>

declare block.simps [simp del] py_done [simp]

lemma net_record_Done: "net_record k d c = Done x c' \<longleftrightarrow>
    c' = c\<lparr>trace := trace c @ [[(''kind'', JStr k), (''tick'', JInt (now c))] @ d]\<rparr>"
  by (simp add: net_record_def trace_write_Done)

lemma net_record_msg_Done: "net_record_msg k f t m c = Done x c' \<longleftrightarrow>
    c' = c\<lparr>trace := trace c @ [[(''kind'', JStr k), (''tick'', JInt (now c)), (''frm'', JInt f),
      (''to'', JInt t), (''msg'', describe_msg c m)]]\<rparr>"
  by (simp add: net_record_msg_def net_record_Done)

lemmas net_record_dones = net_record_Done net_record_msg_Done

lemma net_record_total [simp]: "net_record k d c \<noteq> Raised e c'" "net_record k d c \<noteq> Diverges"
  "net_record_msg k f t m c \<noteq> Raised e c'" "net_record_msg k f t m c \<noteq> Diverges"
  by (simp_all add: net_record_def net_record_msg_def)

lemma core_wf_update [simp]:
  "core_wf (c\<lparr>rng := r\<rparr>) = core_wf c" "core_wf (c\<lparr>trace := t\<rparr>) = core_wf c"
  "core_wf (c\<lparr>rng := r, queue := q\<rparr>) = core_wf (c\<lparr>queue := q\<rparr>)"
  by (simp_all add: core_wf_def)

lemma core_wf_net_update [simp]:
  "core_wf (c\<lparr>dropped := n\<rparr>) = core_wf c" "core_wf (c\<lparr>delivered := n\<rparr>) = core_wf c"
  "core_wf (c\<lparr>held := hs\<rparr>) = core_wf c" "core_wf (c\<lparr>status := st\<rparr>) = core_wf c"
  "core_wf (c\<lparr>partition := p\<rparr>) = core_wf c" "core_wf (c\<lparr>inboxes := bs\<rparr>) = core_wf c"
  by (simp_all add: core_wf_def)

lemma net_schedule_Done:
  assumes "net_schedule frm to msg tag delay c = Done x c'" and "core_wf c"
  obtains e r q d where "c' = c\<lparr>rng := r, queue := q\<rparr>" "core_wf c'" "same_stream (rng c) r"
    "live q = insort_key ev_key e (live (queue c))"
    "ev_action e = arrive_action c frm to msg" "ev_kind e = tag" "ev_actor e = Some to"
    "ev_seq e = next_seq (queue c)" "ev_tick e = now c + d" "0 \<le> d"
    "case delay of Some t \<Rightarrow> d = t \<and> r = rng c
       | None \<Rightarrow> fst (latency (net_faults c)) \<le> d \<and> d \<le> snd (latency (net_faults c))"
proof -
  let ?lo = "fst (latency (net_faults c))" and ?hi = "snd (latency (net_faults c))"
  obtain d r e where ca: "clock_after d (arrive_action c frm to msg) tag (Some to) (c\<lparr>rng := r\<rparr>) = Done e c'"
    and st: "same_stream (rng c) r"
    and d: "case delay of Some t \<Rightarrow> d = t \<and> r = rng c | None \<Rightarrow> ?lo \<le> d \<and> d \<le> ?hi"
  proof (cases delay)
    case None
    with assms(1) obtain d r e where b: "between ?lo ?hi (rng c) = Done d r"
      and ca: "clock_after d (arrive_action c frm to msg) tag (Some to) (c\<lparr>rng := r\<rparr>) = Done e c'"
      by (auto simp: net_schedule_def bind_def ret_def with_rng_def on_part_def split: outcome.splits)
    from between_Done [OF b] show thesis by (intro that [OF ca]) (simp_all add: None)
  next
    case (Some t)
    with assms(1) obtain e where
      "clock_after t (arrive_action c frm to msg) tag (Some to) (c\<lparr>rng := rng c\<rparr>) = Done e c'"
      by (auto simp: net_schedule_def bind_def ret_def split: outcome.splits)
    then show thesis by (rule that) (simp_all add: Some)
  qed
  have wf: "core_wf (c\<lparr>rng := r\<rparr>)" using assms(2) by simp
  note D = clock_after_Done [OF ca wf]
  from D(2) obtain q where c': "c' = c\<lparr>rng := r, queue := q\<rparr>" by auto
  show thesis
    by (rule that [OF c' D(1) st _ D(5) D(6) D(7) _ _ D(9) d]) (use D in \<open>simp_all add: c'\<close>)
qed

lemma net_schedule_Raised:
  assumes "net_schedule frm to msg tag delay c = Raised e c'" and "core_wf c"
  shows "e = ValueError" and "\<exists>r. c' = c\<lparr>rng := r\<rparr>"
    and "(case delay of None \<Rightarrow> fst (latency (net_faults c)) < 0
        \<or> snd (latency (net_faults c)) < fst (latency (net_faults c)) | Some d \<Rightarrow> d < 0)"
proof -
  have "e = ValueError \<and> (\<exists>r. c' = c\<lparr>rng := r\<rparr>) \<and>
    (case delay of None \<Rightarrow> fst (latency (net_faults c)) < 0
        \<or> snd (latency (net_faults c)) < fst (latency (net_faults c)) | Some d \<Rightarrow> d < 0)"
  proof (cases delay)
    case None
    let ?b = "between (fst (latency (net_faults c))) (snd (latency (net_faults c))) (rng c)"
    show ?thesis
    proof (cases ?b)
      case (Done d r)
      with assms(1) None have "clock_after d (arrive_action c frm to msg) tag (Some to) (c\<lparr>rng := r\<rparr>) = Raised e c'"
        by (auto simp: net_schedule_def bind_def ret_def with_rng_def on_part_def split: outcome.splits)
      from clock_after_Raised [OF this] assms(2) between_Done [OF Done] show ?thesis
        by (auto simp: None)
    next
      case (Raised x r)
      with assms(1) None between_Raised [OF Raised] show ?thesis
        by (auto simp: net_schedule_def bind_def with_rng_def on_part_def intro: exI [of _ "rng c"])
    next
      case Diverges
      with assms(1) None show ?thesis by (simp add: net_schedule_def bind_def with_rng_def on_part_def)
    qed
  next
    case (Some t)
    with assms(1) have "clock_after t (arrive_action c frm to msg) tag (Some to) c = Raised e c'"
      by (auto simp: net_schedule_def bind_def ret_def split: outcome.splits)
    from clock_after_Raised [OF this assms(2)] show ?thesis
      by (auto simp: Some intro: exI [of _ "rng c"])
  qed
  then show "e = ValueError" "\<exists>r. c' = c\<lparr>rng := r\<rparr>"
    "case delay of None \<Rightarrow> fst (latency (net_faults c)) < 0
        \<or> snd (latency (net_faults c)) < fst (latency (net_faults c)) | Some d \<Rightarrow> d < 0" by blast+
qed

section \<open>Sending\<close>

text \<open>\<open>delivery c frm to msg e\<close>: the event \<open>e\<close>, scheduled in \<open>c\<close>, carries the message, and its latency is
  one that the configuration allows.\<close>

definition delivery ::
  "('a, 'd, 'm, 'h, 'z) netsim_scheme \<Rightarrow> NodeId \<Rightarrow> NodeId \<Rightarrow> 'm \<Rightarrow> ('a, 'd) event \<Rightarrow> bool" where
  "delivery c frm to msg e \<longleftrightarrow> ev_action e = arrive_action c frm to msg \<and> ev_actor e = Some to
     \<and> now c + fst (latency (net_faults c)) \<le> ev_tick e
     \<and> ev_tick e \<le> now c + snd (latency (net_faults c)) \<and> now c \<le> ev_tick e"

lemma delivery_update [simp]:
  "delivery (c\<lparr>rng := r\<rparr>) = delivery c" "delivery (c\<lparr>queue := q\<rparr>) = delivery c"
  "delivery (c\<lparr>trace := t\<rparr>) = delivery c" "delivery (c\<lparr>dropped := n\<rparr>) = delivery c"
  by (simp_all add: delivery_def fun_eq_iff)

text \<open>What \<open>send\<close> may touch, and how many copies \<open>es\<close> of the message it puts on the wire.\<close>

definition sent_copies ::
  "NodeId \<Rightarrow> NodeId \<Rightarrow> 'm \<Rightarrow> ('a, 'd) event list \<Rightarrow>
    ('a, 'd, 'm, 'h, 'z) netsim_scheme \<Rightarrow> ('a, 'd, 'm, 'h, 'z) netsim_scheme \<Rightarrow> bool" where
  "sent_copies frm to msg es c c' \<longleftrightarrow>
     c' = c\<lparr>rng := rng c', queue := queue c', trace := trace c', dropped := dropped c'\<rparr>
     \<and> same_stream (rng c) (rng c') \<and> (\<exists>new. trace c' = trace c @ new)
     \<and> dropped c' = dropped c + (if es = [] then 1 else 0)
     \<and> core_wf c' \<and> set (live (queue c')) = set (live (queue c)) \<union> set es
     \<and> (\<forall>e \<in> set es. delivery c frm to msg e) \<and> length es \<le> 2
     \<and> (drop_percent (net_faults c) = 0 \<longrightarrow> es \<noteq> [])
     \<and> (drop_percent (net_faults c) = 100 \<longrightarrow> es = [])
     \<and> (duplicate_percent (net_faults c) = 0 \<longrightarrow> length es \<le> 1)"

lemma net_schedule_one:
  assumes "net_schedule frm to msg tag None c = Done x c'" and "core_wf c"
  obtains e r q where "c' = c\<lparr>rng := r, queue := q\<rparr>" "core_wf c'" "same_stream (rng c) r"
    "set (live q) = insert e (set (live (queue c)))" "delivery c frm to msg e"
proof -
  show thesis
  proof (rule net_schedule_Done [OF assms])
    fix e r q d
    assume N: "c' = c\<lparr>rng := r, queue := q\<rparr>" "core_wf c'" "same_stream (rng c) r"
      "live q = insort_key ev_key e (live (queue c))"
      "ev_action e = arrive_action c frm to msg" "ev_actor e = Some to" "ev_tick e = now c + d" "0 \<le> d"
      and d: "case None of Some t \<Rightarrow> d = t \<and> r = rng c
       | None \<Rightarrow> fst (latency (net_faults c)) \<le> d \<and> d \<le> snd (latency (net_faults c))"
    show thesis
      by (rule that [OF N(1-3), of e]) (use N d in \<open>simp_all add: set_insort_key delivery_def\<close>)
  qed
qed

lemma net_send_Done:
  assumes "net_send frm to msg c = Done x c'" and "core_wf c"
  shows "map_of (inboxes c) to \<noteq> None" and "\<exists>es. sent_copies frm to msg es c c'"
proof -
  show reg: "map_of (inboxes c) to \<noteq> None"
    by (rule notI) (use assms(1) in \<open>simp add: net_send_def ite_def raise_def\<close>)
  let ?drop = "drop_percent (net_faults c)" and ?dup = "duplicate_percent (net_faults c)"
  from assms(1) reg obtain lost r0 where ch: "chance ?drop (rng c) = Done lost r0"
    by (auto simp: net_send_def ite_def bind_def with_rng_def on_part_def split: outcome.splits)
  note st0 = chance_Done [OF ch]
  show "\<exists>es. sent_copies frm to msg es c c'"
  proof (cases lost)
    case True
    with assms(1) reg ch have
      "block [modify (\<lambda>c. c\<lparr>dropped := dropped c + 1\<rparr>), net_record_msg ''net.drop'' frm to msg] (c\<lparr>rng := r0\<rparr>) = Done x c'"
      by (auto simp: net_send_def ite_def bind_def with_rng_def on_part_def)
    moreover have "?drop \<noteq> 0" using chance_never [of "rng c" lost r0] ch True by auto
    ultimately    have "sent_copies frm to msg [] c c'"
      using st0 assms(2) by (auto simp: sent_copies_def py_done net_record_dones)
    then show ?thesis ..
  next
    case False
    with assms(1) reg ch obtain c1 twice r1 where
      one: "net_schedule frm to msg ''net.deliver'' None (c\<lparr>rng := r0\<rparr>) = Done () c1"
      and ch1: "chance (duplicate_percent (net_faults c1)) (rng c1) = Done twice r1"
      and rest: "(if twice then block [net_schedule frm to msg ''net.deliver_dup'' None,
          net_record_msg ''net.duplicate'' frm to msg] else ret ()) (c1\<lparr>rng := r1\<rparr>) = Done x c'"
      by (auto simp: net_send_def with_rng_Done)
    have nd: "?drop \<noteq> 100" using chance_always [of "rng c" lost r0] ch False by auto
    have wf0: "core_wf (c\<lparr>rng := r0\<rparr>)" using assms(2) by simp
    obtain e r1' q1 where
      c1: "c1 = c\<lparr>rng := r1', queue := q1\<rparr>" "core_wf c1" "same_stream r0 r1'"
      "set (live q1) = insert e (set (live (queue c)))" "delivery c frm to msg e"
      using net_schedule_one [OF one wf0] by simp blast
    note st1 = chance_Done [OF ch1]
    show ?thesis
    proof (cases twice)
      case False
      with rest have "c' = c1\<lparr>rng := r1\<rparr>" by (simp add: ret_def)
      then have "sent_copies frm to msg [e] c c'"
        using c1 st0 st1 nd same_stream_trans by (auto simp: sent_copies_def)
      then show ?thesis ..
    next
      case True
      with rest obtain c2 where
        two: "net_schedule frm to msg ''net.deliver_dup'' None (c1\<lparr>rng := r1\<rparr>) = Done () c2"
        and rec: "net_record_msg ''net.duplicate'' frm to msg c2 = Done x c'"
        by (auto simp: py_done)
      have wf1: "core_wf (c1\<lparr>rng := r1\<rparr>)" using c1(2) by simp
      obtain e2 r2 q2 where
        c2: "c2 = c1\<lparr>rng := r2, queue := q2\<rparr>" "core_wf c2" "same_stream r1 r2"
        "set (live q2) = insert e2 (set (live (queue c1)))" "delivery c frm to msg e2"
        using net_schedule_one [OF two wf1] by (simp add: c1(1)) blast
      have "?dup \<noteq> 0" using chance_never [of "rng c1" twice r1] ch1 True by (auto simp: c1(1))
      moreover have "same_stream (rng c) r2"
      proof -
        have "same_stream (rng c) (rng c1)" using st0 c1(3) same_stream_trans by (auto simp: c1(1))
        moreover have "same_stream (rng c1) r2" using st1 c2(3) same_stream_trans by blast
        ultimately show ?thesis by (rule same_stream_trans)
      qed
      ultimately have "sent_copies frm to msg [e, e2] c c'"
        using c1(2-) c2(2-) nd rec by (simp add: sent_copies_def net_record_dones c1(1) c2(1) insert_commute)
      then show ?thesis ..
    qed
  qed
qed

section \<open>Waking up\<close>

lemma insort_now:
  assumes "sorted (map ev_key L)"
    and "\<And>x. x \<in> set L \<Longrightarrow> ev_tick e \<le> ev_tick x \<and> ev_seq x < ev_seq e"
  shows "insort_key ev_key e L
    = filter (\<lambda>x. ev_tick x = ev_tick e) L @ e # filter (\<lambda>x. ev_tick x \<noteq> ev_tick e) L"
  using assms
proof (induction L)
  case Nil
  then show ?case by simp
next
  case (Cons a L)
  show ?case
  proof (cases "ev_tick a = ev_tick e")
    case True
    with Cons.prems(2) [of a] have "\<not> ev_key e \<le> ev_key a" by auto
    with True Cons show ?thesis by simp
  next
    case False
    with Cons.prems(2) [of a] have lt: "ev_tick e < ev_tick a" by simp
    then have "ev_key e \<le> ev_key a" by auto
    moreover have "filter (\<lambda>x. ev_tick x = ev_tick e) L = []"
      using Cons.prems(1) lt by (fastforce simp: filter_empty_conv)
    moreover have "filter (\<lambda>x. ev_tick x \<noteq> ev_tick e) L = L"
      using Cons.prems(1) lt by (fastforce simp: filter_id_conv)
    ultimately show ?thesis using False by simp
  qed
qed

lemma split_now:
  "sorted (map ev_key L) \<Longrightarrow> \<forall>x \<in> set L. t \<le> ev_tick x \<Longrightarrow>
     L = filter (\<lambda>x. ev_tick x = t) L @ filter (\<lambda>x. ev_tick x \<noteq> t) L"
proof (induction L)
  case (Cons a L)
  show ?case
  proof (cases "ev_tick a = t")
    case True
    with Cons show ?thesis by simp
  next
    case False
    with Cons.prems have lt: "t < ev_tick a" by simp
    then have "filter (\<lambda>x. ev_tick x = t) L = []" and "filter (\<lambda>x. ev_tick x \<noteq> t) L = L"
      using Cons.prems(1) by (fastforce simp: filter_empty_conv filter_id_conv)+
    then show ?thesis using False by simp
  qed
qed simp

lemma live_seq: "queue_wf q \<Longrightarrow> e \<in> set (live q) \<Longrightarrow> ev_seq e < next_seq q"
  unfolding live_def using queue_wfD(3) by fastforce

lemma for_each_simps [simp]:
  "for_each [] f s = Done x s' \<longleftrightarrow> s' = s"
  "for_each (y # ys) f s = Done x s' \<longleftrightarrow> (\<exists>s1. f y s = Done () s1 \<and> for_each ys f s1 = Done x s')"
  by (simp_all add: for_each_def)

text \<open>A burst of zero-delay deliveries joins the events due now, behind those already there and in
  the order given.\<close>

lemma schedule_burst:
  assumes "for_each ms (\<lambda>(frm, msg). net_schedule frm to msg tag (Some 0)) c = Done x c'" and "core_wf c"
  shows "\<exists>es. map ev_action es = map (\<lambda>(frm, msg). arrive_action c frm to msg) ms
      \<and> (\<forall>e \<in> set es. ev_tick e = now c \<and> ev_actor e = Some to)
      \<and> live (queue c') = filter (\<lambda>e. ev_tick e = now c) (live (queue c)) @ es
          @ filter (\<lambda>e. ev_tick e \<noteq> now c) (live (queue c))
      \<and> c' = c\<lparr>queue := queue c'\<rparr> \<and> core_wf c'"
  using assms
proof (induction ms arbitrary: c)
  case Nil
  have "sorted (map ev_key (live (queue c)))" "\<forall>x \<in> set (live (queue c)). now c \<le> ev_tick x"
    using Nil.prems(2) sorted_live [of "queue c"] by (auto simp: core_wf_def)
  from split_now [OF this] show ?case using Nil by auto
next
  case (Cons m ms)
  obtain frm msg where m: "m = (frm, msg)" by (cases m)
  from Cons.prems(1) obtain c1 where one: "net_schedule frm to msg tag (Some 0) c = Done () c1"
    and rest: "for_each ms (\<lambda>(frm, msg). net_schedule frm to msg tag (Some 0)) c1 = Done x c'"
    by (auto simp: m)
  obtain e q where c1: "c1 = c\<lparr>queue := q\<rparr>" "core_wf c1"
    "live q = insort_key ev_key e (live (queue c))" "ev_action e = arrive_action c frm to msg"
    "ev_actor e = Some to" "ev_seq e = next_seq (queue c)" "ev_tick e = now c"
    by (rule net_schedule_Done [OF one Cons.prems(2)]) auto
  let ?L = "live (queue c)"
  have L: "live q = filter (\<lambda>x. ev_tick x = now c) ?L @ e # filter (\<lambda>x. ev_tick x \<noteq> now c) ?L"
    using insort_now [of ?L e] Cons.prems(2) sorted_live [of "queue c"] live_seq [of "queue c"]
    by (simp add: c1 core_wf_def)
  from Cons.IH [OF rest c1(2)] obtain es where
    es: "map ev_action es = map (\<lambda>(frm, msg). arrive_action c frm to msg) ms"
      "\<forall>e \<in> set es. ev_tick e = now c \<and> ev_actor e = Some to"
      "live (queue c') = filter (\<lambda>e. ev_tick e = now c) (live q) @ es
          @ filter (\<lambda>e. ev_tick e \<noteq> now c) (live q)"
      "c' = c\<lparr>queue := queue c'\<rparr>" "core_wf c'"
    by (auto simp: c1(1))
  show ?case
    by (intro exI [of _ "e # es"]) (use es c1 in \<open>simp add: m L\<close>)
qed

lemma net_release_Done:
  assumes "net_release n c = Done x c'" and "core_wf c"
  obtains ms es where "held c n = Some ms" "held c' = (held c)(n := Some [])"
    "map ev_action es = map (\<lambda>(frm, msg). arrive_action c frm n msg) ms"
    "\<forall>e \<in> set es. ev_tick e = now c \<and> ev_actor e = Some n"
    "live (queue c') = filter (\<lambda>e. ev_tick e = now c) (live (queue c)) @ es
          @ filter (\<lambda>e. ev_tick e \<noteq> now c) (live (queue c))"
    "c' = c\<lparr>queue := queue c', held := held c', trace := trace c'\<rparr>" "core_wf c'"
    "\<exists>new. trace c' = trace c @ new"
proof (cases "held c n")
  case None
  with assms(1) show thesis by (simp add: net_release_def)
next
  case (Some ms)
  show thesis
  proof (cases "ms = []")
    case True
    with assms Some have c': "c' = c" by (simp add: net_release_def)
    have "sorted (map ev_key (live (queue c)))" "\<forall>x \<in> set (live (queue c)). now c \<le> ev_tick x"
      using assms(2) sorted_live [of "queue c"] by (auto simp: core_wf_def)
    note split = split_now [OF this]
    show thesis
      by (rule that [OF Some, of "[]"]) (use assms(2) split Some True in \<open>auto simp: c'\<close>)
  next
    case False
    let ?c = "c\<lparr>held := (held c)(n := Some []),
        trace := trace c @ [[(''kind'', JStr ''net.release''), (''tick'', JInt (now c)),
          (''to'', JInt n), (''count'', JInt (int (length ms)))]]\<rparr>"
    from False assms(1) Some have
      "for_each ms (\<lambda>(frm, msg). net_schedule frm n msg ''net.deliver_held'' (Some 0)) ?c = Done x c'"
      by (simp add: net_release_def net_record_Done)
    moreover have "core_wf ?c" using assms(2) by simp
    ultimately obtain es where
      "map ev_action es = map (\<lambda>(frm, msg). arrive_action ?c frm n msg) ms
      \<and> (\<forall>e \<in> set es. ev_tick e = now ?c \<and> ev_actor e = Some n)
      \<and> live (queue c') = filter (\<lambda>e. ev_tick e = now ?c) (live (queue ?c)) @ es
          @ filter (\<lambda>e. ev_tick e \<noteq> now ?c) (live (queue ?c))
      \<and> c' = ?c\<lparr>queue := queue c'\<rparr> \<and> core_wf c'"
      using schedule_burst by blast
    then have es: "map ev_action es = map (\<lambda>(frm, msg). arrive_action c frm n msg) ms"
      "\<forall>e \<in> set es. ev_tick e = now c \<and> ev_actor e = Some n"
      "live (queue c') = filter (\<lambda>e. ev_tick e = now c) (live (queue c)) @ es
          @ filter (\<lambda>e. ev_tick e \<noteq> now c) (live (queue c))"
      "c' = ?c\<lparr>queue := queue c'\<rparr>" "core_wf c'" by auto
    have f: "held c' = (held c)(n := Some [])" "trace c' = trace ?c"
      by (subst es(4), simp)+
    have "c' = c\<lparr>queue := queue c', held := held c', trace := trace c'\<rparr>"
      by (subst es(4)) (simp add: f)
    then show thesis
      by (intro that [OF Some f(1) es(1-3) _ es(5)]) (simp_all add: f)
  qed
qed

section \<open>Sending returns on a fair stream\<close>

definition net_ready :: "NodeId \<Rightarrow> ('a, 'd, 'm, 'h, 'z) netsim_scheme \<Rightarrow> bool" where
  "net_ready to c \<longleftrightarrow> core_wf c \<and> fair (rng c) \<and> map_of (inboxes c) to \<noteq> None
     \<and> 0 \<le> drop_percent (net_faults c) \<and> drop_percent (net_faults c) \<le> 100
     \<and> 0 \<le> duplicate_percent (net_faults c) \<and> duplicate_percent (net_faults c) \<le> 100
     \<and> 0 \<le> fst (latency (net_faults c)) \<and> fst (latency (net_faults c)) \<le> snd (latency (net_faults c))"

lemma net_schedule_ready:
  assumes "net_ready to c"
  shows "\<exists>c'. net_schedule frm to' msg tag None c = Done () c' \<and> net_ready to c'"
proof -
  let ?lo = "fst (latency (net_faults c))" and ?hi = "snd (latency (net_faults c))"
  have wf: "core_wf c" and lo: "0 \<le> ?lo" and z: "fair (rng c)" and le: "?lo \<le> ?hi"
    using assms by (auto simp: net_ready_def)
  obtain d r where r: "between ?lo ?hi (rng c) = Done d r" "fair r" "?lo \<le> d"
    using between_fair [OF z le] by blast
  with lo have d: "0 \<le> d" by simp
  obtain e q where ca: "clock_after d (arrive_action c frm to' msg) tag (Some to') (c\<lparr>rng := r\<rparr>)
      = Done e (c\<lparr>rng := r, queue := q\<rparr>)" "core_wf (c\<lparr>rng := r, queue := q\<rparr>)"
    using clock_after_returns [OF d, of "c\<lparr>rng := r\<rparr>" "arrive_action c frm to' msg" tag "Some to'"] wf
    by auto
  have "net_schedule frm to' msg tag None c = Done () (c\<lparr>rng := r, queue := q\<rparr>)"
    using r(1) ca(1) by (auto simp: net_schedule_def with_rng_Done)
  moreover have "net_ready to (c\<lparr>rng := r, queue := q\<rparr>)"
    using assms ca(2) r(2) by (simp add: net_ready_def)
  ultimately show ?thesis by blast
qed

lemma net_ready_update [simp]:
  "net_ready to (c\<lparr>trace := t\<rparr>) = net_ready to c" "net_ready to (c\<lparr>dropped := n\<rparr>) = net_ready to c"
  "net_ready to c \<Longrightarrow> net_ready to (c\<lparr>rng := r\<rparr>) = fair r"
  by (auto simp: net_ready_def)

lemma net_send_ready:
  assumes "net_ready to c"
  shows "\<exists>c'. net_send frm to msg c = Done () c' \<and> net_ready to c'"
proof -
  let ?drop = "drop_percent (net_faults c)"
  have z: "fair (rng c)" and d: "0 \<le> ?drop" "?drop \<le> 100" and reg: "map_of (inboxes c) to \<noteq> None"
    using assms by (auto simp: net_ready_def)
  obtain lost r where r: "chance ?drop (rng c) = Done lost r" "fair r"
    using chance_fair [OF z d] by blast
  show ?thesis
  proof (cases lost)
    case True
    let ?c1 = "c\<lparr>rng := r, dropped := dropped c + 1, trace := trace c @
      [[(''kind'', JStr ''net.drop''), (''tick'', JInt (now c)), (''frm'', JInt frm), (''to'', JInt to),
        (''msg'', describe_msg c msg)]]\<rparr>"
    have "net_send frm to msg c = Done () ?c1"
      using True r reg by (auto simp: net_send_def with_rng_Done net_record_dones)
    moreover have "net_ready to ?c1" using assms r(2) by simp
    ultimately show ?thesis by blast
  next
    case False
    obtain c1 where c1: "net_schedule frm to msg ''net.deliver'' None (c\<lparr>rng := r\<rparr>) = Done () c1" "net_ready to c1"
      using net_schedule_ready [of to "c\<lparr>rng := r\<rparr>" frm to msg "''net.deliver''"] assms r(2) by auto
    let ?dup = "duplicate_percent (net_faults c1)"
    have z1: "fair (rng c1)" and d1: "0 \<le> ?dup" "?dup \<le> 100"
      using c1(2) by (auto simp: net_ready_def)
    obtain twice r1 where r1: "chance ?dup (rng c1) = Done twice r1" "fair r1"
      using chance_fair [OF z1 d1] by blast
    obtain c2 where c2: "net_schedule frm to msg ''net.deliver_dup'' None (c1\<lparr>rng := r1\<rparr>) = Done () c2" "net_ready to c2"
      using net_schedule_ready [of to "c1\<lparr>rng := r1\<rparr>" frm to msg "''net.deliver_dup''"] c1(2) r1(2) by auto
    show ?thesis
    proof (cases twice)
      case True
      let ?c3 = "c2\<lparr>trace := trace c2 @ [[(''kind'', JStr ''net.duplicate''), (''tick'', JInt (now c2)),
        (''frm'', JInt frm), (''to'', JInt to), (''msg'', describe_msg c2 msg)]]\<rparr>"
      have "net_record_msg ''net.duplicate'' frm to msg c2 = Done () ?c3"
        by (simp add: net_record_msg_Done)
      with True False r(1) reg c1(1) r1(1) c2(1) have "net_send frm to msg c = Done () ?c3"
        by (simp only: net_send_def ite_def bind_def with_rng_def on_part_def block.simps outcome.case
            if_True if_False not_False_eq_True refl simp_thms)
      moreover have "net_ready to ?c3" using c2(2) by simp
      ultimately show ?thesis by blast
    next
      case no: False
      with False r(1) reg c1(1) r1(1) have "net_send frm to msg c = Done () (c1\<lparr>rng := r1\<rparr>)"
        by (simp only: net_send_def ite_def bind_def with_rng_def on_part_def block.simps outcome.case
            if_True if_False not_False_eq_True refl ret_def simp_thms)
      moreover have "net_ready to (c1\<lparr>rng := r1\<rparr>)" using c1(2) r1(2) by simp
      ultimately show ?thesis by blast
    qed
  qed
qed

text \<open>A network of two nodes, the second of which hangs with one message held, for the witnesses.\<close>

definition example_net :: "(nat, unit, nat, unit) netsim" where
  "example_net = \<lparr>rng = \<lparr>seed = 0, calls = 0, src = (\<lambda>_. 0), pos = 0\<rparr>, queue = empty_queue, now = 0,
     trace = [], header = [], events_run = 0, net_faults = default_network_faults, describe_msg = (\<lambda>_. JNull),
     arrive_action = (\<lambda>_ _ m. m), inboxes = [(1, ()), (2, ())],
     status = [1 \<mapsto> RUNNING, 2 \<mapsto> HUNG], held = [1 \<mapsto> [], 2 \<mapsto> [(1, 7)]],
     partition = None, delivered = 0, dropped = 0\<rparr>"

lemma example_net_ready: "net_ready 1 example_net" "core_wf example_net"
  by (simp_all add: net_ready_def example_net_def core_wf_def zero_stream_fair zero_stream_def default_network_faults_def)

section \<open>Properties\<close>

text \<open>
  What a \<^verbatim>\<open>send\<close> to a registered node does: it changes nothing but the generator, the trace, the
  drop counter and the event queue, to which it adds at most two deliveries of exactly this message,
  each with a latency the profile allows; none if and only if the drop was counted; never none with
  loss switched off, always none with loss at 100 percent, at most one with duplication off.
\<close>

theorem send_effect:
  assumes "core_wf c" and "net_send frm to msg c = Done () c'"
  shows "map_of (inboxes c) to \<noteq> None \<and> core_wf c'
    \<and> c' = c\<lparr>rng := rng c', queue := queue c', trace := trace c', dropped := dropped c'\<rparr>
    \<and> (\<exists>es. set (live (queue c')) = set (live (queue c)) \<union> set es \<and> length es \<le> 2
        \<and> (\<forall>e \<in> set es. ev_action e = arrive_action c frm to msg
            \<and> now c + fst (latency (net_faults c)) \<le> ev_tick e
            \<and> ev_tick e \<le> now c + snd (latency (net_faults c)))
        \<and> dropped c' = dropped c + (if es = [] then 1 else 0)
        \<and> (drop_percent (net_faults c) = 0 \<longrightarrow> es \<noteq> [])
        \<and> (drop_percent (net_faults c) = 100 \<longrightarrow> es = [])
        \<and> (duplicate_percent (net_faults c) = 0 \<longrightarrow> length es \<le> 1))"
  using net_send_Done [OF assms(2,1)] unfolding sent_copies_def delivery_def by blast

theorem send_effect_witness:
  "\<exists>c' e. net_send 2 1 9 example_net = Done () c' \<and> set (live (queue c')) = {e} \<and> ev_action e = 9"
proof -
  obtain c' where s: "net_send 2 1 9 example_net = Done () c'"
    using net_send_ready [OF example_net_ready(1)] by blast
  from send_effect [OF example_net_ready(2) s] obtain es where
    "set (live (queue c')) = set es" "\<forall>e \<in> set es. ev_action e = 9" "es \<noteq> []" "length es \<le> 1"
    by (auto simp: example_net_def default_network_faults_def)
  then show ?thesis using s by (cases es) auto
qed

text \<open>
  A hung node wakes to a burst: setting it running again schedules everything that was held for
  it at the current tick, in arrival order and behind what was already due, and empties the buffer;
  crashing it instead discards the buffer and schedules nothing.
\<close>

theorem wake_up_burst:
  assumes "core_wf c" and "status c n = Some HUNG" and "held c n = Some ms"
    and "net_set_state n st c = Done () c'"
  shows "status c' = (status c)(n := Some st)
    \<and> (st = RUNNING \<longrightarrow> held c' n = Some [] \<and> (\<exists>es. map ev_action es = map (\<lambda>(frm, msg). arrive_action c frm n msg) ms
        \<and> (\<forall>e \<in> set es. ev_tick e = now c)
        \<and> live (queue c') = filter (\<lambda>e. ev_tick e = now c) (live (queue c)) @ es
            @ filter (\<lambda>e. ev_tick e \<noteq> now c) (live (queue c))))
    \<and> (st = CRASHED \<longrightarrow> held c' n = Some [] \<and> queue c' = queue c)"
proof (cases "st = CRASHED")
  case True
  with assms(2,4) show ?thesis by (auto simp: net_set_state_def)
next
  case False
  let ?c = "c\<lparr>status := (status c)(n := Some st)\<rparr>"
  have wf: "core_wf ?c" using assms(1) by simp
  from False assms(2,4) have r: "net_release n ?c = Done () c'" by (simp add: net_set_state_def)
  obtain ms' es where R: "held ?c n = Some ms'" "held c' = (held ?c)(n := Some [])"
    "map ev_action es = map (\<lambda>(frm, msg). arrive_action ?c frm n msg) ms'"
    "\<forall>e \<in> set es. ev_tick e = now ?c \<and> ev_actor e = Some n"
    "live (queue c') = filter (\<lambda>e. ev_tick e = now ?c) (live (queue ?c)) @ es
          @ filter (\<lambda>e. ev_tick e \<noteq> now ?c) (live (queue ?c))"
    "c' = ?c\<lparr>queue := queue c', held := held c', trace := trace c'\<rparr>"
    by (rule net_release_Done [OF r wf])
  have "status c' = (status c)(n := Some st)" by (subst R(6)) simp
  with R(1-5) assms(3) False show ?thesis by auto
qed

theorem wake_up_burst_witness:
  "\<exists>c' e. net_set_state 2 RUNNING example_net = Done () c' \<and> live (queue c') = [e] \<and> ev_action e = 7
     \<and> held c' 2 = Some []"
proof -
  obtain c' where s: "net_set_state 2 RUNNING example_net = Done () c'"
    by (simp add: net_set_state_def net_release_def example_net_def block.simps modify_def net_record_def
        trace_write_def for_each_def net_schedule_def bind_def ret_def clock_after_def with_queue_def
        on_part_def schedule_def Let_def empty_queue_def heappush_def)
  have "status example_net 2 = Some HUNG" "held example_net 2 = Some [(1, 7)]"
    by (simp_all add: example_net_def)
  from wake_up_burst [OF example_net_ready(2) this s] s show ?thesis
    by (auto simp: example_net_def)
qed

text \<open>
  What an arriving message meets: a blocked link or a crashed receiver drops it, a hung receiver
  holds it behind what it already holds, and only a running receiver's callback runs, with the
  sender and message that were sent.
\<close>

theorem arrival_decision:
  assumes "status c to = Some st" and "held c to = Some ms" and "map_of (inboxes c) to = Some h"
  shows "let cut = (\<exists>p. partition c = Some p \<and> blocks p frm to) in
    if cut \<or> st = CRASHED then
      \<exists>c'. net_arrive deliver frm to msg c = Done () c' \<and> dropped c' = dropped c + 1 \<and> queue c' = queue c
        \<and> held c' = held c \<and> status c' = status c
    else if st = HUNG then
      \<exists>c'. net_arrive deliver frm to msg c = Done () c' \<and> held c' = (held c)(to := Some (ms @ [(frm, msg)]))
        \<and> dropped c' = dropped c \<and> queue c' = queue c \<and> status c' = status c
    else net_arrive deliver frm to msg c = deliver h frm msg (c\<lparr>delivered := delivered c + 1\<rparr>)"
  using assms
  by (cases st) (auto simp: net_arrive_def net_drop_arrived_def block.simps modify_def net_record_msg_def
      net_record_def trace_write_def Let_def split: option.splits outcome.splits)

theorem arrival_decision_witness:
  "\<exists>c'. net_arrive (\<lambda>_ _ _. ret ()) 1 2 (8 :: nat) example_net = Done () c' \<and> held c' 2 = Some [(1, 7), (1, 8)]"
proof -
  have "status example_net 2 = Some HUNG" "held example_net 2 = Some [(1, 7)]"
    "map_of (inboxes example_net) 2 = Some ()" by (simp_all add: example_net_def)
  from arrival_decision [OF this, of 1 "\<lambda>_ _ _. ret ()" 8] show ?thesis
    by (auto simp: example_net_def)
qed

end
