(* ===== verification/Py_Bytes.thy ===== *)
theory Py_Bytes
  imports GH_Prelude "HOL-Library.Word"
begin

text \<open>
  The parts of Python's standard library that the on-disk formats are made of: \<^verbatim>\<open>bytes\<close> as lists
  of 8-bit words, big-endian \<^verbatim>\<open>struct\<close> packing with its range checks, strict UTF-8 and
  \<^verbatim>\<open>zlib.crc32\<close>. The lemmas are their round trips and lengths.
\<close>

unbundle bit_operations_syntax

type_synonym byte = "8 word"
type_synonym bytes = "byte list"

section \<open>Big-endian integers (struct)\<close>

fun be_bytes :: "nat \<Rightarrow> nat \<Rightarrow> bytes" where
  "be_bytes 0 n = []"
| "be_bytes (Suc k) n = be_bytes k (n div 256) @ [of_nat n]"

definition be_val :: "bytes \<Rightarrow> nat" where
  "be_val bs = foldl (\<lambda>a b. a * 256 + unat b) 0 bs"

text \<open>\<^verbatim>\<open>struct.pack\<close> of one unsigned field of \<open>k\<close> bytes; a value out of range is a
  \<^verbatim>\<open>struct.error\<close>.\<close>

definition pack_field :: "nat \<Rightarrow> int \<Rightarrow> exn + bytes" where
  "pack_field k i = (if 0 \<le> i \<and> i < 256 ^ k then Inr (be_bytes k (nat i)) else Inl StructError)"

fun pack_fields :: "(nat \<times> int) list \<Rightarrow> exn + bytes" where
  "pack_fields [] = Inr []"
| "pack_fields ((k, i) # fs) =
     (case pack_field k i of Inl e \<Rightarrow> Inl e
      | Inr bs \<Rightarrow> (case pack_fields fs of Inl e \<Rightarrow> Inl e | Inr r \<Rightarrow> Inr (bs @ r)))"

text \<open>\<^verbatim>\<open>unpack_from(data, offset)\<close>: the fields of the given widths, or \<^verbatim>\<open>struct.error\<close> when the
  buffer is too short.\<close>

fun split_fields :: "nat list \<Rightarrow> bytes \<Rightarrow> int list" where
  "split_fields [] bs = []"
| "split_fields (k # ks) bs = int (be_val (take k bs)) # split_fields ks (drop k bs)"

definition unpack_from :: "nat list \<Rightarrow> bytes \<Rightarrow> nat \<Rightarrow> exn + int list" where
  "unpack_from ks bs off =
     (if off + sum_list ks \<le> length bs then Inr (split_fields ks (drop off bs)) else Inl StructError)"

lemma length_be_bytes [simp]: "length (be_bytes k n) = k"
  by (induction k arbitrary: n) auto

lemma be_val_append_one: "be_val (bs @ [b]) = be_val bs * 256 + unat b"
  by (simp add: be_val_def)

lemma unat_byte_of_nat: "unat (of_nat n :: byte) = n mod 256"
  by (simp add: unat_of_nat)

lemma be_val_be_bytes: "be_val (be_bytes k n) = n mod 256 ^ k"
proof (induction k arbitrary: n)
  case 0
  then show ?case by (simp add: be_val_def)
next
  case (Suc k)
  have "be_val (be_bytes (Suc k) n) = (n div 256) mod 256 ^ k * 256 + n mod 256"
    by (simp add: be_val_append_one Suc.IH unat_byte_of_nat)
  also have "\<dots> = n mod 256 ^ Suc k"
    by (simp add: mod_mult2_eq)
  finally show ?case .
qed

lemma be_val_be_bytes_id [simp]: "n < 256 ^ k \<Longrightarrow> be_val (be_bytes k n) = n"
  by (simp add: be_val_be_bytes)

lemma be_val_bound: "be_val bs < 256 ^ length bs"
proof (induction bs rule: rev_induct)
  case Nil
  then show ?case by (simp add: be_val_def)
next
  case (snoc b bs)
  have "unat b < 256" using unsigned_less [of b] by simp
  then have "be_val bs * 256 + unat b < (be_val bs + 1) * 256" by simp
  also have "\<dots> \<le> 256 ^ length bs * 256" using snoc.IH by (intro mult_right_mono) auto
  finally show ?case by (simp add: be_val_append_one)
qed

lemma pack_field_ok: "pack_field k i = Inr bs \<Longrightarrow> length bs = k \<and> int (be_val bs) = i"
  by (auto simp: pack_field_def nat_less_iff split: if_splits)

lemma pack_field_total: "0 \<le> i \<Longrightarrow> i < 256 ^ k \<Longrightarrow> \<exists>bs. pack_field k i = Inr bs"
  by (simp add: pack_field_def)

lemma pack_fields_length: "pack_fields fs = Inr bs \<Longrightarrow> length bs = sum_list (map fst fs)"
  by (induction fs arbitrary: bs rule: pack_fields.induct)
    (auto split: sum.splits dest!: pack_field_ok)

lemma split_pack_fields:
  "pack_fields fs = Inr bs \<Longrightarrow> split_fields (map fst fs) (bs @ r) = map snd fs"
  by (induction fs arbitrary: bs rule: pack_fields.induct)
    (auto split: sum.splits dest!: pack_field_ok)

text \<open>What was packed is what is unpacked, wherever the packed bytes stand in the buffer.\<close>

lemma unpack_pack_fields:
  assumes "pack_fields fs = Inr bs" and "ks = map fst fs" and "length pre = off"
  shows "unpack_from ks (pre @ bs @ r) off = Inr (map snd fs)"
  using assms pack_fields_length [OF assms(1)] split_pack_fields [OF assms(1)]
  by (simp add: unpack_from_def)

lemma pack_fields_total:
  assumes "\<forall>(k, i) \<in> set fs. 0 \<le> i \<and> i < 256 ^ k"
  shows "\<exists>bs. pack_fields fs = Inr bs"
  using assms by (induction fs rule: pack_fields.induct) (auto simp: pack_field_def)

section \<open>UTF-8\<close>

definition is_scalar :: "nat \<Rightarrow> bool" where
  "is_scalar c \<longleftrightarrow> c < 0xD800 \<or> (0xE000 \<le> c \<and> c \<le> 0x10FFFF)"

definition utf8_char :: "nat \<Rightarrow> nat list" where
  "utf8_char c =
     (if c < 0x80 then [c]
      else if c < 0x800 then [0xC0 + c div 64, 0x80 + c mod 64]
      else if c < 0x10000 then [0xE0 + c div 4096, 0x80 + c div 64 mod 64, 0x80 + c mod 64]
      else [0xF0 + c div 262144, 0x80 + c div 4096 mod 64, 0x80 + c div 64 mod 64, 0x80 + c mod 64])"

definition utf8_encode :: "pystr \<Rightarrow> exn + bytes" where
  "utf8_encode s =
     (if list_all is_scalar s then Inr (map of_nat (concat (map utf8_char s))) else Inl UnicodeError)"

definition cont :: "nat \<Rightarrow> bool" where
  "cont b \<longleftrightarrow> 0x80 \<le> b \<and> b < 0xC0"

text \<open>One character of the strict decoder: no overlong form, no surrogate, nothing above
  U+10FFFF.\<close>

fun utf8_step :: "nat list \<Rightarrow> (nat \<times> nat list) option" where
  "utf8_step [] = None"
| "utf8_step (b # bs) =
     (if b < 0x80 then Some (b, bs)
      else if b < 0xE0 then
        (case bs of b1 # r \<Rightarrow>
           let c = (b - 0xC0) * 64 + (b1 - 0x80)
           in if 0xC0 \<le> b \<and> cont b1 \<and> 0x80 \<le> c then Some (c, r) else None
         | _ \<Rightarrow> None)
      else if b < 0xF0 then
        (case bs of b1 # b2 # r \<Rightarrow>
           let c = (b - 0xE0) * 4096 + (b1 - 0x80) * 64 + (b2 - 0x80)
           in if cont b1 \<and> cont b2 \<and> 0x800 \<le> c \<and> is_scalar c then Some (c, r) else None
         | _ \<Rightarrow> None)
      else
        (case bs of b1 # b2 # b3 # r \<Rightarrow>
           let c = (b - 0xF0) * 262144 + (b1 - 0x80) * 4096 + (b2 - 0x80) * 64 + (b3 - 0x80)
           in if cont b1 \<and> cont b2 \<and> cont b3 \<and> 0x10000 \<le> c \<and> is_scalar c then Some (c, r) else None
         | _ \<Rightarrow> None))"

lemma utf8_step_shorter: "utf8_step bs = Some (c, r) \<Longrightarrow> length r < length bs"
  by (cases bs) (auto simp: Let_def split: if_splits list.splits)

function utf8_decode_nats :: "nat list \<Rightarrow> exn + pystr" where
  "utf8_decode_nats bs =
     (if bs = [] then Inr []
      else case utf8_step bs of None \<Rightarrow> Inl UnicodeError
        | Some (c, r) \<Rightarrow> (case utf8_decode_nats r of Inl e \<Rightarrow> Inl e | Inr s \<Rightarrow> Inr (c # s)))"
  by pat_completeness auto
termination
  by (relation "measure length") (auto dest: utf8_step_shorter)

declare utf8_decode_nats.simps [simp del]

definition utf8_decode :: "bytes \<Rightarrow> exn + pystr" where
  "utf8_decode bs = utf8_decode_nats (map unat bs)"

lemma utf8_char_not_Nil: "utf8_char c \<noteq> []"
  by (simp add: utf8_char_def)

lemma utf8_char_bytes: "is_scalar c \<Longrightarrow> b \<in> set (utf8_char c) \<Longrightarrow> b < 256"
  by (auto simp: utf8_char_def is_scalar_def split: if_splits)

lemma digits64:
  fixes c :: nat
  shows "c = c div 64 * 64 + c mod 64"
    and "c = c div 4096 * 4096 + c div 64 mod 64 * 64 + c mod 64"
    and "c = c div 262144 * 262144 + c div 4096 mod 64 * 4096 + c div 64 mod 64 * 64 + c mod 64"
proof -
  have d: "c div 4096 = c div 64 div 64" "c div 262144 = c div 64 div 64 div 64"
    by (simp_all flip: div_mult2_eq)
  note m = div_mult_mod_eq [of c 64] div_mult_mod_eq [of "c div 64" 64]
    div_mult_mod_eq [of "c div 64 div 64" 64]
  show "c = c div 64 * 64 + c mod 64" using m(1) by simp
  show "c = c div 4096 * 4096 + c div 64 mod 64 * 64 + c mod 64"
    unfolding d using m(1,2) by linarith
  show "c = c div 262144 * 262144 + c div 4096 mod 64 * 4096 + c div 64 mod 64 * 64 + c mod 64"
    unfolding d using m by linarith
qed

lemma utf8_step_digits:
  "x < 32 \<Longrightarrow> y < 64 \<Longrightarrow> 0x80 \<le> x * 64 + y \<Longrightarrow>
     utf8_step ((0xC0 + x) # (0x80 + y) # r) = Some (x * 64 + y, r)"
  "x < 16 \<Longrightarrow> y < 64 \<Longrightarrow> z < 64 \<Longrightarrow> 0x800 \<le> x * 4096 + y * 64 + z \<Longrightarrow>
     is_scalar (x * 4096 + y * 64 + z) \<Longrightarrow>
     utf8_step ((0xE0 + x) # (0x80 + y) # (0x80 + z) # r) = Some (x * 4096 + y * 64 + z, r)"
  "y < 64 \<Longrightarrow> z < 64 \<Longrightarrow> w < 64 \<Longrightarrow> 0x10000 \<le> x * 262144 + y * 4096 + z * 64 + w \<Longrightarrow>
     is_scalar (x * 262144 + y * 4096 + z * 64 + w) \<Longrightarrow>
     utf8_step ((0xF0 + x) # (0x80 + y) # (0x80 + z) # (0x80 + w) # r)
       = Some (x * 262144 + y * 4096 + z * 64 + w, r)"
  by (simp_all add: cont_def)

lemma utf8_step_char:
  assumes "is_scalar c"
  shows "utf8_step (utf8_char c @ r) = Some (c, r)"
proof -
  note d = digits64 [of c, symmetric]
  have m: "c mod 64 < 64" "c div 64 mod 64 < 64" "c div 4096 mod 64 < 64" by simp_all
  consider "c < 0x80" | "0x80 \<le> c" "c < 0x800" | "0x800 \<le> c" "c < 0x10000" | "0x10000 \<le> c"
    by linarith
  then show ?thesis
  proof cases
    case 1
    then show ?thesis by (simp add: utf8_char_def)
  next
    case 2
    then have "c div 64 < 32" by (simp add: div_less_iff_less_mult)
    with 2 utf8_step_digits(1) [of "c div 64" "c mod 64" r] show ?thesis
      unfolding d(1) by (simp add: utf8_char_def)
  next
    case 3
    then have "c div 4096 < 16" by (simp add: div_less_iff_less_mult)
    with 3 m assms utf8_step_digits(2) [of "c div 4096" "c div 64 mod 64" "c mod 64" r] show ?thesis
      unfolding d(2) by (simp add: utf8_char_def)
  next
    case 4
    with m assms utf8_step_digits(3)
      [of "c div 4096 mod 64" "c div 64 mod 64" "c mod 64" "c div 262144" r]
    show ?thesis unfolding d(3) by (simp add: utf8_char_def)
  qed
qed

lemma utf8_nats_roundtrip:
  "list_all is_scalar s \<Longrightarrow> utf8_decode_nats (concat (map utf8_char s)) = Inr s"
proof (induction s)
  case Nil
  then show ?case by (simp add: utf8_decode_nats.simps)
next
  case (Cons c s)
  then have "utf8_decode_nats (concat (map utf8_char s)) = Inr s" by simp
  with Cons.prems show ?case
    by (subst utf8_decode_nats.simps) (simp add: utf8_step_char utf8_char_not_Nil)
qed

lemma utf8_roundtrip: "utf8_encode s = Inr bs \<Longrightarrow> utf8_decode bs = Inr s"
proof -
  assume enc: "utf8_encode s = Inr bs"
  then have sc: "list_all is_scalar s" and bs: "bs = map of_nat (concat (map utf8_char s))"
    by (auto simp: utf8_encode_def split: if_splits)
  have "unat (of_nat n :: byte) = n" if "n \<in> set (concat (map utf8_char s))" for n
    using that sc by (auto simp: unat_byte_of_nat list_all_iff intro!: mod_less dest: utf8_char_bytes)
  then have "map (\<lambda>n. unat (of_nat n :: byte)) (concat (map utf8_char s)) = concat (map utf8_char s)"
    by (rule map_idI)
  then show ?thesis
    using sc by (simp add: utf8_decode_def bs utf8_nats_roundtrip comp_def del: map_concat)
qed

section \<open>CRC-32\<close>

text \<open>\<^verbatim>\<open>zlib.crc32\<close>: the reflected polynomial 0xEDB88320, one bit at a time, initial and final
  complement.\<close>

definition crc_bit :: "32 word \<Rightarrow> 32 word" where
  "crc_bit c = (if bit c 0 then drop_bit 1 c XOR 0xEDB88320 else drop_bit 1 c)"

definition crc_byte :: "32 word \<Rightarrow> byte \<Rightarrow> 32 word" where
  "crc_byte c b = (crc_bit ^^ 8) (c XOR ucast b)"

definition crc32 :: "bytes \<Rightarrow> int" where
  "crc32 bs = uint (NOT (foldl crc_byte (NOT 0) bs))"

lemma crc32_range: "0 \<le> crc32 bs \<and> crc32 bs < 256 ^ 4"
  using uint_lt2p [of "NOT (foldl crc_byte (NOT 0) bs)"] by (simp add: crc32_def)

end
