(* ===== verification/Codec.thy ===== *)
theory Codec
  imports Py_Bytes
begin

text \<open>
  The write-ahead log framing of \<^verbatim>\<open>groundhog/codec.py\<close>: \<open>[u32 length][u32 crc32][payload]\<close>.
  \<open>encode_record\<close> and \<open>encode_records\<close> build an image, \<open>decode_records\<close> reads the longest prefix of
  whole, checksummed records. The main results: decoding inverts encoding, and an image cut at any
  byte decodes to the records that lie wholly before the cut.
\<close>

section \<open>Definitions\<close>

definition HEADER_SIZE :: nat where "HEADER_SIZE = 8"
definition LENGTH_SIZE :: nat where "LENGTH_SIZE = 4"
definition MAX_RECORD_SIZE :: int where "MAX_RECORD_SIZE = 2 ^ 26"

record scan =
  records :: "bytes list"
  offsets :: "nat list"
  valid_bytes :: nat
  discarded_bytes :: nat

definition is_torn :: "scan \<Rightarrow> bool" where
  "is_torn s \<longleftrightarrow> discarded_bytes s > 0"

definition encode_record :: "bytes \<Rightarrow> exn + bytes" where
  "encode_record payload =
     (if int (length payload) > MAX_RECORD_SIZE then Inl ValueError
      else case pack_fields [(4, int (length payload))] of Inl e \<Rightarrow> Inl e
        | Inr len \<Rightarrow>
            (case pack_fields [(4, int (length payload)), (4, crc32 (len @ payload))] of Inl e \<Rightarrow> Inl e
             | Inr header \<Rightarrow> Inr (header @ payload)))"

fun encode_records :: "bytes list \<Rightarrow> exn + bytes" where
  "encode_records [] = Inr []"
| "encode_records (p # ps) =
     (case encode_record p of Inl e \<Rightarrow> Inl e
      | Inr b \<Rightarrow> (case encode_records ps of Inl e \<Rightarrow> Inl e | Inr bs \<Rightarrow> Inr (b @ bs)))"

text \<open>One turn of the loop of \<^verbatim>\<open>decode_records\<close>: the record that starts at \<open>offset\<close>, and where the
  next one starts; \<open>None\<close> is a \<^verbatim>\<open>break\<close>.\<close>

definition read_record :: "bytes \<Rightarrow> nat \<Rightarrow> (bytes \<times> nat) option" where
  "read_record data offset =
     (case unpack_from [4, 4] data offset of
        Inr [len, checksum] \<Rightarrow>
          if len > MAX_RECORD_SIZE then None
          else let end = offset + HEADER_SIZE + nat len in
            if end > length data then None
            else let payload = drop (offset + HEADER_SIZE) (take end data) in
              if crc32 (drop offset (take (offset + LENGTH_SIZE) data) @ payload) \<noteq> checksum then None
              else Some (payload, end)
      | _ \<Rightarrow> None)"

lemma read_record_progress: "read_record data offset = Some (p, end) \<Longrightarrow> offset < end \<and> end \<le> length data"
  by (auto simp: read_record_def HEADER_SIZE_def Let_def split: sum.splits list.splits if_splits)

function decode_loop :: "bytes \<Rightarrow> nat \<Rightarrow> bytes list \<Rightarrow> nat list \<Rightarrow> scan" where
  "decode_loop data offset recs offs =
     (if offset + HEADER_SIZE \<le> length data then
        (case read_record data offset of
           Some (payload, end) \<Rightarrow> decode_loop data end (recs @ [payload]) (offs @ [offset])
         | None \<Rightarrow> \<lparr>records = recs, offsets = offs, valid_bytes = offset,
                    discarded_bytes = length data - offset\<rparr>)
      else \<lparr>records = recs, offsets = offs, valid_bytes = offset,
             discarded_bytes = length data - offset\<rparr>)"
  by pat_completeness auto
termination
  by (relation "measure (\<lambda>(data, offset, _, _). length data - offset)")
    (auto dest!: read_record_progress)

declare decode_loop.simps [simp del]

definition decode_records :: "bytes \<Rightarrow> scan" where
  "decode_records data = decode_loop data 0 [] []"

section \<open>One record\<close>

lemma encode_record_shape:
  assumes "encode_record p = Inr b"
  obtains header where "b = header @ p" "length header = HEADER_SIZE"
    "pack_fields [(4, int (length p)), (4, crc32 (be_bytes 4 (length p) @ p))] = Inr header"
    "take LENGTH_SIZE header = be_bytes 4 (length p)" "int (length p) \<le> MAX_RECORD_SIZE"
proof -
  from assms have le: "int (length p) \<le> MAX_RECORD_SIZE"
    by (simp add: encode_record_def split: if_splits)
  then have len: "pack_fields [(4, int (length p))] = Inr (be_bytes 4 (length p))"
    by (simp add: pack_field_def MAX_RECORD_SIZE_def)
  from assms le len obtain header where h:
    "pack_fields [(4, int (length p)), (4, crc32 (be_bytes 4 (length p) @ p))] = Inr header"
    "b = header @ p"
    by (auto simp: encode_record_def split: sum.splits)
  from h(1) len have "take LENGTH_SIZE header = be_bytes 4 (length p)"
    by (auto simp: LENGTH_SIZE_def pack_field_def split: sum.splits if_splits)
  with h le pack_fields_length [OF h(1)] that show thesis
    by (simp add: HEADER_SIZE_def)
qed

lemma encode_record_total: "int (length p) \<le> MAX_RECORD_SIZE \<Longrightarrow> \<exists>b. encode_record p = Inr b"
  using crc32_range by (simp add: encode_record_def pack_field_def MAX_RECORD_SIZE_def)

lemma encode_record_error: "MAX_RECORD_SIZE < int (length p) \<Longrightarrow> encode_record p = Inl ValueError"
  by (simp add: encode_record_def)

lemma length_encode_record: "encode_record p = Inr b \<Longrightarrow> length b = HEADER_SIZE + length p"
  by (elim encode_record_shape) simp

text \<open>Reading at the start of an encoded record gives it back, whatever stands around it.\<close>

lemma read_record_encoded:
  assumes "encode_record p = Inr b"
  shows "read_record (pre @ b @ r) (length pre) = Some (p, length pre + length b)"
proof -
  from assms obtain header where h: "b = header @ p" "length header = HEADER_SIZE"
    "pack_fields [(4, int (length p)), (4, crc32 (be_bytes 4 (length p) @ p))] = Inr header"
    "take LENGTH_SIZE header = be_bytes 4 (length p)" "int (length p) \<le> MAX_RECORD_SIZE"
    by (rule encode_record_shape)
  have u: "unpack_from [4, 4] (pre @ header @ p @ r) (length pre)
      = Inr [int (length p), crc32 (be_bytes 4 (length p) @ p)]"
    using unpack_pack_fields [OF h(3), of "[4, 4]" pre "length pre" "p @ r"] by simp
  show ?thesis
    using h(2,4,5) u by (simp add: read_record_def h(1) Let_def LENGTH_SIZE_def HEADER_SIZE_def)
qed

text \<open>A record cut short is never read: the length field says how much is missing.\<close>

lemma read_record_cut:
  assumes "encode_record p = Inr b" and "k < length b"
  shows "read_record (pre @ take k b) (length pre) = None"
proof (cases "k < HEADER_SIZE")
  case True
  then show ?thesis
    using assms(2) by (simp add: read_record_def unpack_from_def HEADER_SIZE_def)
next
  case False
  from assms(1) obtain header where h: "b = header @ p" "length header = HEADER_SIZE"
    "pack_fields [(4, int (length p)), (4, crc32 (be_bytes 4 (length p) @ p))] = Inr header"
    by (rule encode_record_shape)
  with False have t: "take k b = header @ take (k - HEADER_SIZE) p" by simp
  have u: "unpack_from [4, 4] (pre @ header @ take (k - HEADER_SIZE) p) (length pre)
      = Inr [int (length p), crc32 (be_bytes 4 (length p) @ p)]"
    using unpack_pack_fields [OF h(3), of "[4, 4]" pre "length pre" "take (k - HEADER_SIZE) p"] by simp
  show ?thesis
    unfolding t read_record_def u using h(1,2) assms(2) False by (auto simp: Let_def)
qed

section \<open>Whole images\<close>

lemma decode_loop_step:
  assumes "encode_record p = Inr b"
  shows "decode_loop (pre @ b @ r) (length pre) recs offs
    = decode_loop (pre @ b @ r) (length pre + length b) (recs @ [p]) (offs @ [length pre])"
  using read_record_encoded [OF assms, of pre r] length_encode_record [OF assms]
  by (subst decode_loop.simps) simp

fun record_offsets :: "nat \<Rightarrow> bytes list \<Rightarrow> nat list" where
  "record_offsets off [] = []"
| "record_offsets off (p # ps) = off # record_offsets (off + HEADER_SIZE + length p) ps"

lemma length_record_offsets [simp]: "length (record_offsets off ps) = length ps"
  by (induction ps arbitrary: off) auto

lemma decode_loop_records:
  assumes "encode_records ps = Inr bs"
  shows "decode_loop (pre @ bs @ r) (length pre) recs offs
    = decode_loop (pre @ bs @ r) (length pre + length bs) (recs @ ps) (offs @ record_offsets (length pre) ps)"
  using assms
proof (induction ps arbitrary: pre bs recs offs)
  case Nil
  then show ?case by simp
next
  case (Cons p ps)
  from Cons.prems obtain b bs' where b: "encode_record p = Inr b"
    and bs': "encode_records ps = Inr bs'" and bs: "bs = b @ bs'"
    by (auto split: sum.splits)
  show ?case
    using decode_loop_step [OF b, of pre "bs' @ r" recs offs]
      Cons.IH [OF bs', of "pre @ b" "recs @ [p]" "offs @ [length pre]"]
    by (simp add: bs length_encode_record [OF b] add.assoc)
qed

text \<open>The longest run of whole records within the first \<open>n\<close> bytes.\<close>

fun whole_within :: "nat \<Rightarrow> bytes list \<Rightarrow> bytes list" where
  "whole_within n [] = []"
| "whole_within n (p # ps) =
     (if HEADER_SIZE + length p \<le> n then p # whole_within (n - (HEADER_SIZE + length p)) ps else [])"

fun image_size :: "bytes list \<Rightarrow> nat" where
  "image_size [] = 0"
| "image_size (p # ps) = HEADER_SIZE + length p + image_size ps"

lemma image_size_append [simp]: "image_size (ps @ qs) = image_size ps + image_size qs"
  by (induction ps) auto

lemma length_encode_records: "encode_records ps = Inr bs \<Longrightarrow> length bs = image_size ps"
  by (induction ps arbitrary: bs) (auto split: sum.splits dest: length_encode_record)

lemma whole_within_prefix: "\<exists>rest. ps = whole_within n ps @ rest"
  by (induction n ps rule: whole_within.induct) auto

lemma whole_within_all: "image_size ps \<le> n \<Longrightarrow> whole_within n ps = ps"
  by (induction n ps rule: whole_within.induct) auto

lemma whole_within_size: "image_size (whole_within n ps) \<le> n"
  by (induction n ps rule: whole_within.induct) auto

lemma whole_within_append:
  "whole_within (image_size ps + k) (ps @ qs) = ps @ whole_within k qs"
  by (induction ps) (auto simp: add.assoc)

lemma encode_records_append:
  "encode_records (ps @ qs) =
     (case encode_records ps of Inl e \<Rightarrow> Inl e
      | Inr a \<Rightarrow> (case encode_records qs of Inl e \<Rightarrow> Inl e | Inr b \<Rightarrow> Inr (a @ b)))"
  by (induction ps) (auto split: sum.splits)

lemma encode_records_total:
  "\<forall>p \<in> set ps. int (length p) \<le> MAX_RECORD_SIZE \<Longrightarrow> \<exists>bs. encode_records ps = Inr bs"
  using encode_record_total by (induction ps) fastforce+

lemma encode_records_error:
  "p \<in> set ps \<Longrightarrow> MAX_RECORD_SIZE < int (length p) \<Longrightarrow> encode_records ps = Inl ValueError"
proof (induction ps)
  case Nil
  then show ?case by simp
next
  case (Cons q ps)
  have "encode_record q = Inl ValueError \<or> (\<exists>b. encode_record q = Inr b)"
    by (cases "int (length q) \<le> MAX_RECORD_SIZE")
      (simp_all add: encode_record_total encode_record_error)
  with Cons show ?case by (auto simp: encode_record_error split: sum.splits)
qed

text \<open>An image cut at byte \<open>k\<close> decodes to the whole records before the cut.\<close>

lemma decode_loop_cut:
  assumes "encode_records ps = Inr bs"
  shows "records (decode_loop (pre @ take k bs) (length pre) recs offs) = recs @ whole_within k ps
    \<and> valid_bytes (decode_loop (pre @ take k bs) (length pre) recs offs)
        = length pre + image_size (whole_within k ps)
    \<and> offsets (decode_loop (pre @ take k bs) (length pre) recs offs)
        = offs @ record_offsets (length pre) (whole_within k ps)"
  using assms
proof (induction ps arbitrary: pre k bs recs offs)
  case Nil
  then show ?case by (subst (1 2 3) decode_loop.simps) (simp add: HEADER_SIZE_def)
next
  case (Cons p ps)
  from Cons.prems obtain b bs' where b: "encode_record p = Inr b"
    and bs': "encode_records ps = Inr bs'" and bs: "bs = b @ bs'"
    by (auto split: sum.splits)
  note len = length_encode_record [OF b]
  show ?case
  proof (cases "length b \<le> k")
    case True
    then have t: "take k bs = b @ take (k - length b) bs'" by (simp add: bs)
    show ?thesis
      using True decode_loop_step [OF b, of pre "take (k - length b) bs'" recs offs]
        Cons.IH [OF bs', of "pre @ b" "k - length b" "recs @ [p]" "offs @ [length pre]"]
      by (simp add: t len add.assoc)
  next
    case False
    then have t: "take k bs = take k b" by (simp add: bs)
    show ?thesis
      using False read_record_cut [OF b, of k pre]
      unfolding t by (subst (1 2 3) decode_loop.simps) (simp add: len)
  qed
qed

lemma decode_records_cut:
  assumes "encode_records ps = Inr bs"
  shows "records (decode_records (take k bs)) = whole_within k ps"
    and "valid_bytes (decode_records (take k bs)) = image_size (whole_within k ps)"
    and "offsets (decode_records (take k bs)) = record_offsets 0 (whole_within k ps)"
  using decode_loop_cut [OF assms, of "[]" k "[]" "[]"] by (auto simp: decode_records_def)

lemma decode_encode_records:
  assumes "encode_records ps = Inr bs"
  shows "records (decode_records bs) = ps" and "valid_bytes (decode_records bs) = length bs"
    and "offsets (decode_records bs) = record_offsets 0 ps"
  using decode_records_cut [OF assms, of "length bs"]
  by (simp_all add: whole_within_all length_encode_records [OF assms])

section \<open>Any bytes\<close>

text \<open>What \<open>decode_records\<close> returns on arbitrary bytes: the valid prefix and the discarded rest make
  up the image, and the valid prefix decodes to the same records with nothing discarded.\<close>

lemma decode_loop_bounds:
  "offset \<le> length data \<Longrightarrow> offset \<le> valid_bytes (decode_loop data offset recs offs)
     \<and> valid_bytes (decode_loop data offset recs offs) \<le> length data
     \<and> discarded_bytes (decode_loop data offset recs offs)
         = length data - valid_bytes (decode_loop data offset recs offs)"
proof (induction data offset recs offs rule: decode_loop.induct)
  case (1 data offset recs offs)
  show ?case
    using "1.IH" "1.prems"
    by (subst (1 2 3 4) decode_loop.simps)
      (fastforce split: option.splits dest: read_record_progress)
qed

lemma decode_records_bounds:
  "valid_bytes (decode_records data) \<le> length data"
  "discarded_bytes (decode_records data) = length data - valid_bytes (decode_records data)"
  using decode_loop_bounds [of 0 data "[]" "[]"] by (auto simp: decode_records_def)

lemma be_bytes_be_val: "be_bytes (length bs) (be_val bs) = bs"
proof (induction bs rule: rev_induct)
  case Nil
  then show ?case by simp
next
  case (snoc b bs)
  have "unat b < 256" using unsigned_less [of b] by simp
  then have "(be_val bs * 256 + unat b) div 256 = be_val bs" by simp
  moreover have "of_nat (be_val bs * 256 + unat b) = b"
    by (subst word_unat_eq_iff, subst unat_byte_of_nat) (use \<open>unat b < 256\<close> in simp)
  ultimately show ?case using snoc by (simp add: be_val_append_one del: of_nat_add of_nat_mult)
qed

lemma pack_field_be_val: "length bs = k \<Longrightarrow> pack_field k (int (be_val bs)) = Inr bs"
  using be_val_bound [of bs] be_bytes_be_val [of bs] by (auto simp: pack_field_def simp flip: of_nat_power)

text \<open>A record that was read is the encoding of its payload.\<close>

lemma read_record_encodes:
  assumes "read_record data off = Some (p, end)"
  shows "encode_record p = Inr (take (end - off) (drop off data))"
proof -
  define bs where "bs = drop off data"
  define l c where "l = take 4 bs" and "c = take 4 (drop 4 bs)"
  from assms have len: "off + HEADER_SIZE \<le> length data" and max: "int (be_val l) \<le> MAX_RECORD_SIZE"
    and "end": "end = off + HEADER_SIZE + be_val l" "end \<le> length data"
    and p: "p = drop (off + HEADER_SIZE) (take end data)"
    and crc: "crc32 (drop off (take (off + LENGTH_SIZE) data) @ p) = int (be_val c)"
    by (auto simp: read_record_def unpack_from_def HEADER_SIZE_def Let_def l_def c_def bs_def split: if_splits)
  have lens: "length l = 4" "length c = 4" "length p = be_val l"
    using len "end" by (simp_all add: l_def c_def bs_def p HEADER_SIZE_def)
  have "drop off (take (off + LENGTH_SIZE) data) = l"
    by (simp add: l_def bs_def LENGTH_SIZE_def drop_take)
  with crc max lens have "encode_record p = Inr (l @ c @ p)"
    by (simp add: encode_record_def pack_field_be_val)
  moreover have "take (end - off) (drop off data) = l @ c @ p"
  proof -
    have "p = take (be_val l) (drop 8 bs)"
      using "end" by (simp add: p bs_def HEADER_SIZE_def drop_take add.commute)
    moreover have "take (end - off) (drop off data) = take (4 + (4 + be_val l)) bs"
      using "end" by (simp add: bs_def HEADER_SIZE_def)
    ultimately show ?thesis by (simp only: take_add drop_drop l_def c_def) simp
  qed
  ultimately show ?thesis by simp
qed

lemma record_offsets_append: "record_offsets off (rs @ us) = record_offsets off rs @ record_offsets (off + image_size rs) us"
  by (induction rs arbitrary: off) (simp_all add: add.assoc)

lemma decode_loop_canonical:
  assumes "off \<le> length data" and "encode_records recs = Inr (take off data)" and "offs = record_offsets 0 recs"
  shows "encode_records (records (decode_loop data off recs offs)) = Inr (take (valid_bytes (decode_loop data off recs offs)) data)
    \<and> offsets (decode_loop data off recs offs) = record_offsets 0 (records (decode_loop data off recs offs))"
  using assms
proof (induction data off recs offs rule: decode_loop.induct)
  case (1 data off recs offs)
  show ?case
  proof (cases "off + HEADER_SIZE \<le> length data \<and> read_record data off \<noteq> None")
    case False
    with "1.prems" show ?thesis by (subst (1 2 3 4) decode_loop.simps) (auto split: option.splits)
  next
    case True
    then obtain p e where r: "off + HEADER_SIZE \<le> length data" "read_record data off = Some (p, e)" by auto
    have e: "off < e" "e \<le> length data" using read_record_progress [OF r(2)] by auto
    have "encode_records (recs @ [p]) = Inr (take off data @ take (e - off) (drop off data))"
      using "1.prems"(2) read_record_encodes [OF r(2)] by (simp add: encode_records_append)
    also have "take off data @ take (e - off) (drop off data) = take e data"
      using e by (simp flip: take_add)
    finally have enc: "encode_records (recs @ [p]) = Inr (take e data)" .
    have "off = image_size recs" using length_encode_records [OF "1.prems"(2)] "1.prems"(1) by simp
    then have offs: "offs @ [off] = record_offsets 0 (recs @ [p])"
      using "1.prems"(3) by (simp add: record_offsets_append)
    show ?thesis
      using "1.IH" [OF r refl e(2) enc offs] r by (subst (1 2 3 4) decode_loop.simps) simp
  qed
qed

lemma decode_records_canonical:
  "encode_records (records (decode_records data)) = Inr (take (valid_bytes (decode_records data)) data)"
  "offsets (decode_records data) = record_offsets 0 (records (decode_records data))"
  using decode_loop_canonical [of 0 data "[]" "[]"] by (auto simp: decode_records_def)

section \<open>Properties\<close>

text \<open>
  C28. Decoding an image that \<^verbatim>\<open>encode_records\<close> has written gives back the records, all of it is valid
  and nothing is discarded.
\<close>

theorem codec_round_trip:
  assumes "encode_records ps = Inr bs"
  shows "records (decode_records bs) = ps \<and> valid_bytes (decode_records bs) = length bs
    \<and> \<not> is_torn (decode_records bs)"
  using decode_encode_records [OF assms] decode_records_bounds(2) [of bs] by (simp add: is_torn_def)

theorem codec_round_trip_witness:
  "records (decode_records (case encode_records [[1, 2, 3], [7]] of Inr bs \<Rightarrow> bs)) = [[1, 2, 3], [7 :: 8 word]]"
proof -
  obtain bs where bs: "encode_records [[1, 2, 3], [7 :: 8 word]] = Inr bs"
    using encode_records_total [of "[[1, 2, 3], [7]]"] by (auto simp: MAX_RECORD_SIZE_def)
  show ?thesis using codec_round_trip [OF bs] by (simp only: bs sum.case)
qed

text \<open>
  C27. A torn image: whatever byte a written image is cut at, scanning it returns a prefix of the
  records written, namely those that lie wholly before the cut, and reports the rest as discarded.
\<close>

theorem torn_image_is_prefix:
  assumes "encode_records ps = Inr bs" and "k \<le> length bs"
  shows "\<exists>n. records (decode_records (take k bs)) = take n ps
    \<and> image_size (take n ps) \<le> k \<and> (n < length ps \<longrightarrow> k < image_size (take (Suc n) ps))
    \<and> discarded_bytes (decode_records (take k bs)) = k - image_size (take n ps)"
proof -
  have "\<exists>n. whole_within k ps = take n ps \<and> (n < length ps \<longrightarrow> k < image_size (take (Suc n) ps))"
  proof (induction k ps rule: whole_within.induct)
    case (1 k)
    show ?case by simp
  next
    case (2 k p ps)
    show ?case
    proof (cases "HEADER_SIZE + length p \<le> k")
      case True
      with 2 obtain n where "whole_within (k - (HEADER_SIZE + length p)) ps = take n ps"
        "n < length ps \<longrightarrow> k - (HEADER_SIZE + length p) < image_size (take (Suc n) ps)" by auto
      then show ?thesis using True by (intro exI [of _ "Suc n"]) auto
    next
      case False
      then show ?thesis by (intro exI [of _ 0]) auto
    qed
  qed
  then obtain n where n: "whole_within k ps = take n ps" "n < length ps \<longrightarrow> k < image_size (take (Suc n) ps)"
    by blast
  show ?thesis
    using n whole_within_size [of k ps] decode_records_cut [OF assms(1), of k]
      decode_records_bounds(2) [of "take k bs"] assms(2)
    by (intro exI [of _ n]) simp
qed

theorem torn_image_is_prefix_witness:
  "\<exists>bs n. encode_records [[1, 2, 3], [7 :: 8 word]] = Inr bs
     \<and> records (decode_records (take 12 bs)) = take n [[1, 2, 3], [7]]"
proof -
  obtain bs where bs: "encode_records [[1, 2, 3], [7 :: 8 word]] = Inr bs"
    using encode_records_total [of "[[1, 2, 3], [7]]"] by (auto simp: MAX_RECORD_SIZE_def)
  have "12 \<le> length bs" using length_encode_records [OF bs] by (simp add: HEADER_SIZE_def)
  from torn_image_is_prefix [OF bs this] bs show ?thesis by blast
qed

end
