(* ===== verification/Storage.thy ===== *)
theory Storage
  imports Codec
begin

text \<open>
  The \<^verbatim>\<open>Storage\<close> protocol of \<^verbatim>\<open>groundhog/storage.py\<close> as a locale: what a node may assume of
  \<^verbatim>\<open>append\<close>, \<^verbatim>\<open>sync\<close>, \<^verbatim>\<open>read_all\<close> and of a crash followed by recovery. \<open>holds s rs ds\<close> says that the
  storage is usable, that its log reads \<open>rs\<close> and that the prefix \<open>ds\<close> is durable; \<open>torn s rs ds\<close> that
  a write has failed and a recovery will find a prefix of \<open>rs\<close> that extends \<open>ds\<close>. The client facts
  proved inside are the contract in the words of the module: what was there when \<^verbatim>\<open>sync\<close> returned is
  there after a crash, and what was appended since may or may not be, but never as anything but a
  prefix.
\<close>

locale storage =
  fixes holds :: "'s \<Rightarrow> bytes list \<Rightarrow> bytes list \<Rightarrow> bool"
    and torn :: "'s \<Rightarrow> bytes list \<Rightarrow> bytes list \<Rightarrow> bool"
    and append :: "bytes list \<Rightarrow> 's stmt"
    and sync :: "'s stmt"
    and read_all :: "(bytes list, 's) py"
    and crash_recover :: "'s \<Rightarrow> 's \<Rightarrow> bool"
  assumes durable_prefix: "holds s rs ds \<Longrightarrow> \<exists>us. rs = ds @ us"
    and append_Done: "holds s rs ds \<Longrightarrow> append new s = Done x s' \<Longrightarrow> holds s' (rs @ new) ds"
    and append_failed:
      "holds s rs ds \<Longrightarrow> append new s = Raised e s' \<Longrightarrow> is_disk_error e \<Longrightarrow> torn s' (rs @ new) ds"
    and append_refused:
      "holds s rs ds \<Longrightarrow> append new s = Raised e s' \<Longrightarrow> \<not> is_disk_error e \<Longrightarrow> holds s' rs ds"
    and sync_Done: "holds s rs ds \<Longrightarrow> sync s = Done x s' \<Longrightarrow> holds s' rs rs"
    and read_all_Done: "holds s rs ds \<Longrightarrow> read_all s = Done xs s' \<Longrightarrow> xs = rs \<and> holds s' rs ds"
    and recovery: "holds s rs ds \<or> torn s rs ds \<Longrightarrow> crash_recover s s' \<Longrightarrow>
      \<exists>n. length ds \<le> n \<and> holds s' (take n rs) (take n rs)"
begin

lemma recovered_extends_durable:
  assumes "holds s (ds @ us) ds" and "crash_recover s s'"
  obtains n where "holds s' (ds @ take n us) (ds @ take n us)"
proof -
  from recovery [of s "ds @ us" ds s'] assms obtain n where
    "length ds \<le> n" "holds s' (take n (ds @ us)) (take n (ds @ us))" by blast
  then have "holds s' (ds @ take (n - length ds) us) (ds @ take (n - length ds) us)" by simp
  then show thesis by (rule that)
qed

lemma synced_survives_crash:
  assumes "holds s rs ds" and "block [append new, sync] s = Done x s1" and "crash_recover s1 s2"
  shows "holds s2 (rs @ new) (rs @ new)"
proof -
  from assms(2) obtain s0 where a: "append new s = Done () s0" and b: "sync s0 = Done () s1"
    by (auto split: outcome.splits)
  have "holds s1 (rs @ new) (rs @ new)"
    using sync_Done [OF append_Done [OF assms(1) a] b] .
  from recovered_extends_durable [of s1 "rs @ new" "[]", simplified, OF this assms(3)]
  obtain n where "holds s2 (rs @ new) (rs @ new)" by auto
  then show ?thesis .
qed

lemma failed_append_recovers_prefix:
  assumes "holds s rs rs" and "append new s = Raised e s1" and "is_disk_error e"
    and "crash_recover s1 s2"
  obtains n where "holds s2 (rs @ take n new) (rs @ take n new)"
proof -
  from append_failed [OF assms(1-3)] have "torn s1 (rs @ new) rs" .
  with recovery [of s1 "rs @ new" rs s2] assms(4) obtain n where
    "length rs \<le> n" "holds s2 (take n (rs @ new)) (take n (rs @ new))" by blast
  then have "holds s2 (rs @ take (n - length rs) new) (rs @ take (n - length rs) new)" by simp
  then show thesis by (rule that)
qed

end

end
