(* ===== verification/Sim_Disk.thy ===== *)
theory Sim_Disk
  imports Storage Rng
begin

text \<open>
  The simulated disk of \<^verbatim>\<open>groundhog/sim/disk.py\<close>: a byte image of which a prefix is durable, with
  write errors, torn crashes and a charge for every \<^verbatim>\<open>fsync\<close>. Operations run on \<open>disk_ctx\<close>, the disk
  together with the generator it shares with the rest of the simulation, and draw from it in the
  code's order. The disk is shown to implement the \<open>storage\<close> interface.
\<close>

section \<open>Definitions\<close>

record disk_faults =
  write_error_percent :: int
  lose_unsynced_percent :: int
  sync_cost :: "Tick \<times> Tick"

definition default_disk_faults :: disk_faults where
  "default_disk_faults = \<lparr>write_error_percent = 0, lose_unsynced_percent = 100, sync_cost = (0, 0)\<rparr>"

definition aggressive_disk_faults :: disk_faults where
  "aggressive_disk_faults =
     \<lparr>write_error_percent = 2, lose_unsynced_percent = 50,
      sync_cost = (1 * MILLISECOND, 20 * MILLISECOND)\<rparr>"

record sim_storage =
  disk_cfg :: disk_faults
  disk_bytes :: bytes
  durable :: nat
  online_flag :: bool
  failed_flag :: bool
  cache :: "scan option"
  owed_ticks :: Tick

definition EMPTY_SCAN :: scan where
  "EMPTY_SCAN = decode_records []"

definition new_sim_storage :: "disk_faults \<Rightarrow> sim_storage" where
  "new_sim_storage cfg =
     \<lparr>disk_cfg = cfg, disk_bytes = [], durable = 0, online_flag = True, failed_flag = False,
      cache = Some EMPTY_SCAN, owed_ticks = 0\<rparr>"

record disk_ctx =
  drng :: rng
  dsk :: sim_storage

definition draw :: "('a, rng) py \<Rightarrow> ('a, disk_ctx) py" where
  "draw = on_part drng (\<lambda>r c. c\<lparr>drng := r\<rparr>)"

definition set_disk :: "(sim_storage \<Rightarrow> sim_storage) \<Rightarrow> disk_ctx stmt" where
  "set_disk f = modify (\<lambda>c. c\<lparr>dsk := f (dsk c)\<rparr>)"

definition require_online :: "disk_ctx stmt" where
  "require_online =
     ite (\<lambda>c. \<not> online_flag (dsk c)) (raise DiskOffline)
       (ite (\<lambda>c. failed_flag (dsk c)) (raise DiskFailed) (ret ()))"

definition scan_of :: "sim_storage \<Rightarrow> scan" where
  "scan_of d = (case cache d of None \<Rightarrow> decode_records (disk_bytes d) | Some s \<Rightarrow> s)"

definition fill_cache :: "sim_storage \<Rightarrow> sim_storage" where
  "fill_cache d = d\<lparr>cache := Some (scan_of d)\<rparr>"

definition sim_append :: "bytes list \<Rightarrow> disk_ctx stmt" where
  "sim_append recs =
     block [require_online,
       (if recs = [] then ret ()
        else bind (of_sum (encode_records recs)) (\<lambda>blob.
          bind (\<lambda>c. draw (chance (write_error_percent (disk_cfg (dsk c)))) c) (\<lambda>fails.
          if fails then
            bind (draw (between 0 (int (length blob)))) (\<lambda>landed.
            block [set_disk (\<lambda>d. d\<lparr>disk_bytes := disk_bytes d @ take (nat landed) blob, failed_flag := True,
                                   cache := None\<rparr>),
                   raise (DiskWriteFailed (nat landed) (length blob))])
          else set_disk (\<lambda>d. d\<lparr>disk_bytes := disk_bytes d @ blob, cache := None\<rparr>))))]"

definition sim_sync :: "disk_ctx stmt" where
  "sim_sync =
     block [require_online,
       set_disk (\<lambda>d. d\<lparr>durable := length (disk_bytes d)\<rparr>),
       bind (\<lambda>c. draw (between (fst (sync_cost (disk_cfg (dsk c)))) (snd (sync_cost (disk_cfg (dsk c))))) c)
         (\<lambda>cost. set_disk (\<lambda>d. d\<lparr>owed_ticks := owed_ticks d + cost\<rparr>))]"

definition sim_read_all :: "(bytes list, disk_ctx) py" where
  "sim_read_all =
     bind require_online (\<lambda>_. bind (set_disk fill_cache) (\<lambda>_ c. Done (records (scan_of (dsk c))) c))"

definition sim_truncate_from :: "int \<Rightarrow> disk_ctx stmt" where
  "sim_truncate_from index =
     block [require_online, set_disk fill_cache,
       (\<lambda>c. let s = scan_of (dsk c) in
          if \<not> (0 \<le> index \<and> index \<le> int (length (records s))) then Raised IndexError c
          else let offset = (if index < int (length (records s)) then offsets s ! nat index else valid_bytes s)
            in set_disk (\<lambda>d. d\<lparr>disk_bytes := take offset (disk_bytes d), durable := min (durable d) offset,
                               cache := None\<rparr>) c)]"

definition crash_after :: "int \<Rightarrow> disk_ctx stmt" where
  "crash_after kept c =
     (let tail = int (length (disk_bytes (dsk c))) - int (durable (dsk c)) in
      if \<not> (0 \<le> kept \<and> kept \<le> tail) then Raised ValueError c
      else set_disk (\<lambda>d. let im = take (durable d + nat kept) (disk_bytes d)
        in d\<lparr>disk_bytes := im, durable := length im, online_flag := False, failed_flag := False,
             cache := None\<rparr>) c)"

definition sim_crash :: "(int, disk_ctx) py" where
  "sim_crash c =
     (let tail = int (length (disk_bytes (dsk c))) - int (durable (dsk c)) in
      bind (bind (draw (chance (lose_unsynced_percent (disk_cfg (dsk c)))))
              (\<lambda>lost. if lost then ret 0 else draw (between 0 tail)))
        (\<lambda>kept. bind (crash_after kept) (\<lambda>_. ret kept)) c)"

definition sim_restart :: "disk_ctx stmt" where
  "sim_restart =
     set_disk (\<lambda>d. let s = decode_records (disk_bytes d); im = take (valid_bytes s) (disk_bytes d)
       in d\<lparr>disk_bytes := im, durable := length im, online_flag := True, failed_flag := False,
            cache := Some s\<rparr>)"

definition online :: "sim_storage \<Rightarrow> bool" where
  "online d \<longleftrightarrow> online_flag d \<and> \<not> failed_flag d"

definition durable_records :: "sim_storage \<Rightarrow> bytes list" where
  "durable_records d = records (decode_records (take (durable d) (disk_bytes d)))"

definition take_owed_ticks :: "(Tick, disk_ctx) py" where
  "take_owed_ticks c = Done (owed_ticks (dsk c)) (c\<lparr>dsk := (dsk c)\<lparr>owed_ticks := 0\<rparr>\<rparr>)"

lemmas disk_ops = draw_def set_disk_def require_online_def on_part_def modify_def ite_def raise_def
  ret_def bind_def of_sum_def

section \<open>The abstract contents\<close>

definition cache_ok :: "sim_storage \<Rightarrow> bool" where
  "cache_ok d \<longleftrightarrow> (case cache d of None \<Rightarrow> True
     | Some s \<Rightarrow> records s = records (decode_records (disk_bytes d))
         \<and> offsets s = offsets (decode_records (disk_bytes d))
         \<and> valid_bytes s = valid_bytes (decode_records (disk_bytes d)))"

lemma cache_ok_update [simp]:
  "cache_ok (d\<lparr>durable := n\<rparr>) = cache_ok d" "cache_ok (d\<lparr>owed_ticks := t\<rparr>) = cache_ok d"
  by (simp_all add: cache_ok_def cong: option.case_cong)

lemma cache_ok_None [simp]: "cache d = None \<Longrightarrow> cache_ok d"
  by (simp add: cache_ok_def)

text \<open>\<open>disk_holds d rs ds\<close>: usable, the image is the records \<open>rs\<close>, the durable part the records \<open>ds\<close>.\<close>

definition disk_holds :: "sim_storage \<Rightarrow> bytes list \<Rightarrow> bytes list \<Rightarrow> bool" where
  "disk_holds d rs ds \<longleftrightarrow> online d \<and> encode_records rs = Inr (disk_bytes d) \<and> durable d = image_size ds
     \<and> (\<exists>us. rs = ds @ us) \<and> cache_ok d"

text \<open>\<open>disk_torn d rs ds\<close>: the image is a prefix of the encoding of \<open>rs\<close> that covers \<open>ds\<close>.\<close>

definition disk_torn :: "sim_storage \<Rightarrow> bytes list \<Rightarrow> bytes list \<Rightarrow> bool" where
  "disk_torn d rs ds \<longleftrightarrow> (\<exists>blob k. encode_records rs = Inr blob \<and> disk_bytes d = take k blob
     \<and> k \<le> length blob \<and> image_size ds \<le> k) \<and> durable d = image_size ds \<and> (\<exists>us. rs = ds @ us)"

lemma disk_holds_torn: "disk_holds d rs ds \<Longrightarrow> disk_torn d rs ds"
  unfolding disk_holds_def disk_torn_def
  using length_encode_records [of rs "disk_bytes d"]
  by (intro conjI exI [of _ "disk_bytes d"] exI [of _ "length (disk_bytes d)"]) auto

lemma disk_holds_durable_le: "disk_holds d rs ds \<Longrightarrow> durable d \<le> length (disk_bytes d)"
  by (auto simp: disk_holds_def dest!: length_encode_records)

lemma disk_holds_new [simp]: "disk_holds (new_sim_storage cfg) [] []"
  by (simp add: disk_holds_def new_sim_storage_def online_def cache_ok_def EMPTY_SCAN_def)

lemma disk_holds_records:
  assumes "disk_holds d rs ds"
  shows "records (scan_of d) = rs" and "durable_records d = ds"
proof -
  have enc: "encode_records rs = Inr (disk_bytes d)" using assms by (simp add: disk_holds_def)
  have c: "cache_ok d" using assms by (simp add: disk_holds_def)
  show "records (scan_of d) = rs"
    using c decode_encode_records(1) [OF enc] by (auto simp: scan_of_def cache_ok_def split: option.split)
  from assms obtain us where us: "rs = ds @ us" and dur: "durable d = image_size ds"
    by (auto simp: disk_holds_def)
  have "whole_within (image_size ds) (ds @ us) = ds @ whole_within 0 us"
    using whole_within_append [of ds 0 us] by simp
  moreover have "whole_within 0 us = []" by (cases us) (simp_all add: HEADER_SIZE_def)
  ultimately show "durable_records d = ds"
    using decode_records_cut(1) [OF enc, of "image_size ds"] by (simp add: durable_records_def dur us)
qed

lemma cache_ok_fill [simp]: "cache_ok d \<Longrightarrow> cache_ok (fill_cache d)"
  by (cases "cache d") (simp_all add: cache_ok_def fill_cache_def scan_of_def)

section \<open>The operations\<close>

lemma require_online_Done: "require_online c = Done x c' \<longleftrightarrow> online (dsk c) \<and> c' = c"
  by (auto simp: require_online_def online_def ite_def raise_def ret_def)

lemma require_online_Raised:
  "require_online c = Raised e c' \<Longrightarrow> \<not> online (dsk c) \<and> c' = c \<and> is_disk_error e"
  by (auto simp: require_online_def online_def ite_def raise_def ret_def split: if_splits)

lemma require_online_holds: "disk_holds (dsk c) rs ds \<Longrightarrow> require_online c = Done () c"
  by (simp add: require_online_Done disk_holds_def)

lemma disk_holds_extend:
  assumes "disk_holds d rs ds" and "encode_records new = Inr blob"
  shows "disk_holds (d\<lparr>disk_bytes := disk_bytes d @ blob, cache := None\<rparr>) (rs @ new) ds"
  using assms by (auto simp: disk_holds_def online_def cache_ok_def encode_records_append)

lemma disk_torn_extend:
  assumes "disk_holds d rs ds" and "encode_records new = Inr blob"
  shows "disk_torn (d\<lparr>disk_bytes := disk_bytes d @ take n blob, failed_flag := True, cache := None\<rparr>) (rs @ new) ds"
proof -
  have "encode_records (rs @ new) = Inr (disk_bytes d @ blob)" and "image_size ds \<le> length (disk_bytes d)"
    using assms length_encode_records [of rs "disk_bytes d"] by (auto simp: disk_holds_def encode_records_append)
  then show ?thesis
    using assms(1) unfolding disk_torn_def disk_holds_def
    by (auto intro!: exI [of _ "length (disk_bytes d) + min n (length blob)"] simp: min_def)
qed

lemma encode_records_Inl: "encode_records new = Inl x \<Longrightarrow> x = ValueError \<or> x = StructError"
  by (induction new arbitrary: x) (auto simp: encode_record_def pack_field_def split: sum.splits if_splits)

lemma sim_append_Done:
  assumes "disk_holds (dsk c) rs ds" and "sim_append new c = Done x c'"
  shows "disk_holds (dsk c') (rs @ new) ds" and "same_stream (drng c) (drng c')"
    and "disk_cfg (dsk c') = disk_cfg (dsk c)"
proof -
  note on = require_online_holds [OF assms(1)]
  have "disk_holds (dsk c') (rs @ new) ds \<and> same_stream (drng c) (drng c') \<and> disk_cfg (dsk c') = disk_cfg (dsk c)"
  proof (cases "new = []")
    case True
    with assms on show ?thesis by (simp add: sim_append_def ret_def)
  next
    case False
    with assms(2) on obtain blob r where blob: "encode_records new = Inr blob"
      and ch: "chance (write_error_percent (disk_cfg (dsk c))) (drng c) = Done False r"
      and c': "c' = c\<lparr>drng := r, dsk := (dsk c)\<lparr>disk_bytes := disk_bytes (dsk c) @ blob, cache := None\<rparr>\<rparr>"
      by (auto simp: sim_append_def draw_def set_disk_def on_part_def modify_def raise_def bind_def of_sum_def
          split: sum.splits outcome.splits if_splits)
    show ?thesis
      using disk_holds_extend [OF assms(1) blob] chance_Done [OF ch] by (simp add: c')
  qed
  then show "disk_holds (dsk c') (rs @ new) ds" "same_stream (drng c) (drng c')"
    "disk_cfg (dsk c') = disk_cfg (dsk c)" by blast+
qed

lemma sim_append_Raised:
  assumes "disk_holds (dsk c) rs ds" and "sim_append new c = Raised e c'"
  shows "if is_disk_error e then disk_torn (dsk c') (rs @ new) ds else disk_holds (dsk c') rs ds"
    and "same_stream (drng c) (drng c')" and "disk_cfg (dsk c') = disk_cfg (dsk c)"
    and "is_disk_error e \<longleftrightarrow> (\<exists>n m. e = DiskWriteFailed n m)"
proof -
  note on = require_online_holds [OF assms(1)]
  from assms(2) on have ne: "new \<noteq> []" by (auto simp: sim_append_def ret_def)
  have "(if is_disk_error e then disk_torn (dsk c') (rs @ new) ds else disk_holds (dsk c') rs ds)
     \<and> same_stream (drng c) (drng c') \<and> disk_cfg (dsk c') = disk_cfg (dsk c)
     \<and> (is_disk_error e \<longleftrightarrow> (\<exists>n m. e = DiskWriteFailed n m))"
  proof (cases "encode_records new")
    case (Inl x)
    have "x = ValueError \<or> x = StructError" using encode_records_Inl [OF Inl] .
    with assms on ne Inl show ?thesis by (auto simp: sim_append_def of_sum_def bind_def)
  next
    case (Inr blob)
    let ?wep = "write_error_percent (disk_cfg (dsk c))"
    show ?thesis
    proof (cases "chance ?wep (drng c)")
      case (Done b r)
      have r: "same_stream (drng c) r" using chance_Done [OF Done] by simp
      have b: b
        using assms(2) on ne Inr Done
        by (cases b) (simp_all add: sim_append_def draw_def set_disk_def on_part_def modify_def bind_def of_sum_def)
      show ?thesis
      proof (cases "between 0 (int (length blob)) r")
        case (Done landed r')
        with assms(2) on ne Inr \<open>chance ?wep (drng c) = Done b r\<close> b have
          c': "c' = c\<lparr>drng := r', dsk := (dsk c)\<lparr>disk_bytes := disk_bytes (dsk c) @ take (nat landed) blob,
            failed_flag := True, cache := None\<rparr>\<rparr>"
          and e: "e = DiskWriteFailed (nat landed) (length blob)"
          by (auto simp: sim_append_def draw_def set_disk_def on_part_def modify_def raise_def bind_def of_sum_def)
        show ?thesis
          using disk_torn_extend [OF assms(1) Inr] between_Done [OF Done] same_stream_trans [OF r]
          by (simp add: c' e)
      next
        case (Raised x r')
        from between_Raised [OF Raised] show ?thesis by simp
      next
        case Diverges
        with assms(2) on ne Inr \<open>chance ?wep (drng c) = Done b r\<close> b show ?thesis
          by (simp add: sim_append_def draw_def on_part_def bind_def of_sum_def)
      qed
    next
      case (Raised x r)
      with assms on ne Inr chance_Raised [OF Raised] show ?thesis
        by (auto simp: sim_append_def draw_def on_part_def bind_def of_sum_def)
    next
      case Diverges
      with assms(2) on ne Inr show ?thesis
        by (simp add: sim_append_def draw_def on_part_def bind_def of_sum_def)
    qed
  qed
  then show "if is_disk_error e then disk_torn (dsk c') (rs @ new) ds else disk_holds (dsk c') rs ds"
    "same_stream (drng c) (drng c')" "disk_cfg (dsk c') = disk_cfg (dsk c)"
    "is_disk_error e \<longleftrightarrow> (\<exists>n m. e = DiskWriteFailed n m)" by blast+
qed

lemma sim_append_failed:
  assumes "disk_holds (dsk c) rs ds" and "sim_append new c = Raised e c'" and "is_disk_error e"
  shows "online_flag (dsk c') \<and> failed_flag (dsk c')"
proof -
  note on = require_online_holds [OF assms(1)]
  have "online_flag (dsk c)" using assms(1) by (simp add: disk_holds_def online_def)
  moreover have "\<not> is_disk_error e \<or> online_flag (dsk c') = online_flag (dsk c) \<and> failed_flag (dsk c')"
    using assms(2) on
    by (auto simp: sim_append_def draw_def set_disk_def on_part_def modify_def raise_def ret_def bind_def
        of_sum_def split: sum.splits outcome.splits if_splits
        dest!: chance_Raised between_Raised encode_records_Inl)
  ultimately show ?thesis using assms(3) by auto
qed

text \<open>Reading is always possible on a usable disk and changes nothing but the cache.\<close>

lemma disk_holds_fill: "disk_holds d rs ds \<Longrightarrow> disk_holds (fill_cache d) rs ds"
  using cache_ok_fill [of d] by (simp add: disk_holds_def fill_cache_def online_def)

lemma scan_of_fill [simp]: "scan_of (fill_cache d) = scan_of d"
  by (simp add: scan_of_def fill_cache_def)

lemma sim_read_all_Done:
  assumes "disk_holds (dsk c) rs ds"
  shows "sim_read_all c = Done rs (c\<lparr>dsk := fill_cache (dsk c)\<rparr>)"
  using require_online_holds [OF assms] disk_holds_records(1) [OF assms]
  by (simp add: sim_read_all_def bind_def set_disk_def modify_def)

lemma sim_sync_Done:
  assumes "disk_holds (dsk c) rs ds" and "sim_sync c = Done x c'"
  shows "disk_holds (dsk c') rs rs" and "same_stream (drng c) (drng c')"
    and "disk_cfg (dsk c') = disk_cfg (dsk c)"
proof -
  note on = require_online_holds [OF assms(1)]
  let ?lo = "fst (sync_cost (disk_cfg (dsk c)))" and ?hi = "snd (sync_cost (disk_cfg (dsk c)))"
  obtain cost r where b: "between ?lo ?hi (drng c) = Done cost r"
    and c': "c' = c\<lparr>drng := r, dsk := (dsk c)\<lparr>durable := length (disk_bytes (dsk c)),
      owed_ticks := owed_ticks (dsk c) + cost\<rparr>\<rparr>"
    using assms(2) on
    by (auto simp: sim_sync_def draw_def set_disk_def on_part_def modify_def bind_def split: outcome.splits)
  have "encode_records rs = Inr (disk_bytes (dsk c))" using assms(1) by (simp add: disk_holds_def)
  then have len: "length (disk_bytes (dsk c)) = image_size rs" by (rule length_encode_records)
  show "disk_holds (dsk c') rs rs"
    using assms(1) len by (simp add: c' disk_holds_def online_def)
  show "same_stream (drng c) (drng c')" using between_Done [OF b] by (simp add: c')
  show "disk_cfg (dsk c') = disk_cfg (dsk c)" by (simp add: c')
qed

lemma sim_sync_Raised:
  assumes "disk_holds (dsk c) rs ds" and "sim_sync c = Raised e c'"
  shows "snd (sync_cost (disk_cfg (dsk c))) < fst (sync_cost (disk_cfg (dsk c)))" and "e = ValueError"
  using assms(2) require_online_holds [OF assms(1)]
  by (auto simp: sim_sync_def draw_def set_disk_def on_part_def modify_def bind_def
      split: outcome.splits dest!: between_Raised)

section \<open>Crash and recovery\<close>

definition disk_crash_restart :: "disk_ctx \<Rightarrow> disk_ctx \<Rightarrow> bool" where
  "disk_crash_restart c c' \<longleftrightarrow>
     (\<exists>kept c1. (sim_crash c = Done kept c1 \<or> crash_after kept c = Done () c1) \<and> sim_restart c1 = Done () c')"

lemma crash_after_Done:
  assumes "crash_after kept c = Done x c'"
  shows "0 \<le> kept" "kept \<le> int (length (disk_bytes (dsk c))) - int (durable (dsk c))"
    "c' = c\<lparr>dsk := (dsk c)\<lparr>disk_bytes := take (durable (dsk c) + nat kept) (disk_bytes (dsk c)),
       durable := durable (dsk c) + nat kept, online_flag := False, failed_flag := False, cache := None\<rparr>\<rparr>"
  using assms
  by (auto simp: crash_after_def Let_def set_disk_def modify_def min_def split: if_splits)

lemma sim_crash_Done:
  assumes "sim_crash c = Done kept c'"
  obtains r where "crash_after kept (c\<lparr>drng := r\<rparr>) = Done () c'" "same_stream (drng c) r"
proof -
  let ?tail = "int (length (disk_bytes (dsk c))) - int (durable (dsk c))"
  let ?lup = "lose_unsynced_percent (disk_cfg (dsk c))"
  from assms obtain lost r0 where ch: "chance ?lup (drng c) = Done lost r0"
    and rest: "bind (if lost then ret 0 else draw (between 0 ?tail))
        (\<lambda>kept. bind (crash_after kept) (\<lambda>_. ret kept)) (c\<lparr>drng := r0\<rparr>) = Done kept c'"
    by (auto simp: sim_crash_def Let_def bind_def draw_def on_part_def split: outcome.splits)
  show thesis
  proof (cases lost)
    case True
    with rest have "crash_after kept (c\<lparr>drng := r0\<rparr>) = Done () c'"
      by (auto simp: bind_def ret_def split: outcome.splits)
    then show thesis using that chance_Done [OF ch] by blast
  next
    case False
    with rest obtain r1 where b: "between 0 ?tail r0 = Done kept r1"
      and k: "crash_after kept (c\<lparr>drng := r1\<rparr>) = Done () c'"
      by (auto simp: bind_def ret_def draw_def on_part_def split: outcome.splits)
    have "same_stream (drng c) r1"
      using chance_Done [OF ch] between_Done [OF b] same_stream_trans by blast
    with k show thesis using that by blast
  qed
qed

text \<open>A torn disk, or a usable one, recovers what was durable and the records wholly within what was kept.\<close>

lemma disk_recovers_whole:
  assumes "disk_torn (dsk c) (ds @ us) ds" and "crash_after kept c = Done () c1" and "sim_restart c1 = Done () c2"
  shows "disk_holds (dsk c2) (ds @ whole_within (nat kept) us) (ds @ whole_within (nat kept) us)"
proof -
  let ?rs = "ds @ us"
  from assms(1) obtain blob k where enc: "encode_records ?rs = Inr blob"
    and im: "disk_bytes (dsk c) = take k blob" "k \<le> length blob" "image_size ds \<le> k"
    and dur: "durable (dsk c) = image_size ds"
    by (auto simp: disk_torn_def)
  let ?m = "image_size ds + nat kept"
  note ca = crash_after_Done [OF assms(2)]
  have m: "?m \<le> k" using ca(1,2) im dur by simp
  have im1: "disk_bytes (dsk c1) = take ?m blob" using ca(3) im m dur by (simp add: min_def)
  let ?ws = "ds @ whole_within (nat kept) us"
  have ws: "whole_within ?m ?rs = ?ws" by (simp add: whole_within_append)
  obtain rest where rest: "?rs = ?ws @ rest" using whole_within_prefix [of ?rs ?m] ws by auto
  note cut = decode_records_cut [OF enc, of ?m, unfolded ws]
  have enc_rest: "\<exists>a b. encode_records ?ws = Inr a \<and> encode_records rest = Inr b \<and> blob = a @ b"
    using enc by (subst (asm) rest) (auto simp: encode_records_append split: sum.splits)
  then obtain a b where ab: "encode_records ?ws = Inr a" "blob = a @ b" by blast
  have la: "length a = image_size ?ws" by (rule length_encode_records [OF ab(1)])
  have le: "image_size ?ws \<le> ?m" using whole_within_size [of ?m ?rs] by (simp only: ws)
  have c2: "dsk c2 = (dsk c1)\<lparr>disk_bytes := a, durable := length a, online_flag := True,
      failed_flag := False, cache := Some (decode_records (take ?m blob))\<rparr>"
    using assms(3) cut(2) la le
    by (auto simp: sim_restart_def set_disk_def modify_def Let_def im1 ab(2) min_def)
  show ?thesis
    using ab(1) la cut decode_encode_records [OF ab(1)]
    by (simp add: disk_holds_def online_def cache_ok_def c2)
qed

lemma disk_recovers:
  assumes "disk_torn (dsk c) rs ds" and "crash_after kept c = Done () c1" and "sim_restart c1 = Done () c2"
  shows "\<exists>n. length ds \<le> n \<and> disk_holds (dsk c2) (take n rs) (take n rs)"
proof -
  from assms(1) obtain us where us: "rs = ds @ us" by (auto simp: disk_torn_def)
  obtain rest where "us = whole_within (nat kept) us @ rest" using whole_within_prefix by blast
  then have "take (length ds + length (whole_within (nat kept) us)) rs = ds @ whole_within (nat kept) us"
    by (simp add: us) (metis append_eq_conv_conj)
  then show ?thesis
    using disk_recovers_whole [OF assms(1) [unfolded us] assms(2,3)] by (metis le_add1)
qed

lemma disk_crash_restart_recovers:
  assumes "disk_holds (dsk c) rs ds \<or> disk_torn (dsk c) rs ds" and "disk_crash_restart c c2"
  shows "\<exists>n. length ds \<le> n \<and> disk_holds (dsk c2) (take n rs) (take n rs)"
proof -
  have torn: "disk_torn (dsk c) rs ds" using assms(1) disk_holds_torn by blast
  from assms(2) obtain kept c1 where
    "sim_crash c = Done kept c1 \<or> crash_after kept c = Done () c1" and re: "sim_restart c1 = Done () c2"
    by (auto simp: disk_crash_restart_def)
  then show ?thesis
  proof (elim disjE)
    assume "sim_crash c = Done kept c1"
    then obtain r where k: "crash_after kept (c\<lparr>drng := r\<rparr>) = Done () c1" by (rule sim_crash_Done)
    show ?thesis by (rule disk_recovers [OF _ k re]) (simp add: torn)
  next
    assume k: "crash_after kept c = Done () c1"
    show ?thesis by (rule disk_recovers [OF torn k re])
  qed
qed

interpretation sdisk: storage "\<lambda>c. disk_holds (dsk c)" "\<lambda>c. disk_torn (dsk c)"
  sim_append sim_sync sim_read_all disk_crash_restart
proof
  show "\<exists>us. rs = ds @ us" if "disk_holds (dsk s) rs ds" for s rs ds
    using that by (simp add: disk_holds_def)
  show "disk_holds (dsk s') (rs @ new) ds"
    if "disk_holds (dsk s) rs ds" "sim_append new s = Done x s'" for s rs ds new x s'
    using sim_append_Done(1) [OF that] .
  show "disk_torn (dsk s') (rs @ new) ds"
    if "disk_holds (dsk s) rs ds" "sim_append new s = Raised e s'" "is_disk_error e" for s rs ds new e s'
    using sim_append_Raised(1) [OF that(1,2)] that(3) by simp
  show "disk_holds (dsk s') rs ds"
    if "disk_holds (dsk s) rs ds" "sim_append new s = Raised e s'" "\<not> is_disk_error e" for s rs ds new e s'
    using sim_append_Raised(1) [OF that(1,2)] that(3) by simp
  show "disk_holds (dsk s') rs rs" if "disk_holds (dsk s) rs ds" "sim_sync s = Done x s'" for s rs ds x s'
    using sim_sync_Done(1) [OF that] .
  show "xs = rs \<and> disk_holds (dsk s') rs ds"
    if "disk_holds (dsk s) rs ds" "sim_read_all s = Done xs s'" for s rs ds xs s'
    using that sim_read_all_Done [OF that(1)] disk_holds_fill [OF that(1)] by auto
  show "\<exists>n. length ds \<le> n \<and> disk_holds (dsk s') (take n rs) (take n rs)"
    if "disk_holds (dsk s) rs ds \<or> disk_torn (dsk s) rs ds" "disk_crash_restart s s'" for s rs ds s'
    using disk_crash_restart_recovers [OF that] .
qed

section \<open>A disk in any condition\<close>

text \<open>\<open>disk_cut d rs ds\<close>: usable, failed or down, a recovery finds a prefix of \<open>rs\<close> that covers \<open>ds\<close>.\<close>

definition disk_cut :: "sim_storage \<Rightarrow> bytes list \<Rightarrow> bytes list \<Rightarrow> bool" where
  "disk_cut d rs ds \<longleftrightarrow> (\<exists>blob k. encode_records rs = Inr blob \<and> disk_bytes d = take k blob
     \<and> k \<le> length blob \<and> image_size ds \<le> durable d \<and> durable d \<le> k) \<and> (\<exists>us. rs = ds @ us)"

lemma disk_torn_cut: "disk_torn d rs ds \<Longrightarrow> disk_cut d rs ds"
  by (auto simp: disk_torn_def disk_cut_def)

lemma disk_holds_cut: "disk_holds d rs ds \<Longrightarrow> disk_cut d rs ds"
  by (rule disk_torn_cut [OF disk_holds_torn])

lemma disk_cut_crash_after:
  assumes "disk_cut (dsk c) rs ds" and "crash_after kept c = Done x c'"
  shows "disk_cut (dsk c') rs ds"
proof -
  from assms(1) obtain blob k where b: "encode_records rs = Inr blob" "disk_bytes (dsk c) = take k blob"
    "k \<le> length blob" "image_size ds \<le> durable (dsk c)" "durable (dsk c) \<le> k" "\<exists>us. rs = ds @ us"
    by (auto simp: disk_cut_def)
  note ca = crash_after_Done [OF assms(2)]
  let ?m = "durable (dsk c) + nat kept"
  have m: "?m \<le> k" using ca(1,2) b by simp
  have "disk_bytes (dsk c') = take ?m blob" "durable (dsk c') = ?m" using ca(3) b m by (simp_all add: min_def)
  with b m show ?thesis unfolding disk_cut_def by (intro conjI exI [of _ blob] exI [of _ ?m]) auto
qed

lemma disk_cut_crash:
  assumes "disk_cut (dsk c) rs ds" and "sim_crash c = Done kept c'"
  shows "disk_cut (dsk c') rs ds"
proof -
  from assms(2) obtain r where "crash_after kept (c\<lparr>drng := r\<rparr>) = Done () c'" by (rule sim_crash_Done)
  from disk_cut_crash_after [OF _ this] assms(1) show ?thesis by simp
qed

lemma disk_cut_restart:
  assumes "disk_cut (dsk c) rs ds" and "sim_restart c = Done x c'"
  obtains n where "length ds \<le> n" "disk_holds (dsk c') (take n rs) (take n rs)"
proof -
  from assms(1) obtain blob k us where b: "encode_records rs = Inr blob" "disk_bytes (dsk c) = take k blob"
    "k \<le> length blob" "image_size ds \<le> k" "rs = ds @ us"
    by (auto simp: disk_cut_def)
  let ?rs = "whole_within k rs"
  obtain m where m: "k = image_size ds + m" using b(4) le_Suc_ex by blast
  have rs': "?rs = ds @ whole_within m us" by (simp add: b(5) m whole_within_append)
  obtain rest where rest: "rs = ?rs @ rest" using whole_within_prefix by blast
  note cut = decode_records_cut [OF b(1), of k]
  have "\<exists>a z. encode_records ?rs = Inr a \<and> encode_records rest = Inr z \<and> blob = a @ z"
    using b(1) by (subst (asm) rest) (auto simp: encode_records_append split: sum.splits)
  then obtain a z where a: "encode_records ?rs = Inr a" "blob = a @ z" by blast
  have la: "length a = image_size ?rs" by (rule length_encode_records [OF a(1)])
  have le: "image_size ?rs \<le> k" by (rule whole_within_size)
  have c': "dsk c' = (dsk c)\<lparr>disk_bytes := a, durable := length a, online_flag := True,
      failed_flag := False, cache := Some (decode_records (take k blob))\<rparr>"
    using assms(2) cut(2) la le
    by (auto simp: sim_restart_def set_disk_def modify_def Let_def b(2) a(2) min_def)
  have "disk_holds (dsk c') ?rs ?rs"
    using a(1) la cut decode_encode_records [OF a(1)]
    by (simp add: disk_holds_def online_def cache_ok_def c')
  moreover have "?rs = take (length ?rs) rs" using rest by (metis append_eq_conv_conj)
  moreover have "length ds \<le> length ?rs" by (simp add: rs')
  ultimately show thesis using that by metis
qed

section \<open>Properties\<close>

text \<open>
  C24. The storage contract: records are appended and \<^verbatim>\<open>sync()\<close> returns; then more are appended, not
  synced, and that write may fail half way; then comes a crash that keeps any number of the unsynced
  bytes, and a restart. Everything before the sync is read back whole and in order, and after it exactly
  the later records that lie wholly within the bytes the crash kept.
\<close>

theorem synced_records_survive:
  assumes "disk_holds (dsk c) rs ds"
    and "sim_append new c = Done () c1" and "sim_sync c1 = Done () c2"
    and "sim_append later c2 = Done () c3 \<or> (\<exists>e. is_disk_error e \<and> sim_append later c2 = Raised e c3)"
    and "sim_crash c3 = Done kept c4" and "sim_restart c4 = Done () c5"
  shows "\<exists>c6. sim_read_all c5 = Done (rs @ new @ whole_within (nat kept) later) c6
    \<and> durable_records (dsk c5) = rs @ new @ whole_within (nat kept) later"
proof -
  have synced: "disk_holds (dsk c2) (rs @ new) (rs @ new)"
    by (rule sim_sync_Done(1) [OF sim_append_Done(1) [OF assms(1,2)] assms(3)])
  from assms(4) have torn: "disk_torn (dsk c3) ((rs @ new) @ later) (rs @ new)"
    using sim_append_Done(1) [OF synced] sim_append_Raised(1) [OF synced] disk_holds_torn by metis
  obtain r where k: "crash_after kept (c3\<lparr>drng := r\<rparr>) = Done () c4" by (rule sim_crash_Done [OF assms(5)])
  have "disk_holds (dsk c5) ((rs @ new) @ whole_within (nat kept) later) ((rs @ new) @ whole_within (nat kept) later)"
    by (rule disk_recovers_whole [OF _ k assms(6)]) (use torn in simp)
  then show ?thesis using sim_read_all_Done disk_holds_records(2) append_assoc by metis
qed

lemma sim_append_zero:
  assumes "zero_stream (drng c)" "disk_cfg (dsk c) = cfg" "write_error_percent cfg = p" "0 \<le> p" "p \<le> 100"
    and "online (dsk c)" "new \<noteq> []" "encode_records new = Inr blob"
  shows "\<exists>r. zero_stream r \<and> sim_append new c =
    (if p = 0 then Done () (c\<lparr>drng := r, dsk := (dsk c)\<lparr>disk_bytes := disk_bytes (dsk c) @ blob, cache := None\<rparr>\<rparr>)
     else Raised (DiskWriteFailed 0 (length blob))
       (c\<lparr>drng := r, dsk := (dsk c)\<lparr>failed_flag := True, cache := None\<rparr>\<rparr>))"
proof -
  obtain r where r: "chance p (drng c) = Done (0 < p) r" "zero_stream r"
    using chance_zero [OF assms(1,4,5)] by blast
  obtain r' where r': "between 0 (int (length blob)) r = Done 0 r'" "zero_stream r'"
    using between_zero [OF r(2), of 0 "int (length blob)"] by auto
  have on: "require_online c = Done () c" using assms(6) by (simp add: require_online_Done)
  show ?thesis
    using assms on r r'
    by (auto simp: sim_append_def draw_def set_disk_def on_part_def modify_def raise_def bind_def of_sum_def)
qed

lemma sim_crash_zero:
  assumes "zero_stream (drng c)" "0 \<le> lose_unsynced_percent (disk_cfg (dsk c))"
    "lose_unsynced_percent (disk_cfg (dsk c)) \<le> 100" "durable (dsk c) \<le> length (disk_bytes (dsk c))"
  shows "\<exists>kept c1 c2. sim_crash c = Done kept c1 \<and> sim_restart c1 = Done () c2"
proof -
  let ?p = "lose_unsynced_percent (disk_cfg (dsk c))"
  obtain r where "chance ?p (drng c) = Done (0 < ?p) r" "zero_stream r"
    using chance_zero [OF assms(1-3)] by blast
  moreover from this(2) obtain r' where
    "between 0 (int (length (disk_bytes (dsk c))) - int (durable (dsk c))) r = Done 0 r'"
    using between_zero [of r 0 "int (length (disk_bytes (dsk c))) - int (durable (dsk c))"] assms(4) by auto
  ultimately show ?thesis
    using assms(4)
    by (auto simp: sim_crash_def crash_after_def sim_restart_def Let_def draw_def set_disk_def on_part_def
        modify_def bind_def ret_def)
qed

text \<open>On a fair stream every operation returns; whether a write fails is certain at 0 and 100 percent.\<close>

lemma sim_append_fair:
  assumes "fair (drng c)" "write_error_percent (disk_cfg (dsk c)) = 0" "online (dsk c)" "new \<noteq> []" "encode_records new = Inr blob"
  shows "\<exists>r. fair r \<and> sim_append new c =
    Done () (c\<lparr>drng := r, dsk := (dsk c)\<lparr>disk_bytes := disk_bytes (dsk c) @ blob, cache := None\<rparr>\<rparr>)"
proof -
  obtain r where "chance 0 (drng c) = Done False r" "fair r" using chance_sure(1) [OF assms(1)] by blast
  moreover have "require_online c = Done () c" using assms(3) by (simp add: require_online_Done)
  ultimately show ?thesis
    using assms by (auto simp: sim_append_def draw_def set_disk_def on_part_def modify_def bind_def of_sum_def)
qed

lemma sim_append_breaks:
  assumes "fair (drng c)" "write_error_percent (disk_cfg (dsk c)) = 100" "online (dsk c)" "new \<noteq> []" "encode_records new = Inr blob"
  shows "\<exists>e c'. sim_append new c = Raised e c' \<and> is_disk_error e"
proof -
  obtain r where r: "chance 100 (drng c) = Done True r" "fair r" using chance_sure(2) [OF assms(1)] by blast
  obtain n r' where "between 0 (int (length blob)) r = Done n r'" using between_fair [OF r(2), of 0 "int (length blob)"] by auto
  moreover have "require_online c = Done () c" using assms(3) by (simp add: require_online_Done)
  ultimately show ?thesis
    using assms r by (auto simp: sim_append_def draw_def set_disk_def on_part_def modify_def raise_def bind_def of_sum_def)
qed

lemma sim_sync_fair:
  assumes "fair (drng c)" "fst (sync_cost (disk_cfg (dsk c))) \<le> snd (sync_cost (disk_cfg (dsk c)))" "online (dsk c)"
  shows "\<exists>r cost. fair r \<and> sim_sync c = Done () (c\<lparr>drng := r, dsk := (dsk c)\<lparr>durable := length (disk_bytes (dsk c)),
    owed_ticks := owed_ticks (dsk c) + cost\<rparr>\<rparr>)"
proof -
  obtain cost r where "between (fst (sync_cost (disk_cfg (dsk c)))) (snd (sync_cost (disk_cfg (dsk c)))) (drng c) = Done cost r" "fair r"
    using between_fair [OF assms(1,2)] by blast
  moreover have "require_online c = Done () c" using assms(3) by (simp add: require_online_Done)
  ultimately show ?thesis by (auto simp: sim_sync_def draw_def set_disk_def on_part_def modify_def bind_def)
qed

lemma sim_crash_fair:
  assumes "fair (drng c)" "0 \<le> lose_unsynced_percent (disk_cfg (dsk c))"
    "lose_unsynced_percent (disk_cfg (dsk c)) \<le> 100" "durable (dsk c) \<le> length (disk_bytes (dsk c))"
  shows "\<exists>kept c1 c2. sim_crash c = Done kept c1 \<and> sim_restart c1 = Done () c2"
proof -
  let ?p = "lose_unsynced_percent (disk_cfg (dsk c))" and ?tail = "int (length (disk_bytes (dsk c))) - int (durable (dsk c))"
  obtain lost r where r: "chance ?p (drng c) = Done lost r" "fair r" using chance_fair [OF assms(1-3)] by blast
  obtain n r' where "between 0 ?tail r = Done n r'" "0 \<le> n" "n \<le> ?tail"
    using between_fair [OF r(2), of 0 ?tail] assms(4) by auto
  with r(1) assms(4) show ?thesis
    by (cases lost) (auto simp: sim_crash_def crash_after_def sim_restart_def Let_def draw_def set_disk_def on_part_def
        modify_def bind_def ret_def)
qed

text \<open>A generator whose words are all the same, for a run that keeps half of what was not synced.\<close>

definition steady :: "rng \<Rightarrow> bool" where
  "steady r \<longleftrightarrow> src r = (\<lambda>_. 0x50000000)"

lemma below_steady:
  assumes "steady r" "1 < n" "k = bit_length (nat (n - 1))" "k \<le> 32" "v = 0x50000000 div 2 ^ (32 - k)" "int v < n"
  shows "\<exists>r'. below n r = Done (int v) r' \<and> steady r'"
proof -
  have k: "0 < k" using assms(2,3) by (subst (asm) bit_length.simps) (simp split: if_splits)
  have "draw_bits (\<lambda>_. 0x50000000) (pos r) k = (v, Suc (pos r))"
    using k assms(4,5) by (subst draw_bits.simps) simp
  then have "below_loop (src r) k n (pos r) = Some (int v, Suc (pos r))"
    using assms(1,6) by (subst below_loop.simps) (simp add: steady_def)
  then show ?thesis using assms by (auto simp: below_def Let_def steady_def)
qed

lemma chance_steady:
  assumes "steady r" "0 \<le> p" "p \<le> 100"
  shows "\<exists>r'. chance p r = Done (40 < p) r' \<and> steady r'"
proof -
  have "bit_length 99 = 7" by (simp add: bit_length.simps)
  then obtain r' where "below 100 r = Done 40 r'" "steady r'"
    using below_steady [OF assms(1), of 100 7 40] by auto
  then show ?thesis using assms(2,3) by (auto simp: chance_def bind_def ret_def)
qed

theorem synced_records_survive_witness:
  "\<exists>c c1 c2 c3 kept c4 c5 c6. sim_append [[1, 2, 3]] c = Done () c1 \<and> sim_sync c1 = Done () c2
     \<and> sim_append [[4], [5, 6, 7]] c2 = Done () c3 \<and> sim_crash c3 = Done kept c4 \<and> 0 < kept
     \<and> sim_restart c4 = Done () c5 \<and> sim_read_all c5 = Done [[1, 2, 3], [4]] c6"
proof -
  let ?cfg = "\<lparr>write_error_percent = 2, lose_unsynced_percent = 20, sync_cost = (3, 3)\<rparr>"
  let ?r = "\<lparr>seed = 0, calls = 0, src = (\<lambda>_. 0x50000000), pos = 0\<rparr> :: rng"
  let ?c = "\<lparr>drng = ?r, dsk = new_sim_storage ?cfg\<rparr>"
  have s: "steady (drng ?c)" by (simp add: steady_def)
  have h: "disk_holds (dsk ?c) [] []" "disk_cfg (dsk ?c) = ?cfg" by simp (simp add: new_sim_storage_def)
  have app: "\<exists>c'. sim_append news c = Done () c' \<and> steady (drng c')"
    if "steady (drng c)" "disk_cfg (dsk c) = ?cfg" "disk_holds (dsk c) rs ds" "encode_records news = Inr b"
    for news c rs ds b
    using chance_steady [OF that(1), of 2] that require_online_holds [OF that(3)]
    by (auto simp: sim_append_def draw_def set_disk_def on_part_def modify_def bind_def of_sum_def ret_def)
  obtain x where x: "encode_records [[1, 2, 3 :: 8 word]] = Inr x"
    using encode_records_total [of "[[1, 2, 3]]"] by (auto simp: MAX_RECORD_SIZE_def)
  obtain y where y: "encode_records [[4 :: 8 word], [5, 6, 7]] = Inr y"
    using encode_records_total [of "[[4], [5, 6, 7]]"] by (auto simp: MAX_RECORD_SIZE_def)
  obtain c1 where a: "sim_append [[1, 2, 3]] ?c = Done () c1" "steady (drng c1)"
    using app [OF s h(2,1) x] by auto
  note h1 = sim_append_Done [OF h(1) a(1), unfolded h(2)]
  obtain c2 where b: "sim_sync c1 = Done () c2" "steady (drng c2)"
    using h1(3) a(2) require_online_holds [OF h1(1)]
    by (auto simp: sim_sync_def draw_def set_disk_def on_part_def modify_def bind_def between_def below_one ret_def steady_def)
  note h2 = sim_sync_Done [OF h1(1) b(1), unfolded h1(3)]
  obtain c3 where d: "sim_append [[4], [5, 6, 7]] c2 = Done () c3" "steady (drng c3)"
    using app [OF b(2) h2(3,1) y] by auto
  note h3 = sim_append_Done [OF h2(1) d(1), unfolded h2(3)]
  have tail: "int (length (disk_bytes (dsk c3))) - int (durable (dsk c3)) = 20"
    using h3(1) length_encode_records [of "[[1, 2, 3], [4], [5, 6, 7]]" "disk_bytes (dsk c3)"]
    by (simp add: disk_holds_def HEADER_SIZE_def del: encode_records.simps)
  obtain r4 where r4: "chance 20 (drng c3) = Done False r4" "steady r4" using chance_steady [OF d(2), of 20] by auto
  have "bit_length 20 = 5" by (simp add: bit_length.simps)
  then obtain r5 where r5: "between 0 20 r4 = Done 10 r5"
    using below_steady [OF r4(2), of 21 5 10] by (auto simp: between_def bind_def ret_def)
  obtain c4 where e: "sim_crash c3 = Done 10 c4"
    using h3(3) r4(1) r5 tail
    by (auto simp: sim_crash_def crash_after_def Let_def draw_def set_disk_def on_part_def modify_def bind_def ret_def)
  obtain c5 where f: "sim_restart c4 = Done () c5" by (simp add: sim_restart_def set_disk_def modify_def)
  have "\<exists>c6. sim_read_all c5 = Done [[1, 2, 3], [4]] c6"
    using synced_records_survive [OF h(1) a(1) b(1) disjI1 [OF d(1)] e f] by (auto simp: HEADER_SIZE_def)
  with a b d e f show ?thesis by (metis zero_less_numeral)
qed

text \<open>
  C25. A failed write is never half visible: when \<^verbatim>\<open>append\<close> raises a disk error on a fully durable disk,
  every operation is refused until the crash, and after crash and restart the log is what was durable
  followed by a prefix of the records of the failed call.
\<close>

theorem failed_append_is_prefix:
  assumes "disk_holds (dsk c) rs rs"
    and "sim_append new c = Raised e c1" and "is_disk_error e"
    and "sim_crash c1 = Done kept c2" and "sim_restart c2 = Done () c3"
  shows "sim_append [] c1 = Raised DiskFailed c1 \<and> sim_sync c1 = Raised DiskFailed c1
    \<and> (\<exists>n c4. sim_read_all c3 = Done (rs @ take n new) c4)"
proof -
  have "disk_crash_restart c1 c3" using assms(4,5) by (auto simp: disk_crash_restart_def)
  then obtain n where n: "disk_holds (dsk c3) (rs @ take n new) (rs @ take n new)"
    by (rule sdisk.failed_append_recovers_prefix [OF assms(1-3)])
  have "online_flag (dsk c1) \<and> failed_flag (dsk c1)"
    using sim_append_failed [OF assms(1-3)] by simp
  then show ?thesis
    using sim_read_all_Done [OF n]
    by (auto simp: sim_append_def sim_sync_def require_online_def ite_def raise_def ret_def)
qed

theorem failed_append_is_prefix_witness:
  "\<exists>c e c1 kept c2 c3 n c4. sim_append [[1, 2, 3]] c = Raised e c1 \<and> is_disk_error e
     \<and> sim_sync c1 = Raised DiskFailed c1 \<and> sim_crash c1 = Done kept c2 \<and> sim_restart c2 = Done () c3
     \<and> sim_read_all c3 = Done (take n [[1, 2, 3]]) c4"
proof -
  let ?r = "\<lparr>seed = 0, calls = 0, src = (\<lambda>_. 0), pos = 0\<rparr> :: rng"
  let ?c = "\<lparr>drng = ?r, dsk = new_sim_storage aggressive_disk_faults\<rparr>"
  have z: "zero_stream (drng ?c)" by (simp add: zero_stream_def)
  have h: "disk_holds (dsk ?c) [] []" by simp
  obtain blob where blob: "encode_records [[1, 2, 3 :: 8 word]] = Inr blob"
    using encode_records_total [of "[[1, 2, 3]]"] by (auto simp: MAX_RECORD_SIZE_def)
  obtain r where zr: "zero_stream r" and a: "sim_append [[1, 2, 3]] ?c = Raised (DiskWriteFailed 0 (length blob))
      (?c\<lparr>drng := r, dsk := (dsk ?c)\<lparr>failed_flag := True, cache := None\<rparr>\<rparr>)" (is "_ = Raised ?e ?c1")
    using sim_append_zero [OF z refl refl _ _ _ _ blob] h
    by (auto simp: new_sim_storage_def aggressive_disk_faults_def online_def)
  obtain kept c2 c3 where d: "sim_crash ?c1 = Done kept c2" "sim_restart c2 = Done () c3"
    using sim_crash_zero [of ?c1] zr by (auto simp: new_sim_storage_def aggressive_disk_faults_def)
  have "is_disk_error ?e" by simp
  from failed_append_is_prefix [OF h a this d] a d show ?thesis
    by (metis append_Nil is_disk_error.simps(4))
qed

end
