(* ===== verification/Sim_Faults.thy ===== *)
theory Sim_Faults
  imports Sim_Net Sim_Disk "HOL-Library.Multiset"
begin

text \<open>
  Fault schedules and the injector, after \<^verbatim>\<open>groundhog/sim/faults.py\<close>. A schedule is drawn before the
  run from the shared generator; the loops that walk a timeline forward are \<open>partial_function\<close>s,
  since a profile with zero gaps and durations would never leave them. The injector puts every episode
  on the event queue and applies it when it fires; it is given what crashing and restarting a node do.

  \<open>sim_action\<close> is the type of the callbacks that stand on the queue: the network's, the injector's and
  those of the program under test (\<open>'t\<close>).
\<close>

declare block.simps [simp del]

section \<open>Episodes and profiles\<close>

definition CRASH :: string where "CRASH = ''crash''"
definition HANG :: string where "HANG = ''hang''"

datatype partition_episode =
  PartitionEpisode (pe_at: Tick) (pe_duration: Tick) (pe_partition: partition_cut)

datatype outage_episode =
  OutageEpisode (oe_at: Tick) (oe_duration: Tick) (oe_node: NodeId) (oe_kind: string)

datatype fault_schedule =
  FaultSchedule (fs_partitions: "partition_episode list") (fs_outages: "outage_episode list")

definition partition_episode_describe :: "partition_episode \<Rightarrow> 'd jrecord" where
  "partition_episode_describe e =
     [(''at'', JInt (pe_at e)), (''duration'', JInt (pe_duration e))] @ partition_describe (pe_partition e)"

definition outage_episode_describe :: "outage_episode \<Rightarrow> 'd jrecord" where
  "outage_episode_describe e =
     [(''at'', JInt (oe_at e)), (''duration'', JInt (oe_duration e)), (''node'', JInt (oe_node e)),
      (''kind'', JStr (oe_kind e))]"

definition fault_schedule_describe :: "fault_schedule \<Rightarrow> 'd jrecord" where
  "fault_schedule_describe s =
     [(''partitions'', JList (map (\<lambda>e. JObj (partition_episode_describe e)) (fs_partitions s))),
      (''outages'', JList (map (\<lambda>e. JObj (outage_episode_describe e)) (fs_outages s)))]"

definition schedule_without :: "fault_schedule \<Rightarrow> int \<Rightarrow> string \<Rightarrow> exn + fault_schedule" where
  "schedule_without s index of_kind =
     (if of_kind = ''partitions'' then
        Inr (FaultSchedule (py_upto (fs_partitions s) index @ py_from (fs_partitions s) (index + 1)) (fs_outages s))
      else if of_kind = ''outages'' then
        Inr (FaultSchedule (fs_partitions s) (py_upto (fs_outages s) index @ py_from (fs_outages s) (index + 1)))
      else Inl ValueError)"

record fault_profile =
  fp_name :: string
  fp_network :: network_faults
  fp_disk :: disk_faults
  fp_partitions :: bool
  fp_partition_gap :: "Tick \<times> Tick"
  fp_partition_duration :: "Tick \<times> Tick"
  fp_one_way_percent :: int
  fp_outages :: bool
  fp_outage_gap :: "Tick \<times> Tick"
  fp_outage_duration :: "Tick \<times> Tick"
  fp_hang_percent :: int

definition quiet_profile :: fault_profile where
  "quiet_profile =
     \<lparr>fp_name = ''quiet'', fp_network = default_network_faults, fp_disk = default_disk_faults,
      fp_partitions = False, fp_partition_gap = (200 * MILLISECOND, 2 * SECOND),
      fp_partition_duration = (100 * MILLISECOND, 1 * SECOND), fp_one_way_percent = 30,
      fp_outages = False, fp_outage_gap = (300 * MILLISECOND, 3 * SECOND),
      fp_outage_duration = (50 * MILLISECOND, 800 * MILLISECOND), fp_hang_percent = 30\<rparr>"

definition perfect_profile :: fault_profile where
  "perfect_profile = quiet_profile\<lparr>fp_name := ''perfect'',
     fp_network := default_network_faults\<lparr>latency := (5 * MILLISECOND, 5 * MILLISECOND)\<rparr>\<rparr>"

definition aggressive_profile :: fault_profile where
  "aggressive_profile = quiet_profile\<lparr>fp_name := ''aggressive'',
     fp_network := \<lparr>latency = (1 * MILLISECOND, 60 * MILLISECOND), drop_percent = 8, duplicate_percent = 4\<rparr>,
     fp_disk := aggressive_disk_faults, fp_partitions := True, fp_outages := True\<rparr>"

definition profile_by_name :: "string \<Rightarrow> exn + fault_profile" where
  "profile_by_name name =
     (case map_of [(''perfect'', perfect_profile), (''quiet'', quiet_profile),
                   (''aggressive'', aggressive_profile)] name of
        None \<Rightarrow> Inl ValueError | Some p \<Rightarrow> Inr p)"

section \<open>Drawing a schedule\<close>

text \<open>\<open>pool.pop(rng.below(len(pool)))\<close>, \<open>n\<close> times.\<close>

fun draw_side :: "nat \<Rightarrow> NodeId list \<Rightarrow> NodeId list \<Rightarrow> (NodeId list \<times> NodeId list, rng) py" where
  "draw_side 0 pool chosen = ret (chosen, pool)"
| "draw_side (Suc n) pool chosen =
     bind (below (int (length pool))) (\<lambda>i.
       draw_side n (take (nat i) pool @ drop (Suc (nat i)) pool) (chosen @ [pool ! nat i]))"

definition split_nodes :: "NodeId list \<Rightarrow> (NodeId list \<times> NodeId list, rng) py" where
  "split_nodes node_ids =
     bind (between 1 (int (length node_ids) - 1)) (\<lambda>n.
     bind (draw_side (nat n) node_ids []) (\<lambda>(chosen, pool). ret (sort chosen, sort pool)))"

definition partition_turn ::
  "fault_profile \<Rightarrow> NodeId list \<Rightarrow> Tick \<Rightarrow> (partition_episode \<times> Tick, rng) py" where
  "partition_turn p node_ids at =
     bind (between (fst (fp_partition_duration p)) (snd (fp_partition_duration p))) (\<lambda>duration.
     bind (split_nodes node_ids) (\<lambda>(a, b).
     bind (chance (fp_one_way_percent p)) (\<lambda>ow.
     bind (between (fst (fp_partition_gap p)) (snd (fp_partition_gap p))) (\<lambda>gap.
       ret (PartitionEpisode at duration (Partition a b ow), at + (duration + gap))))))"

definition outage_turn :: "fault_profile \<Rightarrow> NodeId \<Rightarrow> Tick \<Rightarrow> (outage_episode \<times> Tick, rng) py" where
  "outage_turn p node_id at =
     bind (between (fst (fp_outage_duration p)) (snd (fp_outage_duration p))) (\<lambda>duration.
     bind (chance (fp_hang_percent p)) (\<lambda>hang.
     bind (between (fst (fp_outage_gap p)) (snd (fp_outage_gap p))) (\<lambda>gap.
       ret (OutageEpisode at duration node_id (if hang then HANG else CRASH), at + (duration + gap)))))"

text \<open>\<^verbatim>\<open>while at < horizon\<close>: one turn of the loop draws an episode and the next start. Not returning
  is \<open>None\<close>.\<close>

partial_function (option) timeline ::
  "(Tick \<Rightarrow> ('e \<times> Tick, rng) py) \<Rightarrow> Tick \<Rightarrow> Tick \<Rightarrow> 'e list \<Rightarrow> rng \<Rightarrow> ('e list, rng) outcome option" where
  "timeline turn horizon at acc r =
     (if at < horizon then
        (case turn at r of
           Done x r' \<Rightarrow> timeline turn horizon (snd x) (acc @ [fst x]) r'
         | Raised e r' \<Rightarrow> Some (Raised e r')
         | Diverges \<Rightarrow> None)
      else Some (Done acc r))"

definition run_timeline :: "(Tick \<Rightarrow> ('e \<times> Tick, rng) py) \<Rightarrow> Tick \<Rightarrow> Tick \<Rightarrow> ('e list, rng) py" where
  "run_timeline turn horizon at r = (case timeline turn horizon at [] r of None \<Rightarrow> Diverges | Some out \<Rightarrow> out)"

fun node_outages ::
  "fault_profile \<Rightarrow> Tick \<Rightarrow> NodeId list \<Rightarrow> outage_episode list \<Rightarrow> (outage_episode list, rng) py" where
  "node_outages p horizon [] acc = ret acc"
| "node_outages p horizon (n # ns) acc =
     bind (between (fst (fp_outage_gap p)) (snd (fp_outage_gap p))) (\<lambda>at.
     bind (run_timeline (outage_turn p n) horizon at) (\<lambda>es. node_outages p horizon ns (acc @ es)))"

definition generate_schedule ::
  "fault_profile \<Rightarrow> NodeId list \<Rightarrow> Tick \<Rightarrow> (fault_schedule, rng) py" where
  "generate_schedule p node_ids horizon =
     bind (if fp_partitions p \<and> 2 \<le> length node_ids then
             bind (between (fst (fp_partition_gap p)) (snd (fp_partition_gap p))) (\<lambda>at.
               run_timeline (partition_turn p node_ids) horizon at)
           else ret []) (\<lambda>partitions.
     bind (if fp_outages p then node_outages p horizon (sort node_ids) [] else ret []) (\<lambda>outages.
       ret (FaultSchedule partitions (sort_key (\<lambda>e. (oe_at e, oe_node e)) outages))))"

section \<open>The injector\<close>

datatype ('m, 't) sim_action =
    Arrive NodeId NodeId 'm
  | StartPartition partition_episode
  | HealPartition
  | BeginOutage outage_episode
  | EndOutage outage_episode
  | Callback 't

record ('a, 'd, 'm, 'h) faultsim = "('a, 'd, 'm, 'h) netsim" +
  fault_plan :: fault_schedule
  fired :: "string list"

definition inject_at ::
  "Tick \<Rightarrow> string \<Rightarrow> 'a \<Rightarrow> ('a, 'd, 'm, 'h, 'z) faultsim_scheme stmt" where
  "inject_at tick kind action c =
     bind (clock_after (max 0 (tick - now c)) action kind None) (\<lambda>_. ret ()) c"

definition injector_arm :: "(('m, 't) sim_action, 'd, 'm, 'h, 'z) faultsim_scheme stmt" where
  "injector_arm c =
     block [for_each (fs_partitions (fault_plan c)) (\<lambda>split.
              block [inject_at (pe_at split) ''fault.partition'' (StartPartition split),
                     inject_at (pe_at split + pe_duration split) ''fault.heal'' HealPartition]),
            for_each (fs_outages (fault_plan c)) (\<lambda>outage.
              block [inject_at (oe_at outage) (''fault.'' @ oe_kind outage) (BeginOutage outage),
                     inject_at (oe_at outage + oe_duration outage) ''fault.recover'' (EndOutage outage)])] c"

definition note_fired :: "string \<Rightarrow> ('a, 'd, 'm, 'h, 'z) faultsim_scheme stmt" where
  "note_fired what = modify (\<lambda>c. c\<lparr>fired := fired c @ [what]\<rparr>)"

definition start_partition :: "partition_episode \<Rightarrow> ('a, 'd, 'm, 'h, 'z) faultsim_scheme stmt" where
  "start_partition episode = block [note_fired ''partition'', net_split (pe_partition episode)]"

definition heal_partition :: "('a, 'd, 'm, 'h, 'z) faultsim_scheme stmt" where
  "heal_partition = block [note_fired ''heal'', net_heal]"

definition begin_outage ::
  "(NodeId \<Rightarrow> ('a, 'd, 'm, 'h, 'z) faultsim_scheme stmt) \<Rightarrow> outage_episode \<Rightarrow>
     ('a, 'd, 'm, 'h, 'z) faultsim_scheme stmt" where
  "begin_outage crash_node episode =
     block [note_fired (oe_kind episode),
       (if oe_kind episode = CRASH then
          block [net_set_state (oe_node episode) CRASHED, crash_node (oe_node episode)]
        else net_set_state (oe_node episode) HUNG)]"

definition end_outage ::
  "(NodeId \<Rightarrow> ('a, 'd, 'm, 'h, 'z) faultsim_scheme stmt) \<Rightarrow> outage_episode \<Rightarrow>
     ('a, 'd, 'm, 'h, 'z) faultsim_scheme stmt" where
  "end_outage restart_node episode =
     block [note_fired (oe_kind episode @ ''_end''),
       (if oe_kind episode = CRASH then restart_node (oe_node episode) else ret ()),
       net_set_state (oe_node episode) RUNNING]"

section \<open>A split is a partition\<close>

lemma draw_side_Done:
  assumes "draw_side n pool chosen r = Done (a, b) r'"
  shows "length a = length chosen + n \<and> mset a + mset b = mset chosen + mset pool \<and> same_stream r r'"
  using assms
proof (induction n pool chosen arbitrary: r rule: draw_side.induct)
  case (1 pool chosen)
  then show ?case by simp
next
  case (2 n pool chosen)
  from "2.prems" obtain i r1 where i: "below (int (length pool)) r = Done i r1"
    and rest: "draw_side n (take (nat i) pool @ drop (Suc (nat i)) pool) (chosen @ [pool ! nat i]) r1 = Done (a, b) r'"
    by auto
  from below_Done [OF i] have lt: "nat i < length pool" and st: "same_stream r r1" by auto
  have "mset pool = mset (take (nat i) pool @ pool ! nat i # drop (Suc (nat i)) pool)"
    using id_take_nth_drop [OF lt] by simp
  with "2.IH" [OF rest] st show ?case by (auto intro: same_stream_trans)
qed

lemma split_nodes_Done:
  assumes "split_nodes ids r = Done (a, b) r'"
  shows "a \<noteq> [] \<and> b \<noteq> [] \<and> mset a + mset b = mset ids \<and> sorted a \<and> sorted b \<and> same_stream r r'"
proof -
  from assms obtain n r1 a' b' where n: "between 1 (int (length ids) - 1) r = Done n r1"
    and d: "draw_side (nat n) ids [] r1 = Done (a', b') r'" and ab: "a = sort a'" "b = sort b'"
    by (auto simp: split_nodes_def split: prod.splits)
  note D = draw_side_Done [OF d]
  have la: "length a' = nat n" using D by simp
  have lb: "length b' = length ids - nat n"
    using D la by (metis add_diff_cancel_left' append_Nil mset_append size_mset size_union mset.simps(1) add_0)
  from between_Done [OF n] have "1 \<le> n" "n \<le> int (length ids) - 1" and st: "same_stream r r1" by auto
  then have "a' \<noteq> []" "b' \<noteq> []" using la lb by auto
  then show ?thesis using D st ab by (auto intro: same_stream_trans simp flip: mset_zero_iff)
qed

section \<open>Timelines\<close>

lemma timeline_Done:
  assumes run: "timeline turn horizon at acc r = Some (Done es r')"
    and step: "\<And>at acc r x t r'. turn at r = Done (x, t) r' \<Longrightarrow> at < horizon \<Longrightarrow> I at acc r \<Longrightarrow> I t (acc @ [x]) r'"
    and init: "I at acc r"
  shows "\<exists>t. I t es r' \<and> horizon \<le> t"
proof -
  define steps where "steps turn horizon \<longleftrightarrow> (\<forall>at acc r x t r'. turn at r = Done (x, t) r' \<longrightarrow>
      at < horizon \<longrightarrow> I at acc r \<longrightarrow> I t (acc @ [x]) r')" for turn and horizon :: int
  have "steps turn horizon \<longrightarrow> out = Done es r' \<longrightarrow> I at acc r \<longrightarrow> (\<exists>t. I t es r' \<and> horizon \<le> t)"
    if "timeline turn horizon at acc r = Some out" for out
    using that
  proof (induction rule: timeline.raw_induct [rotated, consumes 1, case_names step])
    case (step tl turn horizon at acc r out)
    show ?case
    proof (cases "at < horizon")
      case False
      with step(2) show ?thesis by auto
    next
      case True
      show ?thesis
      proof (cases "turn at r")
        case (Done x r1)
        with True step(2) have t: "tl turn horizon (snd x) (acc @ [fst x]) r1 = Some out" by simp
        have "I (snd x) (acc @ [fst x]) r1" if "I at acc r" "steps turn horizon"
          using that Done True unfolding steps_def by (metis prod.collapse)
        with step(1) [OF t] show ?thesis by blast
      next
        case (Raised e r1)
        with True step(2) show ?thesis by auto
      next
        case Diverges
        with True step(2) show ?thesis by simp
      qed
    qed
  qed
  moreover have "steps turn horizon" using step by (auto simp: steps_def)
  ultimately show ?thesis using run init by blast
qed

lemma timeline_unfold:
  "timeline turn horizon at acc r =
     (if at < horizon then
        (case turn at r of
           Done x r' \<Rightarrow> timeline turn horizon (snd x) (acc @ [fst x]) r'
         | Raised e r' \<Rightarrow> Some (Raised e r')
         | Diverges \<Rightarrow> None)
      else Some (Done acc r))"
  by (rule timeline.simps)

text \<open>A timeline is finite when every turn returns and moves at least one tick forward.\<close>

lemma timeline_returns:
  assumes "\<And>at r. fair r \<Longrightarrow> \<exists>x r'. turn at r = Done x r' \<and> fair r' \<and> at < snd x" and "fair r"
  shows "\<exists>es r'. timeline turn horizon at acc r = Some (Done es r') \<and> fair r'"
  using assms(2)
proof (induction "nat (horizon - at)" arbitrary: at acc r rule: less_induct)
  case less
  show ?case
  proof (cases "at < horizon")
    case False
    with less.prems show ?thesis by (subst timeline_unfold) simp
  next
    case True
    obtain x r1 where "turn at r = Done x r1" "fair r1" "at < snd x"
      using assms(1) [OF less.prems] by blast
    with True less.hyps [of "snd x" r1] show ?thesis by (subst timeline_unfold) simp
  qed
qed

section \<open>What a schedule looks like\<close>

text \<open>\<open>spaced start stop gap es\<close>: between the end of an episode and the start of any later one there
  are at least \<open>gap\<close> ticks.\<close>

definition spaced :: "('e \<Rightarrow> Tick) \<Rightarrow> ('e \<Rightarrow> Tick) \<Rightarrow> Tick \<Rightarrow> 'e list \<Rightarrow> bool" where
  "spaced start len gap es \<longleftrightarrow> sorted_wrt (\<lambda>e e'. start e + len e + gap \<le> start e') es"

lemma spaced_Nil [simp]: "spaced start len gap []"
  by (simp add: spaced_def)

lemma spaced_snoc: "spaced start len gap (es @ [e]) \<longleftrightarrow>
    spaced start len gap es \<and> (\<forall>x \<in> set es. start x + len x + gap \<le> start e)"
  by (auto simp: spaced_def sorted_wrt_append)

definition partition_ok :: "fault_profile \<Rightarrow> NodeId list \<Rightarrow> Tick \<Rightarrow> partition_episode \<Rightarrow> bool" where
  "partition_ok p ids horizon e \<longleftrightarrow>
     fst (fp_partition_gap p) \<le> pe_at e \<and> pe_at e < horizon
     \<and> fst (fp_partition_duration p) \<le> pe_duration e \<and> pe_duration e \<le> snd (fp_partition_duration p)
     \<and> side_a (pe_partition e) \<noteq> [] \<and> side_b (pe_partition e) \<noteq> []
     \<and> mset (side_a (pe_partition e)) + mset (side_b (pe_partition e)) = mset ids"

definition outage_ok :: "fault_profile \<Rightarrow> NodeId list \<Rightarrow> Tick \<Rightarrow> outage_episode \<Rightarrow> bool" where
  "outage_ok p ids horizon e \<longleftrightarrow>
     fst (fp_outage_gap p) \<le> oe_at e \<and> oe_at e < horizon \<and> oe_node e \<in> set ids \<and> oe_kind e \<in> {CRASH, HANG}
     \<and> fst (fp_outage_duration p) \<le> oe_duration e \<and> oe_duration e \<le> snd (fp_outage_duration p)"

lemma partition_turn_Done:
  assumes "partition_turn p ids at r = Done (e, t) r'"
  obtains d g where "pe_at e = at" "pe_duration e = d" "t = at + (d + g)"
    "fst (fp_partition_duration p) \<le> d" "d \<le> snd (fp_partition_duration p)"
    "fst (fp_partition_gap p) \<le> g" "side_a (pe_partition e) \<noteq> []" "side_b (pe_partition e) \<noteq> []"
    "mset (side_a (pe_partition e)) + mset (side_b (pe_partition e)) = mset ids"
proof -
  from assms obtain d r1 a b r2 ow r3 g where
    d: "between (fst (fp_partition_duration p)) (snd (fp_partition_duration p)) r = Done d r1"
    and s: "split_nodes ids r1 = Done (a, b) r2"
    and g: "between (fst (fp_partition_gap p)) (snd (fp_partition_gap p)) r3 = Done g r'"
    and e: "e = PartitionEpisode at d (Partition a b ow)" and t: "t = at + (d + g)"
    by (auto simp: partition_turn_def split: prod.splits)
  show thesis
    by (rule that [of d g]) (use between_Done [OF d] between_Done [OF g] split_nodes_Done [OF s] e t in simp_all)
qed

lemma outage_turn_Done:
  assumes "outage_turn p n at r = Done (e, t) r'"
  obtains d g where "oe_at e = at" "oe_duration e = d" "oe_node e = n" "oe_kind e \<in> {CRASH, HANG}"
    "t = at + (d + g)" "fst (fp_outage_duration p) \<le> d" "d \<le> snd (fp_outage_duration p)"
    "fst (fp_outage_gap p) \<le> g"
proof -
  from assms obtain d r1 h r2 g where
    d: "between (fst (fp_outage_duration p)) (snd (fp_outage_duration p)) r = Done d r1"
    and g: "between (fst (fp_outage_gap p)) (snd (fp_outage_gap p)) r2 = Done g r'"
    and e: "e = OutageEpisode at d n (if h then HANG else CRASH)" and t: "t = at + (d + g)"
    by (auto simp: outage_turn_def)
  show thesis
    by (rule that [of d g]) (use between_Done [OF d] between_Done [OF g] e t in simp_all)
qed

text \<open>A walk along a timeline keeps episodes apart, whatever they are.\<close>

lemma run_timeline_spaced:
  assumes run: "run_timeline turn horizon at r = Done es r'"
    and turn: "\<And>at r e t r'. turn at r = Done (e, t) r' \<Longrightarrow>
      start e = at \<and> at + len e + gap \<le> t \<and> 0 \<le> len e \<and> ok e"
    and gap: "0 \<le> gap"
  shows "spaced start len gap es \<and> (\<forall>e \<in> set es. at \<le> start e \<and> start e < horizon \<and> ok e)"
proof -
  let ?I = "\<lambda>t es (r :: rng). at \<le> t \<and> spaced start len gap es
    \<and> (\<forall>e \<in> set es. at \<le> start e \<and> start e < horizon \<and> start e + len e + gap \<le> t \<and> ok e)"
  have "timeline turn horizon at [] r = Some (Done es r')"
    using run by (auto simp: run_timeline_def split: option.splits)
  then have "\<exists>t. ?I t es r' \<and> horizon \<le> t"
  proof (rule timeline_Done)
    fix t es r e t' r'
    assume "turn t r = Done (e, t') r'" and lt: "t < horizon" and I: "?I t es r"
    from turn [OF this(1)] have e: "start e = t" "t + len e + gap \<le> t'" "0 \<le> len e" "ok e" by auto
    with I lt gap show "?I t' (es @ [e]) r'"
      by (fastforce simp: spaced_snoc)
  qed simp
  then show ?thesis by blast
qed

definition outages_of :: "NodeId \<Rightarrow> outage_episode list \<Rightarrow> outage_episode list" where
  "outages_of n es = filter (\<lambda>e. oe_node e = n) es"

lemma node_outages_Done:
  assumes "node_outages p horizon ns acc r = Done es r'" and "distinct ns"
    and "0 \<le> fst (fp_outage_duration p)" "0 \<le> fst (fp_outage_gap p)"
    and "\<forall>e \<in> set acc. oe_node e \<notin> set ns \<and> outage_ok p ids horizon e"
    and "\<forall>n. spaced oe_at oe_duration (fst (fp_outage_gap p)) (outages_of n acc)" and "set ns \<subseteq> set ids"
  shows "(\<forall>e \<in> set es. outage_ok p ids horizon e)
    \<and> (\<forall>n. spaced oe_at oe_duration (fst (fp_outage_gap p)) (outages_of n es))"
  using assms
proof (induction ns arbitrary: acc r)
  case Nil
  then show ?case by simp
next
  case (Cons n ns)
  let ?gap = "fst (fp_outage_gap p)"
  from Cons.prems(1) obtain at r1 xs r2 where
    at: "between ?gap (snd (fp_outage_gap p)) r = Done at r1"
    and run: "run_timeline (outage_turn p n) horizon at r1 = Done xs r2"
    and rest: "node_outages p horizon ns (acc @ xs) r2 = Done es r'"
    by auto
  let ?ok = "\<lambda>e. oe_node e = n \<and> oe_kind e \<in> {CRASH, HANG}
    \<and> fst (fp_outage_duration p) \<le> oe_duration e \<and> oe_duration e \<le> snd (fp_outage_duration p)"
  have "spaced oe_at oe_duration ?gap xs \<and> (\<forall>e \<in> set xs. at \<le> oe_at e \<and> oe_at e < horizon \<and> ?ok e)"
  proof (rule run_timeline_spaced [OF run _ Cons.prems(4)])
    fix at r e t r'
    assume "outage_turn p n at r = Done (e, t) r'"
    then show "oe_at e = at \<and> at + oe_duration e + ?gap \<le> t \<and> 0 \<le> oe_duration e \<and> ?ok e"
      using Cons.prems(3) by (elim outage_turn_Done) auto
  qed
  then have xs: "spaced oe_at oe_duration ?gap xs" "\<forall>e \<in> set xs. at \<le> oe_at e \<and> oe_at e < horizon \<and> ?ok e"
    by auto
  have of_xs: "outages_of m (acc @ xs) = (if m = n then xs else outages_of m acc)" for m
    using Cons.prems(5) xs(2) by (auto simp: outages_of_def filter_empty_conv filter_id_conv)
  show ?case
  proof (rule Cons.IH [OF rest _ Cons.prems(3,4)])
    show "distinct ns" "set ns \<subseteq> set ids" using Cons.prems(2,7) by auto
    show "\<forall>e \<in> set (acc @ xs). oe_node e \<notin> set ns \<and> outage_ok p ids horizon e"
      using Cons.prems(2,5,7) xs(2) between_Done [OF at] by (auto simp: outage_ok_def)
    show "\<forall>m. spaced oe_at oe_duration ?gap (outages_of m (acc @ xs))"
      using Cons.prems(6) xs(1) by (simp add: of_xs)
  qed
qed

section \<open>Drawing a schedule returns\<close>

definition profile_ok :: "fault_profile \<Rightarrow> bool" where
  "profile_ok p \<longleftrightarrow>
     0 \<le> fst (fp_partition_gap p) \<and> fst (fp_partition_gap p) \<le> snd (fp_partition_gap p)
     \<and> 0 \<le> fst (fp_partition_duration p) \<and> fst (fp_partition_duration p) \<le> snd (fp_partition_duration p)
     \<and> 0 < fst (fp_partition_gap p) + fst (fp_partition_duration p)
     \<and> 0 \<le> fp_one_way_percent p \<and> fp_one_way_percent p \<le> 100
     \<and> 0 \<le> fst (fp_outage_gap p) \<and> fst (fp_outage_gap p) \<le> snd (fp_outage_gap p)
     \<and> 0 \<le> fst (fp_outage_duration p) \<and> fst (fp_outage_duration p) \<le> snd (fp_outage_duration p)
     \<and> 0 < fst (fp_outage_gap p) + fst (fp_outage_duration p)
     \<and> 0 \<le> fp_hang_percent p \<and> fp_hang_percent p \<le> 100"

lemma profiles_ok: "profile_ok quiet_profile" "profile_ok perfect_profile" "profile_ok aggressive_profile"
  by (simp_all add: profile_ok_def quiet_profile_def perfect_profile_def aggressive_profile_def)

lemma draw_side_fair:
  assumes "fair r" and "n \<le> length pool"
  shows "\<exists>x r'. draw_side n pool chosen r = Done x r' \<and> fair r'"
  using assms
proof (induction n pool chosen arbitrary: r rule: draw_side.induct)
  case (1 pool chosen)
  then show ?case by (auto simp: ret_def)
next
  case (2 n pool chosen)
  obtain i r1 where i: "below (int (length pool)) r = Done i r1" "fair r1" "0 \<le> i" "i < int (length pool)"
    using below_fair [OF "2.prems"(1), of "int (length pool)"] "2.prems"(2) by auto
  have "\<exists>x r'. draw_side n (take (nat i) pool @ drop (Suc (nat i)) pool) (chosen @ [pool ! nat i]) r1
      = Done x r' \<and> fair r'"
    using i "2.prems"(2) by (intro "2.IH") auto
  then show ?case using i(1) by (auto simp: bind_def)
qed

lemma split_nodes_fair:
  assumes "fair r" and "2 \<le> length ids"
  shows "\<exists>a b r'. split_nodes ids r = Done (a, b) r' \<and> fair r'"
proof -
  obtain n r1 where n: "between 1 (int (length ids) - 1) r = Done n r1" "fair r1" "n \<le> int (length ids) - 1"
    using between_fair [OF assms(1), of 1 "int (length ids) - 1"] assms(2) by auto
  obtain a b r2 where "draw_side (nat n) ids [] r1 = Done (a, b) r2" "fair r2"
    using draw_side_fair [OF n(2), of "nat n" ids "[]"] n(3) nat_le_iff [of n "length ids"] by auto
  then show ?thesis using n(1) by (auto simp: split_nodes_def bind_def ret_def)
qed

lemma partition_turn_fair:
  assumes "fair r" and "profile_ok p" and "2 \<le> length ids"
  shows "\<exists>x r'. partition_turn p ids at r = Done x r' \<and> fair r' \<and> at < snd x"
proof -
  note ok = assms(2) [unfolded profile_ok_def]
  obtain d r1 where d: "between (fst (fp_partition_duration p)) (snd (fp_partition_duration p)) r = Done d r1"
    "fair r1" "fst (fp_partition_duration p) \<le> d" using between_fair [OF assms(1)] ok by blast
  obtain a b r2 where s: "split_nodes ids r1 = Done (a, b) r2" "fair r2"
    using split_nodes_fair [OF d(2) assms(3)] by blast
  obtain w r3 where w: "chance (fp_one_way_percent p) r2 = Done w r3" "fair r3"
    using chance_fair [OF s(2)] ok by blast
  obtain g r4 where g: "between (fst (fp_partition_gap p)) (snd (fp_partition_gap p)) r3 = Done g r4"
    "fair r4" "fst (fp_partition_gap p) \<le> g" using between_fair [OF w(2)] ok by blast
  show ?thesis using d s w g ok by (auto simp: partition_turn_def bind_def ret_def)
qed

lemma outage_turn_fair:
  assumes "fair r" and "profile_ok p"
  shows "\<exists>x r'. outage_turn p n at r = Done x r' \<and> fair r' \<and> at < snd x"
proof -
  note ok = assms(2) [unfolded profile_ok_def]
  obtain d r1 where d: "between (fst (fp_outage_duration p)) (snd (fp_outage_duration p)) r = Done d r1"
    "fair r1" "fst (fp_outage_duration p) \<le> d" using between_fair [OF assms(1)] ok by blast
  obtain w r3 where w: "chance (fp_hang_percent p) r1 = Done w r3" "fair r3"
    using chance_fair [OF d(2)] ok by blast
  obtain g r4 where g: "between (fst (fp_outage_gap p)) (snd (fp_outage_gap p)) r3 = Done g r4"
    "fair r4" "fst (fp_outage_gap p) \<le> g" using between_fair [OF w(2)] ok by blast
  show ?thesis using d w g ok by (auto simp: outage_turn_def bind_def ret_def)
qed

lemma run_timeline_fair:
  assumes "\<And>at r. fair r \<Longrightarrow> \<exists>x r'. turn at r = Done x r' \<and> fair r' \<and> at < snd x" and "fair r"
  shows "\<exists>es r'. run_timeline turn horizon at r = Done es r' \<and> fair r'"
proof -
  have "\<exists>es r'. timeline turn horizon at [] r = Some (Done es r') \<and> fair r'"
    by (rule timeline_returns) (use assms in auto)
  then show ?thesis by (auto simp: run_timeline_def)
qed

lemma node_outages_fair:
  assumes "fair r" and "profile_ok p"
  shows "\<exists>es r'. node_outages p horizon ns acc r = Done es r' \<and> fair r'"
  using assms(1)
proof (induction ns arbitrary: acc r)
  case Nil
  then show ?case by (auto simp: ret_def)
next
  case (Cons n ns)
  obtain at r1 where at: "between (fst (fp_outage_gap p)) (snd (fp_outage_gap p)) r = Done at r1" "fair r1"
    using between_fair [OF Cons.prems] assms(2) unfolding profile_ok_def by blast
  have "\<exists>es r2. run_timeline (outage_turn p n) horizon at r1 = Done es r2 \<and> fair r2"
    by (rule run_timeline_fair) (use outage_turn_fair assms(2) at(2) in auto)
  then obtain es r2 where es: "run_timeline (outage_turn p n) horizon at r1 = Done es r2" "fair r2"
    by blast
  show ?case using at es Cons.IH [OF es(2), of "acc @ es"] by (auto simp: bind_def)
qed

lemma generate_schedule_fair:
  assumes "fair r" and "profile_ok p"
  shows "\<exists>sch r'. generate_schedule p ids horizon r = Done sch r' \<and> fair r'"
proof -
  have "\<exists>ps r1. (if fp_partitions p \<and> 2 \<le> length ids then
      bind (between (fst (fp_partition_gap p)) (snd (fp_partition_gap p))) (\<lambda>at.
        run_timeline (partition_turn p ids) horizon at) else ret []) r = Done ps r1 \<and> fair r1"
  proof (cases "fp_partitions p \<and> 2 \<le> length ids")
    case True
    obtain at r0 where at: "between (fst (fp_partition_gap p)) (snd (fp_partition_gap p)) r = Done at r0" "fair r0"
      using between_fair [OF assms(1)] assms(2) unfolding profile_ok_def by blast
    have "\<exists>ps r1. run_timeline (partition_turn p ids) horizon at r0 = Done ps r1 \<and> fair r1"
      by (rule run_timeline_fair) (use partition_turn_fair True assms(2) at(2) in auto)
    with at True show ?thesis by (auto simp: bind_def)
  next
    case False
    with assms(1) show ?thesis by (auto simp: ret_def)
  qed
  then obtain ps r1 where ps: "(if fp_partitions p \<and> 2 \<le> length ids then
      bind (between (fst (fp_partition_gap p)) (snd (fp_partition_gap p))) (\<lambda>at.
        run_timeline (partition_turn p ids) horizon at) else ret []) r = Done ps r1" "fair r1" by blast
  have "\<exists>es r2. (if fp_outages p then node_outages p horizon (sort ids) [] else ret []) r1 = Done es r2 \<and> fair r2"
    using node_outages_fair [OF ps(2) assms(2)] ps(2) by (cases "fp_outages p") (auto simp: ret_def)
  then obtain es r2 where
    es: "(if fp_outages p then node_outages p horizon (sort ids) [] else ret []) r1 = Done es r2" "fair r2" by blast
  have "generate_schedule p ids horizon r
      = Done (FaultSchedule ps (sort_key (\<lambda>e. (oe_at e, oe_node e)) es)) r2"
    unfolding generate_schedule_def bind_Done
    by (intro exI conjI, rule ps(1), rule es(1)) simp
  then show ?thesis using es(2) by blast
qed

section \<open>Properties\<close>

text \<open>
  C35. A drawn schedule is one the cluster can be subjected to: every partition starts before the
  horizon, lasts as long as the profile says and cuts the nodes into two non-empty sides; partitions
  never overlap and leave at least the profile's gap; outages are in order of time and node, are of a
  known kind and length, and two outages of one node never overlap and leave the gap, so no node is
  crashed and hung at once.
\<close>

theorem schedule_well_formed:
  assumes "generate_schedule p ids horizon r = Done sch r'" and "distinct ids" and "profile_ok p"
  shows "(\<forall>e \<in> set (fs_partitions sch). partition_ok p ids horizon e)
    \<and> spaced pe_at pe_duration (fst (fp_partition_gap p)) (fs_partitions sch)
    \<and> sorted (map (\<lambda>e. (oe_at e, oe_node e)) (fs_outages sch))
    \<and> (\<forall>e \<in> set (fs_outages sch). outage_ok p ids horizon e)
    \<and> (\<forall>n. spaced oe_at oe_duration (fst (fp_outage_gap p)) (filter (\<lambda>e. oe_node e = n) (fs_outages sch)))
    \<and> (\<not> fp_partitions p \<longrightarrow> fs_partitions sch = []) \<and> (\<not> fp_outages p \<longrightarrow> fs_outages sch = [])"
proof -
  note ok = assms(3) [unfolded profile_ok_def]
  let ?pgap = "fst (fp_partition_gap p)" and ?ogap = "fst (fp_outage_gap p)"
  let ?key = "\<lambda>e. (oe_at e, oe_node e)"
  obtain ps r1 es where
    ps: "(if fp_partitions p \<and> 2 \<le> length ids then
      bind (between ?pgap (snd (fp_partition_gap p))) (\<lambda>at.
        run_timeline (partition_turn p ids) horizon at) else ret []) r = Done ps r1"
    and es: "(if fp_outages p then node_outages p horizon (sort ids) [] else ret []) r1 = Done es r'"
    and sch: "sch = FaultSchedule ps (sort_key ?key es)"
    using assms(1) unfolding generate_schedule_def bind_Done ret_Done by blast
  have P: "spaced pe_at pe_duration ?pgap ps \<and> (\<forall>e \<in> set ps. partition_ok p ids horizon e)
      \<and> (\<not> fp_partitions p \<longrightarrow> ps = [])"
  proof (cases "fp_partitions p \<and> 2 \<le> length ids")
    case False
    with ps show ?thesis by auto
  next
    case True
    with ps obtain at r0 where at: "between ?pgap (snd (fp_partition_gap p)) r = Done at r0"
      and run: "run_timeline (partition_turn p ids) horizon at r0 = Done ps r1" by auto
    let ?ok = "\<lambda>e. fst (fp_partition_duration p) \<le> pe_duration e \<and> pe_duration e \<le> snd (fp_partition_duration p)
      \<and> side_a (pe_partition e) \<noteq> [] \<and> side_b (pe_partition e) \<noteq> []
      \<and> mset (side_a (pe_partition e)) + mset (side_b (pe_partition e)) = mset ids"
    have "spaced pe_at pe_duration ?pgap ps \<and> (\<forall>e \<in> set ps. at \<le> pe_at e \<and> pe_at e < horizon \<and> ?ok e)"
    proof (rule run_timeline_spaced [OF run])
      fix at r e t r'
      assume "partition_turn p ids at r = Done (e, t) r'"
      then show "pe_at e = at \<and> at + pe_duration e + ?pgap \<le> t \<and> 0 \<le> pe_duration e \<and> ?ok e"
        using ok by (elim partition_turn_Done) auto
    qed (use ok in simp)
    then show ?thesis using between_Done [OF at] True by (auto simp: partition_ok_def)
  qed
  have O: "(\<forall>e \<in> set es. outage_ok p ids horizon e)
    \<and> (\<forall>n. spaced oe_at oe_duration ?ogap (outages_of n es)) \<and> (\<not> fp_outages p \<longrightarrow> es = [])"
  proof (cases "fp_outages p")
    case False
    with es show ?thesis by (auto simp: outages_of_def)
  next
    case True
    with es have run: "node_outages p horizon (sort ids) [] r1 = Done es r'" by simp
    from node_outages_Done [OF run, of ids] ok assms(2) True show ?thesis by (simp add: outages_of_def)
  qed
  have sort_of: "filter (\<lambda>e. oe_node e = n) (sort_key ?key es) = outages_of n es" for n
  proof -
    have "sorted_wrt (\<lambda>e e'. oe_at e + oe_duration e + ?ogap \<le> oe_at e') (outages_of n es)"
      using O by (simp add: spaced_def)
    then have "sorted_wrt (\<lambda>e e'. ?key e \<le> ?key e') (outages_of n es)"
    proof (rule sorted_wrt_mono_rel [rotated])
      fix e e'
      assume m: "e \<in> set (outages_of n es)" "e' \<in> set (outages_of n es)"
        and le: "oe_at e + oe_duration e + ?ogap \<le> oe_at e'"
      have "0 \<le> oe_duration e + ?ogap" using O m(1) ok by (auto simp: outages_of_def outage_ok_def)
      with le m show "?key e \<le> ?key e'" by (auto simp: outages_of_def)
    qed
    then have "sorted (map ?key (outages_of n es))" by (simp add: sorted_map)
    then show ?thesis by (simp add: filter_sort outages_of_def sort_key_id_if_sorted)
  qed
  show ?thesis using P O by (simp add: sch sort_of)
qed

text \<open>
  Drawing a schedule terminates: with a profile whose ranges and percentages make sense and whose
  gaps and durations are not both zero (all three built-in profiles are such), on any stream on which
  draws return, a schedule is returned, and neither an exception nor an endless loop.
\<close>

theorem schedule_terminates:
  assumes "fair r" and "profile_ok p"
  shows "\<exists>sch r'. generate_schedule p ids horizon r = Done sch r'"
  using generate_schedule_fair [OF assms] by blast

theorem schedule_terminates_witness:
  "\<exists>sch r'. generate_schedule aggressive_profile [1, 2, 3] 1000000
     \<lparr>seed = 7, calls = 0, src = (\<lambda>_. 0), pos = 0\<rparr> = Done sch r'"
  by (rule schedule_terminates) (simp_all add: profiles_ok zero_stream_fair zero_stream_def)

theorem schedule_well_formed_witness:
  "\<exists>sch r'. generate_schedule aggressive_profile [1, 2, 3] 1000000
     \<lparr>seed = 7, calls = 0, src = (\<lambda>_. 0), pos = 0\<rparr> = Done sch r'
     \<and> spaced pe_at pe_duration (200 * MILLISECOND) (fs_partitions sch)"
proof -
  let ?r = "\<lparr>seed = 7, calls = 0, src = (\<lambda>_. 0), pos = 0\<rparr> :: rng"
  obtain sch r' where g: "generate_schedule aggressive_profile [1, 2, 3] 1000000 ?r = Done sch r'"
    using generate_schedule_fair [of ?r aggressive_profile "[1, 2, 3]" 1000000] zero_stream_fair [of ?r]
    by (auto simp: profiles_ok zero_stream_def)
  have "distinct [1, 2, 3 :: int]" by simp
  from schedule_well_formed [OF g this profiles_ok(3)] g show ?thesis
    by (auto simp: aggressive_profile_def quiet_profile_def)
qed

end
