(* ===== verification/Sim_World.thy ===== *)
theory Sim_World
  imports Sim_Faults
begin

text \<open>
  The simulator of \<^verbatim>\<open>groundhog/sim/world.py\<close>: take the earliest event, move time to it, record it, run
  it, then run the hooks. \<open>sim_turn\<close> is one turn of the loop, \<open>sim_run\<close> the whole of \<^verbatim>\<open>run\<close>, a
  \<open>partial_function\<close> because nothing bounds the events a program schedules. What an event's callback
  does is the argument \<open>act\<close>, what runs after it the argument \<open>hooks\<close>; \<open>show_exn\<close> is the text of an
  exception. Shown: every invariant that each callback and hook keeps holds throughout a run, and time
  only moves forward.
\<close>

declare block.simps [simp del]

section \<open>Definitions\<close>

text \<open>\<^verbatim>\<open>d.update(more)\<close>.\<close>

definition dict_update :: "('k \<times> 'v) list \<Rightarrow> ('k \<times> 'v) list \<Rightarrow> ('k \<times> 'v) list" where
  "dict_update extra d = foldl (\<lambda>d kv. AList.update (fst kv) (snd kv) d) d extra"

definition STOP_IDLE :: string where "STOP_IDLE = ''idle''"
definition STOP_MAX_TICKS :: string where "STOP_MAX_TICKS = ''max_ticks''"

record run_result =
  rr_seed :: int
  rr_events :: int
  rr_final_tick :: Tick
  rr_rng_calls :: int
  rr_stop_reason :: string

definition fire ::
  "('a \<Rightarrow> ('a, 'd, 'z) simcore_scheme stmt) \<Rightarrow> (Tick \<Rightarrow> ('a, 'd, 'z) simcore_scheme stmt) list \<Rightarrow>
     (exn \<Rightarrow> 'd jval) \<Rightarrow> ('a, 'd) event \<Rightarrow> ('a, 'd, 'z) simcore_scheme stmt" where
  "fire act hooks show_exn e w =
     (case block (act (ev_action e) # map (\<lambda>hook. hook (ev_tick e)) hooks) w of
        Raised x w' \<Rightarrow>
          (case trace_write [(''kind'', JStr ''sim.error''), (''tick'', JInt (now w')), (''seq'', JInt (ev_seq e)),
                             (''error'', show_exn x)] w' of
             Done _ w'' \<Rightarrow> Raised x w'' | out \<Rightarrow> out)
      | out \<Rightarrow> out)"

text \<open>\<open>Some reason\<close> is a \<^verbatim>\<open>break\<close> out of the loop.\<close>

definition sim_turn ::
  "('a \<Rightarrow> ('a, 'd, 'z) simcore_scheme stmt) \<Rightarrow> (Tick \<Rightarrow> ('a, 'd, 'z) simcore_scheme stmt) list \<Rightarrow>
     (exn \<Rightarrow> 'd jval) \<Rightarrow> Tick \<Rightarrow> (string option, ('a, 'd, 'z) simcore_scheme) py" where
  "sim_turn act hooks show_exn max_ticks =
     bind (with_queue peek_tick) (\<lambda>next_tick.
       case next_tick of None \<Rightarrow> ret (Some STOP_IDLE)
       | Some tick \<Rightarrow>
           if tick > max_ticks then ret (Some STOP_MAX_TICKS)
           else bind (with_queue pop) (\<lambda>popped.
             case popped of None \<Rightarrow> ret (Some STOP_IDLE)
             | Some e \<Rightarrow>
                 bind (block [advance_to (ev_tick e),
                        modify (\<lambda>w. w\<lparr>events_run := events_run w + 1\<rparr>),
                        (\<lambda>w. trace_write (AList.update ''rng'' (JInt (calls (rng w))) (event_describe e)) w),
                        fire act hooks show_exn e]) (\<lambda>_. ret None)))"

partial_function (option) sim_loop ::
  "(string option, 'w) py \<Rightarrow> 'w \<Rightarrow> (string, 'w) outcome option" where
  "sim_loop turn w =
     (case turn w of
        Done r w' \<Rightarrow> (case r of None \<Rightarrow> sim_loop turn w' | Some reason \<Rightarrow> Some (Done reason w'))
      | Raised e w' \<Rightarrow> Some (Raised e w')
      | Diverges \<Rightarrow> None)"

definition run_loop :: "(string option, 'w) py \<Rightarrow> (string, 'w) py" where
  "run_loop turn w = (case sim_loop turn w of None \<Rightarrow> Diverges | Some out \<Rightarrow> out)"

definition sim_result :: "string \<Rightarrow> ('a, 'd, 'z) simcore_scheme \<Rightarrow> run_result" where
  "sim_result reason w =
     \<lparr>rr_seed = seed (rng w), rr_events = events_run w, rr_final_tick = now w, rr_rng_calls = calls (rng w),
      rr_stop_reason = reason\<rparr>"

definition sim_run ::
  "('a \<Rightarrow> ('a, 'd, 'z) simcore_scheme stmt) \<Rightarrow> (Tick \<Rightarrow> ('a, 'd, 'z) simcore_scheme stmt) list \<Rightarrow>
     (exn \<Rightarrow> 'd jval) \<Rightarrow> NodeId list \<Rightarrow> Tick \<Rightarrow> (run_result, ('a, 'd, 'z) simcore_scheme) py" where
  "sim_run act hooks show_exn node_ids max_ticks =
     bind (\<lambda>w. trace_write (dict_update (header w) [(''kind'', JStr ''sim.start''), (''seed'', JInt (seed (rng w))),
              (''max_ticks'', JInt max_ticks), (''nodes'', JList (map JInt (sort node_ids)))]) w) (\<lambda>_.
     bind (run_loop (sim_turn act hooks show_exn max_ticks)) (\<lambda>reason.
     bind (\<lambda>w. trace_write [(''kind'', JStr ''sim.end''), (''tick'', JInt (now w)), (''events'', JInt (events_run w)),
              (''rng'', JInt (calls (rng w))), (''stop_reason'', JStr reason)] w) (\<lambda>_ w.
       Done (sim_result reason w) w)))"

section \<open>What the loop keeps\<close>

lemma sim_loop_unfold: "sim_loop turn w =
     (case turn w of
        Done r w' \<Rightarrow> (case r of None \<Rightarrow> sim_loop turn w' | Some reason \<Rightarrow> Some (Done reason w'))
      | Raised e w' \<Rightarrow> Some (Raised e w')
      | Diverges \<Rightarrow> None)"
  by (rule sim_loop.simps)

lemma run_loop_turn:
  "turn w = Done None w' \<Longrightarrow> run_loop turn w = run_loop turn w'"
  "turn w = Done (Some reason) w' \<Longrightarrow> run_loop turn w = Done reason w'"
  by (simp_all add: run_loop_def sim_loop_unfold [of turn w])

lemma run_loop_valid:
  assumes turn: "valid I turn (\<lambda>r w. if r = None then I w else Q (the r) w) E"
  shows "valid I (run_loop turn) Q E"
proof -
  have "valid I turn (\<lambda>r w. if r = None then I w else Q (the r) w) E \<longrightarrow> I w \<longrightarrow>
      (case out of Done r w' \<Rightarrow> Q r w' | Raised e w' \<Rightarrow> E e w' | Diverges \<Rightarrow> True)"
    if "sim_loop turn w = Some out" for w out and turn :: "(string option, 'a) py"
    using that
  proof (induction rule: sim_loop.raw_induct [rotated, consumes 1, case_names step])
    case (step loop turn w out)
    show ?case
    proof (intro impI)
      assume v: "valid I turn (\<lambda>r w. if r = None then I w else Q (the r) w) E" and I: "I w"
      show "case out of Done r w' \<Rightarrow> Q r w' | Raised e w' \<Rightarrow> E e w' | Diverges \<Rightarrow> True"
      proof (cases "turn w")
        case (Done r w')
        note kept = validD_Done [OF v I Done]
        show ?thesis
        proof (cases r)
          case None
          with Done step(2) have "loop turn w' = Some out" by simp
          from step(1) [OF this] v kept None show ?thesis by simp
        next
          case (Some reason)
          with Done step(2) kept show ?thesis by auto
        qed
      next
        case (Raised e w')
        with validD_Raised [OF v I] step(2) show ?thesis by auto
      next
        case Diverges
        with step(2) show ?thesis by simp
      qed
    qed
  qed
  with turn show ?thesis
    unfolding valid_def [of I "run_loop turn"] run_loop_def by (auto split: option.split)
qed

lemma peek_pop_return: "\<exists>t q'. peek_tick q = Done t q'" "\<exists>r q'. pop q = Done r q'"
  by (auto simp: peek_tick_def pop_def Let_def split: prod.split)

text \<open>
  The rule for the loop: \<open>I\<close> holds between events and \<open>J e\<close> once time has moved to the event \<open>e\<close> that was
  due. What the callback makes of \<open>J e\<close> and the hooks keep is all there is to prove of a program.
\<close>

lemma fire_valid:
  assumes act: "valid (J e) (act (ev_action e)) (\<lambda>_. I) E"
    and hooks: "\<And>h. h \<in> set hooks \<Longrightarrow> valid I (h (ev_tick e)) (\<lambda>_. I) E"
    and E: "\<And>x w r. E x w \<Longrightarrow> E x (w\<lparr>trace := r\<rparr>)"
  shows "valid (J e) (fire act hooks show_exn e) (\<lambda>_. I) E"
proof -
  have "valid I (for_each hooks (\<lambda>h. h (ev_tick e))) (\<lambda>_. I) E"
    using hooks by (rule valid_for_each)
  then have b: "valid (J e) (block (act (ev_action e) # map (\<lambda>hook. hook (ev_tick e)) hooks)) (\<lambda>_. I) E"
    unfolding for_each_def by (rule valid_block_Cons [OF act])
  show ?thesis
    unfolding valid_def
  proof (intro allI impI)
    fix w
    assume J: "J e w"
    show "case fire act hooks show_exn e w of Done x s' \<Rightarrow> I s' | Raised x s' \<Rightarrow> E x s' | Diverges \<Rightarrow> True"
      using validD_Done [OF b J] validD_Raised [OF b J] E
      by (auto simp: fire_def trace_write_def modify_def split: outcome.split)
  qed
qed

lemma sim_turn_valid:
  assumes wf: "\<And>w. I w \<Longrightarrow> core_wf w"
    and peek: "\<And>w t q. I w \<Longrightarrow> peek_tick (queue w) = Done t q \<Longrightarrow> I (w\<lparr>queue := q\<rparr>)"
    and begin_event: "\<And>w e q r. I w \<Longrightarrow> pop (queue w) = Done (Some e) q \<Longrightarrow> ev_tick e \<le> max_ticks \<Longrightarrow>
      J e (w\<lparr>queue := q, now := ev_tick e, events_run := events_run w + 1, trace := r\<rparr>)"
    and act: "\<And>e. valid (J e) (act (ev_action e)) (\<lambda>_. I) E"
    and hooks: "\<And>h t. h \<in> set hooks \<Longrightarrow> valid I (h t) (\<lambda>_. I) E"
    and E: "\<And>x w r. E x w \<Longrightarrow> E x (w\<lparr>trace := r\<rparr>)"
  shows "valid I (sim_turn act hooks show_exn max_ticks)
    (\<lambda>r w. I w \<and> (case r of None \<Rightarrow> True
       | Some reason \<Rightarrow> (\<forall>e \<in> set (live (queue w)). max_ticks < ev_tick e)
           \<and> reason = (if live (queue w) = [] then STOP_IDLE else STOP_MAX_TICKS))) E"
  unfolding valid_def
proof (intro allI impI)
  fix w
  assume I: "I w"
  let ?Q = "\<lambda>r w. I w \<and> (case r of None \<Rightarrow> True
       | Some reason \<Rightarrow> (\<forall>e \<in> set (live (queue w)). max_ticks < ev_tick e)
           \<and> reason = (if live (queue w) = [] then STOP_IDLE else STOP_MAX_TICKS))"
  obtain t q where p: "peek_tick (queue w) = Done t q" using peek_pop_return(1) by blast
  have wq: "queue_wf (queue w)" using wf [OF I] by (simp add: core_wf_def)
  note P = peek_tick_Done [OF wq p]
  let ?w1 = "w\<lparr>queue := q\<rparr>"
  have I1: "I ?w1" by (rule peek [OF I p])
  show "case sim_turn act hooks show_exn max_ticks w of Done r s' \<Rightarrow> ?Q r s' | Raised e s' \<Rightarrow> E e s' | Diverges \<Rightarrow> True"
  proof (cases "live q")
    case Nil
    then show ?thesis
      using p P(2,4) I1 by (simp add: sim_turn_def bind_def with_queue_def on_part_def ret_def)
  next
    case (Cons e es)
    then have t: "t = Some (ev_tick e)" using P(2,4) by simp
    show ?thesis
    proof (cases "max_ticks < ev_tick e")
      case True
      have "sorted (map ev_tick (live q))" by (rule sq.events_sorted [OF P(1)])
      with Cons True have "\<forall>x \<in> set (live q). max_ticks < ev_tick x" by auto
      with True show ?thesis
        using p t I1 Cons by (auto simp: sim_turn_def bind_def with_queue_def on_part_def ret_def)
    next
      case False
      obtain r q2 where pq: "pop q = Done r q2" using peek_pop_return(2) by blast
      with pop_Done(3) [OF P(1) pq] Cons have r: "r = Some e" by (auto split: option.splits)
      have "now w \<le> ev_tick e"
        using wf [OF I1] Cons by (simp add: core_wf_def)
      moreover have "J e (?w1\<lparr>queue := q2, now := ev_tick e, events_run := events_run ?w1 + 1,
          trace := trace w @ [AList.update ''rng'' (JInt (calls (rng w))) (event_describe e)]\<rparr>)"
        using begin_event [OF I1, of e q2] pq r False by simp
      moreover have "valid (J e) (fire act hooks show_exn e) (\<lambda>_. I) E"
        by (rule fire_valid) (use act hooks E in auto)
      note validD_Done [OF this] validD_Raised [OF this]
      ultimately show ?thesis
        using p t False pq r
        by (auto simp: sim_turn_def bind_def with_queue_def on_part_def ret_def block.simps advance_to_def
            modify_def trace_write_def split: outcome.split)
    qed
  qed
qed

lemma sim_run_valid:
  assumes wf: "\<And>w. I w \<Longrightarrow> core_wf w"
    and peek: "\<And>w t q. I w \<Longrightarrow> peek_tick (queue w) = Done t q \<Longrightarrow> I (w\<lparr>queue := q\<rparr>)"
    and begin_event: "\<And>w e q r. I w \<Longrightarrow> pop (queue w) = Done (Some e) q \<Longrightarrow> ev_tick e \<le> max_ticks \<Longrightarrow>
      J e (w\<lparr>queue := q, now := ev_tick e, events_run := events_run w + 1, trace := r\<rparr>)"
    and act: "\<And>e. valid (J e) (act (ev_action e)) (\<lambda>_. I) E"
    and hooks: "\<And>h t. h \<in> set hooks \<Longrightarrow> valid I (h t) (\<lambda>_. I) E"
    and E: "\<And>x w r. E x w \<Longrightarrow> E x (w\<lparr>trace := r\<rparr>)"
    and tr: "\<And>w r. I w \<Longrightarrow> I (w\<lparr>trace := r\<rparr>)"
  shows "valid I (sim_run act hooks show_exn ids max_ticks)
    (\<lambda>res w. I w \<and> res = sim_result (rr_stop_reason res) w \<and> (\<forall>e \<in> set (live (queue w)). max_ticks < ev_tick e)
       \<and> rr_stop_reason res = (if live (queue w) = [] then STOP_IDLE else STOP_MAX_TICKS)) E"
proof -
  let ?R = "\<lambda>reason w. I w \<and> (\<forall>e \<in> set (live (queue w)). max_ticks < ev_tick e)
       \<and> reason = (if live (queue w) = [] then STOP_IDLE else STOP_MAX_TICKS)"
  have loop: "valid I (run_loop (sim_turn act hooks show_exn max_ticks)) ?R E"
    by (rule run_loop_valid, rule valid_weaken [OF sim_turn_valid [of I max_ticks J act E hooks]])
      (use assms in \<open>auto split: option.splits\<close>)
  have "valid I (\<lambda>w. trace_write (f w) w) (\<lambda>_. I) E" for f
    using tr by (simp add: valid_def trace_write_def modify_def)
  note start = this
  have stop: "valid (?R reason) (bind (\<lambda>w. trace_write (f w) w) (\<lambda>_ w. Done (sim_result reason w) w))
    (\<lambda>res w. I w \<and> res = sim_result (rr_stop_reason res) w \<and> (\<forall>e \<in> set (live (queue w)). max_ticks < ev_tick e)
       \<and> rr_stop_reason res = (if live (queue w) = [] then STOP_IDLE else STOP_MAX_TICKS)) E" for f reason
    using tr by (simp add: valid_def bind_def trace_write_def modify_def sim_result_def)
  show ?thesis
    unfolding sim_run_def by (rule valid_bind [OF start], rule valid_bind [OF loop], rule stop)
qed

section \<open>Properties\<close>

text \<open>
  C23. The simulator moves time only forward and stops where it says: if callbacks and hooks leave a
  well-formed queue and do not touch the clock, a run that returns ends at a tick between where it
  started and \<^verbatim>\<open>max_ticks\<close>, every event still queued is due after \<^verbatim>\<open>max_ticks\<close>, and the reason is \<^verbatim>\<open>idle\<close>
  exactly when none is left.
\<close>

theorem simulator_stops:
  fixes w :: "('a, 'd, 'z) simcore_scheme"
  assumes "core_wf w" and "now w \<le> max_ticks"
    and "\<And>a w x w'. core_wf w \<Longrightarrow> act a w = Done x w' \<Longrightarrow> core_wf w' \<and> now w' = now w"
    and "\<And>h t w x w'. h \<in> set hooks \<Longrightarrow> core_wf w \<Longrightarrow> h t w = Done x w' \<Longrightarrow> core_wf w' \<and> now w' = now w"
    and "sim_run act hooks show_exn ids max_ticks w = Done res w'"
  shows "now w \<le> rr_final_tick res \<and> rr_final_tick res \<le> max_ticks
    \<and> (\<forall>e \<in> set (live (queue w')). max_ticks < ev_tick e)
    \<and> rr_stop_reason res = (if live (queue w') = [] then STOP_IDLE else STOP_MAX_TICKS)"
proof -
  let ?I = "\<lambda>v. core_wf v \<and> now w \<le> now v \<and> now v \<le> max_ticks"
  have "valid ?I (sim_run act hooks show_exn ids max_ticks)
    (\<lambda>res w. ?I w \<and> res = sim_result (rr_stop_reason res) w \<and> (\<forall>e \<in> set (live (queue w)). max_ticks < ev_tick e)
       \<and> rr_stop_reason res = (if live (queue w) = [] then STOP_IDLE else STOP_MAX_TICKS)) (\<lambda>_ _. True)"
  proof (rule sim_run_valid [where J = "\<lambda>_. ?I"])
    show "?I (v\<lparr>queue := q\<rparr>)" if "?I v" "peek_tick (queue v) = Done t q" for v t q
      using that peek_tick_Done [of "queue v" t q] by (auto simp: core_wf_def)
    show "?I (v\<lparr>queue := q, now := ev_tick e, events_run := events_run v + 1, trace := r\<rparr>)"
      if "?I v" "pop (queue v) = Done (Some e) q" "ev_tick e \<le> max_ticks" for v e q r
      using that pop_Done(1,3) [of "queue v" "Some e" q] sq.take_next_earliest [of "queue v" e q]
      by (auto simp: core_wf_def)
    show "valid ?I (act (ev_action e)) (\<lambda>_. ?I) (\<lambda>_ _. True)" for e :: "('a, 'd) event"
      using assms(3) by (fastforce intro!: validI)
    show "valid ?I (h t) (\<lambda>_. ?I) (\<lambda>_ _. True)" if "h \<in> set hooks" for h t
      using assms(4) [OF that] by (fastforce intro!: validI)
  qed (auto simp: core_wf_def)
  from validD_Done [OF this _ assms(5)] assms(1,2) show ?thesis
    by (auto simp: sim_result_def)
qed

definition queue_example :: "(bool, unit) event" where
  "queue_example = \<lparr>ev_tick = 5, ev_seq = 0, ev_kind = ''a'', ev_action = True, ev_actor = None, ev_detail = []\<rparr>"

theorem simulator_stops_witness:
  "\<exists>w res w'. sim_run (\<lambda>_. ret ()) [] (\<lambda>_. JNull) [1] 7 w = Done res w'
     \<and> w = \<lparr>rng = \<lparr>seed = 0, calls = 0, src = (\<lambda>_. 0), pos = 0\<rparr>,
           queue = \<lparr>heap = [(5, 0, queue_example)], next_seq = 1, pending = [(0, queue_example)]\<rparr>,
           now = 0, trace = [], header = [], events_run = 0\<rparr>
     \<and> rr_final_tick res \<le> 7 \<and> rr_stop_reason res = STOP_IDLE"
proof -
  let ?r = "\<lparr>seed = 0, calls = 0, src = (\<lambda>_. 0), pos = 0\<rparr> :: rng"
  let ?w = "\<lambda>h p t tr n. \<lparr>rng = ?r, queue = \<lparr>heap = h, next_seq = 1, pending = p\<rparr>,
    now = t, trace = tr, header = [], events_run = n\<rparr> :: (bool, unit) simcore"
  let ?start = "?w [(5, 0, queue_example)] [(0, queue_example)] 0 [] 0"
  let ?turn = "sim_turn (\<lambda>_. ret ()) [] (\<lambda>_. JNull) 7 :: (string option, (bool, unit) simcore) py"
  have turn: "\<exists>tr'. ?turn (?w [(5, 0, queue_example)] [(0, queue_example)] 0 tr 0) = Done None (?w [] [] 5 tr' 1)"
    for tr :: "unit jrecord list"
    by (simp add: sim_turn_def bind_def with_queue_def on_part_def peek_tick_def pop_def ret_def block.simps
        drop_cancelled_head_def advance_to_def modify_def trace_write_def fire_def queue_example_def)
  have idle: "?turn (?w [] [] 5 tr 1) = Done (Some STOP_IDLE) (?w [] [] 5 tr 1)" for tr :: "unit jrecord list"
    by (simp add: sim_turn_def bind_def with_queue_def on_part_def peek_tick_def ret_def drop_cancelled_head_def)
  let ?tr = "[dict_update [] [(''kind'', JStr ''sim.start''), (''seed'', JInt 0), (''max_ticks'', JInt 7),
    (''nodes'', JList [JInt 1])]] :: unit jrecord list"
  obtain tr' where tr': "run_loop ?turn (?w [(5, 0, queue_example)] [(0, queue_example)] 0 ?tr 0)
      = Done STOP_IDLE (?w [] [] 5 tr' 1)"
    using turn [of ?tr] run_loop_turn [of ?turn] idle by metis
  then obtain w' res where run: "sim_run (\<lambda>_. ret ()) [] (\<lambda>_. JNull) [1] 7 ?start = Done res w'"
    and live: "live (queue w') = []"
    by (simp add: sim_run_def bind_def trace_write_def modify_def live_def)
  have "core_wf ?start"
    by (auto simp: core_wf_def queue_wf_def live_def is_live_def heap_key_def queue_example_def dict_wf_def)
  from simulator_stops [OF this _ _ _ run] live run show ?thesis
    by (auto simp: ret_def)
qed

end
