(* ===== verification/Sim_Host.thy ===== *)
theory Sim_Host
  imports Sim_World
begin

text \<open>
  What the small worlds built on the simulator share: a host is a node's state \<open>hme\<close> with its disk, run on
  its own view of the world (\<open>on_host\<close>), as \<^verbatim>\<open>sim.nodes[node_id].method(...)\<close> does; and the decimal text of
  an integer. The naive replicator and the demonstration are such worlds, with different states.
\<close>

declare block.simps [simp del]

section \<open>Decimal text\<close>

text \<open>A Python integer in decimal, as an f-string writes it.\<close>

fun digits :: "nat \<Rightarrow> string" where
  "digits n = (if n < 10 then [] else digits (n div 10)) @ [char_of (48 + n mod 10)]"

declare digits.simps [simp del]

definition decimal :: "int \<Rightarrow> string" where
  "decimal i = (if i < 0 then ''-'' else []) @ digits (nat (abs i))"

section \<open>Hosts\<close>

record ('a, 'd, 'm, 'h, 'n) hostctx = "('a, 'd, 'm, 'h) netsim" +
  hme :: 'n
  hdisk :: sim_storage

record ('a, 'd, 'm, 'h, 'n) hostworld = "('a, 'd, 'm, 'h) faultsim" +
  hosts :: "(NodeId \<times> 'n \<times> sim_storage) list"

definition host_view :: "'n \<Rightarrow> sim_storage \<Rightarrow> ('a, 'd, 'm, 'h, 'n, 'z) hostworld_scheme \<Rightarrow> ('a, 'd, 'm, 'h, 'n) hostctx" where
  "host_view m d w = netsim.extend (netsim.truncate w) (hostctx.fields m d)"

definition host_back :: "NodeId \<Rightarrow> ('a, 'd, 'm, 'h, 'n) hostctx \<Rightarrow> ('a, 'd, 'm, 'h, 'n, 'z) hostworld_scheme \<Rightarrow>
    ('a, 'd, 'm, 'h, 'n, 'z) hostworld_scheme" where
  "host_back n c w = netsim.extend (netsim.truncate c)
     (netsim.more (w\<lparr>hosts := AList.update n (hme c, hdisk c) (hosts w)\<rparr>))"

definition on_host :: "NodeId \<Rightarrow> ('x, ('a, 'd, 'm, 'h, 'n) hostctx) py \<Rightarrow> ('x, ('a, 'd, 'm, 'h, 'n, 'z) hostworld_scheme) py" where
  "on_host n h w =
     (case map_of (hosts w) n of None \<Rightarrow> Raised KeyError w
      | Some (m, d) \<Rightarrow> on_part (host_view m d) (host_back n) h w)"

definition hupd :: "('n \<Rightarrow> 'n) \<Rightarrow> ('a, 'd, 'm, 'h, 'n) hostctx stmt" where
  "hupd f = modify (\<lambda>c. c\<lparr>hme := f (hme c)\<rparr>)"

definition on_hdisk :: "('x, disk_ctx) py \<Rightarrow> ('x, ('a, 'd, 'm, 'h, 'n) hostctx) py" where
  "on_hdisk = on_part (\<lambda>c. \<lparr>drng = rng c, dsk = hdisk c\<rparr>) (\<lambda>d c. c\<lparr>rng := drng d, hdisk := dsk d\<rparr>)"

text \<open>\<^verbatim>\<open>sim.register(node_id, node)\<close> on a new disk.\<close>

definition register_host :: "NodeId \<Rightarrow> 'n \<Rightarrow> disk_faults \<Rightarrow> ('a, 'd, 'm, 'h, 'n, 'z) hostworld_scheme stmt" where
  "register_host n m cfg =
     ite (\<lambda>w. map_of (hosts w) n \<noteq> None) (raise ValueError)
       (modify (\<lambda>w. w\<lparr>hosts := AList.update n (m, new_sim_storage cfg) (hosts w)\<rparr>))"

section \<open>A host's view\<close>

lemma host_view_fields [simp]:
  "hme (host_view m d w) = m" "hdisk (host_view m d w) = d" "rng (host_view m d w) = rng w"
  "queue (host_view m d w) = queue w" "now (host_view m d w) = now w" "inboxes (host_view m d w) = inboxes w"
  "core_wf (host_view m d w) = core_wf w"
  by (simp_all add: host_view_def netsim.defs hostctx.defs core_wf_def)

lemma host_back_fields [simp]:
  "hosts (host_back n c w) = AList.update n (hme c, hdisk c) (hosts w)" "rng (host_back n c w) = rng c"
  "queue (host_back n c w) = queue c" "now (host_back n c w) = now c" "core_wf (host_back n c w) = core_wf c"
  by (cases w, simp add: host_back_def netsim.defs core_wf_def)+

lemma on_hdisk_Done: "on_hdisk m c = Done x c' \<longleftrightarrow>
    (\<exists>d. m \<lparr>drng = rng c, dsk = hdisk c\<rparr> = Done x d \<and> c' = c\<lparr>rng := drng d, hdisk := dsk d\<rparr>)"
  by (simp add: on_hdisk_def on_part_Done)

lemma on_hdisk_Raised: "on_hdisk m c = Raised e c' \<longleftrightarrow>
    (\<exists>d. m \<lparr>drng = rng c, dsk = hdisk c\<rparr> = Raised e d \<and> c' = c\<lparr>rng := drng d, hdisk := dsk d\<rparr>)"
  by (auto simp: on_hdisk_def on_part_def split: outcome.splits)

end
