(* ===== verification/Kv.thy ===== *)
theory Kv
  imports Py_Bytes "HOL-Library.List_Lexorder"
begin

text \<open>
  The state machine of \<^verbatim>\<open>groundhog/kv.py\<close>: commands, their byte encoding, and the key-value store
  they act on. Shown: decoding inverts encoding, an encoding fails exactly on an unknown operation,
  an unencodable string or an oversized field, the store's lookups after a command, and that the
  snapshot depends only on what is stored and not on the order in which it was stored.
\<close>

section \<open>Commands\<close>

definition PUT :: pystr where "PUT = pystr ''put''"
definition DELETE :: pystr where "DELETE = pystr ''delete''"

datatype command = Command (cmd_op: pystr) (cmd_key: pystr) (cmd_value: pystr)

definition put :: "pystr \<Rightarrow> pystr \<Rightarrow> command" where
  "put key value = Command PUT key value"

definition delete :: "pystr \<Rightarrow> command" where
  "delete key = Command DELETE key []"

definition code_by_op :: "pystr \<Rightarrow> int option" where
  "code_by_op op = (if op = PUT then Some 1 else if op = DELETE then Some 2 else None)"

definition op_by_code :: "int \<Rightarrow> pystr option" where
  "op_by_code code = (if code = 1 then Some PUT else if code = 2 then Some DELETE else None)"

lemma PUT_neq_DELETE [simp]: "PUT \<noteq> DELETE" "DELETE \<noteq> PUT"
  by (simp_all add: PUT_def DELETE_def pystr_def)

lemma op_by_code_by_op: "code_by_op op = Some code \<Longrightarrow> op_by_code code = Some op \<and> 0 \<le> code \<and> code < 256"
  by (auto simp: code_by_op_def op_by_code_def split: if_splits)

section \<open>The byte encoding\<close>

definition COMMAND_HEADER :: "nat list" where "COMMAND_HEADER = [1, 2, 4]"

definition encode_command :: "command \<Rightarrow> exn + bytes" where
  "encode_command c =
     (case code_by_op (cmd_op c) of None \<Rightarrow> Inl ValueError
      | Some code \<Rightarrow> (case utf8_encode (cmd_key c) of Inl e \<Rightarrow> Inl e
      | Inr key \<Rightarrow> (case utf8_encode (cmd_value c) of Inl e \<Rightarrow> Inl e
      | Inr value \<Rightarrow>
          (case pack_fields [(1, code), (2, int (length key)), (4, int (length value))] of Inl e \<Rightarrow> Inl e
           | Inr header \<Rightarrow> Inr (header @ key @ value)))))"

definition decode_command :: "bytes \<Rightarrow> exn + command" where
  "decode_command data =
     (case unpack_from COMMAND_HEADER data 0 of
        Inr [code, key_length, value_length] \<Rightarrow>
          let start = sum_list COMMAND_HEADER; middle = start + nat key_length;
              end = middle + nat value_length
          in if end \<noteq> length data then Inl ValueError
             else (case op_by_code code of None \<Rightarrow> Inl KeyError
               | Some op \<Rightarrow> (case utf8_decode (drop start (take middle data)) of Inl e \<Rightarrow> Inl e
               | Inr key \<Rightarrow> (case utf8_decode (drop middle (take end data)) of Inl e \<Rightarrow> Inl e
               | Inr value \<Rightarrow> Inr (Command op key value))))
      | Inr _ \<Rightarrow> Inl StructError
      | Inl e \<Rightarrow> Inl e)"

lemma decode_encode_command:
  assumes "encode_command c = Inr data"
  shows "decode_command data = Inr c"
proof -
  from assms obtain code k v header where
    code: "code_by_op (cmd_op c) = Some code" and
    k: "utf8_encode (cmd_key c) = Inr k" and v: "utf8_encode (cmd_value c) = Inr v" and
    hdr: "pack_fields [(1, code), (2, int (length k)), (4, int (length v))] = Inr header" and
    data: "data = header @ k @ v"
    by (auto simp: encode_command_def split: option.splits sum.splits)
  have "length header = 7" using pack_fields_length [OF hdr] by simp
  moreover have "unpack_from COMMAND_HEADER data 0 = Inr [code, int (length k), int (length v)]"
    using unpack_pack_fields [OF hdr, of COMMAND_HEADER "[]" 0] by (simp add: data COMMAND_HEADER_def)
  ultimately show ?thesis
    using op_by_code_by_op [OF code] utf8_roundtrip [OF k] utf8_roundtrip [OF v]
    by (simp add: decode_command_def data COMMAND_HEADER_def Let_def)
qed

definition encodable :: "command \<Rightarrow> bool" where
  "encodable c \<longleftrightarrow> cmd_op c \<in> {PUT, DELETE} \<and> list_all is_scalar (cmd_key c) \<and> list_all is_scalar (cmd_value c)
     \<and> length (concat (map utf8_char (cmd_key c))) < 2 ^ 16
     \<and> length (concat (map utf8_char (cmd_value c))) < 2 ^ 32"

lemma encode_command_iff: "(\<exists>data. encode_command c = Inr data) \<longleftrightarrow> encodable c"
  unfolding encode_command_def encodable_def code_by_op_def utf8_encode_def
  by (simp add: pack_field_def del: length_concat)

lemma length_encode_command:
  "encode_command c = Inr data \<Longrightarrow>
     length data = 7 + length (concat (map utf8_char (cmd_key c))) + length (concat (map utf8_char (cmd_value c)))"
  by (auto simp: encode_command_def utf8_encode_def pack_field_def simp del: length_concat
      split: option.splits sum.splits if_splits)

section \<open>The store\<close>

record kv_store =
  kv_data :: "(pystr \<times> pystr) list"
  applied :: int

definition kv_init :: kv_store where
  "kv_init = \<lparr>kv_data = [], applied = 0\<rparr>"

definition kv_apply :: "command \<Rightarrow> kv_store \<Rightarrow> kv_store" where
  "kv_apply c s =
     s\<lparr>kv_data := (if cmd_op c = PUT then AList.update (cmd_key c) (cmd_value c) (kv_data s)
                   else AList.delete (cmd_key c) (kv_data s)),
       applied := applied s + 1\<rparr>"

definition kv_get :: "pystr \<Rightarrow> kv_store \<Rightarrow> pystr option" where
  "kv_get key s = map_of (kv_data s) key"

definition all_keys :: "kv_store \<Rightarrow> pystr list" where
  "all_keys s = sort (map fst (kv_data s))"

definition snapshot :: "kv_store \<Rightarrow> (pystr \<times> pystr) list" where
  "snapshot s = map (\<lambda>key. (key, the (map_of (kv_data s) key))) (all_keys s)"

text \<open>A snapshot as the dictionary of strings that goes into a trace.\<close>

definition json_store :: "(pystr \<times> pystr) list \<Rightarrow> 'd jval" where
  "json_store s = JObj (map (\<lambda>(k, v). (text_of k, JStr (text_of v))) s)"

definition kv_len :: "kv_store \<Rightarrow> nat" where
  "kv_len s = length (kv_data s)"

fun kv_replay_from :: "kv_store \<Rightarrow> bytes list \<Rightarrow> exn + kv_store" where
  "kv_replay_from s [] = Inr s"
| "kv_replay_from s (r # rs) =
     (case decode_command r of Inl e \<Rightarrow> Inl e | Inr c \<Rightarrow> kv_replay_from (kv_apply c s) rs)"

definition kv_replay :: "bytes list \<Rightarrow> exn + kv_store" where
  "kv_replay rs = kv_replay_from kv_init rs"

definition kv_wf :: "kv_store \<Rightarrow> bool" where
  "kv_wf s \<longleftrightarrow> dict_wf (kv_data s)"

lemma kv_wf_init [simp]: "kv_wf kv_init"
  by (simp add: kv_wf_def kv_init_def)

lemma kv_wf_apply [simp]: "kv_wf s \<Longrightarrow> kv_wf (kv_apply c s)"
  by (simp add: kv_wf_def kv_apply_def)

lemma kv_get_init [simp]: "kv_get k kv_init = None"
  by (simp add: kv_get_def kv_init_def)

lemma applied_init: "applied kv_init = 0"
  by (simp add: kv_init_def)

lemma kv_get_apply:
  "kv_get k (kv_apply c s) =
     (if k = cmd_key c then (if cmd_op c = PUT then Some (cmd_value c) else None) else kv_get k s)"
  by (simp add: kv_get_def kv_apply_def update_conv' delete_conv')

lemma applied_apply [simp]: "applied (kv_apply c s) = applied s + 1"
  by (simp add: kv_apply_def)

text \<open>The commands of a log, applied in order.\<close>

definition kv_run :: "command list \<Rightarrow> kv_store \<Rightarrow> kv_store" where
  "kv_run cs s = foldl (\<lambda>s c. kv_apply c s) s cs"

lemma kv_run_simps [simp]:
  "kv_run [] s = s" "kv_run (c # cs) s = kv_run cs (kv_apply c s)"
  "kv_run (cs @ [c]) s = kv_apply c (kv_run cs s)"
  by (simp_all add: kv_run_def)

lemma kv_wf_run [simp]: "kv_wf s \<Longrightarrow> kv_wf (kv_run cs s)"
  by (induction cs arbitrary: s) auto

lemma applied_run: "applied (kv_run cs s) = applied s + int (length cs)"
  by (induction cs arbitrary: s) auto

text \<open>What a key holds is decided by the last command that names it.\<close>

lemma kv_get_run:
  "kv_get k (kv_run cs s) =
     (case filter (\<lambda>c. cmd_key c = k) (rev cs) of [] \<Rightarrow> kv_get k s
      | c # _ \<Rightarrow> if cmd_op c = PUT then Some (cmd_value c) else None)"
  by (induction cs rule: rev_induct) (auto simp: kv_get_apply)

lemma kv_replay_encoded:
  "list_all2 (\<lambda>c r. encode_command c = Inr r) cs rs \<Longrightarrow> kv_replay_from s rs = Inr (kv_run cs s)"
  by (induction cs rs arbitrary: s rule: list_all2_induct) (auto dest: decode_encode_command)

section \<open>Snapshots are canonical\<close>

lemma set_all_keys: "set (all_keys s) = {k. kv_get k s \<noteq> None}"
  by (auto simp: all_keys_def kv_get_def map_of_eq_None_iff)

lemma sorted_all_keys: "sorted (all_keys s)"
  by (simp add: all_keys_def)

lemma distinct_all_keys: "kv_wf s \<Longrightarrow> distinct (all_keys s)"
  by (simp add: all_keys_def kv_wf_def dict_wf_def)

lemma all_keys_canonical:
  assumes "kv_wf s" and "kv_wf t" and "\<And>k. kv_get k s = kv_get k t"
  shows "all_keys s = all_keys t"
  using assms by (intro sorted_distinct_set_unique)
    (auto simp: sorted_all_keys distinct_all_keys set_all_keys)

lemma snapshot_canonical_aux:
  assumes "kv_wf s" and "kv_wf t" and "\<And>k. kv_get k s = kv_get k t"
  shows "snapshot s = snapshot t"
  using all_keys_canonical [OF assms] assms(3) by (simp add: snapshot_def kv_get_def)

lemma map_of_snapshot: "map_of (snapshot s) k = kv_get k s"
proof -
  have "map_of (map (\<lambda>key. (key, the (map_of (kv_data s) key))) ks) k
      = (if k \<in> set ks then Some (the (map_of (kv_data s) k)) else None)" for ks
    by (induction ks) auto
  then show ?thesis
    using map_of_eq_None_iff [of "kv_data s" k] by (auto simp: snapshot_def kv_get_def all_keys_def)
qed

section \<open>Properties\<close>

text \<open>
  The command encoding: exactly the commands with a known operation, encodable strings and a key
  below 2^16 and a value below 2^32 bytes have one, and decoding it gives the command back.
\<close>

theorem command_round_trip:
  "case encode_command c of
     Inr data \<Rightarrow> encodable c \<and> decode_command data = Inr c
   | Inl _ \<Rightarrow> \<not> encodable c"
  using encode_command_iff [of c] decode_encode_command [of c] by (auto split: sum.splits)

text \<open>
  Replaying a log of encoded commands into a fresh store succeeds, and a key then holds what the
  last command that names it says: the value of a put, nothing after a delete, nothing if no command
  names it.
\<close>

theorem replayed_store_last_write:
  assumes "list_all2 (\<lambda>c r. encode_command c = Inr r) cs rs"
  shows "\<exists>s. kv_replay rs = Inr s \<and> applied s = int (length cs)
     \<and> (\<forall>k. kv_get k s = (case filter (\<lambda>c. cmd_key c = k) (rev cs) of [] \<Rightarrow> None
          | c # _ \<Rightarrow> if cmd_op c = PUT then Some (cmd_value c) else None))"
  using kv_replay_encoded [OF assms, of kv_init]
  by (simp add: kv_replay_def kv_get_run applied_run applied_init cong: list.case_cong)

theorem replayed_store_last_write_witness:
  "\<exists>rs s. kv_replay rs = Inr s \<and> kv_get [97] s = None \<and> kv_get [98] s = Some [50]"
proof -
  let ?cs = "[put [97] [49], put [98] [50], delete [97]]"
  have "\<forall>c \<in> set ?cs. \<exists>r. encode_command c = Inr r"
    unfolding encode_command_iff by (simp add: encodable_def put_def delete_def is_scalar_def utf8_char_def)
  then obtain rs where "list_all2 (\<lambda>c r. encode_command c = Inr r) ?cs rs"
    by (auto simp: list_all2_Cons1)
  from replayed_store_last_write [OF this] obtain s where "kv_replay rs = Inr s"
    and get: "\<forall>k. kv_get k s = (case filter (\<lambda>c. cmd_key c = k) (rev ?cs) of [] \<Rightarrow> None
          | c # _ \<Rightarrow> if cmd_op c = PUT then Some (cmd_value c) else None)" by blast
  moreover have "kv_get [97] s = None" "kv_get [98] s = Some [50]"
    by (simp_all only: get) (simp_all add: put_def delete_def)
  ultimately show ?thesis by blast
qed

text \<open>
  \<^verbatim>\<open>snapshot\<close> is canonical: two well-formed stores have the same snapshot exactly when every key
  holds the same in both, whatever the order of the writes that built them.
\<close>

theorem snapshot_canonical:
  "snapshot (kv_run cs kv_init) = snapshot (kv_run ds kv_init)
     \<longleftrightarrow> (\<forall>k. kv_get k (kv_run cs kv_init) = kv_get k (kv_run ds kv_init))"
  using snapshot_canonical_aux [of "kv_run cs kv_init" "kv_run ds kv_init"] map_of_snapshot
  by (metis kv_wf_init kv_wf_run)

end
