(* ===== verification/Raft_Log.thy ===== *)
theory Raft_Log
  imports Kv
begin

text \<open>
  The replicated log of \<^verbatim>\<open>groundhog/log.py\<close>: 1-based, with the sentinel index 0 that every log
  vouches for at term 0. Every operation is modelled with the exceptions it raises; \<open>log_wf\<close> is the
  invariant that entry \<open>p\<close> carries index \<open>p\<close>, which the constructor checks and every write keeps.
\<close>

section \<open>Definitions\<close>

definition SENTINEL_INDEX :: Index where "SENTINEL_INDEX = 0"
definition SENTINEL_TERM :: Term where "SENTINEL_TERM = 0"

lemma sentinel_simps [simp]: "SENTINEL_INDEX = 0" "SENTINEL_TERM = 0"
  by (simp_all add: SENTINEL_INDEX_def SENTINEL_TERM_def)

datatype log_entry = LogEntry (le_term: Term) (le_index: Index) (le_command: command)

type_synonym raft_log = "log_entry list"

text \<open>\<^verbatim>\<open>for position, entry in enumerate(self._entries, start=1)\<close>\<close>

fun check_contiguous_from :: "int \<Rightarrow> raft_log \<Rightarrow> bool" where
  "check_contiguous_from position [] = True"
| "check_contiguous_from position (entry # entries) =
     (if le_index entry \<noteq> position then False else check_contiguous_from (position + 1) entries)"

definition check_contiguous :: "raft_log \<Rightarrow> bool" where
  "check_contiguous l = check_contiguous_from 1 l"

definition new_raft_log :: "log_entry list \<Rightarrow> exn + raft_log" where
  "new_raft_log entries = (if check_contiguous entries then Inr entries else Inl ValueError)"

definition last_index :: "raft_log \<Rightarrow> Index" where
  "last_index l = (if l = [] then SENTINEL_INDEX else le_index (last l))"

definition last_term :: "raft_log \<Rightarrow> Term" where
  "last_term l = (if l = [] then SENTINEL_TERM else le_term (last l))"

definition has_entry :: "raft_log \<Rightarrow> Index \<Rightarrow> bool" where
  "has_entry l index \<longleftrightarrow> SENTINEL_INDEX \<le> index \<and> index \<le> last_index l"

definition entry_at :: "raft_log \<Rightarrow> Index \<Rightarrow> exn + log_entry" where
  "entry_at l index =
     (if \<not> (1 \<le> index \<and> index \<le> last_index l) then Inl IndexError else py_nth l (index - 1))"

definition term_at :: "raft_log \<Rightarrow> Index \<Rightarrow> exn + Term" where
  "term_at l index =
     (if index = SENTINEL_INDEX then Inr SENTINEL_TERM
      else case entry_at l index of Inl e \<Rightarrow> Inl e | Inr entry \<Rightarrow> Inr (le_term entry))"

definition slice_from :: "raft_log \<Rightarrow> Index \<Rightarrow> exn + log_entry list" where
  "slice_from l index =
     (if index \<le> SENTINEL_INDEX then Inl IndexError else Inr (py_from l (index - 1)))"

fun log_append :: "log_entry list \<Rightarrow> raft_log stmt" where
  "log_append [] l = Done () l"
| "log_append (entry # entries) l =
     (let expected = last_index l + 1
      in if le_index entry \<noteq> expected then Raised ValueError l
         else log_append entries (l @ [entry]))"

definition log_truncate_from :: "Index \<Rightarrow> raft_log stmt" where
  "log_truncate_from index l =
     (if index \<le> SENTINEL_INDEX then Raised IndexError l else Done () (py_upto l (index - 1)))"

definition log_create :: "raft_log \<Rightarrow> Term \<Rightarrow> command \<Rightarrow> log_entry" where
  "log_create l trm cmd = LogEntry trm (last_index l + 1) cmd"

section \<open>Well-formed logs\<close>

definition log_wf :: "raft_log \<Rightarrow> bool" where
  "log_wf l \<longleftrightarrow> (\<forall>p < length l. le_index (l ! p) = int p + 1)"

lemma log_wf_Nil [simp]: "log_wf []"
  by (simp add: log_wf_def)

lemma log_wf_append_one: "log_wf (l @ [e]) \<longleftrightarrow> log_wf l \<and> le_index e = int (length l) + 1"
  by (auto simp: log_wf_def nth_append less_Suc_eq)

lemma log_wf_take: "log_wf l \<Longrightarrow> log_wf (take n l)"
  by (simp add: log_wf_def)

lemma check_contiguous_from_iff:
  "check_contiguous_from n l \<longleftrightarrow> (\<forall>p < length l. le_index (l ! p) = n + int p)"
proof (induction l arbitrary: n)
  case Nil
  then show ?case by simp
next
  case (Cons e l)
  show ?case
    unfolding check_contiguous_from.simps Cons.IH All_less_Suc2 length_Cons
    by (auto simp: algebra_simps)
qed

lemma check_contiguous_log_wf: "check_contiguous l \<longleftrightarrow> log_wf l"
  by (auto simp: check_contiguous_def check_contiguous_from_iff log_wf_def algebra_simps)

lemma new_raft_log_iff: "new_raft_log es = Inr l \<longleftrightarrow> l = es \<and> log_wf es"
  by (auto simp: new_raft_log_def check_contiguous_log_wf)

lemma last_index_wf: "log_wf l \<Longrightarrow> last_index l = int (length l)"
  by (auto simp: last_index_def log_wf_def last_conv_nth of_nat_diff Suc_le_eq)

lemma last_index_Nil [simp]: "last_index [] = 0"
  by (simp add: last_index_def)

lemma last_term_Nil [simp]: "last_term [] = 0"
  by (simp add: last_term_def)

lemma last_index_snoc [simp]: "last_index (l @ [e]) = le_index e"
  by (simp add: last_index_def)

lemma last_term_snoc [simp]: "last_term (l @ [e]) = le_term e"
  by (simp add: last_term_def)

lemma last_index_nonneg: "log_wf l \<Longrightarrow> 0 \<le> last_index l"
  by (simp add: last_index_wf)

lemma has_entry_wf: "log_wf l \<Longrightarrow> has_entry l i \<longleftrightarrow> 0 \<le> i \<and> i \<le> int (length l)"
  by (simp add: has_entry_def last_index_wf)

lemma entry_at_wf:
  assumes "log_wf l"
  shows "entry_at l i = (if 1 \<le> i \<and> i \<le> int (length l) then Inr (l ! nat (i - 1)) else Inl IndexError)"
  using assms by (simp add: entry_at_def last_index_wf py_nth_nonneg)

text \<open>The term at a position as a total function; \<open>term_at\<close> agrees with it wherever the log has an
  entry.\<close>

definition trm :: "raft_log \<Rightarrow> Index \<Rightarrow> Term" where
  "trm l i = (if i = 0 then 0 else le_term (l ! nat (i - 1)))"

lemma trm_0 [simp]: "trm l 0 = 0"
  by (simp add: trm_def)

lemma term_at_wf:
  assumes "log_wf l"
  shows "term_at l i = (if has_entry l i then Inr (trm l i) else Inl IndexError)"
  using assms by (auto simp: term_at_def entry_at_wf has_entry_wf trm_def)

lemma last_term_trm: "log_wf l \<Longrightarrow> last_term l = trm l (last_index l)"
  by (auto simp: last_term_def trm_def last_index_wf last_conv_nth nat_diff_distrib')

lemma trm_append [simp]: "i \<le> int (length l) \<Longrightarrow> 0 \<le> i \<Longrightarrow> trm (l @ l') i = trm l i"
  by (auto simp: trm_def nth_append)

lemma trm_take [simp]: "i \<le> int n \<Longrightarrow> 0 \<le> i \<Longrightarrow> trm (take n l) i = trm l i"
  by (auto simp: trm_def)

lemma slice_from_wf: "1 \<le> i \<Longrightarrow> slice_from l i = Inr (drop (nat (i - 1)) l)"
  by (simp add: slice_from_def)

section \<open>Writes keep well-formedness\<close>

lemma log_append_Done:
  assumes "log_wf l" and "log_append es l = Done () l'"
  shows "l' = l @ es \<and> log_wf l'"
  using assms
proof (induction es l rule: log_append.induct)
  case (1 l)
  then show ?case by simp
next
  case (2 e es l)
  then show ?case
    by (auto simp: Let_def log_wf_append_one last_index_wf split: if_splits)
qed

lemma log_append_contiguous:
  "log_wf (l @ es) \<Longrightarrow> log_append es l = Done () (l @ es)"
proof (induction es arbitrary: l)
  case Nil
  then show ?case by simp
next
  case (Cons e es)
  then have "log_wf ((l @ [e]) @ es)" by simp
  then have "log_wf (l @ [e])" by (metis append_eq_conv_conj log_wf_take)
  with Cons show ?case by (simp add: log_wf_append_one last_index_wf)
qed

text \<open>A refused append keeps the entries before the one that does not follow.\<close>

lemma log_append_Raised:
  assumes "log_wf l" and "log_append es l = Raised e l'"
  shows "e = ValueError \<and> log_wf l' \<and> (\<exists>n < length es. l' = l @ take n es \<and> le_index (es ! n) \<noteq> int (length l') + 1)"
  using assms
proof (induction es l rule: log_append.induct)
  case (1 l)
  then show ?case by simp
next
  case (2 x es l)
  show ?case
  proof (cases "le_index x = last_index l + 1")
    case False
    with 2 show ?thesis by (auto simp: Let_def last_index_wf intro!: exI [of _ 0])
  next
    case True
    with 2 have "log_wf (l @ [x])" by (simp add: log_wf_append_one last_index_wf)
    with 2 True obtain n where n: "e = ValueError" "log_wf l'" "n < length es"
      "l' = (l @ [x]) @ take n es" "le_index (es ! n) \<noteq> int (length l') + 1"
      by (auto simp: Let_def)
    then show ?thesis by (auto intro!: exI [of _ "Suc n"])
  qed
qed

lemma log_append_total: "log_append es l \<noteq> Diverges"
  by (induction es l rule: log_append.induct) (auto simp: Let_def)

lemma log_truncate_from_Done:
  "1 \<le> i \<Longrightarrow> log_truncate_from i l = Done () (take (nat (i - 1)) l)"
  by (simp add: log_truncate_from_def)

lemma log_create_follows: "log_wf l \<Longrightarrow> log_wf (l @ [log_create l t c])"
  by (simp add: log_wf_append_one log_create_def last_index_wf)

section \<open>Properties\<close>

text \<open>
  Appending to a contiguous log either adds every entry and leaves the log contiguous, or refuses
  with \<^verbatim>\<open>ValueError\<close> at the first entry that does not follow, having kept the ones before it; the
  log stays contiguous in both cases.
\<close>

theorem append_keeps_contiguous:
  assumes "log_wf l"
  shows "case log_append es l of
      Done _ l' \<Rightarrow> l' = l @ es \<and> log_wf l'
    | Raised e l' \<Rightarrow> e = ValueError \<and> log_wf l'
        \<and> (\<exists>n < length es. l' = l @ take n es \<and> le_index (es ! n) \<noteq> last_index l' + 1)
    | Diverges \<Rightarrow> False"
  using log_append_Done [OF assms] log_append_Raised [OF assms] log_append_total [of es l]
  by (auto simp: last_index_wf split: outcome.splits)

theorem append_keeps_contiguous_witness:
  "\<exists>l'. log_append [log_create [] 1 (put [97] [49]), LogEntry 1 3 (put [97] [50])] [] = Raised ValueError l'
     \<and> log_wf l' \<and> length l' = 1"
  using append_keeps_contiguous [of "[]" "[log_create [] 1 (put [97] [49]), LogEntry 1 3 (put [97] [50])]"]
  by (simp add: log_create_def last_index_def)

end
