(* ===== verification/Persist.thy ===== *)
theory Persist
  imports Raft_Log
begin

text \<open>
  The records a Raft node writes down, after \<^verbatim>\<open>groundhog/raft/persist.py\<close>: the hard state, log
  entries and truncations, their byte encodings, and \<open>replay\<close>, which rebuilds hard state and log from
  a WAL image. \<open>wal_rec\<close> is the abstract record behind the bytes and \<open>wal_run\<close> its meaning;
  \<open>replay_encoded\<close> says that replaying the bytes gives that meaning.
\<close>

section \<open>Encoding\<close>

definition RT_STATE :: int where "RT_STATE = 1"
definition RT_ENTRY :: int where "RT_ENTRY = 2"
definition RT_TRUNCATE :: int where "RT_TRUNCATE = 3"
definition NO_VOTE :: int where "NO_VOTE = 0"
definition RECORD_HEADER :: "nat list" where "RECORD_HEADER = [1, 8, 8]"

lemmas wal_consts = RT_STATE_def RT_ENTRY_def RT_TRUNCATE_def NO_VOTE_def RECORD_HEADER_def

datatype hard_state = HardState (hs_current_term: Term) (hs_voted_for: "NodeId option")

definition init_hard_state :: hard_state where
  "init_hard_state = HardState 0 None"

definition pack_header :: "int \<Rightarrow> int \<Rightarrow> int \<Rightarrow> exn + bytes" where
  "pack_header kind a b = pack_fields [(1, kind), (8, a), (8, b)]"

definition encode_state_record :: "hard_state \<Rightarrow> exn + bytes" where
  "encode_state_record st =
     (let voted = (case hs_voted_for st of None \<Rightarrow> NO_VOTE | Some v \<Rightarrow> v)
      in pack_header RT_STATE (hs_current_term st) voted)"

definition encode_entry_record :: "log_entry \<Rightarrow> exn + bytes" where
  "encode_entry_record entry =
     (case pack_header RT_ENTRY (le_term entry) (le_index entry) of Inl e \<Rightarrow> Inl e
      | Inr h \<Rightarrow> (case encode_command (le_command entry) of Inl e \<Rightarrow> Inl e | Inr c \<Rightarrow> Inr (h @ c)))"

definition encode_truncate_record :: "Index \<Rightarrow> exn + bytes" where
  "encode_truncate_record index = pack_header RT_TRUNCATE 0 index"

section \<open>Replay\<close>

record recovered =
  rec_state :: hard_state
  rec_entries :: "log_entry list"

fun replay_from :: "recovered \<Rightarrow> bytes list \<Rightarrow> exn + recovered" where
  "replay_from r [] = Inr r"
| "replay_from r (record # records) =
     (case unpack_from RECORD_HEADER record 0 of
        Inr [kind, first, second] \<Rightarrow>
          (let payload = drop (sum_list RECORD_HEADER) record in
           if kind = RT_STATE then
             replay_from (r\<lparr>rec_state := HardState first (if second = NO_VOTE then None else Some second)\<rparr>) records
           else if kind = RT_ENTRY then
             (case decode_command payload of Inl e \<Rightarrow> Inl e
              | Inr cmd \<Rightarrow> replay_from (r\<lparr>rec_entries := rec_entries r @ [LogEntry first second cmd]\<rparr>) records)
           else if kind = RT_TRUNCATE then
             replay_from (r\<lparr>rec_entries := py_upto (rec_entries r) (second - 1)\<rparr>) records
           else Inl ValueError)
      | Inr _ \<Rightarrow> Inl StructError
      | Inl e \<Rightarrow> Inl e)"

definition init_recovered :: recovered where
  "init_recovered = \<lparr>rec_state = init_hard_state, rec_entries = []\<rparr>"

definition replay :: "bytes list \<Rightarrow> exn + recovered" where
  "replay records = replay_from init_recovered records"

lemma replay_from_append:
  "replay_from r (xs @ ys) =
     (case replay_from r xs of Inl e \<Rightarrow> Inl e | Inr r' \<Rightarrow> replay_from r' ys)"
  by (induction r xs rule: replay_from.induct) (auto simp: Let_def split: sum.splits list.splits)

section \<open>The abstract write-ahead log\<close>

datatype wal_rec = WState hard_state | WEntry log_entry | WTruncate Index

fun wal_apply :: "wal_rec \<Rightarrow> recovered \<Rightarrow> recovered" where
  "wal_apply (WState st) r = r\<lparr>rec_state := st\<rparr>"
| "wal_apply (WEntry e) r = r\<lparr>rec_entries := rec_entries r @ [e]\<rparr>"
| "wal_apply (WTruncate i) r = r\<lparr>rec_entries := py_upto (rec_entries r) (i - 1)\<rparr>"

definition wal_run :: "wal_rec list \<Rightarrow> recovered \<Rightarrow> recovered" where
  "wal_run ws r = foldl (\<lambda>r w. wal_apply w r) r ws"

lemma wal_run_simps [simp]:
  "wal_run [] r = r" "wal_run (w # ws) r = wal_run ws (wal_apply w r)"
  "wal_run (us @ ws) r = wal_run ws (wal_run us r)"
  by (simp_all add: wal_run_def)

fun encode_wal :: "wal_rec \<Rightarrow> exn + bytes" where
  "encode_wal (WState st) = encode_state_record st"
| "encode_wal (WEntry e) = encode_entry_record e"
| "encode_wal (WTruncate i) = encode_truncate_record i"

text \<open>\<^verbatim>\<open>0\<close> on disk stands for no vote, so a vote for node 0 would not survive; it is the one hard
  state that the encoding confuses.\<close>

fun wal_ok :: "wal_rec \<Rightarrow> bool" where
  "wal_ok (WState st) \<longleftrightarrow> hs_voted_for st \<noteq> Some NO_VOTE"
| "wal_ok _ \<longleftrightarrow> True"

lemma unpack_header:
  assumes "pack_header kind a b = Inr h"
  shows "unpack_from RECORD_HEADER (h @ r) 0 = Inr [kind, a, b]" and "length h = 17"
proof -
  have p: "pack_fields [(1, kind), (8, a), (8, b)] = Inr h"
    using assms by (simp only: pack_header_def)
  show "unpack_from RECORD_HEADER (h @ r) 0 = Inr [kind, a, b]"
    using unpack_pack_fields [OF p, of RECORD_HEADER "[]" 0 r] by (simp add: RECORD_HEADER_def)
  show "length h = 17" using pack_fields_length [OF p] by simp
qed

lemma replay_one:
  assumes "encode_wal w = Inr b" and "wal_ok w"
  shows "replay_from r (b # bs) = replay_from (wal_apply w r) bs"
proof (cases w)
  case (WState st)
  have h: "pack_header RT_STATE (hs_current_term st)
      (case hs_voted_for st of None \<Rightarrow> NO_VOTE | Some v \<Rightarrow> v) = Inr b"
    using assms(1) by (simp add: WState encode_state_record_def)
  show ?thesis
    using unpack_header(1) [OF h, of "[]"] assms(2) by (cases st) (auto simp: WState split: option.splits)
next
  case (WEntry e)
  then obtain h c where h: "pack_header RT_ENTRY (le_term e) (le_index e) = Inr h"
    and c: "encode_command (le_command e) = Inr c" and b: "b = h @ c"
    using assms(1) by (auto simp: encode_entry_record_def split: sum.splits)
  show ?thesis
    using unpack_header(1) [OF h, of c] unpack_header(2) [OF h] decode_encode_command [OF c]
    by (simp add: WEntry b RT_STATE_def RT_ENTRY_def RECORD_HEADER_def)
next
  case (WTruncate i)
  have h: "pack_header RT_TRUNCATE 0 i = Inr b"
    using assms(1) by (simp add: WTruncate encode_truncate_record_def)
  show ?thesis
    using unpack_header(1) [OF h, of "[]"]
    by (simp add: WTruncate RT_STATE_def RT_ENTRY_def RT_TRUNCATE_def)
qed

text \<open>\<open>wal_image ws bs\<close>: the byte records \<open>bs\<close> encode the abstract records \<open>ws\<close>.\<close>

definition wal_image :: "wal_rec list \<Rightarrow> bytes list \<Rightarrow> bool" where
  "wal_image ws bs \<longleftrightarrow> list_all2 (\<lambda>w b. encode_wal w = Inr b \<and> wal_ok w) ws bs"

lemma wal_image_Nil [simp]: "wal_image [] []"
  by (simp add: wal_image_def)

lemma wal_image_append: "wal_image ws bs \<Longrightarrow> wal_image us cs \<Longrightarrow> wal_image (ws @ us) (bs @ cs)"
  by (simp add: wal_image_def list_all2_appendI)

lemma wal_image_take: "wal_image ws bs \<Longrightarrow> wal_image (take n ws) (take n bs)"
  by (simp add: wal_image_def list_all2_takeI)

lemma wal_image_one: "encode_wal w = Inr b \<Longrightarrow> wal_ok w \<Longrightarrow> wal_image [w] [b]"
  by (simp add: wal_image_def)

lemma wal_image_length: "wal_image ws bs \<Longrightarrow> length ws = length bs"
  by (auto simp: wal_image_def dest: list_all2_lengthD)

lemma replay_image: "wal_image ws bs \<Longrightarrow> replay_from r bs = Inr (wal_run ws r)"
  unfolding wal_image_def
proof (induction ws bs arbitrary: r rule: list_all2_induct)
  case Nil
  then show ?case by simp
next
  case (Cons w ws b bs)
  then show ?case using replay_one [of w b r bs] by (simp del: replay_from.simps)
qed

lemma replay_wal_image: "wal_image ws bs \<Longrightarrow> replay bs = Inr (wal_run ws init_recovered)"
  by (simp add: replay_def replay_image)

text \<open>What the operations of the node add to the recovered state.\<close>

lemma wal_run_entries: "wal_run (map WEntry es) r = r\<lparr>rec_entries := rec_entries r @ es\<rparr>"
  by (induction es arbitrary: r) auto

text \<open>When the encodings exist.\<close>

definition hard_state_fits :: "hard_state \<Rightarrow> bool" where
  "hard_state_fits st \<longleftrightarrow> 0 \<le> hs_current_term st \<and> hs_current_term st < 2 ^ 64
     \<and> (\<forall>v. hs_voted_for st = Some v \<longrightarrow> 0 \<le> v \<and> v < 2 ^ 64)"

lemma encode_state_total: "(\<exists>b. encode_state_record st = Inr b) \<longleftrightarrow> hard_state_fits st"
  by (auto simp: encode_state_record_def pack_header_def hard_state_fits_def pack_field_def wal_consts
      split: option.splits sum.splits)

lemma encode_entry_total:
  "(\<exists>b. encode_entry_record e = Inr b) \<longleftrightarrow> 0 \<le> le_term e \<and> le_term e < 2 ^ 64
     \<and> 0 \<le> le_index e \<and> le_index e < 2 ^ 64 \<and> encodable (le_command e)"
  using encode_command_iff [of "le_command e"]
  by (auto simp: encode_entry_record_def pack_header_def pack_field_def wal_consts split: sum.splits)

section \<open>Properties\<close>

text \<open>
  C26. Replay rebuilds the node: writing a sequence of hard states, entries and truncations as WAL
  records and replaying them gives the last hard state written and the entries the appends and
  truncations leave, provided no vote is for node 0 (which the format reads back as no vote).
\<close>

theorem replay_rebuilds:
  assumes "wal_image ws bs"
  shows "replay bs = Inr (foldl (\<lambda>r w. case w of
        WState st \<Rightarrow> r\<lparr>rec_state := st\<rparr>
      | WEntry e \<Rightarrow> r\<lparr>rec_entries := rec_entries r @ [e]\<rparr>
      | WTruncate i \<Rightarrow> r\<lparr>rec_entries := py_upto (rec_entries r) (i - 1)\<rparr>) init_recovered ws)"
proof -
  have "(\<lambda>r w. wal_apply w r) = (\<lambda>r w. case w of
        WState st \<Rightarrow> r\<lparr>rec_state := st\<rparr>
      | WEntry e \<Rightarrow> r\<lparr>rec_entries := rec_entries r @ [e]\<rparr>
      | WTruncate i \<Rightarrow> r\<lparr>rec_entries := py_upto (rec_entries r) (i - 1)\<rparr>)"
    by (intro ext) (auto split: wal_rec.split)
  then show ?thesis using replay_wal_image [OF assms] by (simp add: wal_run_def)
qed

theorem replay_rebuilds_witness:
  "\<exists>bs. replay bs = Inr \<lparr>rec_state = HardState 2 (Some 3),
     rec_entries = [LogEntry 1 1 (put [97] [49]), LogEntry 2 2 (delete [97])]\<rparr>"
proof -
  let ?ws = "[WState (HardState 1 None), WEntry (LogEntry 1 1 (put [97] [49])),
    WEntry (LogEntry 1 2 (put [97] [50])), WState (HardState 2 (Some 3)), WTruncate 2,
    WEntry (LogEntry 2 2 (delete [97]))]"
  have "\<forall>w \<in> set ?ws. \<exists>b. encode_wal w = Inr b \<and> wal_ok w"
    using encode_state_total encode_entry_total
    by (simp add: encode_truncate_record_def pack_header_def pack_field_def hard_state_fits_def
        encodable_def put_def delete_def is_scalar_def utf8_char_def wal_consts)
  then obtain bs where "wal_image ?ws bs"
    unfolding wal_image_def by (auto simp: list_all2_Cons1)
  from replay_rebuilds [OF this] show ?thesis by (auto simp: init_recovered_def)
qed

end
