(* ===== verification/Messages.thy ===== *)
theory Messages
  imports Raft_Log
begin

text \<open>
  The wire format of \<^verbatim>\<open>groundhog/messages.py\<close>. Each dataclass is a datatype with one constructor and
  its fields as selectors; \<open>message\<close> is the union \<^verbatim>\<open>Message\<close>. The \<^verbatim>\<open>describe\<close> methods only render
  text for the trace and are not modelled: a trace record holds the message itself.
\<close>

datatype request_vote =
  RequestVote (rv_term: Term) (rv_candidate_id: NodeId) (rv_last_log_index: Index) (rv_last_log_term: Term)

datatype request_vote_reply =
  RequestVoteReply (rvr_term: Term) (rvr_vote_granted: bool)

datatype append_entries =
  AppendEntries (ae_term: Term) (ae_leader_id: NodeId) (ae_prev_log_index: Index)
    (ae_prev_log_term: Term) (ae_entries: "log_entry list") (ae_leader_commit: Index)

datatype append_entries_reply =
  AppendEntriesReply (aer_term: Term) (aer_success: bool) (aer_match_index: Index)

datatype client_request =
  ClientRequest (creq_request_id: int) (creq_command: command)

datatype client_reply =
  ClientReply (crep_request_id: int) (crep_ok: bool) (crep_leader_hint: "NodeId option")
    (crep_value: "pystr option")

datatype message =
    MRequestVote request_vote
  | MRequestVoteReply request_vote_reply
  | MAppendEntries append_entries
  | MAppendEntriesReply append_entries_reply
  | MClientRequest client_request
  | MClientReply client_reply

text \<open>What the invariant checkers remember of an applied entry and what they report; a trace record holds
  the report itself, \<open>described\<close> is everything a record may hold in place of its text.\<close>

datatype applied_entry = AppliedEntry (ap_index: Index) (ap_term: Term) (ap_command: command) (ap_by: NodeId)

datatype problem =
    TwoLeaders Term NodeId NodeId
  | SameTermDifferent NodeId NodeId Term Index
  | MatchAfterDivergence NodeId NodeId Term Index Index
  | LeaderChangedLog NodeId Term nat
  | LeaderLacks NodeId Term log_entry "log_entry option"
  | AppliedBeyondLog NodeId Index Index
  | AppliedDifferently Index applied_entry NodeId log_entry
  | AppliedBeyondCommit NodeId Index Index
  | CommitWentBack NodeId Index Index

datatype described =
    DescMessage message
  | DescCommand command
  | DescError exn
  | DescProblem problem

end
