(* ===== verification/Raft_Node.thy ===== *)
theory Raft_Node
  imports Persist Messages Sim_Faults
begin

text \<open>
  The Raft node of \<^verbatim>\<open>groundhog/raft/node.py\<close> with the \<^verbatim>\<open>RaftStorage\<close> of \<^verbatim>\<open>raft/persist.py\<close>, handler by
  handler. A node acts on a \<open>node_ctx\<close>: the simulation and its network, the node's own state \<open>me\<close> and
  its disk. The callback \<^verbatim>\<open>on_failure\<close> is an argument of what may run it; the callbacks a node hands to
  the clock are the \<open>raft_callback\<close> values.
\<close>

declare block.simps [simp del]

section \<open>State\<close>

datatype raft_role = FOLLOWER | CANDIDATE | LEADER

fun role_value :: "raft_role \<Rightarrow> string" where
  "role_value FOLLOWER = ''follower''"
| "role_value CANDIDATE = ''candidate''"
| "role_value LEADER = ''leader''"

datatype raft_callback =
    ElectionTimeout NodeId
  | HeartbeatTimeout NodeId
  | Revive NodeId
  | ClientRetry
  | ClientNext
  | ClientRedirect

type_synonym raft_action = "(message, raft_callback) sim_action"
type_synonym raft_timer = "(raft_action, described) event"

datatype inbox = ToClient | ToNode NodeId

definition ELECTION_TIMEOUT :: "Tick \<times> Tick" where
  "ELECTION_TIMEOUT = (150 * MILLISECOND, 300 * MILLISECOND)"

definition HEARTBEAT_INTERVAL :: Tick where
  "HEARTBEAT_INTERVAL = 50 * MILLISECOND"

record rnode =
  node_id :: NodeId
  peers :: "NodeId list"
  current_term :: Term
  voted_for :: "NodeId option"
  rlog :: raft_log
  role :: raft_role
  commit_index :: Index
  last_applied :: Index
  kv :: kv_store
  votes_granted :: "NodeId list"
  next_index :: "NodeId \<Rightarrow> Index option"
  match_index :: "NodeId \<Rightarrow> Index option"
  leader_id :: "NodeId option"
  running :: bool
  election_timer :: "raft_timer option"
  heartbeat_timer :: "raft_timer option"
  pending_clients :: "Index \<Rightarrow> (NodeId \<times> int) option"

definition new_rnode :: "NodeId \<Rightarrow> NodeId list \<Rightarrow> rnode" where
  "new_rnode n ps =
     \<lparr>node_id = n, peers = ps, current_term = 0, voted_for = None, rlog = [], role = FOLLOWER,
      commit_index = SENTINEL_INDEX, last_applied = SENTINEL_INDEX, kv = kv_init, votes_granted = [],
      next_index = Map.empty, match_index = Map.empty, leader_id = None, running = True,
      election_timer = None, heartbeat_timer = None, pending_clients = Map.empty\<rparr>"

record node_ctx = "(raft_action, described, message, inbox) netsim" +
  me :: rnode
  disk :: sim_storage

definition cluster_size :: "rnode \<Rightarrow> int" where
  "cluster_size m = int (length (peers m)) + 1"

definition majority :: "rnode \<Rightarrow> int" where
  "majority m = cluster_size m div 2 + 1"

definition upd :: "(rnode \<Rightarrow> rnode) \<Rightarrow> node_ctx stmt" where
  "upd f = modify (\<lambda>c. c\<lparr>me := f (me c)\<rparr>)"

definition on_log :: "('x, raft_log) py \<Rightarrow> ('x, node_ctx) py" where
  "on_log = on_part (\<lambda>c. rlog (me c)) (\<lambda>l c. c\<lparr>me := (me c)\<lparr>rlog := l\<rparr>\<rparr>)"

definition on_disk :: "('x, disk_ctx) py \<Rightarrow> ('x, node_ctx) py" where
  "on_disk = on_part (\<lambda>c. \<lparr>drng = rng c, dsk = disk c\<rparr>) (\<lambda>d c. c\<lparr>rng := drng d, disk := dsk d\<rparr>)"

section \<open>RaftStorage\<close>

definition save_state :: "hard_state \<Rightarrow> node_ctx stmt" where
  "save_state st = bind (of_sum (encode_state_record st)) (\<lambda>b. on_disk (sim_append [b]))"

fun encode_entries :: "log_entry list \<Rightarrow> exn + bytes list" where
  "encode_entries [] = Inr []"
| "encode_entries (e # es) =
     (case encode_entry_record e of Inl x \<Rightarrow> Inl x
      | Inr b \<Rightarrow> (case encode_entries es of Inl x \<Rightarrow> Inl x | Inr bs \<Rightarrow> Inr (b # bs)))"

definition storage_append_entries :: "log_entry list \<Rightarrow> node_ctx stmt" where
  "storage_append_entries entries =
     (if entries = [] then ret ()
      else bind (of_sum (encode_entries entries)) (\<lambda>bs. on_disk (sim_append bs)))"

definition storage_truncate_from :: "Index \<Rightarrow> node_ctx stmt" where
  "storage_truncate_from index = bind (of_sum (encode_truncate_record index)) (\<lambda>b. on_disk (sim_append [b]))"

definition storage_sync :: "node_ctx stmt" where
  "storage_sync = on_disk sim_sync"

definition storage_recover :: "(hard_state \<times> raft_log, node_ctx) py" where
  "storage_recover =
     bind (on_disk sim_read_all) (\<lambda>bs.
     bind (of_sum (replay bs)) (\<lambda>r.
     bind (of_sum (new_raft_log (rec_entries r))) (\<lambda>l. ret (rec_state r, l))))"

section \<open>Tracing, sending, timers\<close>

definition node_record :: "string \<Rightarrow> described jrecord \<Rightarrow> node_ctx stmt" where
  "node_record kind detail c =
     trace_write ([(''kind'', JStr kind), (''tick'', JInt (now c)), (''node'', JInt (node_id (me c)))] @ detail) c"

definition jopt :: "int option \<Rightarrow> described jval" where
  "jopt x = (case x of None \<Rightarrow> JNull | Some i \<Rightarrow> JInt i)"

definition node_send :: "NodeId \<Rightarrow> message \<Rightarrow> node_ctx stmt" where
  "node_send to msg =
     block [node_record ''raft.send'' [(''to'', JInt to), (''msg'', JDesc (DescMessage msg))],
            (\<lambda>c. net_send (node_id (me c)) to msg c)]"

definition broadcast :: "message \<Rightarrow> node_ctx stmt" where
  "broadcast msg c = for_each (peers (me c)) (\<lambda>peer. node_send peer msg) c"

definition cancel_election_timer :: "node_ctx stmt" where
  "cancel_election_timer c =
     (case election_timer (me c) of None \<Rightarrow> Done () c
      | Some t \<Rightarrow> block [bind (timer_cancel t) (\<lambda>_. ret ()), upd (\<lambda>m. m\<lparr>election_timer := None\<rparr>)] c)"

definition cancel_heartbeat :: "node_ctx stmt" where
  "cancel_heartbeat c =
     (case heartbeat_timer (me c) of None \<Rightarrow> Done () c
      | Some t \<Rightarrow> block [bind (timer_cancel t) (\<lambda>_. ret ()), upd (\<lambda>m. m\<lparr>heartbeat_timer := None\<rparr>)] c)"

definition cancel_timers :: "node_ctx stmt" where
  "cancel_timers = block [cancel_election_timer, cancel_heartbeat]"

definition arm_election_timer :: "node_ctx stmt" where
  "arm_election_timer =
     block [cancel_election_timer,
       bind (with_rng (between (fst ELECTION_TIMEOUT) (snd ELECTION_TIMEOUT))) (\<lambda>d.
       bind (\<lambda>c. clock_after d (Callback (ElectionTimeout (node_id (me c)))) ''raft.election_timeout''
                   (Some (node_id (me c))) c) (\<lambda>t.
         upd (\<lambda>m. m\<lparr>election_timer := Some t\<rparr>)))]"

definition arm_heartbeat_timer :: "node_ctx stmt" where
  "arm_heartbeat_timer =
     block [cancel_heartbeat,
       bind (\<lambda>c. clock_after HEARTBEAT_INTERVAL (Callback (HeartbeatTimeout (node_id (me c)))) ''raft.heartbeat''
                   (Some (node_id (me c))) c) (\<lambda>t.
         upd (\<lambda>m. m\<lparr>heartbeat_timer := Some t\<rparr>))]"

section \<open>Persistence\<close>

definition persist :: "node_ctx stmt" where
  "persist c = save_state (HardState (current_term (me c)) (voted_for (me c))) c"

definition persist_entries :: "log_entry list \<Rightarrow> node_ctx stmt" where
  "persist_entries entries = storage_append_entries entries"

definition persist_truncation :: "Index \<Rightarrow> node_ctx stmt" where
  "persist_truncation index = storage_truncate_from index"

section \<open>Applying committed entries\<close>

definition apply_next :: "node_ctx stmt" where
  "apply_next =
     block [upd (\<lambda>m. m\<lparr>last_applied := last_applied m + 1\<rparr>),
       bind (\<lambda>c. of_sum (entry_at (rlog (me c)) (last_applied (me c))) c) (\<lambda>entry.
       block [upd (\<lambda>m. m\<lparr>kv := kv_apply (le_command entry) (kv m)\<rparr>),
         node_record ''raft.apply'' [(''index'', JInt (le_index entry)),
                                     (''command'', JDesc (DescCommand (le_command entry)))],
         (\<lambda>c. case pending_clients (me c) (le_index entry) of None \<Rightarrow> Done () c
            | Some (client, request_id) \<Rightarrow>
                block [upd (\<lambda>m. m\<lparr>pending_clients := (pending_clients m)(le_index entry := None)\<rparr>),
                       node_send client (MClientReply (ClientReply request_id True None None))] c)])]"

text \<open>\<^verbatim>\<open>while self.last_applied < self.commit_index\<close>: every turn moves \<open>last_applied\<close> by one and leaves
  \<open>commit_index\<close> alone, so the distance at the start is the number of turns.\<close>

fun apply_turns :: "nat \<Rightarrow> node_ctx stmt" where
  "apply_turns 0 = ret ()"
| "apply_turns (Suc n) =
     whenever (\<lambda>c. last_applied (me c) < commit_index (me c)) (block [apply_next, apply_turns n])"

definition apply_committed :: "node_ctx stmt" where
  "apply_committed c = apply_turns (nat (commit_index (me c) - last_applied (me c))) c"

section \<open>Replication\<close>

text \<open>\<^verbatim>\<open>self.next_index.get(peer, self.log.last_index() + 1)\<close> and \<^verbatim>\<open>self.match_index.get(peer, 0)\<close>.\<close>

definition next_for :: "rnode \<Rightarrow> NodeId \<Rightarrow> Index" where
  "next_for m p = (case next_index m p of None \<Rightarrow> last_index (rlog m) + 1 | Some i \<Rightarrow> i)"

definition match_for :: "rnode \<Rightarrow> NodeId \<Rightarrow> Index" where
  "match_for m p = (case match_index m p of None \<Rightarrow> 0 | Some i \<Rightarrow> i)"

definition replicate_to :: "NodeId \<Rightarrow> node_ctx stmt" where
  "replicate_to peer c =
     (let m = me c in
      if role m \<noteq> LEADER then Done () c
      else let nxt = next_for m peer; prev = nxt - 1
        in bind (of_sum (if nxt \<le> last_index (rlog m) then slice_from (rlog m) nxt else Inr [])) (\<lambda>entries.
           bind (of_sum (term_at (rlog m) prev)) (\<lambda>prev_term.
             node_send peer (MAppendEntries
               (AppendEntries (current_term m) (node_id m) prev prev_term entries (commit_index m))))) c)"

definition send_heartbeats :: "node_ctx stmt" where
  "send_heartbeats =
     block [(\<lambda>c. for_each (peers (me c)) replicate_to c), arm_heartbeat_timer]"

definition replicas :: "rnode \<Rightarrow> Index \<Rightarrow> int" where
  "replicas m cand =
     1 + int (length (filter (\<lambda>p. match_for m p \<ge> cand) (peers m)))"

text \<open>\<^verbatim>\<open>for candidate in range(last_index, commit_index, -1)\<close>, \<open>n\<close> candidates left.\<close>

fun advance_turns :: "nat \<Rightarrow> Index \<Rightarrow> node_ctx stmt" where
  "advance_turns 0 cand = ret ()"
| "advance_turns (Suc n) cand =
     bind (\<lambda>c. of_sum (term_at (rlog (me c)) cand) c) (\<lambda>t.
       ite (\<lambda>c. t \<noteq> current_term (me c)) (advance_turns n (cand - 1))
         (ite (\<lambda>c. replicas (me c) cand \<ge> majority (me c))
            (block [upd (\<lambda>m. m\<lparr>commit_index := cand\<rparr>), apply_committed])
            (advance_turns n (cand - 1))))"

definition advance_commit_index :: "node_ctx stmt" where
  "advance_commit_index c =
     (if role (me c) \<noteq> LEADER then Done () c
      else advance_turns (nat (last_index (rlog (me c)) - commit_index (me c))) (last_index (rlog (me c))) c)"

section \<open>Role transitions\<close>

definition follow :: "Term \<Rightarrow> NodeId option \<Rightarrow> rnode \<Rightarrow> rnode" where
  "follow t0 leader m =
     (if t0 > current_term m then m\<lparr>current_term := t0, voted_for := None\<rparr> else m)
       \<lparr>role := FOLLOWER, leader_id := leader, votes_granted := []\<rparr>"

definition become_follower :: "Term \<Rightarrow> NodeId option \<Rightarrow> node_ctx stmt" where
  "become_follower t0 leader c =
     (let was = role (me c) in
      block [upd (follow t0 leader), cancel_heartbeat,
        (if was \<noteq> FOLLOWER then
           (\<lambda>c. node_record ''raft.step_down''
              [(''was'', JStr (role_value was)), (''term'', JInt (current_term (me c)))] c)
         else ret ())] c)"

definition become_candidate :: "node_ctx stmt" where
  "become_candidate =
     block [upd (\<lambda>m. m\<lparr>role := CANDIDATE, leader_id := None, votes_granted := [node_id m]\<rparr>),
       (\<lambda>c. node_record ''raft.candidate'' [(''term'', JInt (current_term (me c)))] c)]"

definition lead :: "rnode \<Rightarrow> rnode" where
  "lead m = m\<lparr>role := LEADER, leader_id := Some (node_id m),
     next_index := (\<lambda>p. if p \<in> set (peers m) then Some (last_index (rlog m) + 1) else None),
     match_index := (\<lambda>p. if p \<in> set (peers m) then Some SENTINEL_INDEX else None)\<rparr>"

definition become_leader :: "node_ctx stmt" where
  "become_leader =
     block [upd lead, cancel_election_timer,
       (\<lambda>c. node_record ''raft.leader''
          [(''term'', JInt (current_term (me c))), (''log'', JInt (last_index (rlog (me c))))] c),
       send_heartbeats]"

section \<open>The six handlers\<close>

definition reply_vote :: "NodeId \<Rightarrow> bool \<Rightarrow> node_ctx stmt" where
  "reply_vote frm granted =
     block [persist, storage_sync,
       (\<lambda>c. node_send frm (MRequestVoteReply (RequestVoteReply (current_term (me c)) granted)) c)]"

definition up_to_date :: "request_vote \<Rightarrow> rnode \<Rightarrow> bool" where
  "up_to_date msg m \<longleftrightarrow>
     (last_term (rlog m), last_index (rlog m)) \<le> (rv_last_log_term msg, rv_last_log_index msg)"

definition on_request_vote :: "NodeId \<Rightarrow> request_vote \<Rightarrow> node_ctx stmt" where
  "on_request_vote frm msg =
     block [whenever (\<lambda>c. rv_term msg > current_term (me c)) (become_follower (rv_term msg) None),
       ite (\<lambda>c. rv_term msg < current_term (me c)) (reply_vote frm False)
         (ite (\<lambda>c. voted_for (me c) \<in> {None, Some (rv_candidate_id msg)} \<and> up_to_date msg (me c))
            (block [upd (\<lambda>m. m\<lparr>voted_for := Some (rv_candidate_id msg)\<rparr>), arm_election_timer,
                    reply_vote frm True])
            (reply_vote frm False))]"

definition on_request_vote_reply :: "NodeId \<Rightarrow> request_vote_reply \<Rightarrow> node_ctx stmt" where
  "on_request_vote_reply frm msg =
     ite (\<lambda>c. rvr_term msg > current_term (me c))
       (block [become_follower (rvr_term msg) None, persist, storage_sync])
       (ite (\<lambda>c. role (me c) \<noteq> CANDIDATE \<or> rvr_term msg \<noteq> current_term (me c)) (ret ())
         (if \<not> rvr_vote_granted msg then ret ()
          else block [upd (\<lambda>m. m\<lparr>votes_granted := set_add frm (votes_granted m)\<rparr>),
            whenever (\<lambda>c. int (length (votes_granted (me c))) \<ge> majority (me c)) become_leader]))"

text \<open>One entry of an AppendEntries: skipped when the log has it, otherwise appended, after truncating
  where it conflicts. The result says whether it was appended.\<close>

definition take_entry :: "Index \<Rightarrow> log_entry \<Rightarrow> (bool, node_ctx) py" where
  "take_entry index incoming =
     (let append_it = bind (on_log (log_append [incoming])) (\<lambda>_. ret True)
      in ite (\<lambda>c. index \<le> last_index (rlog (me c)))
        (bind (\<lambda>c. of_sum (term_at (rlog (me c)) index) c) (\<lambda>t.
          if t = le_term incoming then ret False
          else bind (on_log (log_truncate_from index)) (\<lambda>_. bind (persist_truncation index) (\<lambda>_. append_it))))
        append_it)"

fun take_entries :: "Index \<Rightarrow> log_entry list \<Rightarrow> log_entry list \<Rightarrow> (log_entry list, node_ctx) py" where
  "take_entries index [] appended = ret appended"
| "take_entries index (incoming # entries) appended =
     bind (take_entry index incoming) (\<lambda>took.
       take_entries (index + 1) entries (if took then appended @ [incoming] else appended))"

definition consistent_at :: "Index \<Rightarrow> Term \<Rightarrow> raft_log \<Rightarrow> exn + bool" where
  "consistent_at index t0 l =
     (if \<not> has_entry l index then Inr False
      else case term_at l index of Inl e \<Rightarrow> Inl e | Inr t \<Rightarrow> Inr (t = t0))"

definition on_append_entries :: "NodeId \<Rightarrow> append_entries \<Rightarrow> node_ctx stmt" where
  "on_append_entries frm msg =
     block [whenever (\<lambda>c. ae_term msg > current_term (me c))
              (become_follower (ae_term msg) (Some (ae_leader_id msg))),
       ite (\<lambda>c. ae_term msg < current_term (me c))
         (\<lambda>c. node_send frm (MAppendEntriesReply (AppendEntriesReply (current_term (me c)) False 0)) c)
         (block [become_follower (ae_term msg) (Some (ae_leader_id msg)), arm_election_timer,
           bind (\<lambda>c. of_sum (consistent_at (ae_prev_log_index msg) (ae_prev_log_term msg) (rlog (me c))) c)
             (\<lambda>consistent.
              if \<not> consistent then
                block [persist, storage_sync,
                  (\<lambda>c. node_send frm (MAppendEntriesReply (AppendEntriesReply (current_term (me c)) False 0)) c)]
              else bind (take_entries (ae_prev_log_index msg + 1) (ae_entries msg) []) (\<lambda>appended.
                let last_new = ae_prev_log_index msg + int (length (ae_entries msg)) in
                block [persist_entries appended, persist, storage_sync,
                  whenever (\<lambda>c. ae_leader_commit msg > commit_index (me c))
                    (block [upd (\<lambda>m. m\<lparr>commit_index := min (ae_leader_commit msg) last_new\<rparr>), apply_committed]),
                  (\<lambda>c. node_send frm (MAppendEntriesReply
                     (AppendEntriesReply (current_term (me c)) True last_new)) c)]))])]"

definition on_append_entries_reply :: "NodeId \<Rightarrow> append_entries_reply \<Rightarrow> node_ctx stmt" where
  "on_append_entries_reply frm msg =
     ite (\<lambda>c. aer_term msg > current_term (me c))
       (block [become_follower (aer_term msg) None, persist, storage_sync])
       (ite (\<lambda>c. role (me c) \<noteq> LEADER \<or> aer_term msg \<noteq> current_term (me c)) (ret ())
         (if aer_success msg then
            block [upd (\<lambda>m. let i = max (match_for m frm) (aer_match_index msg)
                     in m\<lparr>match_index := (match_index m)(frm \<mapsto> i), next_index := (next_index m)(frm \<mapsto> i + 1)\<rparr>),
                   advance_commit_index]
          else
            block [upd (\<lambda>m. m\<lparr>next_index := (next_index m)(frm \<mapsto> max 1 (next_for m frm - 1))\<rparr>),
                   replicate_to frm]))"

definition on_election_timeout :: "node_ctx stmt" where
  "on_election_timeout =
     block [upd (\<lambda>m. m\<lparr>current_term := current_term m + 1\<rparr>), become_candidate,
       upd (\<lambda>m. m\<lparr>voted_for := Some (node_id m)\<rparr>), arm_election_timer, persist, storage_sync,
       ite (\<lambda>c. int (length (votes_granted (me c))) \<ge> majority (me c)) become_leader
         (\<lambda>c. broadcast (MRequestVote (RequestVote (current_term (me c)) (node_id (me c))
                (last_index (rlog (me c))) (last_term (rlog (me c))))) c)]"

definition on_client_request :: "NodeId \<Rightarrow> client_request \<Rightarrow> node_ctx stmt" where
  "on_client_request frm msg =
     ite (\<lambda>c. role (me c) \<noteq> LEADER)
       (\<lambda>c. node_send frm (MClientReply (ClientReply (creq_request_id msg) False (leader_id (me c)) None)) c)
       (\<lambda>c. let entry = log_create (rlog (me c)) (current_term (me c)) (creq_command msg) in
          block [on_log (log_append [entry]), persist_entries [entry], storage_sync,
            upd (\<lambda>m. m\<lparr>pending_clients := (pending_clients m)(le_index entry \<mapsto> (frm, creq_request_id msg))\<rparr>),
            (\<lambda>c. for_each (peers (me c)) replicate_to c), advance_commit_index] c)"

section \<open>Lifecycle and dispatch\<close>

definition node_start :: "node_ctx stmt" where
  "node_start = arm_election_timer"

definition reset_memory :: "rnode \<Rightarrow> rnode" where
  "reset_memory m = m\<lparr>role := FOLLOWER, commit_index := SENTINEL_INDEX, last_applied := SENTINEL_INDEX,
     kv := kv_init, votes_granted := [], next_index := Map.empty, match_index := Map.empty, leader_id := None,
     pending_clients := Map.empty, current_term := 0, voted_for := None, rlog := []\<rparr>"

definition node_crash :: "node_ctx stmt" where
  "node_crash =
     whenever (\<lambda>c. running (me c))
       (block [upd (\<lambda>m. m\<lparr>running := False\<rparr>), cancel_timers,
          (\<lambda>c. node_record ''raft.crash''
             [(''role'', JStr (role_value (role (me c)))), (''term'', JInt (current_term (me c)))] c),
          upd reset_memory])"

definition node_restart :: "node_ctx stmt" where
  "node_restart =
     bind storage_recover (\<lambda>(st, l).
       block [upd (\<lambda>m. m\<lparr>current_term := hs_current_term st, voted_for := hs_voted_for st, rlog := l, running := True\<rparr>),
         (\<lambda>c. node_record ''raft.restart''
            [(''term'', JInt (current_term (me c))), (''voted_for'', jopt (voted_for (me c))),
             (''entries'', JInt (int (length (rlog (me c)))))] c),
         arm_election_timer])"

fun dispatch :: "NodeId \<Rightarrow> message \<Rightarrow> node_ctx stmt" where
  "dispatch frm (MRequestVote msg) = on_request_vote frm msg"
| "dispatch frm (MRequestVoteReply msg) = on_request_vote_reply frm msg"
| "dispatch frm (MAppendEntries msg) = on_append_entries frm msg"
| "dispatch frm (MAppendEntriesReply msg) = on_append_entries_reply frm msg"
| "dispatch frm (MClientRequest msg) = on_client_request frm msg"
| "dispatch frm (MClientReply msg) = ret ()"

definition guard :: "(NodeId \<Rightarrow> node_ctx stmt) option \<Rightarrow> node_ctx stmt \<Rightarrow> node_ctx stmt" where
  "guard on_failure action c =
     (case action c of
        Raised e c' \<Rightarrow>
          if is_disk_error e then
            block [node_record ''raft.disk_error'' [(''error'', JDesc (DescError e))], node_crash,
              (case on_failure of None \<Rightarrow> ret () | Some f \<Rightarrow> (\<lambda>c. f (node_id (me c)) c))] c'
          else Raised e c'
      | out \<Rightarrow> out)"

definition node_on_message ::
  "(NodeId \<Rightarrow> node_ctx stmt) option \<Rightarrow> NodeId \<Rightarrow> message \<Rightarrow> node_ctx stmt" where
  "node_on_message on_failure frm msg =
     whenever (\<lambda>c. running (me c))
       (block [node_record ''raft.recv'' [(''frm'', JInt frm), (''msg'', JDesc (DescMessage msg))],
               guard on_failure (dispatch frm msg)])"

definition fire_election_timeout :: "(NodeId \<Rightarrow> node_ctx stmt) option \<Rightarrow> node_ctx stmt" where
  "fire_election_timeout on_failure =
     block [upd (\<lambda>m. m\<lparr>election_timer := None\<rparr>),
            whenever (\<lambda>c. running (me c)) (guard on_failure on_election_timeout)]"

definition fire_heartbeat :: "(NodeId \<Rightarrow> node_ctx stmt) option \<Rightarrow> node_ctx stmt" where
  "fire_heartbeat on_failure =
     block [upd (\<lambda>m. m\<lparr>heartbeat_timer := None\<rparr>),
            whenever (\<lambda>c. running (me c) \<and> role (me c) = LEADER) (guard on_failure send_heartbeats)]"

end
