(* ===== verification/Checkers.thy ===== *)
theory Checkers
  imports Raft_Node
begin

text \<open>
  The invariant checkers of \<^verbatim>\<open>groundhog/invariants\<close>: the view they get (\<^verbatim>\<open>base.py\<close>), the client's receipts
  (\<^verbatim>\<open>history.py\<close>), the six checkers of \<^verbatim>\<open>safety.py\<close>, the registry that runs them after every event, and
  the divergence checker. A checker is its state; observing a view returns what is wrong, if anything,
  as a \<open>problem\<close>, which stands for the text of the report. Shown: what each
  checker remembers makes it exact over a whole run, neither missing a violation nor inventing one.
\<close>

declare block.simps [simp del]

section \<open>The client's receipts\<close>

datatype ack = Ack (ack_tick: Tick) (ack_request_id: int) (ack_command: command) (ack_by: NodeId)

type_synonym client_history = "ack list"

definition record_ack :: "Tick \<Rightarrow> int \<Rightarrow> command \<Rightarrow> NodeId \<Rightarrow> client_history \<Rightarrow> client_history" where
  "record_ack tick request_id cmd by_node h = h @ [Ack tick request_id cmd by_node]"

definition history_commands :: "client_history \<Rightarrow> command list" where
  "history_commands h = map ack_command h"

definition expected_state :: "client_history \<Rightarrow> (pystr \<times> pystr option) list" where
  "expected_state h = foldl (\<lambda>state a. AList.update (cmd_key (ack_command a))
     (if cmd_op (ack_command a) = PUT then Some (cmd_value (ack_command a)) else None) state) [] h"

section \<open>What a checker sees and says\<close>

record cluster_view =
  view_tick :: Tick
  view_nodes :: "(NodeId \<times> rnode) list"
  view_history :: client_history

definition sorted_nodes :: "cluster_view \<Rightarrow> rnode list" where
  "sorted_nodes v = map (\<lambda>n. the (map_of (view_nodes v) n)) (sort (map fst (view_nodes v)))"

definition leaders :: "cluster_view \<Rightarrow> rnode list" where
  "leaders v = filter (\<lambda>k. running k \<and> role k = LEADER) (sorted_nodes v)"

datatype violation = Violation (v_checker: string) (v_seed: int) (v_tick: Tick) (v_detail: problem)

definition violation_record :: "violation \<Rightarrow> described jrecord" where
  "violation_record v =
     [(''kind'', JStr ''invariant.violated''), (''checker'', JStr (v_checker v)), (''seed'', JInt (v_seed v)),
      (''tick'', JInt (v_tick v)), (''detail'', JDesc (DescProblem (v_detail v)))]"

text \<open>A \<^verbatim>\<open>for\<close> loop whose body may \<^verbatim>\<open>return\<close> out of the function.\<close>

fun scan_for :: "('x \<Rightarrow> ('r option, 's) py) \<Rightarrow> 'x list \<Rightarrow> ('r option, 's) py" where
  "scan_for body [] = ret None"
| "scan_for body (x # xs) =
     bind (body x) (\<lambda>r. case r of None \<Rightarrow> scan_for body xs | Some p \<Rightarrow> ret (Some p))"

section \<open>The checkers of safety.py\<close>

definition observe_election :: "cluster_view \<Rightarrow> (problem option, Term \<Rightarrow> NodeId option) py" where
  "observe_election v =
     scan_for (\<lambda>k seen. case seen (current_term k) of
         None \<Rightarrow> Done None (seen(current_term k \<mapsto> node_id k))
       | Some incumbent \<Rightarrow>
           if incumbent \<noteq> node_id k then Done (Some (TwoLeaders (current_term k) incumbent (node_id k))) seen
           else Done None seen) (leaders v)"

fun pairs :: "'x list \<Rightarrow> ('x \<times> 'x) list" where
  "pairs [] = []"
| "pairs (x # xs) = map (Pair x) xs @ pairs xs"

text \<open>The first index at which two logs hold different entries, \<open>dflt\<close> when there is none.\<close>

fun first_difference :: "raft_log \<Rightarrow> raft_log \<Rightarrow> Index list \<Rightarrow> Index \<Rightarrow> exn + Index" where
  "first_difference l r [] dflt = Inr dflt"
| "first_difference l r (i # is) dflt =
     (case entry_at l i of Inl e \<Rightarrow> Inl e
      | Inr a \<Rightarrow> (case entry_at r i of Inl e \<Rightarrow> Inl e
        | Inr b \<Rightarrow> if a \<noteq> b then Inr i else first_difference l r is dflt))"

fun term_match_from :: "rnode \<Rightarrow> rnode \<Rightarrow> Index \<Rightarrow> Index list \<Rightarrow> exn + problem option" where
  "term_match_from l r diverged [] = Inr None"
| "term_match_from l r diverged (i # is) =
     (case term_at (rlog l) i of Inl e \<Rightarrow> Inl e
      | Inr s \<Rightarrow> (case term_at (rlog r) i of Inl e \<Rightarrow> Inl e
        | Inr t \<Rightarrow> if s \<noteq> t then term_match_from l r diverged is
            else if i = diverged then Inr (Some (SameTermDifferent (node_id l) (node_id r) s i))
            else Inr (Some (MatchAfterDivergence (node_id l) (node_id r) s i diverged))))"

definition match_pair :: "rnode \<Rightarrow> rnode \<Rightarrow> exn + problem option" where
  "match_pair l r =
     (let shared = min (last_index (rlog l)) (last_index (rlog r))
      in if shared = 0 then Inr None
         else case first_difference (rlog l) (rlog r) [1..shared] (shared + 1) of Inl e \<Rightarrow> Inl e
           | Inr diverged \<Rightarrow> term_match_from l r diverged [diverged..shared])"

definition observe_matching :: "cluster_view \<Rightarrow> (problem option, unit) py" where
  "observe_matching v = scan_for (\<lambda>(l, r). of_sum (match_pair l r)) (pairs (sorted_nodes v))"

definition observe_append_only :: "cluster_view \<Rightarrow> (problem option, NodeId \<Rightarrow> raft_log option) py" where
  "observe_append_only v =
     bind (scan_for (\<lambda>k seen.
         if (case seen (node_id k) of None \<Rightarrow> False | Some previous \<Rightarrow> take (length previous) (rlog k) \<noteq> previous)
         then Done (Some (LeaderChangedLog (node_id k) (current_term k) (length (the (seen (node_id k)))))) seen
         else Done None (seen(node_id k \<mapsto> rlog k))) (leaders v)) (\<lambda>r.
       case r of Some p \<Rightarrow> ret (Some p)
       | None \<Rightarrow> bind (modify (\<lambda>seen n. if n \<in> node_id ` set (leaders v) then seen n else None)) (\<lambda>_. ret None))"

record completeness =
  committed :: "(Index \<times> log_entry) list"
  checked_terms :: "Term \<Rightarrow> NodeId option"

definition remember_committed :: "rnode \<Rightarrow> Index \<Rightarrow> completeness stmt" where
  "remember_committed k i st =
     (if map_of (committed st) i = None \<and> has_entry (rlog k) i then
        (case entry_at (rlog k) i of Inl e \<Rightarrow> Raised e st
         | Inr entry \<Rightarrow> Done () (st\<lparr>committed := AList.update i entry (committed st)\<rparr>))
      else Done () st)"

definition lacks :: "rnode \<Rightarrow> Index \<times> log_entry \<Rightarrow> exn + problem option" where
  "lacks k ie =
     (case ie of (i, entry) \<Rightarrow>
        if \<not> has_entry (rlog k) i then Inr (Some (LeaderLacks (node_id k) (current_term k) entry None))
        else case entry_at (rlog k) i of Inl e \<Rightarrow> Inl e
          | Inr found \<Rightarrow> if found \<noteq> entry
              then Inr (Some (LeaderLacks (node_id k) (current_term k) entry (if 1 \<le> i then Some found else None)))
              else Inr None)"

definition observe_completeness :: "cluster_view \<Rightarrow> (problem option, completeness) py" where
  "observe_completeness v =
     bind (for_each (sorted_nodes v) (\<lambda>k. for_each [1..commit_index k] (remember_committed k))) (\<lambda>_.
       scan_for (\<lambda>k st.
         if checked_terms st (current_term k) = Some (node_id k) then Done None st
         else scan_for (\<lambda>ie. of_sum (lacks k ie)) (sort_key fst (committed st))
                (st\<lparr>checked_terms := (checked_terms st)(current_term k \<mapsto> node_id k)\<rparr>)) (leaders v))"

definition check_applied :: "rnode \<Rightarrow> Index \<Rightarrow> (problem option, Index \<Rightarrow> applied_entry option) py" where
  "check_applied k i seen =
     (if \<not> has_entry (rlog k) i then
        Done (Some (AppliedBeyondLog (node_id k) (last_applied k) (last_index (rlog k)))) seen
      else case entry_at (rlog k) i of Inl e \<Rightarrow> Raised e seen
        | Inr entry \<Rightarrow> (case seen i of
            None \<Rightarrow> Done None (seen(i \<mapsto> AppliedEntry i (le_term entry) (le_command entry) (node_id k)))
          | Some fst_applied \<Rightarrow>
              if (ap_term fst_applied, ap_command fst_applied) \<noteq> (le_term entry, le_command entry)
              then Done (Some (AppliedDifferently i fst_applied (node_id k) entry)) seen
              else Done None seen))"

definition observe_state_machine :: "cluster_view \<Rightarrow> (problem option, Index \<Rightarrow> applied_entry option) py" where
  "observe_state_machine v =
     scan_for (\<lambda>k. scan_for (check_applied k) [1..last_applied k]) (sorted_nodes v)"

definition observe_progress :: "cluster_view \<Rightarrow> (problem option, NodeId \<Rightarrow> Index option) py" where
  "observe_progress v =
     scan_for (\<lambda>k high.
       if \<not> running k then Done None (high(node_id k := None))
       else if last_applied k > commit_index k
       then Done (Some (AppliedBeyondCommit (node_id k) (last_applied k) (commit_index k))) high
       else case high (node_id k) of
           Some previous \<Rightarrow>
             if commit_index k < previous
             then Done (Some (CommitWentBack (node_id k) previous (commit_index k))) high
             else Done None (high(node_id k \<mapsto> commit_index k))
         | None \<Rightarrow> Done None (high(node_id k \<mapsto> commit_index k))) (sorted_nodes v)"

section \<open>The registry\<close>

datatype checker =
    ElectionSafety "Term \<Rightarrow> NodeId option"
  | LeaderAppendOnly "NodeId \<Rightarrow> raft_log option"
  | LogMatching
  | LeaderCompleteness completeness
  | StateMachineSafety "Index \<Rightarrow> applied_entry option"
  | MonotonicProgress "NodeId \<Rightarrow> Index option"

fun checker_name :: "checker \<Rightarrow> string" where
  "checker_name (ElectionSafety _) = ''election_safety''"
| "checker_name (LeaderAppendOnly _) = ''leader_append_only''"
| "checker_name LogMatching = ''log_matching''"
| "checker_name (LeaderCompleteness _) = ''leader_completeness''"
| "checker_name (StateMachineSafety _) = ''state_machine_safety''"
| "checker_name (MonotonicProgress _) = ''monotonic_progress''"

definition all_checkers :: "checker list" where
  "all_checkers =
     [ElectionSafety Map.empty, LeaderAppendOnly Map.empty, LogMatching,
      LeaderCompleteness \<lparr>committed = [], checked_terms = Map.empty\<rparr>, StateMachineSafety Map.empty,
      MonotonicProgress Map.empty]"

text \<open>\<open>run_checker observe wrap st\<close>: the observation of one kind of checker, its new state wrapped again.\<close>

definition run_checker :: "('p, 's) py \<Rightarrow> ('s \<Rightarrow> checker) \<Rightarrow> 's \<Rightarrow> ('p, checker) outcome" where
  "run_checker observe wrap st =
     (case observe st of Done r st' \<Rightarrow> Done r (wrap st') | Raised e st' \<Rightarrow> Raised e (wrap st') | Diverges \<Rightarrow> Diverges)"

fun checker_observe :: "cluster_view \<Rightarrow> (problem option, checker) py" where
  "checker_observe v (ElectionSafety st) = run_checker (observe_election v) ElectionSafety st"
| "checker_observe v (LeaderAppendOnly st) = run_checker (observe_append_only v) LeaderAppendOnly st"
| "checker_observe v LogMatching = run_checker (observe_matching v) (\<lambda>_. LogMatching) ()"
| "checker_observe v (LeaderCompleteness st) = run_checker (observe_completeness v) LeaderCompleteness st"
| "checker_observe v (StateMachineSafety st) = run_checker (observe_state_machine v) StateMachineSafety st"
| "checker_observe v (MonotonicProgress st) = run_checker (observe_progress v) MonotonicProgress st"

record invariants =
  checkers :: "checker list"
  inv_seed :: int
  stride :: int
  stop_on_violation :: bool
  violations :: "violation list"
  observations :: int

definition new_invariants :: "checker list \<Rightarrow> int \<Rightarrow> int \<Rightarrow> bool \<Rightarrow> exn + invariants" where
  "new_invariants cs sd n stop =
     (if n < 1 then Inl ValueError
      else Inr \<lparr>checkers = cs, inv_seed = sd, stride = n, stop_on_violation = stop, violations = [], observations = 0\<rparr>)"

definition observe_at :: "cluster_view \<Rightarrow> nat \<Rightarrow> invariants stmt" where
  "observe_at v i iv =
     (case checker_observe v (checkers iv ! i) of
        Done r ch \<Rightarrow>
          (let inv1 = iv\<lparr>checkers := (checkers iv)[i := ch]\<rparr> in
           case r of None \<Rightarrow> Done () inv1
           | Some p \<Rightarrow>
               (let inv2 = inv1\<lparr>violations := violations inv1 @ [Violation (checker_name ch) (inv_seed iv) (view_tick v) p]\<rparr>
                in if stop_on_violation iv then Raised InvariantViolated inv2 else Done () inv2))
      | Raised e ch \<Rightarrow> Raised e (iv\<lparr>checkers := (checkers iv)[i := ch]\<rparr>)
      | Diverges \<Rightarrow> Diverges)"

definition invariants_observe :: "cluster_view \<Rightarrow> invariants stmt" where
  "invariants_observe v =
     block [modify (\<lambda>iv. iv\<lparr>observations := observations iv + 1\<rparr>),
       whenever (\<lambda>iv. observations iv mod stride iv = 0)
         (\<lambda>iv. for_each [0..<length (checkers iv)] (observe_at v) iv)]"

definition invariants_ok :: "invariants \<Rightarrow> bool" where
  "invariants_ok iv \<longleftrightarrow> violations iv = []"

section \<open>The divergence checker\<close>

datatype divergence = Divergence (dv_key: pystr) (dv_values: "(NodeId \<times> pystr option) list")

type_synonym stores = "(NodeId \<times> kv_store) list"

definition new_divergence_checker :: "stores \<Rightarrow> exn + stores" where
  "new_divergence_checker ss = (if length ss < 2 then Inl ValueError else Inr ss)"

definition store_of :: "stores \<Rightarrow> NodeId \<Rightarrow> kv_store" where
  "store_of ss n = the (map_of ss n)"

definition divergence_keys :: "stores \<Rightarrow> pystr list" where
  "divergence_keys ss = sort (foldl (\<lambda>seen n. foldl (\<lambda>seen key. set_add key seen) seen (all_keys (store_of ss n)))
     [] (sort (map fst ss)))"

definition divergence_check :: "stores \<Rightarrow> divergence list" where
  "divergence_check ss =
     concat (map (\<lambda>key. let values = map (\<lambda>n. (n, kv_get key (store_of ss n))) (sort (map fst ss))
        in if \<exists>nv \<in> set values. snd nv \<noteq> snd (hd values) then [Divergence key values] else [])
       (divergence_keys ss))"

section \<open>Watching a whole run\<close>

text \<open>Observing one view after another is one scan, and so is a scan of scans.\<close>

lemma scan_for_append:
  "scan_for f (xs @ ys) = bind (scan_for f xs) (\<lambda>r. case r of None \<Rightarrow> scan_for f ys | Some p \<Rightarrow> ret (Some p))"
proof (induction xs)
  case Nil
  show ?case by (rule ext) (simp add: bind_def ret_def)
next
  case (Cons x xs)
  show ?case
    by (rule ext) (simp add: Cons.IH bind_def ret_def split: outcome.splits option.splits)
qed

lemma scan_for_concat: "scan_for f (concat xss) = scan_for (\<lambda>xs. scan_for f xs) xss"
  by (induction xss) (simp_all add: scan_for_append cong: option.case_cong)

lemma scan_for_map: "scan_for f (map g xs) = scan_for (\<lambda>x. f (g x)) xs"
  by (induction xs) simp_all

lemma scan_for_nested: "scan_for (\<lambda>x. scan_for f (g x)) xs = scan_for f (concat (map g xs))"
  by (simp add: scan_for_concat scan_for_map)

text \<open>The scheme behind the checkers with a memory: a key, what is remembered under it, and a body that
  complains when the memory disagrees.\<close>

definition remembers :: "('x \<Rightarrow> 'k) \<Rightarrow> ('x \<Rightarrow> 'v) \<Rightarrow> ('v \<Rightarrow> 'a) \<Rightarrow>
    ('x \<Rightarrow> (problem option, 'k \<Rightarrow> 'v option) py) \<Rightarrow> 'x \<Rightarrow> bool" where
  "remembers key val about body x \<longleftrightarrow>
     (\<forall>seen. seen (key x) = None \<longrightarrow> body x seen = Done None (seen(key x \<mapsto> val x)))
   \<and> (\<forall>seen w. seen (key x) = Some w \<and> about w = about (val x) \<longrightarrow> body x seen = Done None seen)
   \<and> (\<forall>seen w. seen (key x) = Some w \<and> about w \<noteq> about (val x) \<longrightarrow> (\<exists>p. body x seen = Done (Some p) seen))"

definition quiet :: "('x \<Rightarrow> 'k) \<Rightarrow> ('x \<Rightarrow> 'v) \<Rightarrow> ('v \<Rightarrow> 'a) \<Rightarrow> ('k \<Rightarrow> 'v option) \<Rightarrow> 'x set \<Rightarrow> bool" where
  "quiet key val about seen X \<longleftrightarrow> (\<forall>y \<in> X. \<forall>w. seen (key y) = Some w \<longrightarrow> about w = about (val y))
     \<and> (\<forall>y \<in> X. \<forall>z \<in> X. key y = key z \<longrightarrow> about (val y) = about (val z))"

lemma quietI:
  "(\<And>y w. y \<in> X \<Longrightarrow> seen (key y) = Some w \<Longrightarrow> about w = about (val y)) \<Longrightarrow>
   (\<And>y z. y \<in> X \<Longrightarrow> z \<in> X \<Longrightarrow> key y = key z \<Longrightarrow> about (val y) = about (val z)) \<Longrightarrow> quiet key val about seen X"
  unfolding quiet_def by blast

lemma quietD:
  assumes "quiet key val about seen X"
  shows "y \<in> X \<Longrightarrow> seen (key y) = Some w \<Longrightarrow> about w = about (val y)"
    and "y \<in> X \<Longrightarrow> z \<in> X \<Longrightarrow> key y = key z \<Longrightarrow> about (val y) = about (val z)"
  using assms unfolding quiet_def by blast+

lemma quiet_new:
  fixes seen :: "'k \<Rightarrow> 'v option" and key :: "'x \<Rightarrow> 'k"
  assumes "seen (key x) = None"
  shows "quiet key val about seen (insert x X) \<longleftrightarrow> quiet key val about (seen(key x \<mapsto> val x)) X"
proof
  assume q: "quiet key val about seen (insert x X)"
  show "quiet key val about (seen(key x \<mapsto> val x)) X"
  proof (rule quietI)
    fix y w
    assume y: "y \<in> X" and w: "(seen(key x \<mapsto> val x)) (key y) = Some w"
    show "about w = about (val y)"
    proof (cases "key y = key x")
      case True
      then have "w = val x" using w by simp
      with quietD(2) [OF q, of x y] y True show ?thesis by simp
    next
      case False
      with w have "seen (key y) = Some w" by simp
      with quietD(1) [OF q, of y w] y show ?thesis by simp
    qed
  next
    fix y z
    assume "y \<in> X" "z \<in> X" "key y = key z"
    then show "about (val y) = about (val z)" by (intro quietD(2) [OF q]) simp_all
  qed
next
  assume q: "quiet key val about (seen(key x \<mapsto> val x)) X"
  have x: "about (val x) = about (val y)" if "y \<in> X" "key x = key y" for y
    by (rule quietD(1) [OF q]) (use that in simp_all)
  show "quiet key val about seen (insert x X)"
  proof (rule quietI)
    fix y w
    assume y: "y \<in> insert x X" and w: "seen (key y) = Some w"
    with assms have "key y \<noteq> key x" "y \<in> X" by auto
    with w show "about w = about (val y)" by (intro quietD(1) [OF q]) simp_all
  next
    fix y z
    assume y: "y \<in> insert x X" "z \<in> insert x X" "key y = key z"
    show "about (val y) = about (val z)"
    proof -
      consider "y = x" "z = x" | "y = x" "z \<in> X" | "z = x" "y \<in> X" | "y \<in> X" "z \<in> X" using y by blast
      then show ?thesis
      proof cases
        case 2
        with x [of z] y(3) show ?thesis by simp
      next
        case 3
        from x [OF 3(2)] 3(1) y(3) show ?thesis by simp
      next
        case 4
        then show ?thesis by (rule quietD(2) [OF q]) (rule y(3))
      qed simp
    qed
  qed
qed

lemma quiet_known:
  fixes seen :: "'k \<Rightarrow> 'v option" and key :: "'x \<Rightarrow> 'k"
  assumes "seen (key x) = Some w"
  shows "quiet key val about seen (insert x X) \<longleftrightarrow> about w = about (val x) \<and> quiet key val about seen X"
proof
  assume q: "quiet key val about seen (insert x X)"
  have "about w = about (val x)" by (rule quietD(1) [OF q]) (use assms in simp_all)
  moreover have "quiet key val about seen X"
    by (rule quietI) (use quietD [OF q] in blast)+
  ultimately show "about w = about (val x) \<and> quiet key val about seen X" ..
next
  assume "about w = about (val x) \<and> quiet key val about seen X"
  then have wx: "about w = about (val x)" and q: "quiet key val about seen X" by auto
  have x: "about (val x) = about (val y)" if "y \<in> X" "key x = key y" for y
    using quietD(1) [OF q that(1), of w] that(2) assms wx by simp
  show "quiet key val about seen (insert x X)"
  proof (rule quietI)
    fix y u
    assume "y \<in> insert x X" "seen (key y) = Some u"
    then show "about u = about (val y)" using wx assms quietD(1) [OF q, of y u] by (cases "y = x") simp_all
  next
    fix y z
    assume y: "y \<in> insert x X" "z \<in> insert x X" "key y = key z"
    show "about (val y) = about (val z)"
    proof -
      consider "y = x" "z = x" | "y = x" "z \<in> X" | "z = x" "y \<in> X" | "y \<in> X" "z \<in> X" using y by blast
      then show ?thesis
      proof cases
        case 2
        with x [of z] y(3) show ?thesis by simp
      next
        case 3
        from x [OF 3(2)] 3(1) y(3) show ?thesis by simp
      next
        case 4
        then show ?thesis by (rule quietD(2) [OF q]) (rule y(3))
      qed simp
    qed
  qed
qed

lemma scan_for_remembers:
  assumes "\<forall>x \<in> set xs. remembers key val about body x"
  shows "\<exists>r seen'. scan_for body xs seen = Done r seen' \<and> (r = None \<longleftrightarrow> quiet key val about seen (set xs))"
  using assms
proof (induction xs arbitrary: seen)
  case Nil
  then show ?case by (simp add: ret_def quiet_def)
next
  case (Cons x xs)
  have rx: "remembers key val about body x" and rxs: "\<forall>x \<in> set xs. remembers key val about body x"
    using Cons.prems by simp_all
  show ?case
  proof (cases "seen (key x)")
    case None
    then have "body x seen = Done None (seen(key x \<mapsto> val x))" using rx by (simp add: remembers_def)
    moreover obtain r seen' where "scan_for body xs (seen(key x \<mapsto> val x)) = Done r seen'"
      "r = None \<longleftrightarrow> quiet key val about (seen(key x \<mapsto> val x)) (set xs)"
      using Cons.IH [OF rxs] by blast
    ultimately have "scan_for body (x # xs) seen = Done r seen'"
      "r = None \<longleftrightarrow> quiet key val about seen (set (x # xs))"
      by (simp_all only: scan_for.simps bind_def outcome.case option.case list.set quiet_new [of seen key x, OF None])
    then show ?thesis by blast
  next
    case (Some w)
    show ?thesis
    proof (cases "about w = about (val x)")
      case True
      then have "body x seen = Done None seen" using rx Some by (simp add: remembers_def)
      with Cons.IH [OF rxs, of seen] True show ?thesis by (simp add: bind_def quiet_known [of seen key x w, OF Some])
    next
      case False
      then obtain p where "body x seen = Done (Some p) seen" using rx Some unfolding remembers_def by blast
      with False show ?thesis by (simp add: bind_def ret_def quiet_known [of seen key x w, OF Some])
    qed
  qed
qed

section \<open>Comparing two logs\<close>

lemma first_difference_wf:
  assumes "log_wf l" "log_wf r" and "1 \<le> lo" "hi \<le> int (length l)" "hi \<le> int (length r)"
  shows "\<exists>d. first_difference l r [lo..hi] (hi + 1) = Inr d
    \<and> (\<forall>j. lo \<le> j \<and> j \<le> hi \<and> j < d \<longrightarrow> l ! nat (j - 1) = r ! nat (j - 1))
    \<and> (d = hi + 1 \<or> lo \<le> d \<and> d \<le> hi \<and> l ! nat (d - 1) \<noteq> r ! nat (d - 1))"
  using assms(3)
proof (induction "nat (hi + 1 - lo)" arbitrary: lo)
  case 0
  then show ?case by (auto simp: upto.simps)
next
  case (Suc n)
  then have le: "lo \<le> hi" and n: "n = nat (hi + 1 - (lo + 1))" by linarith+
  have e: "entry_at l lo = Inr (l ! nat (lo - 1))" "entry_at r lo = Inr (r ! nat (lo - 1))"
    using assms Suc.prems le by (simp_all add: entry_at_wf)
  show ?case
  proof (cases "l ! nat (lo - 1) = r ! nat (lo - 1)")
    case True
    obtain d where d: "first_difference l r [lo + 1..hi] (hi + 1) = Inr d"
      "\<forall>j. lo + 1 \<le> j \<and> j \<le> hi \<and> j < d \<longrightarrow> l ! nat (j - 1) = r ! nat (j - 1)"
      "d = hi + 1 \<or> lo + 1 \<le> d \<and> d \<le> hi \<and> l ! nat (d - 1) \<noteq> r ! nat (d - 1)"
      using Suc.hyps(1) [OF n] Suc.prems by auto
    have "l ! nat (j - 1) = r ! nat (j - 1)" if "lo \<le> j" "j \<le> hi" "j < d" for j
      using that d(2) True by (cases "j = lo") auto
    moreover have "first_difference l r [lo..hi] (hi + 1) = Inr d"
      using d(1) e True le by (simp add: upto_rec1)
    moreover have "d = hi + 1 \<or> lo \<le> d \<and> d \<le> hi \<and> l ! nat (d - 1) \<noteq> r ! nat (d - 1)" using d(3) by auto
    ultimately show ?thesis by blast
  next
    case False
    then show ?thesis using e le by (intro exI [of _ lo]) (auto simp: upto_rec1)
  qed
qed

lemma term_match_from_wf:
  assumes "log_wf (rlog l)" "log_wf (rlog r)" and "1 \<le> lo" "hi \<le> int (length (rlog l))" "hi \<le> int (length (rlog r))"
  shows "\<exists>p. term_match_from l r d [lo..hi] = Inr p
    \<and> (p = None \<longleftrightarrow> (\<forall>i. lo \<le> i \<and> i \<le> hi \<longrightarrow> trm (rlog l) i \<noteq> trm (rlog r) i))"
  using assms(3)
proof (induction "nat (hi + 1 - lo)" arbitrary: lo)
  case 0
  then show ?case by (auto simp: upto.simps)
next
  case (Suc n)
  then have le: "lo \<le> hi" and n: "n = nat (hi + 1 - (lo + 1))" by linarith+
  have e: "term_at (rlog l) lo = Inr (trm (rlog l) lo)" "term_at (rlog r) lo = Inr (trm (rlog r) lo)"
    using assms Suc.prems le by (simp_all add: term_at_wf has_entry_wf)
  show ?case
  proof (cases "trm (rlog l) lo = trm (rlog r) lo")
    case True
    then show ?thesis using e le by (auto simp: upto_rec1)
  next
    case False
    obtain p where p: "term_match_from l r d [lo + 1..hi] = Inr p"
      "p = None \<longleftrightarrow> (\<forall>i. lo + 1 \<le> i \<and> i \<le> hi \<longrightarrow> trm (rlog l) i \<noteq> trm (rlog r) i)"
      using Suc.hyps(1) [OF n] Suc.prems by auto
    have "(\<forall>i. lo \<le> i \<and> i \<le> hi \<longrightarrow> trm (rlog l) i \<noteq> trm (rlog r) i)
        \<longleftrightarrow> (\<forall>i. lo + 1 \<le> i \<and> i \<le> hi \<longrightarrow> trm (rlog l) i \<noteq> trm (rlog r) i)"
      using False le by (metis add1_zle_eq order_less_le zless_add1_eq)
    with p False e le show ?thesis by (simp add: upto_rec1)
  qed
qed

text \<open>The Log Matching property of two logs.\<close>

definition logs_match :: "raft_log \<Rightarrow> raft_log \<Rightarrow> bool" where
  "logs_match l r \<longleftrightarrow> (\<forall>i. 1 \<le> i \<and> i \<le> int (length l) \<and> i \<le> int (length r) \<and> trm l i = trm r i \<longrightarrow>
     take (nat i) l = take (nat i) r)"

lemma match_pair_exact:
  assumes wf: "log_wf (rlog l)" "log_wf (rlog r)"
  shows "\<exists>p. match_pair l r = Inr p \<and> (p = None \<longleftrightarrow> logs_match (rlog l) (rlog r))"
proof -
  let ?hi = "min (int (length (rlog l))) (int (length (rlog r)))"
  have hi: "min (last_index (rlog l)) (last_index (rlog r)) = ?hi" by (simp add: last_index_wf wf)
  show ?thesis
  proof (cases "?hi = 0")
    case True
    then have "length (rlog l) = 0 \<or> length (rlog r) = 0" by linarith
    then show ?thesis using True hi by (auto simp: match_pair_def logs_match_def)
  next
    case False
    obtain d where d: "first_difference (rlog l) (rlog r) [1..?hi] (?hi + 1) = Inr d"
      "\<forall>j. 1 \<le> j \<and> j \<le> ?hi \<and> j < d \<longrightarrow> rlog l ! nat (j - 1) = rlog r ! nat (j - 1)"
      "d = ?hi + 1 \<or> 1 \<le> d \<and> d \<le> ?hi \<and> rlog l ! nat (d - 1) \<noteq> rlog r ! nat (d - 1)"
      using first_difference_wf [OF wf, of 1 ?hi] by auto
    have d1: "1 \<le> d" using d(3) by auto
    obtain p where p: "term_match_from l r d [d..?hi] = Inr p"
      "p = None \<longleftrightarrow> (\<forall>i. d \<le> i \<and> i \<le> ?hi \<longrightarrow> trm (rlog l) i \<noteq> trm (rlog r) i)"
      using term_match_from_wf [OF wf d1, of ?hi d] by auto
    have same: "take n (rlog l) = take n (rlog r)" if "int n \<le> ?hi" "int n < d" for n
    proof (rule nth_equalityI)
      fix j
      assume "j < length (take n (rlog l))"
      then show "take n (rlog l) ! j = take n (rlog r) ! j"
        using d(2) that by (auto dest: spec [of _ "int j + 1"])
    qed (use that in auto)
    have "logs_match (rlog l) (rlog r) \<longleftrightarrow> (\<forall>i. d \<le> i \<and> i \<le> ?hi \<longrightarrow> trm (rlog l) i \<noteq> trm (rlog r) i)"
    proof
      assume m: "logs_match (rlog l) (rlog r)"
      show "\<forall>i. d \<le> i \<and> i \<le> ?hi \<longrightarrow> trm (rlog l) i \<noteq> trm (rlog r) i"
      proof (intro allI impI notI)
        fix i
        assume i: "d \<le> i \<and> i \<le> ?hi" and eq: "trm (rlog l) i = trm (rlog r) i"
        then have "take (nat i) (rlog l) = take (nat i) (rlog r)" using m d1 by (auto simp: logs_match_def)
        then have "rlog l ! nat (d - 1) = rlog r ! nat (d - 1)"
          using i d1 by (metis nth_take nat_less_eq_zless diff_ge_0_iff_ge zle_diff1_eq order_less_le_trans diff_add_cancel zless_add1_eq order_refl)
        with d(3) i show False by auto
      qed
    next
      assume n: "\<forall>i. d \<le> i \<and> i \<le> ?hi \<longrightarrow> trm (rlog l) i \<noteq> trm (rlog r) i"
      show "logs_match (rlog l) (rlog r)"
        unfolding logs_match_def
      proof (intro allI impI)
        fix i
        assume i: "1 \<le> i \<and> i \<le> int (length (rlog l)) \<and> i \<le> int (length (rlog r)) \<and> trm (rlog l) i = trm (rlog r) i"
        with n have "i < d" by (metis linorder_not_less min.boundedI)
        with i show "take (nat i) (rlog l) = take (nat i) (rlog r)" by (intro same) auto
      qed
    qed
    with d(1) p False show ?thesis unfolding match_pair_def hi by (simp add: Let_def)
  qed
qed

lemma scan_for_tests:
  assumes "\<And>x. x \<in> set xs \<Longrightarrow> \<exists>p. f x = Inr p \<and> (p = None \<longleftrightarrow> P x)"
  shows "scan_for (\<lambda>x. of_sum (f x)) xs s = Done None s \<longleftrightarrow> (\<forall>x \<in> set xs. P x)"
  using assms
proof (induction xs)
  case Nil
  then show ?case by (simp add: ret_def)
next
  case (Cons x xs)
  then obtain p where p: "f x = Inr p" "p = None \<longleftrightarrow> P x" by auto
  with Cons show ?case by (cases p) (simp_all add: bind_def of_sum_def ret_def)
qed

lemma set_pairs: "(x, y) \<in> set (pairs xs) \<longleftrightarrow> (\<exists>i j. i < j \<and> j < length xs \<and> x = xs ! i \<and> y = xs ! j)"
proof (induction xs)
  case Nil
  then show ?case by simp
next
  case (Cons z zs)
  have "(\<exists>i j. i < j \<and> j < length (z # zs) \<and> x = (z # zs) ! i \<and> y = (z # zs) ! j)
      \<longleftrightarrow> (\<exists>j. 0 < j \<and> j < length (z # zs) \<and> x = z \<and> y = (z # zs) ! j)
        \<or> (\<exists>i j. i < j \<and> j < length zs \<and> x = zs ! i \<and> y = zs ! j)"
    (is "?L \<longleftrightarrow> ?A \<or> ?B")
  proof
    assume ?L
    then obtain i j where ij: "i < j" "j < length (z # zs)" "x = (z # zs) ! i" "y = (z # zs) ! j" by blast
    then obtain j' where j': "j = Suc j'" by (cases j) auto
    show "?A \<or> ?B"
    proof (cases i)
      case 0
      with ij show ?thesis by auto
    next
      case (Suc i')
      with ij j' have "i' < j' \<and> j' < length zs \<and> x = zs ! i' \<and> y = zs ! j'" by simp
      then show ?thesis by blast
    qed
  next
    assume "?A \<or> ?B"
    then show ?L
    proof
      assume ?A
      then obtain j where "0 < j" "j < length (z # zs)" "x = z" "y = (z # zs) ! j" by blast
      then show ?L by (intro exI [of _ 0] exI [of _ j]) simp
    next
      assume ?B
      then obtain i j where "i < j" "j < length zs" "x = zs ! i" "y = zs ! j" by blast
      then show ?L by (intro exI [of _ "Suc i"] exI [of _ "Suc j"]) simp
    qed
  qed
  moreover have "?A \<longleftrightarrow> x = z \<and> y \<in> set zs"
  proof
    assume ?A
    then obtain j where "0 < j" "j < length (z # zs)" "x = z" "y = (z # zs) ! j" by blast
    then show "x = z \<and> y \<in> set zs" by (cases j) simp_all
  next
    assume a: "x = z \<and> y \<in> set zs"
    then obtain j where "j < length zs" "y = zs ! j" by (auto simp: in_set_conv_nth)
    with a show ?A by (intro exI [of _ "Suc j"]) simp
  qed
  ultimately show ?case using Cons.IH by auto
qed

section \<open>Comparing what was applied\<close>

definition applied_pairs :: "cluster_view \<Rightarrow> (rnode \<times> Index) list" where
  "applied_pairs v = concat (map (\<lambda>k. map (Pair k) [1..last_applied k]) (sorted_nodes v))"

lemma set_applied_pairs:
  "set (applied_pairs v) = {(k, i). k \<in> set (sorted_nodes v) \<and> 1 \<le> i \<and> i \<le> last_applied k}"
  by (auto simp: applied_pairs_def)

lemma observe_state_machine_scan:
  "observe_state_machine v = scan_for (\<lambda>ki. check_applied (fst ki) (snd ki)) (applied_pairs v)"
  unfolding observe_state_machine_def applied_pairs_def scan_for_concat scan_for_map by simp

lemma check_applied_remembers:
  assumes "log_wf (rlog k)" "1 \<le> i" "i \<le> int (length (rlog k))"
  shows "remembers snd
     (\<lambda>ki. AppliedEntry (snd ki) (le_term (rlog (fst ki) ! nat (snd ki - 1)))
        (le_command (rlog (fst ki) ! nat (snd ki - 1))) (node_id (fst ki)))
     (\<lambda>a. (ap_term a, ap_command a)) (\<lambda>ki. check_applied (fst ki) (snd ki)) (k, i)"
  using assms by (auto simp: remembers_def check_applied_def has_entry_wf entry_at_wf)

lemma same_entry:
  assumes "log_wf l" "log_wf r" "1 \<le> i" "i \<le> int (length l)" "i \<le> int (length r)"
  shows "(le_term (l ! nat (i - 1)), le_command (l ! nat (i - 1))) = (le_term (r ! nat (i - 1)), le_command (r ! nat (i - 1)))
    \<longleftrightarrow> l ! nat (i - 1) = r ! nat (i - 1)"
proof -
  have "le_index (l ! nat (i - 1)) = le_index (r ! nat (i - 1))" using assms by (simp add: log_wf_def)
  then show ?thesis by (auto intro: log_entry.expand)
qed

section \<open>Comparing replicas\<close>

lemma set_fold_add: "set (foldl (\<lambda>seen key. set_add key seen) seen ks) = set seen \<union> set ks"
  by (induction ks arbitrary: seen) auto

lemma set_divergence_keys:
  "set (divergence_keys ss) = (\<Union>n \<in> set (map fst ss). set (all_keys (store_of ss n)))"
proof -
  have "set (foldl (\<lambda>seen n. foldl (\<lambda>seen key. set_add key seen) seen (f n)) seen ns) = set seen \<union> (\<Union>n \<in> set ns. set (f n))"
    for f :: "NodeId \<Rightarrow> pystr list" and seen ns
    by (induction ns arbitrary: seen) (auto simp: set_fold_add)
  then show ?thesis by (simp add: divergence_keys_def)
qed

lemma some_differs:
  assumes "ns \<noteq> []"
  shows "(\<exists>nv \<in> set (map (\<lambda>n. (n, f n)) ns). snd nv \<noteq> snd (hd (map (\<lambda>n. (n, f n)) ns)))
    \<longleftrightarrow> (\<exists>m \<in> set ns. \<exists>n \<in> set ns. f m \<noteq> f n)"
proof -
  obtain m ms where "ns = m # ms" using assms by (cases ns) auto
  then show ?thesis by simp metis
qed

lemma foldl_receipts:
  "map_of (foldl (\<lambda>state a. AList.update (cmd_key (ack_command a))
     (if cmd_op (ack_command a) = PUT then Some (cmd_value (ack_command a)) else None) state) [] h) k
   = (if k \<in> cmd_key ` set (history_commands h) then Some (kv_get k (kv_run (history_commands h) kv_init)) else None)"
  by (induction h rule: rev_induct) (auto simp: history_commands_def update_conv' kv_get_apply)

text \<open>Small views for the witnesses.\<close>

definition example_node :: "NodeId \<Rightarrow> Term \<Rightarrow> raft_role \<Rightarrow> raft_log \<Rightarrow> rnode" where
  "example_node n t r l =
     (new_rnode n [])\<lparr>current_term := t, role := r, rlog := l, last_applied := int (length l)\<rparr>"

definition example_view :: "rnode list \<Rightarrow> cluster_view" where
  "example_view ks = \<lparr>view_tick = 0, view_nodes = map (\<lambda>k. (node_id k, k)) ks, view_history = []\<rparr>"

lemma example_node_simps [simp]:
  "node_id (example_node n t r l) = n" "current_term (example_node n t r l) = t" "role (example_node n t r l) = r"
  "rlog (example_node n t r l) = l" "last_applied (example_node n t r l) = int (length l)"
  "running (example_node n t r l)"
  by (simp_all add: example_node_def new_rnode_def)

lemma sorted_example_view:
  "node_id a < node_id b \<Longrightarrow> sorted_nodes (example_view [b, a]) = [a, b]"
  by (simp add: sorted_nodes_def example_view_def)

section \<open>Properties\<close>

text \<open>
  The election-safety checker is exact over a whole run: shown the views one after another, it stays
  silent if and only if no two nodes were ever seen leading in the same term, at the same or at
  different times.
\<close>

theorem election_checker_exact:
  "(\<exists>st. scan_for observe_election vs Map.empty = Done None st) \<longleftrightarrow>
     (\<forall>v \<in> set vs. \<forall>w \<in> set vs. \<forall>a \<in> set (leaders v). \<forall>b \<in> set (leaders w).
        current_term a = current_term b \<longrightarrow> node_id a = node_id b)"
proof -
  let ?body = "\<lambda>k seen. case seen (current_term k) of
         None \<Rightarrow> Done None (seen(current_term k \<mapsto> node_id k))
       | Some incumbent \<Rightarrow>
           if incumbent \<noteq> node_id k then Done (Some (TwoLeaders (current_term k) incumbent (node_id k))) seen
           else Done None seen"
  have obs: "scan_for observe_election vs = scan_for ?body (concat (map leaders vs))"
    unfolding observe_election_def by (rule scan_for_nested)
  have "remembers current_term node_id id ?body k" for k
    by (simp add: remembers_def)
  then obtain r st where "scan_for ?body (concat (map leaders vs)) Map.empty = Done r st"
    "r = None \<longleftrightarrow> quiet current_term node_id id Map.empty (set (concat (map leaders vs)))"
    using scan_for_remembers [of "concat (map leaders vs)" current_term node_id id ?body Map.empty] by auto
  moreover have "quiet current_term node_id id Map.empty (set (concat (map leaders vs))) \<longleftrightarrow>
     (\<forall>v \<in> set vs. \<forall>w \<in> set vs. \<forall>a \<in> set (leaders v). \<forall>b \<in> set (leaders w).
        current_term a = current_term b \<longrightarrow> node_id a = node_id b)"
    unfolding quiet_def by simp blast
  ultimately show ?thesis unfolding obs by auto
qed

theorem election_checker_exact_witness:
  "\<not> (\<exists>st. scan_for observe_election
     [example_view [example_node 2 7 FOLLOWER [], example_node 1 7 LEADER []],
      example_view [example_node 2 7 LEADER [], example_node 1 8 FOLLOWER []]] Map.empty = Done None st)"
  (is "\<not> (\<exists>st. scan_for _ [?v, ?w] _ = _)")
proof -
  have v: "leaders ?v = [example_node 1 7 LEADER []]" and w: "leaders ?w = [example_node 2 7 LEADER []]"
    by (simp_all add: leaders_def sorted_example_view)
  show ?thesis unfolding election_checker_exact by (simp add: v w)
qed

text \<open>
  C36. The log-matching checker is exact: on well-formed logs it reports nothing if and only if any two of
  them that hold an entry with the same index and term agree on everything up to it.
\<close>

theorem log_matching_checker_exact:
  assumes "\<forall>k \<in> set (sorted_nodes v). log_wf (rlog k)"
  shows "observe_matching v () = Done None () \<longleftrightarrow>
    (\<forall>i j. i < j \<and> j < length (sorted_nodes v) \<longrightarrow>
       (let l = rlog (sorted_nodes v ! i); r = rlog (sorted_nodes v ! j) in
        \<forall>n. 1 \<le> n \<and> n \<le> int (length l) \<and> n \<le> int (length r) \<and> trm l n = trm r n \<longrightarrow> take (nat n) l = take (nat n) r))"
proof -
  let ?ns = "sorted_nodes v"
  have "\<exists>p. match_pair (fst lr) (snd lr) = Inr p \<and> (p = None \<longleftrightarrow> logs_match (rlog (fst lr)) (rlog (snd lr)))"
    if "lr \<in> set (pairs ?ns)" for lr
  proof -
    obtain l r where lr: "lr = (l, r)" by (cases lr)
    with that have "l \<in> set ?ns" "r \<in> set ?ns" by (auto simp: set_pairs)
    with match_pair_exact [of l r] assms lr show ?thesis by simp
  qed
  from scan_for_tests [of "pairs ?ns" "\<lambda>lr. match_pair (fst lr) (snd lr)", OF this]
  have "scan_for (\<lambda>lr. of_sum (match_pair (fst lr) (snd lr))) (pairs ?ns) () = Done None ()
      \<longleftrightarrow> (\<forall>lr \<in> set (pairs ?ns). logs_match (rlog (fst lr)) (rlog (snd lr)))" .
  then have "observe_matching v () = Done None () \<longleftrightarrow> (\<forall>lr \<in> set (pairs ?ns). logs_match (rlog (fst lr)) (rlog (snd lr)))"
    by (simp only: observe_matching_def case_prod_beta')
  also have "\<dots> \<longleftrightarrow> (\<forall>i j. i < j \<and> j < length ?ns \<longrightarrow> logs_match (rlog (?ns ! i)) (rlog (?ns ! j)))"
    unfolding Ball_def split_paired_All set_pairs by auto
  finally show ?thesis by (simp add: logs_match_def Let_def)
qed

theorem log_matching_checker_exact_witness:
  "observe_matching (example_view
     [example_node 2 3 FOLLOWER [LogEntry 1 1 (put [] []), LogEntry 2 2 (put [] [])],
      example_node 1 3 LEADER [LogEntry 1 1 (put [] []), LogEntry 1 2 (put [] [])]]) () = Done None ()"
  (is "observe_matching (example_view [?b, ?a]) () = _")
proof -
  have nodes: "sorted_nodes (example_view [?b, ?a]) = [?a, ?b]"
    by (rule sorted_example_view) simp
  have wf: "log_wf (rlog ?a)" "log_wf (rlog ?b)"
    by (simp_all add: example_node_def log_wf_def less_Suc_eq)
  have "take (nat n) (rlog ?a) = take (nat n) (rlog ?b)"
    if "1 \<le> n" "n \<le> 2" "trm (rlog ?a) n = trm (rlog ?b) n" for n
  proof -
    have "n = 1 \<or> n = 2" using that by linarith
    then show ?thesis using that(3) by (auto simp: trm_def example_node_def)
  qed
  moreover have "length (rlog ?a) = 2" "length (rlog ?b) = 2" by (simp_all add: example_node_def)
  ultimately show ?thesis
    using log_matching_checker_exact [of "example_view [?b, ?a]"] wf unfolding nodes
    by (auto simp: less_Suc_eq numeral_2_eq_2)
qed

text \<open>
  C37. The state-machine checker is exact over a whole run in which nodes apply only what their logs hold:
  it stays silent if and only if no two nodes, at the same or at different times, applied different
  entries at the same index.
\<close>

theorem state_machine_checker_exact:
  assumes wf: "\<forall>v \<in> set vs. \<forall>k \<in> set (sorted_nodes v). log_wf (rlog k) \<and> last_applied k \<le> int (length (rlog k))"
  shows "(\<exists>st. scan_for observe_state_machine vs Map.empty = Done None st) \<longleftrightarrow>
    (\<forall>v \<in> set vs. \<forall>w \<in> set vs. \<forall>k \<in> set (sorted_nodes v). \<forall>l \<in> set (sorted_nodes w). \<forall>i.
       1 \<le> i \<and> i \<le> last_applied k \<and> i \<le> last_applied l \<longrightarrow> rlog k ! nat (i - 1) = rlog l ! nat (i - 1))"
proof -
  let ?body = "\<lambda>ki. check_applied (fst ki) (snd ki)" and ?ps = "concat (map applied_pairs vs)"
  let ?val = "\<lambda>ki. AppliedEntry (snd ki) (le_term (rlog (fst ki) ! nat (snd ki - 1)))
        (le_command (rlog (fst ki) ! nat (snd ki - 1))) (node_id (fst ki))"
  let ?about = "\<lambda>a. (ap_term a, ap_command a)"
  have obs: "scan_for observe_state_machine vs = scan_for ?body ?ps"
    unfolding observe_state_machine_scan by (rule scan_for_nested)
  have in_ps: "(k, i) \<in> set ?ps \<longleftrightarrow> (\<exists>v \<in> set vs. k \<in> set (sorted_nodes v) \<and> 1 \<le> i \<and> i \<le> last_applied k)" for k i
    by (simp add: set_applied_pairs)
  have "\<forall>ki \<in> set ?ps. remembers snd ?val ?about ?body ki"
    unfolding Ball_def split_paired_All in_ps using wf by (force intro!: check_applied_remembers)
  from scan_for_remembers [OF this] obtain r st where "scan_for ?body ?ps Map.empty = Done r st"
    "r = None \<longleftrightarrow> quiet snd ?val ?about Map.empty (set ?ps)" by blast
  moreover have "quiet snd ?val ?about Map.empty (set ?ps) \<longleftrightarrow>
    (\<forall>k l i. (k, i) \<in> set ?ps \<longrightarrow> (l, i) \<in> set ?ps \<longrightarrow> rlog k ! nat (i - 1) = rlog l ! nat (i - 1))"
  proof -
    have "?about (?val (k, i)) = ?about (?val (l, i)) \<longleftrightarrow> rlog k ! nat (i - 1) = rlog l ! nat (i - 1)"
      if "(k, i) \<in> set ?ps" "(l, i) \<in> set ?ps" for k l i
      using same_entry [of "rlog k" "rlog l" i] that wf unfolding in_ps by fastforce
    then show ?thesis unfolding quiet_def Ball_def split_paired_All by simp blast
  qed
  moreover have "(\<forall>k l i. (k, i) \<in> set ?ps \<longrightarrow> (l, i) \<in> set ?ps \<longrightarrow> rlog k ! nat (i - 1) = rlog l ! nat (i - 1)) \<longleftrightarrow>
    (\<forall>v \<in> set vs. \<forall>w \<in> set vs. \<forall>k \<in> set (sorted_nodes v). \<forall>l \<in> set (sorted_nodes w). \<forall>i.
       1 \<le> i \<and> i \<le> last_applied k \<and> i \<le> last_applied l \<longrightarrow> rlog k ! nat (i - 1) = rlog l ! nat (i - 1))"
    unfolding in_ps by blast
  moreover have "(\<exists>st. scan_for observe_state_machine vs Map.empty = Done None st) \<longleftrightarrow> r = None"
    unfolding obs using \<open>scan_for ?body ?ps Map.empty = Done r st\<close> by simp
  ultimately show ?thesis by (simp only:)
qed

theorem state_machine_checker_exact_witness:
  "\<not> (\<exists>st. scan_for observe_state_machine
     [example_view [example_node 2 3 FOLLOWER [LogEntry 2 1 (put [] [])], example_node 1 3 LEADER []],
      example_view [example_node 2 3 FOLLOWER [], example_node 1 3 LEADER [LogEntry 1 1 (put [] [])]]]
     Map.empty = Done None st)" (is "\<not> (\<exists>st. scan_for _ [?v, ?w] _ = _)")
proof -
  have v: "sorted_nodes ?v = [example_node 1 3 LEADER [], example_node 2 3 FOLLOWER [LogEntry 2 1 (put [] [])]]"
    and w: "sorted_nodes ?w = [example_node 1 3 LEADER [LogEntry 1 1 (put [] [])], example_node 2 3 FOLLOWER []]"
    by (simp_all add: sorted_example_view)
  have "\<forall>v \<in> set [?v, ?w]. \<forall>k \<in> set (sorted_nodes v). log_wf (rlog k) \<and> last_applied k \<le> int (length (rlog k))"
    by (simp only: list.set ball_simps v w) (simp add: log_wf_def)
  from state_machine_checker_exact [OF this] show ?thesis
    by (simp only: list.set ball_simps bex_simps v w) auto
qed

text \<open>
  The divergence checker is exact: it returns no divergence if and only if all replicas answer every
  read alike, and what it does report is a key some two replicas disagree on, with the value of each
  replica in the order of their ids.
\<close>

theorem divergence_checker_exact:
  assumes "new_divergence_checker stores = Inr ss"
  shows "(divergence_check ss = [] \<longleftrightarrow>
      (\<forall>m \<in> set (map fst ss). \<forall>n \<in> set (map fst ss). \<forall>key. kv_get key (store_of ss m) = kv_get key (store_of ss n)))
    \<and> (\<forall>d \<in> set (divergence_check ss).
         dv_values d = map (\<lambda>n. (n, kv_get (dv_key d) (store_of ss n))) (sort (map fst ss))
       \<and> (\<exists>m \<in> set (map fst ss). \<exists>n \<in> set (map fst ss). kv_get (dv_key d) (store_of ss m) \<noteq> kv_get (dv_key d) (store_of ss n)))"
proof -
  let ?ns = "sort (map fst ss)"
  let ?vals = "\<lambda>key. map (\<lambda>n. (n, kv_get key (store_of ss n))) ?ns"
  have "ss \<noteq> []" using assms by (auto simp: new_divergence_checker_def split: if_splits)
  then have ne: "?ns \<noteq> []" by (metis length_sort length_map length_0_conv)
  have differ: "(\<exists>nv \<in> set (?vals key). snd nv \<noteq> snd (hd (?vals key))) \<longleftrightarrow>
      (\<exists>m \<in> set ?ns. \<exists>n \<in> set ?ns. kv_get key (store_of ss m) \<noteq> kv_get key (store_of ss n))" for key
    by (rule some_differs [OF ne])
  have check: "d \<in> set (divergence_check ss) \<longleftrightarrow> (\<exists>key \<in> set (divergence_keys ss). d = Divergence key (?vals key)
      \<and> (\<exists>m \<in> set ?ns. \<exists>n \<in> set ?ns. kv_get key (store_of ss m) \<noteq> kv_get key (store_of ss n)))" for d
    unfolding divergence_check_def Let_def differ by auto
  have "key \<in> set (divergence_keys ss)" if "m \<in> set ?ns" "n \<in> set ?ns" "kv_get key (store_of ss m) \<noteq> kv_get key (store_of ss n)" for key m n
  proof -
    have "kv_get key (store_of ss m) \<noteq> None \<or> kv_get key (store_of ss n) \<noteq> None" using that(3) by auto
    with that(1,2) show ?thesis unfolding set_divergence_keys UN_iff set_all_keys set_sort mem_Collect_eq by blast
  qed
  moreover have "divergence_check ss = [] \<longleftrightarrow> (\<forall>d. d \<notin> set (divergence_check ss))"
    by (cases "divergence_check ss") auto
  ultimately have "divergence_check ss = [] \<longleftrightarrow>
      \<not> (\<exists>key. \<exists>m \<in> set ?ns. \<exists>n \<in> set ?ns. kv_get key (store_of ss m) \<noteq> kv_get key (store_of ss n))"
    unfolding check by blast
  moreover have "(\<forall>d \<in> set (divergence_check ss). dv_values d = ?vals (dv_key d) \<and> (\<exists>m \<in> set ?ns. \<exists>n \<in> set ?ns. kv_get (dv_key d) (store_of ss m) \<noteq> kv_get (dv_key d) (store_of ss n)))"
    unfolding Ball_def check by (force simp del: set_sort set_map)
  ultimately show ?thesis unfolding set_sort by blast
qed

theorem divergence_checker_exact_witness:
  "divergence_check [(2, kv_run [put [1] [2]] kv_init), (1, kv_init)] \<noteq> []"
proof -
  let ?ss = "[(2, kv_run [put [1] [2]] kv_init), (1, kv_init)] :: stores"
  have "new_divergence_checker ?ss = Inr ?ss" by (simp add: new_divergence_checker_def)
  from divergence_checker_exact [OF this] show ?thesis
    by (auto simp: store_of_def kv_get_apply put_def intro!: exI [of _ "[1]"])
qed

text \<open>
  The receipts promise exactly what a store holds that applied the acknowledged commands in their
  order: the keys promised are those some receipt names, with the value the store gives, absent keys
  included.
\<close>

theorem receipts_promise_the_store:
  "map_of (expected_state h) k =
    (if k \<in> cmd_key ` set (history_commands h) then Some (kv_get k (kv_run (history_commands h) kv_init)) else None)"
  unfolding expected_state_def by (rule foldl_receipts)

end
