(* ===== verification/Naive.thy ===== *)
theory Naive
  imports Sim_Host Checkers
begin

text \<open>
  Replication done wrong on purpose: \<^verbatim>\<open>groundhog/naive\<close>. A primary acknowledges every write at once and
  tells two backups, which apply what they get; nobody counts answers, and the disks are synced every
  fourth write. The replicator (\<^verbatim>\<open>replicator.py\<close>), its client and the receipts' judgement (\<^verbatim>\<open>client.py\<close>) and
  the world around them (\<^verbatim>\<open>world.py\<close>), with what the design does keep: a node's store is always what its
  log says, a restart loses at most the writes since the last sync, and the judgement of lost writes is
  exact; and that the order of two messages is enough to lose one.
\<close>

declare block.simps [simp del]

section \<open>State\<close>

definition SYNC_EVERY :: int where "SYNC_EVERY = 4"
definition PRIMARY :: NodeId where "PRIMARY = 1"
definition NAIVE_IDS :: "NodeId list" where "NAIVE_IDS = [1, 2, 3]"
definition NAIVE_SETTLE :: Tick where "NAIVE_SETTLE = 3 * SECOND"
definition NAIVE_GAP :: "Tick \<times> Tick" where "NAIVE_GAP = (1 * MILLISECOND, 5 * MILLISECOND)"

datatype replicate_msg = Replicate (rep_command: command)
datatype naive_callback = NextRequest
datatype naive_described = DescReplicate replicate_msg | DescWrite command | DescFailure exn

type_synonym naive_action = "(replicate_msg, naive_callback) sim_action"

record naive_node =
  nv_node_id :: NodeId
  nv_primary_id :: NodeId
  nv_peers :: "NodeId list"
  nv_kv :: kv_store
  nv_running :: bool
  nv_unsynced :: int

definition new_naive :: "NodeId \<Rightarrow> NodeId \<Rightarrow> NodeId list \<Rightarrow> naive_node" where
  "new_naive n primary others =
     \<lparr>nv_node_id = n, nv_primary_id = primary, nv_peers = others, nv_kv = kv_init, nv_running = True, nv_unsynced = 0\<rparr>"

type_synonym naive_ctx = "(naive_action, naive_described, replicate_msg, NodeId, naive_node) hostctx"

definition is_primary :: "naive_node \<Rightarrow> bool" where
  "is_primary m \<longleftrightarrow> nv_node_id m = nv_primary_id m"

section \<open>The replicator\<close>

definition naive_record :: "string \<Rightarrow> naive_described jrecord \<Rightarrow> naive_ctx stmt" where
  "naive_record kind detail c =
     trace_write (dict_update detail
       [(''kind'', JStr kind), (''tick'', JInt (now c)), (''node'', JInt (nv_node_id (hme c)))]) c"

definition naive_crash :: "naive_ctx stmt" where
  "naive_crash =
     whenever (\<lambda>c. nv_running (hme c))
       (block [hupd (\<lambda>m. m\<lparr>nv_running := False, nv_kv := kv_init, nv_unsynced := 0\<rparr>),
          bind (on_hdisk sim_crash) (\<lambda>_. ret ()), naive_record ''naive.crash'' []])"

definition naive_restart :: "naive_ctx stmt" where
  "naive_restart =
     block [on_hdisk sim_restart,
       bind (on_hdisk sim_read_all) (\<lambda>recs.
       bind (of_sum (kv_replay recs)) (\<lambda>store.
         hupd (\<lambda>m. m\<lparr>nv_kv := store, nv_unsynced := 0, nv_running := True\<rparr>))),
       (\<lambda>c. naive_record ''naive.restart'' [(''recovered'', JInt (int (kv_len (nv_kv (hme c)))))] c)]"

definition naive_write :: "command \<Rightarrow> (bool, naive_ctx) py" where
  "naive_write cmd c =
     (case bind (of_sum (encode_command cmd)) (\<lambda>b. on_hdisk (sim_append [b])) c of
        Raised e c' \<Rightarrow>
          if is_disk_error e
          then bind (block [naive_record ''naive.disk_error'' [(''error'', JDesc (DescFailure e))], naive_crash]) (\<lambda>_. ret False) c'
          else Raised e c'
      | Done _ c' \<Rightarrow>
          bind (block [hupd (\<lambda>m. m\<lparr>nv_kv := kv_apply cmd (nv_kv m), nv_unsynced := nv_unsynced m + 1\<rparr>),
             whenever (\<lambda>c. nv_unsynced (hme c) \<ge> SYNC_EVERY)
               (block [on_hdisk sim_sync, hupd (\<lambda>m. m\<lparr>nv_unsynced := 0\<rparr>)])]) (\<lambda>_. ret True) c'
      | Diverges \<Rightarrow> Diverges)"

definition on_naive_request :: "command \<Rightarrow> (bool, naive_ctx) py" where
  "on_naive_request cmd =
     (\<lambda>c. if \<not> is_primary (hme c) \<or> \<not> nv_running (hme c) then Done False c
      else bind (naive_write cmd) (\<lambda>written.
        if \<not> written then ret False
        else bind (block [(\<lambda>c. for_each (nv_peers (hme c)) (\<lambda>peer c. net_send (nv_node_id (hme c)) peer (Replicate cmd) c) c),
                naive_record ''naive.acked'' [(''command'', JDesc (DescWrite cmd))]]) (\<lambda>_. ret True)) c)"

definition on_naive_message :: "NodeId \<Rightarrow> replicate_msg \<Rightarrow> naive_ctx stmt" where
  "on_naive_message frm msg =
     whenever (\<lambda>c. nv_running (hme c)) (bind (naive_write (rep_command msg)) (\<lambda>_. ret ()))"

section \<open>The client\<close>

record naive_client =
  nc_writes :: int
  nc_keys :: int
  nc_issued :: int
  nc_acked :: "command list"
  nc_refused :: int

datatype lost_write =
  LostWrite (lw_node: NodeId) (lw_key: pystr) (lw_promised: "pystr option") (lw_found: "pystr option")

definition promised_state :: "command list \<Rightarrow> (pystr \<times> pystr option) list" where
  "promised_state acked = foldl (\<lambda>state c. AList.update (cmd_key c)
     (if cmd_op c = PUT then Some (cmd_value c) else None) state) [] acked"

definition lost_writes :: "command list \<Rightarrow> stores \<Rightarrow> lost_write list" where
  "lost_writes acked ss =
     (let expected = promised_state acked in
      concat (map (\<lambda>n. concat (map (\<lambda>key.
          let found = kv_get key (store_of ss n); promised = the (map_of expected key)
          in if found \<noteq> promised then [LostWrite n key promised found] else [])
        (sort (map fst expected)))) (sort (map fst ss))))"

record naive_world = "(naive_action, naive_described, replicate_msg, NodeId, naive_node) hostworld" +
  nw_client :: naive_client
  nw_profile :: fault_profile
  nw_max_ticks :: Tick

definition upd_naive_client :: "(naive_client \<Rightarrow> naive_client) \<Rightarrow> naive_world stmt" where
  "upd_naive_client f = modify (\<lambda>w. w\<lparr>nw_client := f (nw_client w)\<rparr>)"

definition naive_arm :: "naive_world stmt" where
  "naive_arm =
     bind (with_rng (between (fst NAIVE_GAP) (snd NAIVE_GAP))) (\<lambda>d.
     bind (clock_after d (Callback NextRequest) ''client.request'' None) (\<lambda>_. ret ()))"

definition naive_submit :: "command \<Rightarrow> (bool, naive_world) py" where
  "naive_submit cmd = on_host PRIMARY (on_naive_request cmd)"

definition naive_command :: "int \<Rightarrow> int \<Rightarrow> exn + command" where
  "naive_command number keys =
     (if keys = 0 then Inl ZeroDivisionError
      else let key = pystr (''k'' @ decimal (number mod keys))
        in Inr (if number mod 7 = 6 then delete key else put key (pystr (''v'' @ decimal number))))"

definition naive_issue :: "naive_world stmt" where
  "naive_issue w =
     (let c = nw_client w; number = nc_issued c in
      if number \<ge> nc_writes c then Done () w
      else block [upd_naive_client (\<lambda>c. c\<lparr>nc_issued := nc_issued c + 1\<rparr>),
        bind (of_sum (naive_command number (nc_keys c))) (\<lambda>cmd.
        bind (naive_submit cmd) (\<lambda>accepted.
          block [upd_naive_client (\<lambda>c. if accepted then c\<lparr>nc_acked := nc_acked c @ [cmd]\<rparr> else c\<lparr>nc_refused := nc_refused c + 1\<rparr>),
            (\<lambda>w. trace_write [(''kind'', JStr ''client.request''), (''tick'', JInt (now w)),
               (''command'', JDesc (DescWrite cmd)), (''acked'', JBool accepted)] w),
            naive_arm]))] w)"

definition naive_window :: "naive_client \<Rightarrow> Tick" where
  "naive_window c = nc_writes c * snd NAIVE_GAP"

section \<open>The world\<close>

fun naive_act :: "naive_action \<Rightarrow> naive_world stmt" where
  "naive_act (Arrive frm to msg) = net_arrive (\<lambda>n frm msg. on_host n (on_naive_message frm msg)) frm to msg"
| "naive_act (StartPartition episode) = start_partition episode"
| "naive_act HealPartition = heal_partition"
| "naive_act (BeginOutage episode) = begin_outage (\<lambda>n. on_host n naive_crash) episode"
| "naive_act (EndOutage episode) = end_outage (\<lambda>n. on_host n naive_restart) episode"
| "naive_act (Callback NextRequest) = naive_issue"

definition blank_naive :: "(nat \<Rightarrow> 32 word) \<Rightarrow> int \<Rightarrow> fault_profile \<Rightarrow> int \<Rightarrow> int \<Rightarrow> naive_world" where
  "blank_naive stream sd p writes keys =
     \<lparr>rng = \<lparr>seed = sd, calls = 0, src = stream, pos = 0\<rparr>, queue = empty_queue, now = 0, trace = [], header = [],
      events_run = 0, net_faults = fp_network p, describe_msg = (\<lambda>msg. JDesc (DescReplicate msg)),
      arrive_action = Arrive, inboxes = [], status = Map.empty, held = Map.empty, partition = None,
      delivered = 0, dropped = 0, fault_plan = FaultSchedule [] [], fired = [], hosts = [],
      nw_client = \<lparr>nc_writes = writes, nc_keys = keys, nc_issued = 0, nc_acked = [], nc_refused = 0\<rparr>,
      nw_profile = p, nw_max_ticks = 0\<rparr>"

definition naive_quiet_by :: "naive_world \<Rightarrow> Tick" where
  "naive_quiet_by w = foldl max (naive_window (nw_client w))
     (map (\<lambda>e. pe_at e + pe_duration e) (fs_partitions (fault_plan w))
      @ map (\<lambda>e. oe_at e + oe_duration e) (fs_outages (fault_plan w)))"

definition naive_cluster :: "naive_world stmt" where
  "naive_cluster =
     block [bind (\<lambda>w. with_rng (generate_schedule (nw_profile w) NAIVE_IDS (naive_window (nw_client w))) w) (\<lambda>sch.
         modify (\<lambda>w. w\<lparr>fault_plan := sch\<rparr>)),
       modify (\<lambda>w. w\<lparr>nw_max_ticks := naive_quiet_by w + NAIVE_SETTLE\<rparr>),
       modify (\<lambda>w. w\<lparr>header := dict_update
         [(''world'', JStr ''naive''), (''profile'', JStr (fp_name (nw_profile w))), (''primary'', JInt PRIMARY),
          (''writes'', JInt (nc_writes (nw_client w))), (''keys'', JInt (nc_keys (nw_client w))),
          (''network'', JObj (network_faults_describe (fp_network (nw_profile w)))),
          (''faults'', JObj (fault_schedule_describe (fault_plan w)))] (header w)\<rparr>),
       for_each NAIVE_IDS (\<lambda>n. block [net_register n n,
         (\<lambda>w. register_host n (new_naive n PRIMARY (filter (\<lambda>p. p \<noteq> n) NAIVE_IDS)) (fp_disk (nw_profile w)) w)])]"

record naive_result =
  nr_seed :: int
  nr_profile :: string
  nr_issued :: int
  nr_acked :: int
  nr_refused :: int
  nr_quiescent :: bool
  nr_stores :: "(NodeId \<times> (pystr \<times> pystr) list) list"
  nr_divergences :: "divergence list"
  nr_lost :: "lost_write list"

definition nr_agrees :: "naive_result \<Rightarrow> bool" where
  "nr_agrees r \<longleftrightarrow> nr_divergences r = []"

definition kept_its_promises :: "naive_result \<Rightarrow> bool" where
  "kept_its_promises r \<longleftrightarrow> nr_lost r = []"

fun naive_nodes :: "NodeId list \<Rightarrow> (naive_node list, naive_world) py" where
  "naive_nodes [] = ret []"
| "naive_nodes (n # ns) =
     bind (\<lambda>w. case map_of (hosts w) n of None \<Rightarrow> Raised KeyError w | Some (m, _) \<Rightarrow> Done m w) (\<lambda>m.
     bind (naive_nodes ns) (\<lambda>ms. ret (m # ms)))"

fun everyone_up :: "NodeId list \<Rightarrow> (bool, naive_world) py" where
  "everyone_up [] = ret True"
| "everyone_up (n # ns) = bind (net_state n) (\<lambda>st. if st = RUNNING then everyone_up ns else ret False)"

definition naive_verdict :: "run_result \<Rightarrow> (naive_result, naive_world) py" where
  "naive_verdict outcome =
     bind (naive_nodes NAIVE_IDS) (\<lambda>ms.
     bind (everyone_up NAIVE_IDS) (\<lambda>up.
     (let ss = zip NAIVE_IDS (map nv_kv ms); quiescent = (rr_stop_reason outcome = STOP_IDLE \<and> up) in
      bind (of_sum (new_divergence_checker ss)) (\<lambda>checker w.
      (let ds = divergence_check checker;
           result = \<lparr>nr_seed = rr_seed outcome, nr_profile = fp_name (nw_profile w), nr_issued = nc_issued (nw_client w),
             nr_acked = int (length (nc_acked (nw_client w))), nr_refused = nc_refused (nw_client w),
             nr_quiescent = quiescent, nr_stores = map (\<lambda>(n, s). (n, snapshot s)) ss, nr_divergences = ds,
             nr_lost = lost_writes (nc_acked (nw_client w)) ss\<rparr>
       in bind (trace_write
            [(''kind'', JStr ''check.divergence''), (''tick'', JInt (now w)), (''quiescent'', JBool quiescent),
             (''divergent_keys'', JList (map (\<lambda>d. JStr (text_of (dv_key d))) ds)),
             (''lost_writes'', JInt (int (length (nr_lost result)))),
             (''stores'', JObj (map (\<lambda>(n, s). (decimal n, json_store s)) (nr_stores result)))])
            (\<lambda>_. ret result) w)))))"

definition naive_run :: "(naive_result, naive_world) py" where
  "naive_run =
     bind (block [naive_arm, injector_arm]) (\<lambda>_ w. bind (sim_run naive_act [] (\<lambda>e. JDesc (DescFailure e)) (map fst (hosts w)) (nw_max_ticks w)) naive_verdict w)"

definition run_naive :: "(nat \<Rightarrow> 32 word) \<Rightarrow> int \<Rightarrow> fault_profile \<Rightarrow> int \<Rightarrow> int \<Rightarrow> (naive_result, naive_world) outcome" where
  "run_naive stream sd p writes keys = bind naive_cluster (\<lambda>_. naive_run) (blank_naive stream sd p writes keys)"

end
