(* ===== verification/Naive_Props.thy ===== *)
theory Naive_Props
  imports Naive
begin

text \<open>
  What the naive replicator keeps of its promises. \<open>naive_holds c log synced\<close>: the node runs, its store
  is what its log says, the log is on the disk and all but fewer than \<open>SYNC_EVERY\<close> of it durable;
  \<open>naive_down c log synced\<close>: it is down and its disk still has what was synced.
\<close>

declare block.simps [simp del]

section \<open>A node and its log\<close>

abbreviation writes_on :: "command list \<Rightarrow> bytes list \<Rightarrow> bool" where
  "writes_on \<equiv> list_all2 (\<lambda>c r. encode_command c = Inr r)"

definition naive_holds :: "naive_ctx \<Rightarrow> command list \<Rightarrow> command list \<Rightarrow> bool" where
  "naive_holds c log synced \<longleftrightarrow> nv_running (hme c) \<and> nv_kv (hme c) = kv_run log kv_init
     \<and> (\<exists>us. log = synced @ us \<and> nv_unsynced (hme c) = int (length us) \<and> int (length us) < SYNC_EVERY)
     \<and> (\<exists>rs ds. writes_on log rs \<and> writes_on synced ds \<and> disk_holds (hdisk c) rs ds)"

definition naive_down :: "naive_ctx \<Rightarrow> command list \<Rightarrow> command list \<Rightarrow> bool" where
  "naive_down c log synced \<longleftrightarrow> \<not> nv_running (hme c) \<and> nv_kv (hme c) = kv_init
     \<and> (\<exists>rs ds. writes_on log rs \<and> writes_on synced ds \<and> disk_cut (hdisk c) rs ds)"

lemma writes_on_take: "writes_on cs rs \<Longrightarrow> writes_on (take n cs) (take n rs)"
  by (rule list_all2_takeI)

lemma writes_on_snoc: "writes_on cs rs \<Longrightarrow> encode_command c = Inr r \<Longrightarrow> writes_on (cs @ [c]) (rs @ [r])"
  by (simp add: list_all2_appendI)

lemma encode_command_errors: "encode_command c = Inl e \<Longrightarrow> \<not> is_disk_error e"
  by (auto simp: encode_command_def Let_def pack_field_def utf8_encode_def split: option.splits sum.splits if_splits)

lemma naive_crash_Done:
  assumes "naive_crash c = Done x c'" and "nv_running (hme c)" and "writes_on log rs" "writes_on synced ds"
    and "disk_cut (hdisk c) rs ds"
  shows "naive_down c' log synced"
proof -
  let ?m = "(hme c)\<lparr>nv_running := False, nv_kv := kv_init, nv_unsynced := 0\<rparr>"
  from assms(1,2) obtain kept d where d: "sim_crash \<lparr>drng = rng c, dsk = hdisk c\<rparr> = Done kept d"
    and c': "hme c' = ?m" "hdisk c' = dsk d"
    by (auto simp: naive_crash_def hupd_def on_hdisk_Done naive_record_def trace_write_Done)
  have "disk_cut (dsk d) rs ds" by (rule disk_cut_crash [OF _ d]) (simp add: assms(5))
  with assms(3,4) show ?thesis by (auto simp: naive_down_def c')
qed

lemma naive_write_step:
  assumes h: "naive_holds c log synced" and run: "naive_write cmd c = Done b c'"
  shows "if b then naive_holds c' (log @ [cmd]) (if nv_unsynced (hme c) + 1 = SYNC_EVERY then log @ [cmd] else synced)
    else naive_down c' (log @ [cmd]) synced"
proof -
  from h obtain us rs ds where
    m: "nv_running (hme c)" "nv_kv (hme c) = kv_run log kv_init" "log = synced @ us"
      "nv_unsynced (hme c) = int (length us)" "int (length us) < SYNC_EVERY"
    and d: "writes_on log rs" "writes_on synced ds" "disk_holds (hdisk c) rs ds"
    by (auto simp: naive_holds_def)
  obtain r where r: "encode_command cmd = Inr r"
    using run by (cases "encode_command cmd") (auto simp: naive_write_def bind_def of_sum_def
      dest: encode_command_errors split: if_splits)
  let ?D = "\<lparr>drng = rng c, dsk = hdisk c\<rparr>"
  note w = writes_on_snoc [OF d(1) r]
  have kv: "kv_run (synced @ us @ [cmd]) kv_init = kv_apply cmd (kv_run (synced @ us) kv_init)"
    using kv_run_simps(3) [of "synced @ us" cmd kv_init] by simp
  have disk: "disk_holds (dsk ?D) rs ds" using d(3) by simp
  have app: "bind (of_sum (encode_command cmd)) (\<lambda>b. on_hdisk (sim_append [b])) c = on_hdisk (sim_append [r]) c"
    by (simp add: bind_def of_sum_def r)
  show ?thesis
  proof (cases "on_hdisk (sim_append [r]) c")
    case (Done x c1)
    then obtain d1 where d1: "sim_append [r] ?D = Done x d1" and c1: "c1 = c\<lparr>rng := drng d1, hdisk := dsk d1\<rparr>"
      by (auto simp: on_hdisk_Done)
    note A = sim_append_Done(1) [OF disk d1]
    let ?m = "(hme c)\<lparr>nv_kv := kv_apply cmd (nv_kv (hme c)), nv_unsynced := nv_unsynced (hme c) + 1\<rparr>"
    show ?thesis
    proof (cases "nv_unsynced (hme c) + 1 = SYNC_EVERY")
      case True
      with run Done obtain d2 where b: "b = True" and d2: "sim_sync \<lparr>drng = drng d1, dsk = dsk d1\<rparr> = Done () d2"
        and c': "hme c' = ?m\<lparr>nv_unsynced := 0\<rparr>" "hdisk c' = dsk d2"
        by (auto simp: naive_write_def app hupd_def on_hdisk_Done c1)
      have "disk_holds (dsk d2) (rs @ [r]) (rs @ [r])" by (rule sim_sync_Done(1) [OF _ d2]) (use A in simp)
      then have "naive_holds c' (log @ [cmd]) (log @ [cmd])"
        using w m(1-3) kv unfolding naive_holds_def c' SYNC_EVERY_def by auto
      with True show ?thesis by (simp add: b)
    next
      case False
      then have lt: "nv_unsynced (hme c) + 1 < SYNC_EVERY" using m(4,5) by linarith
      with run Done have b: "b = True" and c': "hme c' = ?m" "hdisk c' = dsk d1"
        by (auto simp: naive_write_def app hupd_def c1)
      have "naive_holds c' (log @ [cmd]) synced"
        using A w m d(2) lt kv unfolding naive_holds_def c' by (auto intro!: exI [of _ "us @ [cmd]"])
      with False show ?thesis by (simp add: b)
    qed
  next
    case (Raised e c1)
    then obtain d1 where d1: "sim_append [r] ?D = Raised e d1" and c1: "c1 = c\<lparr>rng := drng d1, hdisk := dsk d1\<rparr>"
      by (auto simp: on_hdisk_Raised)
    from run Raised have e: "is_disk_error e" by (auto simp: naive_write_def app split: if_splits)
    with run Raised obtain c2 rr where b: "b = False" and c2: "c2 = c1\<lparr>trace := trace c1 @ [rr]\<rparr>"
      and crash: "naive_crash c2 = Done () c'"
      by (auto simp: naive_write_def app naive_record_def trace_write_Done)
    have "disk_torn (dsk d1) (rs @ [r]) ds" using sim_append_Raised(1) [OF disk d1] e by simp
    then have "disk_cut (hdisk c2) (rs @ [r]) ds" by (simp add: c2 c1 disk_torn_cut)
    with naive_crash_Done [OF crash _ w d(2)] m(1) show ?thesis by (simp add: b c2 c1)
  next
    case Diverges
    with run show ?thesis by (simp add: naive_write_def app)
  qed
qed

lemma naive_restart_step:
  assumes "naive_down c log synced" and "naive_restart c = Done x c'"
  shows "\<exists>n. length synced \<le> n \<and> naive_holds c' (take n log) (take n log)"
proof -
  from assms(1) obtain rs ds where d: "writes_on log rs" "writes_on synced ds" "disk_cut (hdisk c) rs ds"
    by (auto simp: naive_down_def)
  from assms(2) obtain d1 recs d2 store where d1: "sim_restart \<lparr>drng = rng c, dsk = hdisk c\<rparr> = Done () d1"
    and d2: "sim_read_all \<lparr>drng = drng d1, dsk = dsk d1\<rparr> = Done recs d2" and st: "kv_replay recs = Inr store"
    and c': "hme c' = (hme c)\<lparr>nv_kv := store, nv_unsynced := 0, nv_running := True\<rparr>" "hdisk c' = dsk d2"
    by (auto simp: naive_restart_def on_hdisk_Done hupd_def naive_record_def trace_write_Done)
  obtain n where n: "length ds \<le> n" "disk_holds (dsk d1) (take n rs) (take n rs)"
    by (rule disk_cut_restart [OF _ d1]) (use d(3) in auto)
  from sim_read_all_Done [of "\<lparr>drng = drng d1, dsk = dsk d1\<rparr>"] n(2) d2
  have recs: "recs = take n rs" and d2': "dsk d2 = fill_cache (dsk d1)" by auto
  have w: "writes_on (take n log) (take n rs)" by (rule writes_on_take [OF d(1)])
  have "store = kv_run (take n log) kv_init"
    using kv_replay_encoded [OF w, of kv_init] st by (simp add: recs kv_replay_def)
  moreover have "disk_holds (dsk d2) (take n rs) (take n rs)" using disk_holds_fill [OF n(2)] by (simp add: d2')
  moreover have "length synced \<le> n" using n(1) list_all2_lengthD [OF d(2)] by simp
  ultimately show ?thesis using w by (auto simp: naive_holds_def c' SYNC_EVERY_def intro!: exI [of _ n])
qed

lemma naive_restart_returns:
  assumes "naive_down c log synced"
  shows "\<exists>c'. naive_restart c = Done () c'"
proof -
  from assms obtain rs ds where d: "writes_on log rs" "disk_cut (hdisk c) rs ds" by (auto simp: naive_down_def)
  obtain d1 where d1: "sim_restart \<lparr>drng = rng c, dsk = hdisk c\<rparr> = Done () d1"
    by (simp add: sim_restart_def set_disk_def modify_def)
  obtain n where n: "disk_holds (dsk d1) (take n rs) (take n rs)"
    by (rule disk_cut_restart [OF _ d1]) (use d(2) in auto)
  have "kv_replay (take n rs) = Inr (kv_run (take n log) kv_init)"
    using kv_replay_encoded [OF writes_on_take [OF d(1)]] by (simp add: kv_replay_def)
  with d1 sim_read_all_Done [of "\<lparr>drng = drng d1, dsk = dsk d1\<rparr>"] n show ?thesis
    by (simp add: naive_restart_def on_hdisk_Done hupd_def naive_record_def trace_write_Done)
qed

section \<open>The client's judgement\<close>

lemma promised_receipts:
  "map_of (promised_state acked) k =
    (if k \<in> cmd_key ` set acked then Some (kv_get k (kv_run acked kv_init)) else None)"
  unfolding promised_state_def by (induction acked rule: rev_induct) (auto simp: update_conv' kv_get_apply)

lemma promised_keys: "set (map fst (promised_state acked)) = cmd_key ` set acked"
proof -
  have "k \<in> fst ` set (promised_state acked) \<longleftrightarrow> map_of (promised_state acked) k \<noteq> None" for k
    by (auto simp: map_of_eq_None_iff)
  then have "k \<in> fst ` set (promised_state acked) \<longleftrightarrow> k \<in> cmd_key ` set acked" for k
    by (simp add: promised_receipts)
  then show ?thesis by (auto simp only: list.set_map)
qed

section \<open>A node to try\<close>

definition naive_example :: naive_ctx where
  "naive_example =
     \<lparr>rng = \<lparr>seed = 0, calls = 0, src = (\<lambda>_. 0), pos = 0\<rparr>, queue = empty_queue, now = 0, trace = [], header = [],
      events_run = 0, net_faults = default_network_faults, describe_msg = (\<lambda>m. JDesc (DescReplicate m)),
      arrive_action = Arrive, inboxes = [], status = Map.empty, held = Map.empty, partition = None, delivered = 0,
      dropped = 0, hme = new_naive 2 1 [1, 3], hdisk = new_sim_storage default_disk_faults\<rparr>"

lemma naive_example_holds: "naive_holds naive_example [] []"
  by (auto simp: naive_holds_def naive_example_def new_naive_def SYNC_EVERY_def)

lemma naive_write_calm:
  assumes "naive_holds c log synced" and "zero_stream (rng c)" and "disk_cfg (hdisk c) = default_disk_faults"
    and "encode_command cmd = Inr r" and "int (length r) \<le> MAX_RECORD_SIZE" and "nv_unsynced (hme c) + 1 < SYNC_EVERY"
  shows "\<exists>c'. naive_write cmd c = Done True c' \<and> zero_stream (rng c') \<and> disk_cfg (hdisk c') = default_disk_faults"
proof -
  obtain blob where blob: "encode_records [r] = Inr blob" using encode_records_total [of "[r]"] assms(5) by auto
  let ?D = "\<lparr>drng = rng c, dsk = hdisk c\<rparr>"
  have "online (hdisk c)" using assms(1) by (auto simp: naive_holds_def disk_holds_def)
  then obtain d where d: "sim_append [r] ?D = Done () d" "zero_stream (drng d)" "disk_cfg (dsk d) = default_disk_faults"
    using sim_append_zero [of ?D default_disk_faults 0 "[r]" blob] blob assms(2,3)
    by (auto simp: default_disk_faults_def)
  then show ?thesis
    using assms(6) by (auto simp: naive_write_def bind_def of_sum_def assms(4) on_hdisk_def on_part_def block.simps hupd_def
        modify_def whenever_def ret_def)
qed

lemma small_put:
  assumes "v < 128"
  obtains r where "encode_command (put [7] [v]) = Inr r" "int (length r) \<le> MAX_RECORD_SIZE"
proof -
  have "encodable (put [7] [v])" using assms by (simp add: encodable_def put_def is_scalar_def utf8_char_def)
  then obtain r where r: "encode_command (put [7] [v]) = Inr r" using encode_command_iff by blast
  with that length_encode_command [OF r] assms show thesis by (simp add: put_def utf8_char_def MAX_RECORD_SIZE_def)
qed

lemma naive_example_write:
  "\<exists>c. naive_write (put [7] [8]) naive_example = Done True c \<and> zero_stream (rng c)
     \<and> disk_cfg (hdisk c) = default_disk_faults"
proof -
  obtain r where r: "encode_command (put [7] [8]) = Inr r" "int (length r) \<le> MAX_RECORD_SIZE" using small_put [of 8] by auto
  show ?thesis
    by (rule naive_write_calm [OF naive_example_holds _ _ r])
      (simp_all add: naive_example_def new_naive_def zero_stream_def new_sim_storage_def SYNC_EVERY_def)
qed

section \<open>Properties\<close>

text \<open>
  A write keeps store, log and disk together, or the node is down: where a running node's store is
  its log replayed and fewer than four writes are unsynced, a write that returns true leaves the store
  and the log with the command added, everything durable at every fourth write; a write that returns
  false has left the node down, and what was synced is still on its disk.
\<close>

theorem naive_write_effect:
  assumes "naive_holds c log synced" and "naive_write cmd c = Done b c'"
  shows "if b then naive_holds c' (log @ [cmd]) (if nv_unsynced (hme c) + 1 = SYNC_EVERY then log @ [cmd] else synced)
    else naive_down c' (log @ [cmd]) synced"
  by (rule naive_write_step [OF assms])

theorem naive_write_effect_witness:
  "\<exists>c. naive_write (put [7] [8]) naive_example = Done True c \<and> naive_holds c [put [7] [8]] []"
proof -
  obtain c where c: "naive_write (put [7] [8]) naive_example = Done True c" using naive_example_write by blast
  from naive_write_effect [OF naive_example_holds c] c show ?thesis
    by (simp add: naive_example_def new_naive_def SYNC_EVERY_def)
qed

text \<open>
  What a crash can take from a node that acknowledges before it syncs: after a crash and a restart
  the store is the one of a prefix of the log that lacks at most the three latest writes.
\<close>

theorem naive_restart_bound:
  assumes "naive_holds c log synced" and "block [naive_crash, naive_restart] c = Done x c'"
  shows "\<exists>n. length log - 3 \<le> n \<and> n \<le> length log \<and> nv_kv (hme c') = kv_run (take n log) kv_init
    \<and> naive_holds c' (take n log) (take n log)"
proof -
  from assms(2) obtain c1 where 1: "naive_crash c = Done () c1" and 2: "naive_restart c1 = Done x c'" by auto
  from assms(1) obtain us rs ds where us: "log = synced @ us" "int (length us) < SYNC_EVERY" "nv_running (hme c)"
    and d: "writes_on log rs" "writes_on synced ds" "disk_holds (hdisk c) rs ds"
    by (auto simp: naive_holds_def)
  obtain n where n: "length synced \<le> n" "naive_holds c' (take n log) (take n log)"
    using naive_restart_step [OF naive_crash_Done [OF 1 us(3) d(1,2) disk_holds_cut [OF d(3)]] 2] by blast
  have "length us \<le> 3" using us(2) by (simp add: SYNC_EVERY_def)
  then have "length log - 3 \<le> min n (length log)" using n(1) us(1) by simp
  moreover have "take (min n (length log)) log = take n log" by (simp add: min_def)
  ultimately show ?thesis using n(2) by (intro exI [of _ "min n (length log)"]) (auto simp: naive_holds_def)
qed

theorem naive_restart_bound_witness:
  "\<exists>c c' n. naive_holds c [put [7] [8]] [] \<and> block [naive_crash, naive_restart] c = Done () c'
     \<and> nv_kv (hme c') = kv_run (take n [put [7] [8]]) kv_init"
proof -
  obtain c where w: "naive_write (put [7] [8]) naive_example = Done True c" and z: "zero_stream (rng c)"
    and cfg: "disk_cfg (hdisk c) = default_disk_faults" using naive_example_write by blast
  have h: "naive_holds c [put [7] [8]] []"
    using naive_write_step [OF naive_example_holds w] by (simp add: naive_example_def new_naive_def SYNC_EVERY_def)
  then obtain rs ds where "disk_holds (hdisk c) rs ds" and run: "nv_running (hme c)" by (auto simp: naive_holds_def)
  then have "durable (hdisk c) \<le> length (disk_bytes (hdisk c))" by (rule_tac disk_holds_durable_le)
  with sim_crash_zero [of "\<lparr>drng = rng c, dsk = hdisk c\<rparr>"] z cfg obtain kept d1 d2 where
    d: "sim_crash \<lparr>drng = rng c, dsk = hdisk c\<rparr> = Done kept d1" "sim_restart d1 = Done () d2"
    by (auto simp: default_disk_faults_def)
  then obtain c1 where c1: "naive_crash c = Done () c1" "rng c1 = drng d1" "hdisk c1 = dsk d1"
    using run by (auto simp: naive_crash_def hupd_def on_hdisk_Done naive_record_def trace_write_Done)
  from h obtain rs ds where "writes_on [put [7] [8]] rs" "writes_on [] ds" "disk_holds (hdisk c) rs ds"
    by (auto simp: naive_holds_def)
  from naive_restart_returns [OF naive_crash_Done [OF c1(1) run this(1,2) disk_holds_cut [OF this(3)]]]
  obtain c2 where "naive_restart c1 = Done () c2" ..
  with c1 have run: "block [naive_crash, naive_restart] c = Done () c2" by auto
  with naive_restart_bound [OF h run] h show ?thesis by blast
qed

text \<open>
  The judgement of the client is exact: a write is reported lost at a node if and only if the client
  was told it is safe and the node answers otherwise than a store that applied the acknowledged writes
  in their order, deletions included.
\<close>

theorem lost_writes_exact:
  "LostWrite n key promised found \<in> set (lost_writes acked ss) \<longleftrightarrow>
     n \<in> set (map fst ss) \<and> key \<in> cmd_key ` set acked \<and> promised = kv_get key (kv_run acked kv_init)
     \<and> found = kv_get key (store_of ss n) \<and> found \<noteq> promised"
proof -
  have "LostWrite n key promised found \<in> set (lost_writes acked ss) \<longleftrightarrow>
     n \<in> set (map fst ss) \<and> key \<in> set (map fst (promised_state acked)) \<and> promised = the (map_of (promised_state acked) key)
     \<and> found = kv_get key (store_of ss n) \<and> found \<noteq> promised"
    by (auto simp: lost_writes_def Let_def split: if_splits)
  then show ?thesis by (auto simp: promised_keys promised_receipts simp del: set_map)
qed

text \<open>
  C38. The order of two messages is enough to lose an acknowledged write: two running nodes with the same
  log that get two writes to one key in different orders end with different values, and where the
  client was told of the writes in the first order, the second node is reported to have lost the later.
\<close>

theorem naive_order_decides:
  assumes "naive_holds a log s" and "naive_holds b log t"
    and "block [on_naive_message f (Replicate (put k u)), on_naive_message f (Replicate (put k v))] a = Done x a'"
    and "block [on_naive_message f (Replicate (put k v)), on_naive_message f (Replicate (put k u))] b = Done y b'"
    and "nv_running (hme a')" and "nv_running (hme b')" and "u \<noteq> v"
  shows "kv_get k (nv_kv (hme a')) = Some v \<and> kv_get k (nv_kv (hme b')) = Some u
    \<and> LostWrite n k (Some v) (Some u) \<in> set (lost_writes [put k u, put k v] [(n, nv_kv (hme b'))])"
proof -
  have two: "\<exists>s'. naive_holds c' (log @ [c1, c2]) s'"
    if "naive_holds c log s" "block [on_naive_message f (Replicate c1), on_naive_message f (Replicate c2)] c = Done x c'"
      "nv_running (hme c')" for c c' c1 c2 s x
  proof -
    from that(1) have "nv_running (hme c)" by (simp add: naive_holds_def)
    with that(2) obtain b1 c3 where 1: "naive_write c1 c = Done b1 c3" and rest: "on_naive_message f (Replicate c2) c3 = Done x c'"
      by (auto simp: on_naive_message_def)
    note W = naive_write_step [OF that(1) 1]
    have b1: "b1" "nv_running (hme c3)"
      using W rest that(3) by (auto simp: naive_down_def on_naive_message_def naive_holds_def split: if_splits)
    with W obtain s1 where "naive_holds c3 (log @ [c1]) s1" by auto
    note H = this
    from rest b1(2) obtain b2 where 2: "naive_write c2 c3 = Done b2 c'" by (auto simp: on_naive_message_def)
    from naive_write_step [OF H 2] that(3) show ?thesis by (auto simp: naive_down_def split: if_splits)
  qed
  obtain s1 s2 where "naive_holds a' (log @ [put k u, put k v]) s1" "naive_holds b' (log @ [put k v, put k u]) s2"
    using two [OF assms(1,3,5)] two [OF assms(2,4,6)] by blast
  moreover have run: "kv_run (log @ [c1, c2]) kv_init = kv_apply c2 (kv_run (log @ [c1]) kv_init)" for c1 c2
    using kv_run_simps(3) [of "log @ [c1]" c2 kv_init] by simp
  ultimately have "nv_kv (hme a') = kv_apply (put k v) (kv_run (log @ [put k u]) kv_init)"
    "nv_kv (hme b') = kv_apply (put k u) (kv_run (log @ [put k v]) kv_init)"
    by (simp_all only: naive_holds_def run)
  then have g: "kv_get k (nv_kv (hme a')) = Some v" "kv_get k (nv_kv (hme b')) = Some u"
    by (simp_all add: kv_get_apply put_def)
  have "the (map_of (promised_state [put k u, put k v]) k) = Some v" "k \<in> set (map fst (promised_state [put k u, put k v]))"
    by (simp_all add: promised_state_def put_def)
  with g assms(7) show ?thesis by (simp add: lost_writes_def Let_def store_of_def)
qed

theorem naive_order_decides_witness:
  "\<exists>a b. block [on_naive_message 1 (Replicate (put [7] [8])), on_naive_message 1 (Replicate (put [7] [9]))] naive_example = Done () a
     \<and> block [on_naive_message 1 (Replicate (put [7] [9])), on_naive_message 1 (Replicate (put [7] [8]))] naive_example = Done () b
     \<and> LostWrite 3 [7] (Some [9]) (Some [8]) \<in> set (lost_writes [put [7] [8], put [7] [9]] [(3, nv_kv (hme b))])"
proof -
  have two: "\<exists>a. block [on_naive_message 1 (Replicate (put [7] [v])), on_naive_message 1 (Replicate (put [7] [w]))] naive_example
      = Done () a \<and> nv_running (hme a)" if v: "v < 128" and w: "w < 128" for v w
  proof -
    let ?e = naive_example
    obtain r1 where r1: "encode_command (put [7] [v]) = Inr r1" "int (length r1) \<le> MAX_RECORD_SIZE" by (rule small_put [OF v])
    obtain r2 where r2: "encode_command (put [7] [w]) = Inr r2" "int (length r2) \<le> MAX_RECORD_SIZE" by (rule small_put [OF w])
    have e: "zero_stream (rng ?e)" "disk_cfg (hdisk ?e) = default_disk_faults" "nv_unsynced (hme ?e) = 0" "nv_running (hme ?e)"
      by (simp_all add: naive_example_def new_naive_def zero_stream_def new_sim_storage_def)
    from naive_write_calm [OF naive_example_holds e(1,2) r1] e(3) obtain c1 where
      1: "naive_write (put [7] [v]) ?e = Done True c1" "zero_stream (rng c1)" "disk_cfg (hdisk c1) = default_disk_faults"
      by (auto simp: SYNC_EVERY_def)
    have h1: "naive_holds c1 [put [7] [v]] []"
      using naive_write_step [OF naive_example_holds 1(1)] e(3) by (simp add: SYNC_EVERY_def)
    then have u: "nv_unsynced (hme c1) + 1 < SYNC_EVERY" "nv_running (hme c1)" by (auto simp: naive_holds_def SYNC_EVERY_def)
    from naive_write_calm [OF h1 1(2,3) r2 u(1)] obtain c2 where 2: "naive_write (put [7] [w]) c1 = Done True c2" by blast
    from naive_write_step [OF h1 2] have "nv_running (hme c2)" by (auto simp: naive_holds_def split: if_splits)
    moreover have "block [on_naive_message 1 (Replicate (put [7] [v])), on_naive_message 1 (Replicate (put [7] [w]))] ?e = Done () c2"
      using 1(1) 2 e(4) u(2) by (auto simp: on_naive_message_def)
    ultimately show ?thesis by blast
  qed
  obtain a where a: "block [on_naive_message 1 (Replicate (put [7] [8])), on_naive_message 1 (Replicate (put [7] [9]))] naive_example = Done () a"
    "nv_running (hme a)" using two [of 8 9] by auto
  obtain b where b: "block [on_naive_message 1 (Replicate (put [7] [9])), on_naive_message 1 (Replicate (put [7] [8]))] naive_example = Done () b"
    "nv_running (hme b)" using two [of 9 8] by auto
  from naive_order_decides [OF naive_example_holds naive_example_holds a(1) b(1) a(2) b(2)] a b show ?thesis by auto
qed

end
