(* ===== verification/File_Storage.thy ===== *)
theory File_Storage
  imports Storage
begin

text \<open>
  \<^verbatim>\<open>FileStorage\<close> of \<^verbatim>\<open>groundhog/storage.py\<close>: the log in a real file. The file is what a read through the
  handle sees (\<open>file_bytes\<close>) with the length of the prefix an \<^verbatim>\<open>fsync\<close> has made durable; every call of the
  operating system that may fail takes its result from \<open>os_results\<close>, \<open>Some n\<close> standing for an \<^verbatim>\<open>OSError\<close>
  after \<open>n\<close> bytes. A crash of the machine leaves a prefix of the file no shorter than what was synced.
  Shown: the file is a second implementation of the \<open>storage\<close> interface, next to the simulated disk.
\<close>

declare block.simps [simp del] py_done [simp]

section \<open>Definitions\<close>

record file_storage =
  os_results :: "nat \<Rightarrow> nat option"
  os_count :: nat
  file_bytes :: bytes
  file_synced :: nat
  file_closed :: bool
  fs_records :: "bytes list"
  fs_offsets :: "nat list"
  fs_end :: nat
  discarded_on_open :: nat

definition os_call :: "(nat option, file_storage) py" where
  "os_call s = (if file_closed s then Raised ValueError s else Done (os_results s (os_count s)) (s\<lparr>os_count := os_count s + 1\<rparr>))"

text \<open>Opening a file that holds \<open>content\<close>, all of it durable, is recovery. The truncation of a torn tail is taken to
  succeed (an \<^verbatim>\<open>OSError\<close> there would leave the constructor) and to last; the code does not \<^verbatim>\<open>fsync\<close> it, so a crash of
  the machine before the next sync may bring the cut tail back, which the next opening cuts again.\<close>

definition file_open :: "(nat \<Rightarrow> nat option) \<Rightarrow> bytes \<Rightarrow> file_storage" where
  "file_open results content =
     (let s = decode_records content; kept = (if is_torn s then take (valid_bytes s) content else content)
      in \<lparr>os_results = results, os_count = 0, file_bytes = kept, file_synced = length kept, file_closed = False,
          fs_records = records s, fs_offsets = offsets s, fs_end = valid_bytes s, discarded_on_open = discarded_bytes s\<rparr>)"

text \<open>\<^verbatim>\<open>seek\<close> and \<^verbatim>\<open>write\<close>: the bytes at the position are replaced, the file grows as needed.\<close>

definition write_at :: "nat \<Rightarrow> bytes \<Rightarrow> bytes \<Rightarrow> bytes" where
  "write_at off bs content = take off content @ bs @ drop (off + length bs) content"

fun note_records :: "bytes list \<Rightarrow> nat \<Rightarrow> file_storage stmt" where
  "note_records [] off = modify (\<lambda>s. s\<lparr>fs_end := off\<rparr>)"
| "note_records (r # rs) off =
     block [modify (\<lambda>s. s\<lparr>fs_records := fs_records s @ [r], fs_offsets := fs_offsets s @ [off]\<rparr>),
       note_records rs (off + (HEADER_SIZE + length r))]"

definition file_append :: "bytes list \<Rightarrow> file_storage stmt" where
  "file_append recs =
     (if recs = [] then ret ()
      else bind (of_sum (encode_records recs)) (\<lambda>blob.
        bind os_call (\<lambda>result.
          case result of
            Some n \<Rightarrow> block [modify (\<lambda>s. s\<lparr>file_bytes := write_at (fs_end s) (take n blob) (file_bytes s)\<rparr>), raise DiskOSError]
          | None \<Rightarrow> block [modify (\<lambda>s. s\<lparr>file_bytes := write_at (fs_end s) blob (file_bytes s)\<rparr>),
              (\<lambda>s. note_records recs (fs_end s) s)])))"

text \<open>\<^verbatim>\<open>flush\<close> and \<^verbatim>\<open>os.fsync\<close>.\<close>

definition file_sync :: "file_storage stmt" where
  "file_sync =
     bind os_call (\<lambda>flushed. if flushed \<noteq> None then raise DiskOSError
       else bind os_call (\<lambda>synced. if synced \<noteq> None then raise DiskOSError
         else modify (\<lambda>s. s\<lparr>file_synced := length (file_bytes s)\<rparr>)))"

definition file_read_all :: "(bytes list, file_storage) py" where
  "file_read_all s = Done (fs_records s) s"

definition file_truncate_from :: "int \<Rightarrow> file_storage stmt" where
  "file_truncate_from index s =
     (if \<not> (0 \<le> index \<and> index \<le> int (length (fs_records s))) then Raised IndexError s
      else let off = (if index < int (length (fs_records s)) then fs_offsets s ! nat index else fs_end s) in
        bind os_call (\<lambda>flushed. if flushed \<noteq> None then raise OSError
          else bind os_call (\<lambda>cut. if cut \<noteq> None then raise OSError
            else modify (\<lambda>s. s\<lparr>file_bytes := take off (file_bytes s), file_synced := min (file_synced s) off, fs_end := off,
                   fs_records := take (nat index) (fs_records s), fs_offsets := take (nat index) (fs_offsets s)\<rparr>))) s)"

definition file_close :: "file_storage stmt" where
  "file_close =
     bind os_call (\<lambda>flushed. if flushed \<noteq> None then raise OSError
       else modify (\<lambda>s. s\<lparr>file_closed := True\<rparr>))"

section \<open>The contract\<close>

definition file_holds :: "file_storage \<Rightarrow> bytes list \<Rightarrow> bytes list \<Rightarrow> bool" where
  "file_holds s rs ds \<longleftrightarrow> encode_records rs = Inr (file_bytes s) \<and> fs_end s = length (file_bytes s)
     \<and> fs_records s = rs \<and> fs_offsets s = record_offsets 0 rs \<and> file_synced s = image_size ds \<and> (\<exists>us. rs = ds @ us)"

definition file_torn :: "file_storage \<Rightarrow> bytes list \<Rightarrow> bytes list \<Rightarrow> bool" where
  "file_torn s rs ds \<longleftrightarrow> (\<exists>blob k. encode_records rs = Inr blob \<and> file_bytes s = take k blob \<and> k \<le> length blob
     \<and> image_size ds \<le> k) \<and> file_synced s = image_size ds \<and> (\<exists>us. rs = ds @ us)"

definition file_crash_reopen :: "file_storage \<Rightarrow> file_storage \<Rightarrow> bool" where
  "file_crash_reopen s s' \<longleftrightarrow> (\<exists>k results. file_synced s \<le> k \<and> k \<le> length (file_bytes s)
     \<and> s' = file_open results (take k (file_bytes s)))"

lemma file_holds_torn: "file_holds s rs ds \<Longrightarrow> file_torn s rs ds"
  unfolding file_holds_def file_torn_def using length_encode_records [of rs "file_bytes s"]
  by (intro conjI exI [of _ "file_bytes s"] exI [of _ "length (file_bytes s)"]) auto

lemma os_call_Done: "os_call s = Done r s' \<longleftrightarrow> \<not> file_closed s \<and> r = os_results s (os_count s) \<and> s' = s\<lparr>os_count := os_count s + 1\<rparr>"
  by (auto simp: os_call_def)

lemma note_records_eq: "note_records rs off s = Done ()
    (s\<lparr>fs_records := fs_records s @ rs, fs_offsets := fs_offsets s @ record_offsets off rs, fs_end := off + image_size rs\<rparr>)"
  by (induction rs arbitrary: off s) (simp_all add: block.simps modify_def add.assoc)

lemma write_at_end [simp]: "write_at (length bs) x bs = bs @ x"
  by (simp add: write_at_def)

lemma file_append_Done:
  assumes "file_holds s rs ds" and "file_append new s = Done x s'"
  shows "file_holds s' (rs @ new) ds"
proof (cases "new = []")
  case True
  with assms show ?thesis by (simp add: file_append_def)
next
  case False
  have len: "length (file_bytes s) = image_size rs"
    using assms(1) length_encode_records by (auto simp: file_holds_def)
  from False assms(2) obtain blob where b: "encode_records new = Inr blob"
    by (cases "encode_records new") (auto simp: file_append_def)
  have enc: "encode_records (rs @ new) = Inr (file_bytes s @ blob)"
    using assms(1) b by (simp add: file_holds_def encode_records_append)
  have blob: "length blob = image_size new" by (rule length_encode_records [OF b])
  from assms False b have s': "s' = s\<lparr>os_count := os_count s + 1, file_bytes := file_bytes s @ blob,
      fs_records := rs @ new, fs_offsets := record_offsets 0 rs @ record_offsets (length (file_bytes s)) new,
      fs_end := length (file_bytes s) + image_size new\<rparr>"
    by (simp add: file_append_def os_call_Done note_records_eq file_holds_def split: option.splits)
  have "record_offsets 0 (rs @ new) = record_offsets 0 rs @ record_offsets (length (file_bytes s)) new"
    by (simp add: record_offsets_append len)
  with assms(1) enc blob show ?thesis by (auto simp: file_holds_def s')
qed

lemma file_append_failed:
  assumes "file_holds s rs ds" and "file_append new s = Raised e s'"
  shows "if is_disk_error e then file_torn s' (rs @ new) ds else file_holds s' rs ds"
proof -
  have ne: "new \<noteq> []" using assms(2) by (auto simp: file_append_def ret_def)
  show ?thesis
  proof (cases "encode_records new")
    case (Inl e')
    from encode_records_total [of new] Inl obtain p where "p \<in> set new" "MAX_RECORD_SIZE < int (length p)" by fastforce
    from encode_records_error [OF this] Inl have "\<not> is_disk_error e'" by simp
    with assms Inl ne show ?thesis by (simp add: file_append_def bind_def of_sum_def)
  next
    case (Inr blob)
    have enc: "encode_records (rs @ new) = Inr (file_bytes s @ blob)"
      using assms(1) Inr by (simp add: file_holds_def encode_records_append)
    from assms(2) Inr ne consider (closed) "e = ValueError" "s' = s"
      | (failed) n where "e = DiskOSError" "s' = s\<lparr>os_count := os_count s + 1, file_bytes := write_at (fs_end s) (take n blob) (file_bytes s)\<rparr>"
      by (auto simp: file_append_def bind_def of_sum_def os_call_def block.simps modify_def raise_def note_records_eq
          split: if_splits option.splits)
    then show ?thesis
    proof cases
      case closed
      with assms(1) show ?thesis by simp
    next
      case failed
      let ?k = "length (file_bytes s) + min n (length blob)"
      have "file_bytes s' = take ?k (file_bytes s @ blob)" "?k \<le> length (file_bytes s @ blob)"
        using failed assms(1) by (auto simp: file_holds_def min_def)
      moreover have "image_size ds \<le> length (file_bytes s)"
        using assms(1) length_encode_records [of rs "file_bytes s"] by (auto simp: file_holds_def)
      ultimately show ?thesis
        using failed assms(1) enc unfolding file_torn_def
        by (auto simp: file_holds_def intro!: exI [of _ "file_bytes s @ blob"] exI [of _ ?k])
    qed
  qed
qed

lemma file_reopen:
  assumes "file_torn s rs ds" and "file_crash_reopen s s'"
  shows "\<exists>n. length ds \<le> n \<and> file_holds s' (take n rs) (take n rs)"
proof -
  from assms(1) obtain blob k us where b: "encode_records rs = Inr blob" "file_bytes s = take k blob" "k \<le> length blob"
    "image_size ds \<le> k" "file_synced s = image_size ds" "rs = ds @ us" by (auto simp: file_torn_def)
  from assms(2) obtain j results where j: "image_size ds \<le> j" "j \<le> k" and s': "s' = file_open results (take j blob)"
    using b by (auto simp: file_crash_reopen_def min_def split: if_splits)
  let ?rs = "whole_within j rs"
  note cut = decode_records_cut [OF b(1), of j]
  obtain rest where rest: "rs = ?rs @ rest" using whole_within_prefix by blast
  have "\<exists>a z. encode_records ?rs = Inr a \<and> blob = a @ z"
    using b(1) by (subst (asm) rest) (auto simp: encode_records_append split: sum.splits)
  then obtain a z where a: "encode_records ?rs = Inr a" "blob = a @ z" by blast
  have la: "length a = image_size ?rs" by (rule length_encode_records [OF a(1)])
  have le: "image_size ?rs \<le> j" by (rule whole_within_size)
  let ?sc = "decode_records (take j blob)"
  have "valid_bytes ?sc \<le> length (take j blob)" "discarded_bytes ?sc = length (take j blob) - valid_bytes ?sc"
    by (rule decode_records_bounds)+
  then have kept: "(if is_torn ?sc then take (valid_bytes ?sc) (take j blob) else take j blob) = a"
    using cut(2) la le a(2) j b(3) by (auto simp: is_torn_def min_def)
  have "file_holds s' ?rs ?rs"
    using a(1) la cut by (simp add: file_holds_def s' file_open_def Let_def kept)
  moreover have "?rs = take (length ?rs) rs" using rest by (metis append_eq_conv_conj)
  moreover have "length ds \<le> length ?rs"
  proof -
    obtain m where m: "j = image_size ds + m" using j(1) le_Suc_ex by blast
    have "?rs = ds @ whole_within m us" by (simp add: b(6) m whole_within_append)
    then show ?thesis by simp
  qed
  ultimately show ?thesis by metis
qed

interpretation fdisk: storage file_holds file_torn file_append file_sync file_read_all file_crash_reopen
proof
  show "\<exists>us. rs = ds @ us" if "file_holds s rs ds" for s rs ds
    using that by (simp add: file_holds_def)
  show "file_holds s' (rs @ new) ds" if "file_holds s rs ds" "file_append new s = Done x s'" for s rs ds new x s'
    by (rule file_append_Done [OF that])
  show "file_torn s' (rs @ new) ds"
    if "file_holds s rs ds" "file_append new s = Raised e s'" "is_disk_error e" for s rs ds new e s'
    using file_append_failed [OF that(1,2)] that(3) by simp
  show "file_holds s' rs ds"
    if "file_holds s rs ds" "file_append new s = Raised e s'" "\<not> is_disk_error e" for s rs ds new e s'
    using file_append_failed [OF that(1,2)] that(3) by simp
  show "file_holds s' rs rs" if "file_holds s rs ds" "file_sync s = Done x s'" for s rs ds x s'
    using that by (auto simp: file_sync_def os_call_Done file_holds_def length_encode_records split: if_splits)
  show "xs = rs \<and> file_holds s' rs ds" if "file_holds s rs ds" "file_read_all s = Done xs s'" for s rs ds xs s'
    using that by (auto simp: file_read_all_def file_holds_def)
  show "\<exists>n. length ds \<le> n \<and> file_holds s' (take n rs) (take n rs)"
    if "file_holds s rs ds \<or> file_torn s rs ds" "file_crash_reopen s s'" for s rs ds s'
    using that file_reopen file_holds_torn by blast
qed

text \<open>Opening any file at all is recovery: what the tail does not prove is cut away.\<close>

lemma file_open_bytes: "file_bytes (file_open results content) = take (valid_bytes (decode_records content)) content"
  using decode_records_bounds [of content] by (auto simp: file_open_def Let_def is_torn_def)

lemma file_open_holds:
  "file_holds (file_open results content) (records (decode_records content)) (records (decode_records content))"
proof -
  have "length (take (valid_bytes (decode_records content)) content) = image_size (records (decode_records content))"
    by (rule length_encode_records [OF decode_records_canonical(1)])
  then show ?thesis
    using file_open_bytes [of results content] decode_records_canonical [of content] decode_records_bounds [of content]
    by (auto simp: file_holds_def file_open_def Let_def)
qed

lemma fs_records_open [simp]: "fs_records (file_open results content) = records (decode_records content)"
  by (simp add: file_open_def Let_def)

lemma record_offsets_nth: "i < length rs \<Longrightarrow> record_offsets off rs ! i = off + image_size (take i rs)"
proof (induction rs arbitrary: off i)
  case Nil
  then show ?case by simp
next
  case (Cons r rs)
  then show ?case by (cases i) (simp_all add: add.assoc)
qed

lemma record_offsets_take: "take n (record_offsets off rs) = record_offsets off (take n rs)"
proof (induction rs arbitrary: off n)
  case Nil
  then show ?case by simp
next
  case (Cons r rs)
  then show ?case by (cases n) simp_all
qed

lemma encode_records_take:
  assumes "encode_records rs = Inr bs"
  shows "encode_records (take n rs) = Inr (take (image_size (take n rs)) bs)"
proof -
  from assms have "encode_records (take n rs @ drop n rs) = Inr bs" by simp
  then obtain a b where "encode_records (take n rs) = Inr a" "bs = a @ b"
    by (auto simp: encode_records_append simp del: append_take_drop_id split: sum.splits)
  then show ?thesis by (simp add: length_encode_records)
qed

section \<open>Properties\<close>

text \<open>
  C40. Opening a file repairs it, whatever bytes it holds: what is kept is a prefix of the content and exactly the
  encoding of the records that will be read, the length of the rest is reported as discarded, and opening the repaired
  file again reads the same records and discards nothing.
\<close>

theorem file_open_repairs:
  "let s = file_open results content in
     (\<exists>k. file_bytes s = take k content) \<and> encode_records (fs_records s) = Inr (file_bytes s)
     \<and> fs_end s = length (file_bytes s) \<and> discarded_on_open s = length content - length (file_bytes s)
     \<and> fs_records (file_open results' (file_bytes s)) = fs_records s
     \<and> discarded_on_open (file_open results' (file_bytes s)) = 0"
proof -
  let ?s = "file_open results content"
  have h: "encode_records (fs_records ?s) = Inr (file_bytes ?s)" "fs_end ?s = length (file_bytes ?s)"
    using file_open_holds [of results content] by (auto simp: file_holds_def)
  have "discarded_on_open ?s = length content - length (file_bytes ?s)"
    using decode_records_bounds [of content] file_open_bytes [of results content] by (simp add: file_open_def Let_def)
  moreover have "fs_records (file_open results' (file_bytes ?s)) = fs_records ?s"
    using decode_encode_records(1) [OF h(1)] by simp
  moreover have "discarded_on_open (file_open results' (file_bytes ?s)) = 0"
    using decode_encode_records(2) [OF h(1)] decode_records_bounds(2) [of "file_bytes ?s"]
    by (simp add: file_open_def Let_def)
  ultimately show ?thesis using h file_open_bytes [of results content] by (auto simp: Let_def)
qed

text \<open>
  C39. On a file that was opened with any content, an append and a sync that both return make the records durable:
  wherever the operating system cuts the file when the machine stops, reopening reads the old records and then
  exactly the new ones.
\<close>

theorem file_synced_survives:
  assumes "block [file_append new, file_sync] (file_open results content) = Done () s" and "file_crash_reopen s s'"
  shows "file_read_all s' = Done (fs_records (file_open results content) @ new) s'"
  using fdisk.synced_survives_crash [OF file_open_holds assms] by (simp add: file_holds_def file_read_all_def)

theorem file_synced_survives_witness:
  "\<exists>s s'. block [file_append [[7, 8], [9 :: 8 word]], file_sync] (file_open (\<lambda>i. None) [5, 5, 5]) = Done () s
     \<and> file_crash_reopen s s' \<and> file_read_all s' = Done [[7, 8], [9]] s'"
proof -
  let ?o = "file_open (\<lambda>i. None) [5, 5, 5]"
  obtain bs where bs: "encode_records [[7, 8], [9 :: 8 word]] = Inr bs"
    using encode_records_total [of "[[7, 8], [9]]"] by (auto simp: MAX_RECORD_SIZE_def)
  have "\<exists>s. block [file_append [[7, 8], [9]], file_sync] ?o = Done () s \<and> file_synced s = length (file_bytes s)"
    using bs by (simp add: block.simps file_append_def file_sync_def bind_def os_call_def note_records_eq modify_def
      of_sum_def ret_def file_open_def Let_def del: note_records.simps encode_records.simps)
  then obtain s where s: "block [file_append [[7, 8], [9]], file_sync] ?o = Done () s"
    and "file_synced s = length (file_bytes s)" by blast
  then have r: "file_crash_reopen s (file_open (\<lambda>i. None) (file_bytes s))"
    unfolding file_crash_reopen_def by (intro exI [of _ "length (file_bytes s)"]) auto
  have "fs_records ?o = []"
    by (simp add: decode_records_def decode_loop.simps HEADER_SIZE_def)
  with file_synced_survives [OF s r] s r show ?thesis by fastforce
qed

text \<open>
  Truncating a file that holds \<open>rs\<close>, on every branch: an index out of range is an \<^verbatim>\<open>IndexError\<close> and nothing
  changes; when the flush or the cut fails the \<^verbatim>\<open>OSError\<close> leaves as it is, not as a \<^verbatim>\<open>DiskError\<close>, and the records stay;
  otherwise the file is exactly the encoding of the records before the index, and the offsets and the end agree with it.
\<close>

theorem file_truncate_effect:
  assumes "file_holds s rs ds" and "\<not> file_closed s"
  shows "case file_truncate_from index s of
      Raised e s' \<Rightarrow> fs_records s' = rs \<and> file_bytes s' = file_bytes s \<and> \<not> is_disk_error e
        \<and> (if 0 \<le> index \<and> index \<le> int (length rs) then e = OSError else e = IndexError \<and> s' = s)
    | Done x s' \<Rightarrow> 0 \<le> index \<and> index \<le> int (length rs) \<and> fs_records s' = take (nat index) rs
        \<and> encode_records (take (nat index) rs) = Inr (file_bytes s')
        \<and> fs_offsets s' = record_offsets 0 (fs_records s') \<and> fs_end s' = length (file_bytes s')"
proof -
  have h: "encode_records rs = Inr (file_bytes s)" "fs_end s = length (file_bytes s)" "fs_records s = rs"
    "fs_offsets s = record_offsets 0 rs" using assms(1) by (auto simp: file_holds_def)
  have len: "length (file_bytes s) = image_size rs" by (rule length_encode_records [OF h(1)])
  have off: "(if index < int (length rs) then record_offsets 0 rs ! nat index else length (file_bytes s))
      = image_size (take (nat index) rs)" if "0 \<le> index"
    using that by (auto simp: record_offsets_nth len)
  have le: "image_size (take (nat index) rs) \<le> length (file_bytes s)"
    using image_size_append [of "take (nat index) rs" "drop (nat index) rs"] len by simp
  show ?thesis
  proof (cases "0 \<le> index \<and> index \<le> int (length rs)")
    case False
    then show ?thesis using h by (auto simp: file_truncate_from_def)
  next
    case True
    with assms(2) h show ?thesis
      using off le encode_records_take [OF h(1), of "nat index"]
      by (auto simp: file_truncate_from_def Let_def bind_def os_call_def raise_def modify_def record_offsets_take)
  qed
qed

theorem file_truncate_effect_witness:
  "\<exists>bs. encode_records [[7, 8], [9 :: 8 word]] = Inr bs
     \<and> (case file_truncate_from 5 (file_open (\<lambda>i. None) bs) of Raised e s' \<Rightarrow> e = IndexError | Done x s' \<Rightarrow> False)"
proof -
  obtain bs where bs: "encode_records [[7, 8], [9 :: 8 word]] = Inr bs"
    using encode_records_total [of "[[7, 8], [9]]"] by (auto simp: MAX_RECORD_SIZE_def)
  have "\<not> file_closed (file_open (\<lambda>i. None) bs)" by (simp add: file_open_def Let_def)
  from file_truncate_effect [OF file_open_holds this, of 5]
  have "case file_truncate_from 5 (file_open (\<lambda>i. None) bs) of Raised e s' \<Rightarrow> e = IndexError | Done x s' \<Rightarrow> False"
    unfolding decode_encode_records(1) [OF bs] by (simp split: outcome.splits)
  with bs show ?thesis by blast
qed

end
