(* ===== verification/Node_Spec.thy ===== *)
theory Node_Spec
  imports Raft_Node
begin

text \<open>
  What each handler of the Raft node does, as a pure function: from the node's state \<open>k\<close> to its new
  state, the WAL records it makes durable and the messages it then sends. \<open>runs_as\<close> relates a run of
  the code to these values, timers left out, and \<open>failed_as\<close> describes what a disk error leaves: the
  durable records, and on the platter at most a prefix of those the handler was writing, with nothing
  sent. The lemmas say that every handler of \<open>Raft_Node\<close> implements its specification.
\<close>

section \<open>The specification\<close>

type_synonym handled = "rnode \<times> wal_rec list \<times> (NodeId \<times> message) list"

definition hard :: "rnode \<Rightarrow> hard_state" where
  "hard k = HardState (current_term k) (voted_for k)"

definition reply_vote_spec :: "NodeId \<Rightarrow> bool \<Rightarrow> rnode \<Rightarrow> handled" where
  "reply_vote_spec frm granted k =
     (k, [WState (hard k)], [(frm, MRequestVoteReply (RequestVoteReply (current_term k) granted))])"

definition request_vote_spec :: "NodeId \<Rightarrow> request_vote \<Rightarrow> rnode \<Rightarrow> handled" where
  "request_vote_spec frm msg k =
     (let k1 = (if rv_term msg > current_term k then follow (rv_term msg) None k else k) in
      if rv_term msg < current_term k1 then reply_vote_spec frm False k1
      else if voted_for k1 \<in> {None, Some (rv_candidate_id msg)} \<and> up_to_date msg k1
      then reply_vote_spec frm True (k1\<lparr>voted_for := Some (rv_candidate_id msg)\<rparr>)
      else reply_vote_spec frm False k1)"

definition apply_one :: "rnode \<Rightarrow> rnode \<times> (NodeId \<times> message) list" where
  "apply_one k =
     (let e = rlog k ! nat (last_applied k);
          k1 = k\<lparr>last_applied := last_applied k + 1, kv := kv_apply (le_command e) (kv k)\<rparr>
      in (case pending_clients k (le_index e) of
           None \<Rightarrow> (k1, [])
         | Some (client, rid) \<Rightarrow>
             (k1\<lparr>pending_clients := (pending_clients k)(le_index e := None)\<rparr>,
              [(client, MClientReply (ClientReply rid True None None))])))"

fun apply_spec :: "nat \<Rightarrow> rnode \<Rightarrow> rnode \<times> (NodeId \<times> message) list" where
  "apply_spec 0 k = (k, [])"
| "apply_spec (Suc n) k =
     (if last_applied k < commit_index k then
        case apply_one k of (k1, ms) \<Rightarrow> (case apply_spec n k1 of (k2, ms') \<Rightarrow> (k2, ms @ ms'))
      else (k, []))"

definition apply_committed_spec :: "rnode \<Rightarrow> rnode \<times> (NodeId \<times> message) list" where
  "apply_committed_spec k = apply_spec (nat (commit_index k - last_applied k)) k"

definition replicate_msg :: "rnode \<Rightarrow> NodeId \<Rightarrow> message" where
  "replicate_msg k p =
     (let nxt = next_for k p in
      MAppendEntries (AppendEntries (current_term k) (node_id k) (nxt - 1) (trm (rlog k) (nxt - 1))
        (drop (nat (nxt - 1)) (rlog k)) (commit_index k)))"

definition replicate_all :: "rnode \<Rightarrow> (NodeId \<times> message) list" where
  "replicate_all k = map (\<lambda>p. (p, replicate_msg k p)) (peers k)"

fun advance_spec :: "nat \<Rightarrow> Index \<Rightarrow> rnode \<Rightarrow> rnode \<times> (NodeId \<times> message) list" where
  "advance_spec 0 i k = (k, [])"
| "advance_spec (Suc n) i k =
     (if trm (rlog k) i = current_term k \<and> majority k \<le> replicas k i
      then apply_committed_spec (k\<lparr>commit_index := i\<rparr>)
      else advance_spec n (i - 1) k)"

definition advance_commit_spec :: "rnode \<Rightarrow> rnode \<times> (NodeId \<times> message) list" where
  "advance_commit_spec k =
     (if role k \<noteq> LEADER then (k, [])
      else advance_spec (nat (last_index (rlog k) - commit_index k)) (last_index (rlog k)) k)"

definition request_vote_reply_spec :: "NodeId \<Rightarrow> request_vote_reply \<Rightarrow> rnode \<Rightarrow> handled" where
  "request_vote_reply_spec frm msg k =
     (if rvr_term msg > current_term k then
        let k1 = follow (rvr_term msg) None k in (k1, [WState (hard k1)], [])
      else if role k \<noteq> CANDIDATE \<or> rvr_term msg \<noteq> current_term k \<or> \<not> rvr_vote_granted msg then (k, [], [])
      else let k1 = k\<lparr>votes_granted := set_add frm (votes_granted k)\<rparr> in
        if int (length (votes_granted k1)) \<ge> majority k1 then (lead k1, [], replicate_all (lead k1))
        else (k1, [], []))"

fun take_spec :: "Index \<Rightarrow> log_entry list \<Rightarrow> raft_log \<Rightarrow> raft_log \<times> wal_rec list \<times> log_entry list" where
  "take_spec i [] l = (l, [], [])"
| "take_spec i (e # es) l =
     (if i \<le> last_index l \<and> trm l i = le_term e then take_spec (i + 1) es l
      else case take_spec (i + 1) es ((if i \<le> last_index l then take (nat (i - 1)) l else l) @ [e]) of
        (l', ws, app) \<Rightarrow> (l', (if i \<le> last_index l then WTruncate i # ws else ws), e # app))"

definition append_entries_spec :: "NodeId \<Rightarrow> append_entries \<Rightarrow> rnode \<Rightarrow> handled" where
  "append_entries_spec frm msg k =
     (if ae_term msg < current_term k then
        (k, [], [(frm, MAppendEntriesReply (AppendEntriesReply (current_term k) False 0))])
      else let k1 = follow (ae_term msg) (Some (ae_leader_id msg)) k in
        if \<not> has_entry (rlog k1) (ae_prev_log_index msg)
           \<or> trm (rlog k1) (ae_prev_log_index msg) \<noteq> ae_prev_log_term msg then
          (k1, [WState (hard k1)], [(frm, MAppendEntriesReply (AppendEntriesReply (current_term k1) False 0))])
        else case take_spec (ae_prev_log_index msg + 1) (ae_entries msg) (rlog k1) of (l, ws, app) \<Rightarrow>
          let last_new = ae_prev_log_index msg + int (length (ae_entries msg));
              k2 = k1\<lparr>rlog := l\<rparr>;
              (k3, ms) = (if ae_leader_commit msg > commit_index k2
                then apply_committed_spec (k2\<lparr>commit_index := min (ae_leader_commit msg) last_new\<rparr>)
                else (k2, []))
          in (k3, ws @ map WEntry app @ [WState (hard k1)],
              ms @ [(frm, MAppendEntriesReply (AppendEntriesReply (current_term k1) True last_new))]))"

definition append_entries_reply_spec :: "NodeId \<Rightarrow> append_entries_reply \<Rightarrow> rnode \<Rightarrow> handled" where
  "append_entries_reply_spec frm msg k =
     (if aer_term msg > current_term k then
        let k1 = follow (aer_term msg) None k in (k1, [WState (hard k1)], [])
      else if role k \<noteq> LEADER \<or> aer_term msg \<noteq> current_term k then (k, [], [])
      else if aer_success msg then
        let i = max (match_for k frm) (aer_match_index msg);
            (k1, ms) = advance_commit_spec
              (k\<lparr>match_index := (match_index k)(frm \<mapsto> i), next_index := (next_index k)(frm \<mapsto> i + 1)\<rparr>)
        in (k1, [], ms)
      else
        let k1 = k\<lparr>next_index := (next_index k)(frm \<mapsto> max 1 (next_for k frm - 1))\<rparr>
        in (k1, [], [(frm, replicate_msg k1 frm)]))"

definition election_timeout_spec :: "rnode \<Rightarrow> handled" where
  "election_timeout_spec k =
     (let k1 = k\<lparr>current_term := current_term k + 1, role := CANDIDATE, leader_id := None,
                 votes_granted := [node_id k], voted_for := Some (node_id k)\<rparr> in
      if 1 \<ge> majority k1 then (lead k1, [WState (hard k1)], replicate_all (lead k1))
      else (k1, [WState (hard k1)], map (\<lambda>p. (p, MRequestVote (RequestVote (current_term k1) (node_id k1)
              (last_index (rlog k1)) (last_term (rlog k1))))) (peers k1)))"

definition client_request_spec :: "NodeId \<Rightarrow> client_request \<Rightarrow> rnode \<Rightarrow> handled" where
  "client_request_spec frm msg k =
     (if role k \<noteq> LEADER then
        (k, [], [(frm, MClientReply (ClientReply (creq_request_id msg) False (leader_id k) None))])
      else
        let e = log_create (rlog k) (current_term k) (creq_command msg);
            k1 = k\<lparr>rlog := rlog k @ [e],
                   pending_clients := (pending_clients k)(le_index e \<mapsto> (frm, creq_request_id msg))\<rparr>;
            (k2, ms) = advance_commit_spec k1
        in (k2, [WEntry e], replicate_all k1 @ ms))"

fun dispatch_spec :: "NodeId \<Rightarrow> message \<Rightarrow> rnode \<Rightarrow> handled" where
  "dispatch_spec frm (MRequestVote msg) k = request_vote_spec frm msg k"
| "dispatch_spec frm (MRequestVoteReply msg) k = request_vote_reply_spec frm msg k"
| "dispatch_spec frm (MAppendEntries msg) k = append_entries_spec frm msg k"
| "dispatch_spec frm (MAppendEntriesReply msg) k = append_entries_reply_spec frm msg k"
| "dispatch_spec frm (MClientRequest msg) k = client_request_spec frm msg k"
| "dispatch_spec frm (MClientReply msg) k = (k, [], [])"

definition heartbeat_spec :: "rnode \<Rightarrow> handled" where
  "heartbeat_spec k = (k, [], replicate_all k)"

section \<open>Relating a run to the specification\<close>

definition core :: "rnode \<Rightarrow> rnode" where
  "core m = m\<lparr>election_timer := None, heartbeat_timer := None\<rparr>"

lemma core_eq_iff: "core m = core k \<longleftrightarrow>
    node_id m = node_id k \<and> peers m = peers k \<and> current_term m = current_term k
    \<and> voted_for m = voted_for k \<and> rlog m = rlog k \<and> role m = role k \<and> commit_index m = commit_index k
    \<and> last_applied m = last_applied k \<and> kv m = kv k \<and> votes_granted m = votes_granted k
    \<and> next_index m = next_index k \<and> match_index m = match_index k \<and> leader_id m = leader_id k
    \<and> running m = running k \<and> pending_clients m = pending_clients k"
  by (cases m; cases k) (auto simp: core_def)

text \<open>\<open>frame c0 M c\<close>: since \<open>c0\<close> only the messages \<open>M\<close> and timers of this node went onto the queue,
  the trace grew, and nothing of the network's state moved.\<close>

definition timer_of :: "NodeId \<Rightarrow> raft_action \<Rightarrow> bool" where
  "timer_of n a \<longleftrightarrow> a = Callback (ElectionTimeout n) \<or> a = Callback (HeartbeatTimeout n)"

definition queued :: "node_ctx \<Rightarrow> (NodeId \<times> message) list \<Rightarrow> raft_timer \<Rightarrow> bool" where
  "queued c0 M e \<longleftrightarrow> e \<in> set (live (queue c0)) \<or> timer_of (node_id (me c0)) (ev_action e)
     \<or> (\<exists>(to, m) \<in> set M. ev_action e = arrive_action c0 (node_id (me c0)) to m)"

definition frame :: "node_ctx \<Rightarrow> (NodeId \<times> message) list \<Rightarrow> node_ctx \<Rightarrow> bool" where
  "frame c0 M c \<longleftrightarrow> core_wf c \<and> now c = now c0 \<and> net_faults c = net_faults c0
     \<and> describe_msg c = describe_msg c0 \<and> arrive_action c = arrive_action c0 \<and> inboxes c = inboxes c0
     \<and> status c = status c0 \<and> held c = held c0 \<and> partition c = partition c0
     \<and> delivered c = delivered c0 \<and> node_id (me c) = node_id (me c0) \<and> peers (me c) = peers (me c0)
     \<and> running (me c) = running (me c0) \<and> disk_cfg (disk c) = disk_cfg (disk c0)
     \<and> (\<exists>new. trace c = trace c0 @ new) \<and> (\<forall>e \<in> set (live (queue c)). queued c0 M e)"

definition disk_wal :: "sim_storage \<Rightarrow> wal_rec list \<Rightarrow> wal_rec list \<Rightarrow> bool" where
  "disk_wal d D U \<longleftrightarrow> (\<exists>bs us. disk_holds d (bs @ us) bs \<and> wal_image D bs \<and> wal_image U us)"

definition runs_as ::
  "node_ctx \<Rightarrow> rnode \<Rightarrow> wal_rec list \<Rightarrow> wal_rec list \<Rightarrow> (NodeId \<times> message) list \<Rightarrow> node_ctx \<Rightarrow> bool" where
  "runs_as c0 k D U M c \<longleftrightarrow>
     core (me c) = core k \<and> log_wf (rlog k) \<and> disk_wal (disk c) D U \<and> frame c0 M c"

definition failed_as :: "node_ctx \<Rightarrow> wal_rec list \<Rightarrow> wal_rec list \<Rightarrow> node_ctx \<Rightarrow> bool" where
  "failed_as c0 D W c \<longleftrightarrow> (\<exists>bs us U rest. disk_torn (disk c) (bs @ us) bs \<and> wal_image D bs \<and> wal_image U us
     \<and> W = U @ rest) \<and> frame c0 [] c"

definition or_fails :: "node_ctx \<Rightarrow> wal_rec list \<Rightarrow> wal_rec list \<Rightarrow> exn \<Rightarrow> node_ctx \<Rightarrow> bool" where
  "or_fails c0 D W e c \<longleftrightarrow> (is_disk_error e \<longrightarrow> failed_as c0 D W c)"

definition never_fails :: "exn \<Rightarrow> node_ctx \<Rightarrow> bool" where
  "never_fails e c \<longleftrightarrow> \<not> is_disk_error e"

end
