(* ===== verification/Node_Run.thy ===== *)
theory Node_Run
  imports Node_Spec
begin

text \<open>
  The parts of the handlers implement their specification: one rule per primitive of \<open>Raft_Node\<close>
  (collected in \<open>run_rules\<close>), as triples over \<open>runs_as\<close>.
\<close>

section \<open>Statements that never raise a disk error\<close>

definition nde :: "('a, 's) py \<Rightarrow> bool" where
  "nde m \<longleftrightarrow> (\<forall>s e s'. m s = Raised e s' \<longrightarrow> \<not> is_disk_error e)"

named_theorems nde_rules

lemma nde_basic [nde_rules]:
  "nde (ret x)" "nde (modify f)" "nde (upd g)" "\<not> is_disk_error e \<Longrightarrow> nde (raise e)"
  by (simp_all add: nde_def ret_def modify_def raise_def upd_def)

lemma nde_bind [nde_rules]: "nde m \<Longrightarrow> (\<And>x. nde (f x)) \<Longrightarrow> nde (bind m f)"
  unfolding nde_def bind_def by (auto split: outcome.splits)

lemma nde_block [nde_rules]: "nde (block [])" "nde m \<Longrightarrow> nde (block ms) \<Longrightarrow> nde (block (m # ms))"
  unfolding nde_def by (auto simp: block.simps split: outcome.splits)

lemma nde_for_each [nde_rules]: "(\<And>x. nde (f x)) \<Longrightarrow> nde (for_each xs f)"
  unfolding for_each_def by (induction xs) (auto intro: nde_block)

lemma nde_ite [nde_rules]: "nde m \<Longrightarrow> nde n \<Longrightarrow> nde (ite b m n)"
  unfolding nde_def ite_def by auto

lemma nde_if [nde_rules]: "(b \<Longrightarrow> nde m) \<Longrightarrow> (\<not> b \<Longrightarrow> nde n) \<Longrightarrow> nde (if b then m else n)"
  by simp

lemma nde_state: "(\<And>s. nde (f s)) \<Longrightarrow> nde (\<lambda>s. f s s)"
  unfolding nde_def by auto

lemma nde_on_part: "nde m \<Longrightarrow> nde (on_part rd wr m)"
  unfolding nde_def on_part_def by (auto split: outcome.splits)

lemma nde_draws [nde_rules]: "nde (with_rng (between lo hi))" "nde (with_rng (chance p))"
  unfolding with_rng_def by (intro nde_on_part; auto simp: nde_def dest!: between_Raised chance_Raised)+

lemma nde_trace [nde_rules]: "nde (trace_write r)"
  by (simp add: nde_def)

lemma nde_clock_after [nde_rules]: "nde (clock_after d cb k a)"
  unfolding nde_def clock_after_def with_queue_def on_part_def
  by (auto split: if_splits outcome.splits dest!: schedule_Raised)

lemma nde_timer_cancel [nde_rules]: "nde (timer_cancel t)"
  by (simp add: nde_def timer_cancel_total)

lemma nde_net_record [nde_rules]: "nde (net_record k d)" "nde (net_record_msg k f t m)"
  by (simp_all add: nde_def)

lemma nde_reads [nde_rules]:
  "nde (\<lambda>c. with_rng (between (lo c) (hi c)) c)" "nde (\<lambda>c. with_rng (chance (p c)) c)"
  "nde (\<lambda>c. clock_after (d c) (cb c) k (a c) c)"
  by (rule nde_state, rule nde_rules)+

lemma nde_net_schedule [nde_rules]: "nde (net_schedule frm to msg tag delay)"
  unfolding net_schedule_def by (cases delay) (simp, intro nde_rules)+

lemma nde_net_send [nde_rules]: "nde (net_send frm to msg)"
  unfolding net_send_def by (intro nde_rules) simp

section \<open>Primitives\<close>

named_theorems run_rules

lemma valid_nde:
  assumes "nde m" and "\<And>c x c'. P c \<Longrightarrow> m c = Done x c' \<Longrightarrow> Q x c'"
  shows "valid P m Q never_fails"
  by (rule validI) (use assms in \<open>simp_all add: nde_def never_fails_def, blast\<close>)

lemma frame_refl: "core_wf c \<Longrightarrow> frame c [] c"
  by (simp add: frame_def queued_def)

lemma frame_more: "frame c0 M c \<Longrightarrow> set M \<subseteq> set M' \<Longrightarrow> frame c0 M' c"
  unfolding frame_def queued_def by blast

lemma frame_update [simp]:
  "frame c0 M (c\<lparr>me := m\<rparr>) \<longleftrightarrow> frame c0 M c" if "node_id m = node_id (me c)" "peers m = peers (me c)" "running m = running (me c)"
  using that by (simp add: frame_def core_wf_def)

lemma frame_rng_disk: "frame c0 M c \<Longrightarrow> disk_cfg d = disk_cfg (disk c) \<Longrightarrow> frame c0 M (c\<lparr>rng := r, disk := d\<rparr>)"
  by (auto simp: frame_def core_wf_def)

lemma frame_trace: "frame c0 M c \<Longrightarrow> frame c0 M (c\<lparr>trace := trace c @ new\<rparr>)"
  by (auto simp: frame_def core_wf_def)

lemma frame_queue:
  assumes "frame c0 M c" and "core_wf (c\<lparr>rng := r, queue := q\<rparr>)"
    and "\<And>e. e \<in> set (live q) \<Longrightarrow> e \<in> set (live (queue c)) \<or> timer_of (node_id (me c)) (ev_action e)"
  shows "frame c0 M (c\<lparr>rng := r, queue := q\<rparr>)"
  using assms unfolding frame_def by (auto simp: queued_def)

lemma run_upd:
  assumes "\<And>m k. core m = core k \<Longrightarrow> core (f m) = core (f k)"
    and "log_wf (rlog k) \<Longrightarrow> log_wf (rlog (f k))"
    and "node_id (f k) = node_id k" "peers (f k) = peers k" "running (f k) = running k"
  shows "valid (runs_as c0 k D U M) (upd f) (\<lambda>_. runs_as c0 (f k) D U M) never_fails"
proof (rule valid_nde)
  show "nde (upd f)" by (rule nde_rules)
  fix c x c'
  assume c: "runs_as c0 k D U M c" and "upd f c = Done x c'"
  then have c': "c' = c\<lparr>me := f (me c)\<rparr>" by (auto simp: upd_def)
  have eq: "core (me c) = core k" using c by (simp add: runs_as_def)
  have "core (f (me c)) = core (f k)" by (rule assms(1) [OF eq])
  moreover from this eq assms(3-5) have "node_id (f (me c)) = node_id (me c)" "peers (f (me c)) = peers (me c)"
    "running (f (me c)) = running (me c)" by (simp_all add: core_eq_iff)
  ultimately show "runs_as c0 (f k) D U M c'" using c assms(2) by (simp add: runs_as_def c')
qed

lemma run_record [run_rules]:
  "valid (runs_as c0 k D U M) (node_record kind d) (\<lambda>_. runs_as c0 k D U M) never_fails"
  by (rule valid_nde)
    (auto simp: nde_def node_record_def trace_write_Done runs_as_def intro!: frame_trace)

lemma run_draw:
  "valid (runs_as c0 k D U M) (with_rng (between lo hi)) (\<lambda>_. runs_as c0 k D U M) never_fails"
  by (rule valid_nde) (auto intro: nde_rules simp: with_rng_Done runs_as_def frame_def core_wf_def)

lemma run_send [run_rules]:
  "valid (runs_as c0 k D U M) (node_send to msg) (\<lambda>_. runs_as c0 k D U (M @ [(to, msg)])) never_fails"
proof (rule valid_nde)
  show "nde (node_send to msg)"
    unfolding node_send_def by (intro nde_rules nde_state [where f = "\<lambda>c. net_send (node_id (me c)) to msg"])
      (simp_all add: nde_def node_record_def)
  fix c x c'
  assume c: "runs_as c0 k D U M c" and "node_send to msg c = Done x c'"
  then obtain r where sent: "net_send (node_id (me c)) to msg (c\<lparr>trace := trace c @ [r]\<rparr>) = Done x c'"
    by (auto simp: node_send_def node_record_def trace_write_Done)
  let ?c = "c\<lparr>trace := trace c @ [r]\<rparr>"
  have fr: "frame c0 M ?c" using c by (auto simp: runs_as_def intro: frame_trace)
  then have wf: "core_wf ?c" and id: "node_id (me c) = node_id (me c0)"
    and aa: "arrive_action c = arrive_action c0" by (simp_all add: frame_def)
  obtain es where s: "sent_copies (node_id (me c)) to msg es ?c c'"
    using net_send_Done(2) [OF sent wf] by blast
  have S: "c' = ?c\<lparr>rng := rng c', queue := queue c', trace := trace c', dropped := dropped c'\<rparr>"
    "core_wf c'" "\<exists>new. trace c' = trace ?c @ new" "set (live (queue c')) = set (live (queue c)) \<union> set es"
    "\<forall>e \<in> set es. delivery ?c (node_id (me c)) to msg e"
    using s unfolding sent_copies_def by (blast, blast, blast, simp, blast)
  have f: "now c' = now c" "net_faults c' = net_faults c" "describe_msg c' = describe_msg c"
    "arrive_action c' = arrive_action c" "inboxes c' = inboxes c" "status c' = status c" "held c' = held c"
    "partition c' = partition c" "delivered c' = delivered c" "me c' = me c" "disk c' = disk c"
    by (subst S(1), simp)+
  have q: "queued c0 (M @ [(to, msg)]) e" if "e \<in> set (live (queue c'))" for e
    using that fr S(4,5) by (auto simp: frame_def queued_def delivery_def id aa)
  have tr: "\<exists>new. trace c' = trace c0 @ new"
  proof -
    from S(3) obtain n1 where "trace c' = trace ?c @ n1" by blast
    moreover from fr obtain n2 where "trace ?c = trace c0 @ n2" unfolding frame_def by blast
    ultimately show ?thesis by simp
  qed
  have "frame c0 (M @ [(to, msg)]) c'"
    using fr S(2) q tr by (auto simp: frame_def f)
  then show "runs_as c0 k D U (M @ [(to, msg)]) c'" using c by (simp add: runs_as_def f)
qed

lemma cancel_frame:
  assumes "frame c0 M c" and "timer_cancel t c = Done b c'"
  shows "frame c0 M c' \<and> me c' = me c \<and> disk c' = disk c"
proof -
  have wf: "core_wf c" using assms(1) by (simp add: frame_def)
  note T = timer_cancel_Done [OF assms(2) wf]
  from T(2) obtain q where c': "c' = c\<lparr>queue := q\<rparr>" ..
  have "frame c0 M (c\<lparr>rng := rng c, queue := q\<rparr>)"
    by (rule frame_queue [OF assms(1)]) (use T in \<open>auto simp: c'\<close>)
  then show ?thesis by (simp add: c')
qed

lemma run_cancel_election [run_rules]:
  "valid (runs_as c0 k D U M) cancel_election_timer (\<lambda>_. runs_as c0 k D U M) never_fails"
proof (rule valid_nde)
  show "nde cancel_election_timer"
    by (auto simp: nde_def cancel_election_timer_def bind_def block.simps upd_def modify_def ret_def
        timer_cancel_total split: option.splits outcome.splits)
  fix c x c'
  assume c: "runs_as c0 k D U M c" and run: "cancel_election_timer c = Done x c'"
  show "runs_as c0 k D U M c'"
  proof (cases "election_timer (me c)")
    case None
    with c run show ?thesis by (simp add: cancel_election_timer_def)
  next
    case (Some t)
    with run obtain b c1 where "timer_cancel t c = Done b c1"
      and c': "c' = c1\<lparr>me := (me c1)\<lparr>election_timer := None\<rparr>\<rparr>"
      by (auto simp: cancel_election_timer_def upd_def)
    with c cancel_frame have "frame c0 M c1 \<and> me c1 = me c \<and> disk c1 = disk c" by (auto simp: runs_as_def)
    with c show ?thesis by (simp add: runs_as_def c' core_eq_iff)
  qed
qed

lemma run_cancel_heartbeat [run_rules]:
  "valid (runs_as c0 k D U M) cancel_heartbeat (\<lambda>_. runs_as c0 k D U M) never_fails"
proof (rule valid_nde)
  show "nde cancel_heartbeat"
    by (auto simp: nde_def cancel_heartbeat_def bind_def block.simps upd_def modify_def ret_def
        timer_cancel_total split: option.splits outcome.splits)
  fix c x c'
  assume c: "runs_as c0 k D U M c" and run: "cancel_heartbeat c = Done x c'"
  show "runs_as c0 k D U M c'"
  proof (cases "heartbeat_timer (me c)")
    case None
    with c run show ?thesis by (simp add: cancel_heartbeat_def)
  next
    case (Some t)
    with run obtain b c1 where "timer_cancel t c = Done b c1"
      and c': "c' = c1\<lparr>me := (me c1)\<lparr>heartbeat_timer := None\<rparr>\<rparr>"
      by (auto simp: cancel_heartbeat_def upd_def)
    with c cancel_frame have "frame c0 M c1 \<and> me c1 = me c \<and> disk c1 = disk c" by (auto simp: runs_as_def)
    with c show ?thesis by (simp add: runs_as_def c' core_eq_iff)
  qed
qed

lemma after_frame:
  assumes "frame c0 M c" and "clock_after d a kind n c = Done e c'" and "timer_of (node_id (me c)) a"
  shows "frame c0 M c' \<and> me c' = me c \<and> disk c' = disk c"
proof -
  have wf: "core_wf c" using assms(1) by (simp add: frame_def)
  note T = clock_after_Done [OF assms(2) wf]
  from T(2) obtain q where c': "c' = c\<lparr>queue := q\<rparr>" ..
  have "frame c0 M (c\<lparr>rng := rng c, queue := q\<rparr>)"
    by (rule frame_queue [OF assms(1)]) (use T assms(3) in \<open>auto simp: c' set_insort_key\<close>)
  then show ?thesis by (simp add: c')
qed

section \<open>Putting triples together\<close>

lemma or_fails_lift: "valid P m Q never_fails \<Longrightarrow> valid P m Q (or_fails c0 D W)"
  by (erule valid_weaken) (auto simp: never_fails_def or_fails_def)

lemma failed_as_prefix: "failed_as c0 D W c \<Longrightarrow> failed_as c0 D (W @ W') c"
  unfolding failed_as_def by (metis append_assoc)

lemma or_fails_prefix: "valid P m Q (or_fails c0 D W) \<Longrightarrow> valid P m Q (or_fails c0 D (W @ W'))"
  by (erule valid_weaken) (auto simp: or_fails_def failed_as_prefix)

lemma run_read:
  assumes "\<And>c. runs_as c0 k D U M c \<Longrightarrow> f c = g" and "valid (runs_as c0 k D U M) g Q E"
  shows "valid (runs_as c0 k D U M) (\<lambda>c. f c c) Q E"
  using assms unfolding valid_def by simp

lemma run_ite:
  assumes "\<And>c. runs_as c0 k D U M c \<Longrightarrow> b c = b0"
    and "b0 \<Longrightarrow> valid (runs_as c0 k D U M) m Q E" and "\<not> b0 \<Longrightarrow> valid (runs_as c0 k D U M) n Q E"
  shows "valid (runs_as c0 k D U M) (ite b m n) Q E"
  using assms unfolding valid_def ite_def by simp

lemma run_whenever:
  assumes "\<And>c. runs_as c0 k D U M c \<Longrightarrow> b c = b0"
    and "b0 \<Longrightarrow> valid (runs_as c0 k D U M) m Q E" and "\<not> b0 \<Longrightarrow> (\<And>c. runs_as c0 k D U M c \<Longrightarrow> Q () c)"
  shows "valid (runs_as c0 k D U M) (whenever b m) Q E"
  using assms unfolding valid_def whenever_def by simp

lemma run_ret: "(\<And>c. runs_as c0 k D U M c \<Longrightarrow> Q x c) \<Longrightarrow> valid (runs_as c0 k D U M) (ret x) Q E"
  by (simp add: valid_def ret_def)

lemma run_of_sum:
  assumes "\<And>x. r = Inr x \<Longrightarrow> valid (runs_as c0 k D U M) (f x) Q never_fails"
    and "\<And>e. r = Inl e \<Longrightarrow> \<not> is_disk_error e"
  shows "valid (runs_as c0 k D U M) (bind (of_sum r) f) Q never_fails"
  using assms by (cases r) (auto simp: valid_def bind_def of_sum_def never_fails_def)

lemma runs_me:
  assumes "runs_as c0 k D U M c"
  shows "node_id (me c) = node_id k" "peers (me c) = peers k" "current_term (me c) = current_term k"
    "voted_for (me c) = voted_for k" "rlog (me c) = rlog k" "role (me c) = role k"
    "commit_index (me c) = commit_index k" "last_applied (me c) = last_applied k"
    "kv (me c) = kv k" "votes_granted (me c) = votes_granted k" "next_index (me c) = next_index k"
    "match_index (me c) = match_index k" "leader_id (me c) = leader_id k" "running (me c) = running k"
    "pending_clients (me c) = pending_clients k"
    "next_for (me c) p = next_for k p" "match_for (me c) p = match_for k p"
  using assms by (simp_all add: runs_as_def core_eq_iff next_for_def match_for_def split: option.split)

lemma runs_log_wf: "runs_as c0 k D U M c \<Longrightarrow> log_wf (rlog k)"
  by (simp add: runs_as_def)

section \<open>Timers\<close>

lemma run_arm_election [run_rules]:
  "valid (runs_as c0 k D U M) arm_election_timer (\<lambda>_. runs_as c0 k D U M) never_fails"
  unfolding arm_election_timer_def
proof (rule valid_block_Cons [OF run_cancel_election], rule valid_block_Cons [OF _ valid_block_Nil],
    rule valid_bind [OF run_draw])
  fix d
  show "valid (runs_as c0 k D U M) (bind (\<lambda>c. clock_after d (Callback (ElectionTimeout (node_id (me c))))
      ''raft.election_timeout'' (Some (node_id (me c))) c) (\<lambda>t. upd (\<lambda>m. m\<lparr>election_timer := Some t\<rparr>)))
      (\<lambda>_. runs_as c0 k D U M) never_fails"
  proof (rule valid_nde)
    show "nde (bind (\<lambda>c. clock_after d (Callback (ElectionTimeout (node_id (me c))))
        ''raft.election_timeout'' (Some (node_id (me c))) c) (\<lambda>t. upd (\<lambda>m. m\<lparr>election_timer := Some t\<rparr>)))"
      by (intro nde_rules)
    fix c x c'
    assume c: "runs_as c0 k D U M c" and "bind (\<lambda>c. clock_after d (Callback (ElectionTimeout (node_id (me c))))
        ''raft.election_timeout'' (Some (node_id (me c))) c) (\<lambda>t. upd (\<lambda>m. m\<lparr>election_timer := Some t\<rparr>)) c = Done x c'"
    then obtain t c1 where a: "clock_after d (Callback (ElectionTimeout (node_id (me c))))
        ''raft.election_timeout'' (Some (node_id (me c))) c = Done t c1"
      and c': "c' = c1\<lparr>me := (me c1)\<lparr>election_timer := Some t\<rparr>\<rparr>" by (auto simp: upd_def)
    have "frame c0 M c1 \<and> me c1 = me c \<and> disk c1 = disk c"
      by (rule after_frame [OF _ a]) (use c in \<open>simp_all add: runs_as_def timer_of_def\<close>)
    with c show "runs_as c0 k D U M c'" by (simp add: runs_as_def c' core_eq_iff)
  qed
qed

lemma run_arm_heartbeat [run_rules]:
  "valid (runs_as c0 k D U M) arm_heartbeat_timer (\<lambda>_. runs_as c0 k D U M) never_fails"
  unfolding arm_heartbeat_timer_def
proof (rule valid_block_Cons [OF run_cancel_heartbeat], rule valid_block_Cons [OF _ valid_block_Nil])
  show "valid (runs_as c0 k D U M) (bind (\<lambda>c. clock_after HEARTBEAT_INTERVAL (Callback (HeartbeatTimeout (node_id (me c))))
      ''raft.heartbeat'' (Some (node_id (me c))) c) (\<lambda>t. upd (\<lambda>m. m\<lparr>heartbeat_timer := Some t\<rparr>)))
      (\<lambda>_. runs_as c0 k D U M) never_fails"
  proof (rule valid_nde)
    show "nde (bind (\<lambda>c. clock_after HEARTBEAT_INTERVAL (Callback (HeartbeatTimeout (node_id (me c))))
      ''raft.heartbeat'' (Some (node_id (me c))) c) (\<lambda>t. upd (\<lambda>m. m\<lparr>heartbeat_timer := Some t\<rparr>)))"
      by (intro nde_rules)
    fix c x c'
    assume c: "runs_as c0 k D U M c" and "bind (\<lambda>c. clock_after HEARTBEAT_INTERVAL (Callback (HeartbeatTimeout (node_id (me c))))
      ''raft.heartbeat'' (Some (node_id (me c))) c) (\<lambda>t. upd (\<lambda>m. m\<lparr>heartbeat_timer := Some t\<rparr>)) c = Done x c'"
    then obtain t c1 where a: "clock_after HEARTBEAT_INTERVAL (Callback (HeartbeatTimeout (node_id (me c))))
        ''raft.heartbeat'' (Some (node_id (me c))) c = Done t c1"
      and c': "c' = c1\<lparr>me := (me c1)\<lparr>heartbeat_timer := Some t\<rparr>\<rparr>" by (auto simp: upd_def)
    have "frame c0 M c1 \<and> me c1 = me c \<and> disk c1 = disk c"
      by (rule after_frame [OF _ a]) (use c in \<open>simp_all add: runs_as_def timer_of_def\<close>)
    with c show "runs_as c0 k D U M c'" by (simp add: runs_as_def c' core_eq_iff)
  qed
qed

section \<open>The disk\<close>

lemma on_disk_Done: "on_disk m c = Done x c' \<longleftrightarrow>
    (\<exists>d. m \<lparr>drng = rng c, dsk = disk c\<rparr> = Done x d \<and> c' = c\<lparr>rng := drng d, disk := dsk d\<rparr>)"
  by (simp add: on_disk_def)

lemma on_disk_Raised: "on_disk m c = Raised e c' \<longleftrightarrow>
    (\<exists>d. m \<lparr>drng = rng c, dsk = disk c\<rparr> = Raised e d \<and> c' = c\<lparr>rng := drng d, disk := dsk d\<rparr>)"
  by (auto simp: on_disk_def on_part_def split: outcome.splits)

lemma run_append:
  assumes "wal_image ws new"
  shows "valid (runs_as c0 k D U []) (on_disk (sim_append new)) (\<lambda>_. runs_as c0 k D (U @ ws) [])
    (or_fails c0 D (U @ ws))"
proof (rule validI)
  fix c x c'
  assume c: "runs_as c0 k D U [] c" and "on_disk (sim_append new) c = Done x c'"
  then obtain d where a: "sim_append new \<lparr>drng = rng c, dsk = disk c\<rparr> = Done x d"
    and c': "c' = c\<lparr>rng := drng d, disk := dsk d\<rparr>" by (auto simp: on_disk_Done)
  from c obtain bs us where h: "disk_holds (disk c) (bs @ us) bs" "wal_image D bs" "wal_image U us"
    by (auto simp: runs_as_def disk_wal_def)
  have h': "disk_holds (dsk \<lparr>drng = rng c, dsk = disk c\<rparr>) (bs @ us) bs" using h(1) by simp
  note A = sim_append_Done [OF h' a]
  have "disk_wal (dsk d) D (U @ ws)"
    unfolding disk_wal_def using A(1) h(2) wal_image_append [OF h(3) assms] by (intro exI [of _ bs] exI [of _ "us @ new"]) simp
  with c A(3) show "runs_as c0 k D (U @ ws) [] c'"
    by (simp add: runs_as_def c' frame_rng_disk)
next
  fix c e c'
  assume c: "runs_as c0 k D U [] c" and "on_disk (sim_append new) c = Raised e c'"
  then obtain d where a: "sim_append new \<lparr>drng = rng c, dsk = disk c\<rparr> = Raised e d"
    and c': "c' = c\<lparr>rng := drng d, disk := dsk d\<rparr>" by (auto simp: on_disk_Raised)
  from c obtain bs us where h: "disk_holds (disk c) (bs @ us) bs" "wal_image D bs" "wal_image U us"
    by (auto simp: runs_as_def disk_wal_def)
  have h': "disk_holds (dsk \<lparr>drng = rng c, dsk = disk c\<rparr>) (bs @ us) bs" using h(1) by simp
  note A = sim_append_Raised [OF h' a]
  show "or_fails c0 D (U @ ws) e c'"
    unfolding or_fails_def
  proof
    assume "is_disk_error e"
    with A(1) have t: "disk_torn (disk c') (bs @ us @ new) bs" by (simp add: c')
    have "frame c0 [] c'" using c A(3) by (simp add: c' runs_as_def frame_rng_disk)
    with t h(2) wal_image_append [OF h(3) assms] show "failed_as c0 D (U @ ws) c'"
      unfolding failed_as_def by blast
  qed
qed

lemma run_sync:
  "valid (runs_as c0 k D U M) storage_sync (\<lambda>_. runs_as c0 k (D @ U) [] M) never_fails"
  unfolding storage_sync_def
proof (rule validI)
  fix c x c'
  assume c: "runs_as c0 k D U M c" and "on_disk sim_sync c = Done x c'"
  then obtain d where a: "sim_sync \<lparr>drng = rng c, dsk = disk c\<rparr> = Done x d"
    and c': "c' = c\<lparr>rng := drng d, disk := dsk d\<rparr>" by (auto simp: on_disk_Done)
  from c obtain bs us where h: "disk_holds (disk c) (bs @ us) bs" "wal_image D bs" "wal_image U us"
    by (auto simp: runs_as_def disk_wal_def)
  have h': "disk_holds (dsk \<lparr>drng = rng c, dsk = disk c\<rparr>) (bs @ us) bs" using h(1) by simp
  note A = sim_sync_Done [OF h' a]
  have "disk_wal (dsk d) (D @ U) []"
    unfolding disk_wal_def using A(1) wal_image_append [OF h(2,3)] by (intro exI [of _ "bs @ us"] exI [of _ "[]"]) simp
  with c A(3) show "runs_as c0 k (D @ U) [] M c'"
    by (simp add: runs_as_def c' frame_rng_disk)
next
  fix c e c'
  assume c: "runs_as c0 k D U M c" and "on_disk sim_sync c = Raised e c'"
  then obtain d where a: "sim_sync \<lparr>drng = rng c, dsk = disk c\<rparr> = Raised e d" by (auto simp: on_disk_Raised)
  from c obtain bs us where "disk_holds (dsk \<lparr>drng = rng c, dsk = disk c\<rparr>) (bs @ us) bs"
    by (auto simp: runs_as_def disk_wal_def)
  from sim_sync_Raised(2) [OF this a] show "never_fails e c'" by (simp add: never_fails_def)
qed

lemma encode_errors:
  "encode_state_record st = Inl e \<Longrightarrow> \<not> is_disk_error e"
  "encode_truncate_record i = Inl e \<Longrightarrow> \<not> is_disk_error e"
  "encode_entries es = Inl e \<Longrightarrow> \<not> is_disk_error e"
proof -
  show "encode_state_record st = Inl e \<Longrightarrow> \<not> is_disk_error e"
    by (auto simp: encode_state_record_def pack_header_def pack_field_def split: sum.splits if_splits)
  show "encode_truncate_record i = Inl e \<Longrightarrow> \<not> is_disk_error e"
    by (auto simp: encode_truncate_record_def pack_header_def pack_field_def split: sum.splits if_splits)
  have one: "encode_entry_record x = Inl e \<Longrightarrow> \<not> is_disk_error e" for x
    by (auto simp: encode_entry_record_def encode_command_def pack_header_def pack_field_def utf8_encode_def
        split: sum.splits if_splits option.splits)
  show "encode_entries es = Inl e \<Longrightarrow> \<not> is_disk_error e"
    by (induction es) (auto split: sum.splits dest: one)
qed

lemma encode_entries_image: "encode_entries es = Inr bs \<Longrightarrow> wal_image (map WEntry es) bs"
  by (induction es arbitrary: bs) (auto simp: wal_image_def split: sum.splits)

lemma run_of_sum_fails:
  assumes "\<And>x. r = Inr x \<Longrightarrow> valid (runs_as c0 k D U M) (f x) Q (or_fails c0 D W)"
    and "\<And>e. r = Inl e \<Longrightarrow> \<not> is_disk_error e"
  shows "valid (runs_as c0 k D U M) (bind (of_sum r) f) Q (or_fails c0 D W)"
  using assms by (cases r) (auto simp: valid_def bind_def of_sum_def or_fails_def)

lemma run_persist:
  assumes "voted_for k \<noteq> Some NO_VOTE"
  shows "valid (runs_as c0 k D U []) persist (\<lambda>_. runs_as c0 k D (U @ [WState (hard k)]) [])
    (or_fails c0 D (U @ [WState (hard k)]))"
  unfolding persist_def
proof (rule run_read [where f = "\<lambda>c. save_state (HardState (current_term (me c)) (voted_for (me c)))"
      and g = "save_state (hard k)"])
  show "valid (runs_as c0 k D U []) (save_state (hard k)) (\<lambda>_. runs_as c0 k D (U @ [WState (hard k)]) [])
    (or_fails c0 D (U @ [WState (hard k)]))"
    unfolding save_state_def
    by (rule run_of_sum_fails, rule run_append)
      (use assms encode_errors(1) in \<open>auto simp: hard_def intro!: wal_image_one\<close>)
qed (simp add: runs_me hard_def)

lemma run_persist_entries:
  "valid (runs_as c0 k D U []) (persist_entries es) (\<lambda>_. runs_as c0 k D (U @ map WEntry es) [])
    (or_fails c0 D (U @ map WEntry es))"
proof (cases "es = []")
  case True
  then show ?thesis by (simp add: persist_entries_def storage_append_entries_def run_ret)
next
  case False
  then show ?thesis
    unfolding persist_entries_def storage_append_entries_def
    by (simp, intro run_of_sum_fails run_append encode_entries_image) (use encode_errors(3) in auto)
qed

lemma run_persist_truncation:
  "valid (runs_as c0 k D U []) (persist_truncation i) (\<lambda>_. runs_as c0 k D (U @ [WTruncate i]) [])
    (or_fails c0 D (U @ [WTruncate i]))"
  unfolding persist_truncation_def storage_truncate_from_def
  by (intro run_of_sum_fails run_append wal_image_one) (use encode_errors(2) in auto)

end
