(* ===== verification/Node_Refines.thy ===== *)
theory Node_Refines
  imports Node_Run
begin

text \<open>
  Every handler of the Raft node implements its specification: a run that returns has the specified
  effect, with everything it wrote durable before it sent anything; a disk error leaves the durable
  records and a prefix of what was being written, with nothing sent.
\<close>

declare block.simps [simp del]

section \<open>Sending\<close>

lemma run_each:
  assumes "\<And>p M. p \<in> set ps \<Longrightarrow> valid (runs_as c0 k D U M) (f p) (\<lambda>_. runs_as c0 k D U (M @ [(p, g p)])) never_fails"
  shows "valid (runs_as c0 k D U M) (for_each ps f) (\<lambda>_. runs_as c0 k D U (M @ map (\<lambda>p. (p, g p)) ps)) never_fails"
  using assms
proof (induction ps arbitrary: M)
  case Nil
  then show ?case by (simp add: for_each_def valid_def block.simps)
next
  case (Cons p ps)
  have "valid (runs_as c0 k D U (M @ [(p, g p)])) (block (map f ps))
      (\<lambda>_. runs_as c0 k D U ((M @ [(p, g p)]) @ map (\<lambda>p. (p, g p)) ps)) never_fails"
    using Cons.IH [of "M @ [(p, g p)]"] Cons.prems by (simp add: for_each_def)
  with Cons.prems [of p M] show ?case
    unfolding for_each_def list.map by (intro valid_block_Cons) simp_all
qed

lemma run_broadcast:
  "valid (runs_as c0 k D U M) (broadcast msg) (\<lambda>_. runs_as c0 k D U (M @ map (\<lambda>p. (p, msg)) (peers k))) never_fails"
  unfolding broadcast_def
  by (rule run_read [where f = "\<lambda>c. for_each (peers (me c)) (\<lambda>peer. node_send peer msg)"
        and g = "for_each (peers k) (\<lambda>peer. node_send peer msg)"], simp add: runs_me, rule run_each, rule run_send)

lemma term_at_errors: "term_at l i = Inl e \<Longrightarrow> \<not> is_disk_error e"
  by (auto simp: term_at_def entry_at_def py_nth_def Let_def split: if_splits sum.splits)

lemma slice_from_errors: "slice_from l i = Inl e \<Longrightarrow> \<not> is_disk_error e"
  by (auto simp: slice_from_def split: if_splits)

lemma run_replicate:
  assumes "role k = LEADER"
  shows "valid (runs_as c0 k D U M) (replicate_to p) (\<lambda>_. runs_as c0 k D U (M @ [(p, replicate_msg k p)])) never_fails"
proof -
  define nxt where "nxt = next_for k p"
  let ?g = "bind (of_sum (if nxt \<le> last_index (rlog k) then slice_from (rlog k) nxt else Inr [])) (\<lambda>entries.
           bind (of_sum (term_at (rlog k) (nxt - 1))) (\<lambda>prev_term.
             node_send p (MAppendEntries
               (AppendEntries (current_term k) (node_id k) (nxt - 1) prev_term entries (commit_index k)))))"
  have msg: "MAppendEntries (AppendEntries (current_term k) (node_id k) (nxt - 1) t es (commit_index k)) = replicate_msg k p"
    if wf: "log_wf (rlog k)" and t: "term_at (rlog k) (nxt - 1) = Inr t"
      and es: "(if nxt \<le> last_index (rlog k) then slice_from (rlog k) nxt else Inr []) = Inr es" for t es
  proof -
    have "t = trm (rlog k) (nxt - 1)" and has: "has_entry (rlog k) (nxt - 1)"
      using t by (auto simp: term_at_wf [OF wf] split: if_splits)
    moreover have "es = drop (nat (nxt - 1)) (rlog k)"
      using es has by (auto simp: has_entry_wf [OF wf] last_index_wf [OF wf] slice_from_def split: if_splits)
    ultimately show ?thesis by (simp add: replicate_msg_def Let_def nxt_def)
  qed
  have "valid (runs_as c0 k D U M) (\<lambda>c. replicate_to p c) (\<lambda>_. runs_as c0 k D U (M @ [(p, replicate_msg k p)])) never_fails"
  proof (rule run_read [where f = "\<lambda>c. replicate_to p" and g = "replicate_to p"])
    show "valid (runs_as c0 k D U M) (replicate_to p) (\<lambda>_. runs_as c0 k D U (M @ [(p, replicate_msg k p)])) never_fails"
    proof -
      have eq: "replicate_to p c = ?g c" if "runs_as c0 k D U M c" for c
        using assms by (simp add: replicate_to_def Let_def runs_me [OF that] nxt_def)
      have "valid (runs_as c0 k D U M) ?g (\<lambda>_. runs_as c0 k D U (M @ [(p, replicate_msg k p)])) never_fails"
      proof (rule run_of_sum)
        fix es
        assume es: "(if nxt \<le> last_index (rlog k) then slice_from (rlog k) nxt else Inr []) = Inr es"
        show "valid (runs_as c0 k D U M) (bind (of_sum (term_at (rlog k) (nxt - 1))) (\<lambda>prev_term.
             node_send p (MAppendEntries
               (AppendEntries (current_term k) (node_id k) (nxt - 1) prev_term es (commit_index k)))))
             (\<lambda>_. runs_as c0 k D U (M @ [(p, replicate_msg k p)])) never_fails"
        proof (rule run_of_sum)
          fix t
          assume t: "term_at (rlog k) (nxt - 1) = Inr t"
          show "valid (runs_as c0 k D U M) (node_send p (MAppendEntries
               (AppendEntries (current_term k) (node_id k) (nxt - 1) t es (commit_index k))))
             (\<lambda>_. runs_as c0 k D U (M @ [(p, replicate_msg k p)])) never_fails"
          proof (cases "log_wf (rlog k)")
            case True
            show ?thesis unfolding msg [OF True t es] by (rule run_send)
          next
            case False
            then show ?thesis by (simp add: valid_def runs_as_def)
          qed
        qed (rule term_at_errors)
      qed (use slice_from_errors in \<open>auto split: if_splits\<close>)
      then show ?thesis unfolding valid_def using eq by auto
    qed
  qed simp
  then show ?thesis .
qed

lemma run_replicate_all:
  assumes "role k = LEADER"
  shows "valid (runs_as c0 k D U M) (\<lambda>c. for_each (peers (me c)) replicate_to c)
    (\<lambda>_. runs_as c0 k D U (M @ replicate_all k)) never_fails"
  unfolding replicate_all_def
  by (rule run_read [where f = "\<lambda>c. for_each (peers (me c)) replicate_to" and g = "for_each (peers k) replicate_to"],
      simp add: runs_me, rule run_each, rule run_replicate [OF assms])

lemma run_send_heartbeats:
  assumes "role k = LEADER"
  shows "valid (runs_as c0 k D U M) send_heartbeats (\<lambda>_. runs_as c0 k D U (M @ replicate_all k)) never_fails"
  unfolding send_heartbeats_def
  by (rule valid_block_Cons [OF run_replicate_all [OF assms]], rule valid_block_Cons [OF run_arm_heartbeat],
      rule valid_block_Nil)

section \<open>Applying and committing\<close>

lemma entry_at_errors: "entry_at l i = Inl e \<Longrightarrow> \<not> is_disk_error e"
  by (auto simp: entry_at_def py_nth_def Let_def split: if_splits)

lemma run_apply_next:
  "valid (runs_as c0 k D U M) apply_next
     (\<lambda>_. runs_as c0 (fst (apply_one k)) D U (M @ snd (apply_one k))) never_fails"
proof -
  let ?k0 = "k\<lparr>last_applied := last_applied k + 1\<rparr>"
  let ?Q = "\<lambda>_. runs_as c0 (fst (apply_one k)) D U (M @ snd (apply_one k))"
  let ?rest = "\<lambda>entry. block [upd (\<lambda>m. m\<lparr>kv := kv_apply (le_command entry) (kv m)\<rparr>),
         node_record ''raft.apply'' [(''index'', JInt (le_index entry)),
                                     (''command'', JDesc (DescCommand (le_command entry)))],
         (\<lambda>c. case pending_clients (me c) (le_index entry) of None \<Rightarrow> Done () c
            | Some (client, request_id) \<Rightarrow>
                block [upd (\<lambda>m. m\<lparr>pending_clients := (pending_clients m)(le_index entry := None)\<rparr>),
                       node_send client (MClientReply (ClientReply request_id True None None))] c)]"
  have rest: "valid (runs_as c0 ?k0 D U M) (?rest e) ?Q never_fails"
    if wf: "log_wf (rlog k)" and e: "entry_at (rlog k) (last_applied k + 1) = Inr e" for e
  proof -
    have idx: "e = rlog k ! nat (last_applied k)"
      using e by (auto simp: entry_at_wf [OF wf] split: if_splits)
    let ?k1 = "?k0\<lparr>kv := kv_apply (le_command e) (kv ?k0)\<rparr>"
    have one: "valid (runs_as c0 ?k0 D U M) (upd (\<lambda>m. m\<lparr>kv := kv_apply (le_command e) (kv m)\<rparr>))
        (\<lambda>_. runs_as c0 ?k1 D U M) never_fails"
      by (rule run_upd) (simp_all add: core_eq_iff)
    show ?thesis
    proof (rule valid_block_Cons [OF one], rule valid_block_Cons [OF run_record],
        rule valid_block_Cons [OF _ valid_block_Nil])
      show "valid (runs_as c0 ?k1 D U M) (\<lambda>c. case pending_clients (me c) (le_index e) of None \<Rightarrow> Done () c
            | Some (client, request_id) \<Rightarrow>
                block [upd (\<lambda>m. m\<lparr>pending_clients := (pending_clients m)(le_index e := None)\<rparr>),
                       node_send client (MClientReply (ClientReply request_id True None None))] c)
            (\<lambda>_. ?Q ()) never_fails"
      proof (cases "pending_clients k (le_index e)")
        case None
        then show ?thesis
          by (auto simp: valid_def runs_me apply_one_def idx [symmetric])
      next
        case (Some p)
        obtain client rid where p: "p = (client, rid)" by (cases p)
        let ?k2 = "?k1\<lparr>pending_clients := (pending_clients ?k1)(le_index e := None)\<rparr>"
        have "valid (runs_as c0 ?k1 D U M) (upd (\<lambda>m. m\<lparr>pending_clients := (pending_clients m)(le_index e := None)\<rparr>))
            (\<lambda>_. runs_as c0 ?k2 D U M) never_fails"
          by (rule run_upd) (simp_all add: core_eq_iff)
        then have "valid (runs_as c0 ?k1 D U M) (block [upd (\<lambda>m. m\<lparr>pending_clients := (pending_clients m)(le_index e := None)\<rparr>),
              node_send client (MClientReply (ClientReply rid True None None))]) (\<lambda>_. ?Q ()) never_fails"
          by (rule valid_block_Cons, intro valid_block_Cons [OF run_send] valid_block_Nil)
            (simp add: apply_one_def idx [symmetric] Some p)
        then show ?thesis
          using Some p by (simp add: valid_def runs_me)
      qed
    qed
  qed
  have zero: "valid (runs_as c0 k D U M) (upd (\<lambda>m. m\<lparr>last_applied := last_applied m + 1\<rparr>))
      (\<lambda>_. runs_as c0 ?k0 D U M) never_fails"
    by (rule run_upd) (simp_all add: core_eq_iff)
  show ?thesis
    unfolding apply_next_def
  proof (rule valid_block_Cons [OF zero], rule valid_block_Cons [OF _ valid_block_Nil])
    let ?g = "bind (of_sum (entry_at (rlog k) (last_applied k + 1))) ?rest"
    have "valid (runs_as c0 ?k0 D U M) ?g (\<lambda>_. ?Q ()) never_fails"
    proof (cases "log_wf (rlog k)")
      case True
      show ?thesis by (rule run_of_sum) (use rest [OF True] entry_at_errors in auto)
    next
      case False
      then show ?thesis by (simp add: valid_def runs_as_def)
    qed
    then show "valid (runs_as c0 ?k0 D U M)
        (bind (\<lambda>c. of_sum (entry_at (rlog (me c)) (last_applied (me c))) c) ?rest) (\<lambda>_. ?Q ()) never_fails"
      unfolding valid_def bind_def by (simp add: runs_me)
  qed
qed

lemma run_apply_turns:
  "valid (runs_as c0 k D U M) (apply_turns n)
     (\<lambda>_. runs_as c0 (fst (apply_spec n k)) D U (M @ snd (apply_spec n k))) never_fails"
proof (induction n arbitrary: k M)
  case 0
  then show ?case by (simp add: run_ret)
next
  case (Suc n)
  show ?case
    unfolding apply_turns.simps
  proof (rule run_whenever [where ?b0.0 = "last_applied k < commit_index k"])
    assume lt: "last_applied k < commit_index k"
    show "valid (runs_as c0 k D U M) (block [apply_next, apply_turns n])
        (\<lambda>_. runs_as c0 (fst (apply_spec (Suc n) k)) D U (M @ snd (apply_spec (Suc n) k))) never_fails"
      by (rule valid_block_Cons [OF run_apply_next], rule valid_block_Cons [OF Suc.IH], rule valid_block_Nil)
        (simp add: lt case_prod_beta)
  qed (simp_all add: runs_me)
qed

lemma run_apply_committed:
  "valid (runs_as c0 k D U M) apply_committed
     (\<lambda>_. runs_as c0 (fst (apply_committed_spec k)) D U (M @ snd (apply_committed_spec k))) never_fails"
  unfolding apply_committed_def apply_committed_spec_def
  by (rule run_read [where f = "\<lambda>c. apply_turns (nat (commit_index (me c) - last_applied (me c)))",
        OF _ run_apply_turns]) (simp add: runs_me)

lemma run_advance_turns:
  "valid (runs_as c0 k D U M) (advance_turns n i)
     (\<lambda>_. runs_as c0 (fst (advance_spec n i k)) D U (M @ snd (advance_spec n i k))) never_fails"
proof (induction n arbitrary: i)
  case 0
  then show ?case by (simp add: run_ret)
next
  case (Suc n)
  let ?Q = "\<lambda>_ :: unit. runs_as c0 (fst (advance_spec (Suc n) i k)) D U (M @ snd (advance_spec (Suc n) i k))"
  let ?tail = "\<lambda>t. ite (\<lambda>c. t \<noteq> current_term (me c)) (advance_turns n (i - 1))
         (ite (\<lambda>c. replicas (me c) i \<ge> majority (me c))
            (block [upd (\<lambda>m. m\<lparr>commit_index := i\<rparr>), apply_committed]) (advance_turns n (i - 1)))"
  have tail: "valid (runs_as c0 k D U M) (?tail (trm (rlog k) i)) ?Q never_fails"
  proof (rule run_ite [where ?b0.0 = "trm (rlog k) i \<noteq> current_term k"])
    assume "trm (rlog k) i \<noteq> current_term k"
    with Suc.IH [of "i - 1"] show "valid (runs_as c0 k D U M) (advance_turns n (i - 1)) ?Q never_fails" by simp
  next
    assume t: "\<not> trm (rlog k) i \<noteq> current_term k"
    show "valid (runs_as c0 k D U M) (ite (\<lambda>c. replicas (me c) i \<ge> majority (me c))
            (block [upd (\<lambda>m. m\<lparr>commit_index := i\<rparr>), apply_committed]) (advance_turns n (i - 1))) ?Q never_fails"
    proof (rule run_ite [where ?b0.0 = "majority k \<le> replicas k i"])
      assume maj: "majority k \<le> replicas k i"
      have "valid (runs_as c0 k D U M) (upd (\<lambda>m. m\<lparr>commit_index := i\<rparr>))
          (\<lambda>_. runs_as c0 (k\<lparr>commit_index := i\<rparr>) D U M) never_fails"
        by (rule run_upd) (simp_all add: core_eq_iff)
      then show "valid (runs_as c0 k D U M) (block [upd (\<lambda>m. m\<lparr>commit_index := i\<rparr>), apply_committed]) ?Q never_fails"
        by (rule valid_block_Cons, intro valid_block_Cons [OF run_apply_committed] valid_block_Nil)
          (use t maj in simp)
    next
      assume "\<not> majority k \<le> replicas k i"
      with Suc.IH [of "i - 1"] show "valid (runs_as c0 k D U M) (advance_turns n (i - 1)) ?Q never_fails" by simp
    qed (simp add: runs_me replicas_def majority_def cluster_size_def)
  qed (simp add: runs_me)
  let ?g = "bind (of_sum (term_at (rlog k) i)) ?tail"
  have "valid (runs_as c0 k D U M) ?g ?Q never_fails"
  proof (cases "log_wf (rlog k)")
    case True
    show ?thesis
    proof (rule run_of_sum)
      fix t
      assume "term_at (rlog k) i = Inr t"
      then have "t = trm (rlog k) i" by (auto simp: term_at_wf [OF True] split: if_splits)
      with tail show "valid (runs_as c0 k D U M) (?tail t) ?Q never_fails" by simp
    qed (rule term_at_errors)
  next
    case False
    then show ?thesis by (simp add: valid_def runs_as_def)
  qed
  then show ?case
    unfolding advance_turns.simps(2) valid_def bind_def by (simp add: runs_me)
qed

lemma run_advance_commit:
  "valid (runs_as c0 k D U M) advance_commit_index
     (\<lambda>_. runs_as c0 (fst (advance_commit_spec k)) D U (M @ snd (advance_commit_spec k))) never_fails"
proof (cases "role k = LEADER")
  case False
  then show ?thesis by (auto simp: advance_commit_index_def advance_commit_spec_def valid_def runs_me)
next
  case True
  let ?n = "nat (last_index (rlog k) - commit_index k)"
  have spec: "advance_commit_spec k = advance_spec ?n (last_index (rlog k)) k"
    using True by (simp add: advance_commit_spec_def)
  show ?thesis
    unfolding spec
    by (rule valid_cong [OF _ run_advance_turns]) (use True in \<open>simp add: advance_commit_index_def runs_me\<close>)
qed

section \<open>Role transitions\<close>

lemma follow_core: "core m = core k \<Longrightarrow> core (follow t l m) = core (follow t l k)"
  by (auto simp: core_eq_iff follow_def)

lemma follow_fixed [simp]: "node_id (follow t l k) = node_id k" "peers (follow t l k) = peers k"
  "running (follow t l k) = running k" "rlog (follow t l k) = rlog k" "commit_index (follow t l k) = commit_index k"
  "last_applied (follow t l k) = last_applied k" "kv (follow t l k) = kv k"
  "current_term (follow t l k) = max t (current_term k)" "role (follow t l k) = FOLLOWER"
  "voted_for (follow t l k) = (if t > current_term k then None else voted_for k)"
  by (simp_all add: follow_def)

lemma run_become_follower:
  "valid (runs_as c0 k D U M) (become_follower t l) (\<lambda>_. runs_as c0 (follow t l k) D U M) never_fails"
proof -
  have one: "valid (runs_as c0 k D U M) (upd (follow t l)) (\<lambda>_. runs_as c0 (follow t l k) D U M) never_fails"
    by (rule run_upd, erule follow_core, simp_all)
  have step: "valid (runs_as c0 (follow t l k) D U M) (if w \<noteq> FOLLOWER then
           (\<lambda>c. node_record ''raft.step_down'' [(''was'', JStr (role_value w)), (''term'', JInt (current_term (me c)))] c)
         else ret ()) (\<lambda>_. runs_as c0 (follow t l k) D U M) never_fails" for w
  proof (cases "w = FOLLOWER")
    case True
    then show ?thesis by (simp add: run_ret)
  next
    case False
    have "valid (runs_as c0 (follow t l k) D U M)
       (\<lambda>c. node_record ''raft.step_down'' [(''was'', JStr (role_value w)), (''term'', JInt (current_term (me c)))] c)
       (\<lambda>_. runs_as c0 (follow t l k) D U M) never_fails"
      by (rule valid_cong [OF _ run_record [of _ _ _ _ _ "''raft.step_down''"
            "[(''was'', JStr (role_value w)), (''term'', JInt (current_term (follow t l k)))]"]]) (simp add: runs_me)
    with False show ?thesis by simp
  qed
  have "valid (runs_as c0 k D U M) (block [upd (follow t l), cancel_heartbeat, (if w \<noteq> FOLLOWER then
           (\<lambda>c. node_record ''raft.step_down'' [(''was'', JStr (role_value w)), (''term'', JInt (current_term (me c)))] c)
         else ret ())]) (\<lambda>_. runs_as c0 (follow t l k) D U M) never_fails" for w
    by (intro valid_block_Cons [OF one] valid_block_Cons [OF run_cancel_heartbeat] valid_block_Cons [OF step]
        valid_block_Nil)
  then show ?thesis unfolding become_follower_def Let_def valid_def by blast
qed

lemma run_become_candidate:
  "valid (runs_as c0 k D U M) become_candidate
     (\<lambda>_. runs_as c0 (k\<lparr>role := CANDIDATE, leader_id := None, votes_granted := [node_id k]\<rparr>) D U M) never_fails"
  unfolding become_candidate_def
proof (rule valid_block_Cons [OF run_upd], goal_cases)
  case 6
  show ?case
    by (rule valid_block_Cons [OF _ valid_block_Nil],
        rule run_read [where f = "\<lambda>c. node_record ''raft.candidate'' [(''term'', JInt (current_term (me c)))]", OF _ run_record])
      (simp_all add: runs_me)
qed (simp_all add: core_eq_iff)

lemma lead_fixed [simp]: "node_id (lead k) = node_id k" "peers (lead k) = peers k" "running (lead k) = running k"
  "rlog (lead k) = rlog k" "role (lead k) = LEADER" "current_term (lead k) = current_term k"
  "voted_for (lead k) = voted_for k" "commit_index (lead k) = commit_index k" "last_applied (lead k) = last_applied k"
  "votes_granted (lead k) = votes_granted k" "kv (lead k) = kv k"
  by (simp_all add: lead_def)

lemma run_become_leader:
  "valid (runs_as c0 k D U M) become_leader (\<lambda>_. runs_as c0 (lead k) D U (M @ replicate_all (lead k))) never_fails"
  unfolding become_leader_def
proof (rule valid_block_Cons [OF run_upd], goal_cases)
  case 6
  show ?case
  proof (rule valid_block_Cons [OF run_cancel_election], rule valid_block_Cons)
    show "valid (runs_as c0 (lead k) D U M) (\<lambda>c. node_record ''raft.leader''
          [(''term'', JInt (current_term (me c))), (''log'', JInt (last_index (rlog (me c))))] c)
          (\<lambda>_. runs_as c0 (lead k) D U M) never_fails"
      by (rule run_read [where f = "\<lambda>c. node_record ''raft.leader''
          [(''term'', JInt (current_term (me c))), (''log'', JInt (last_index (rlog (me c))))]", OF _ run_record])
        (simp add: runs_me)
    show "valid (runs_as c0 (lead k) D U M) (block [send_heartbeats])
        (\<lambda>_. runs_as c0 (lead k) D U (M @ replicate_all (lead k))) never_fails"
      by (intro valid_block_Cons [OF run_send_heartbeats] valid_block_Nil) simp_all
  qed
qed (auto simp: core_eq_iff lead_def)

section \<open>The handlers\<close>

text \<open>\<open>handles c0 D k m h\<close>: started at \<open>k\<close> with the records \<open>D\<close> durable and nothing unsynced, the
  statement \<open>m\<close> implements the specified outcome \<open>h\<close>.\<close>

definition handles :: "node_ctx \<Rightarrow> wal_rec list \<Rightarrow> rnode \<Rightarrow> node_ctx stmt \<Rightarrow> handled \<Rightarrow> bool" where
  "handles c0 D k m h \<longleftrightarrow>
     valid (runs_as c0 k D [] []) m (\<lambda>_. runs_as c0 (fst h) (D @ fst (snd h)) [] (snd (snd h)))
       (or_fails c0 D (fst (snd h)))"

lemma handles_Cons:
  assumes "valid (runs_as c0 k D [] []) m (\<lambda>_. runs_as c0 k1 D [] []) never_fails"
    and "handles c0 D k1 (block ms) h"
  shows "handles c0 D k (block (m # ms)) h"
  using assms unfolding handles_def by (intro valid_block_Cons [OF or_fails_lift])

lemma handles_one: "handles c0 D k m h \<Longrightarrow> handles c0 D k (block [m]) h"
  unfolding handles_def by (erule valid_block_Cons) (simp add: valid_def block.simps)

lemma handles_cong:
  "(\<And>c. runs_as c0 k D [] [] c \<Longrightarrow> m c = m' c) \<Longrightarrow> handles c0 D k m' h \<Longrightarrow> handles c0 D k m h"
  unfolding handles_def by (rule valid_cong)

lemma handles_no_write:
  assumes "valid (runs_as c0 k D [] []) m (\<lambda>_. runs_as c0 k1 D [] ms) never_fails"
  shows "handles c0 D k m (k1, [], ms)"
  unfolding handles_def by (rule or_fails_lift) (use assms in simp)

lemma handles_ret: "handles c0 D k (ret ()) (k, [], [])"
  by (rule handles_no_write, rule run_ret)

lemma handles_persist_sync:
  assumes "voted_for k \<noteq> Some NO_VOTE"
    and "valid (runs_as c0 k (D @ [WState (hard k)]) [] []) (block rest) (\<lambda>_. runs_as c0 k1 (D @ [WState (hard k)]) [] ms) never_fails"
  shows "handles c0 D k (block (persist # storage_sync # rest)) (k1, [WState (hard k)], ms)"
  unfolding handles_def
proof (rule valid_block_Cons)
  show "valid (runs_as c0 k D [] []) persist (\<lambda>_. runs_as c0 k D [WState (hard k)] [])
      (or_fails c0 D (fst (snd (k1, [WState (hard k)], ms))))"
    using run_persist [OF assms(1), of c0 D "[]"] by simp
  show "valid (runs_as c0 k D [WState (hard k)] []) (block (storage_sync # rest))
      (\<lambda>_. runs_as c0 (fst (k1, [WState (hard k)], ms)) (D @ fst (snd (k1, [WState (hard k)], ms))) []
        (snd (snd (k1, [WState (hard k)], ms)))) (or_fails c0 D (fst (snd (k1, [WState (hard k)], ms))))"
    by (rule or_fails_lift, rule valid_block_Cons [OF run_sync]) (use assms(2) in simp)
qed

lemma handles_reply_vote:
  assumes "voted_for k \<noteq> Some NO_VOTE"
  shows "handles c0 D k (reply_vote frm g) (reply_vote_spec frm g k)"
  unfolding reply_vote_def reply_vote_spec_def
proof (rule handles_persist_sync [OF assms])
  let ?m = "MRequestVoteReply (RequestVoteReply (current_term k) g)"
  have "valid (runs_as c0 k (D @ [WState (hard k)]) [] [])
      (\<lambda>c. node_send frm (MRequestVoteReply (RequestVoteReply (current_term (me c)) g)) c)
      (\<lambda>_. runs_as c0 k (D @ [WState (hard k)]) [] [(frm, ?m)]) never_fails"
    by (rule valid_cong [where m' = "node_send frm ?m"], simp add: runs_me)
      (use run_send [of c0 k "D @ [WState (hard k)]" "[]" "[]" frm ?m] in simp)
  then show "valid (runs_as c0 k (D @ [WState (hard k)]) [] [])
      (block [\<lambda>c. node_send frm (MRequestVoteReply (RequestVoteReply (current_term (me c)) g)) c])
      (\<lambda>_. runs_as c0 k (D @ [WState (hard k)]) [] [(frm, ?m)]) never_fails"
    by (rule valid_block_Cons) (rule valid_block_Nil)
qed

lemma run_when_follow:
  assumes "b0 \<longleftrightarrow> t > current_term k"
  shows "valid (runs_as c0 k D [] []) (whenever (\<lambda>c. t > current_term (me c)) (become_follower t l))
     (\<lambda>_. runs_as c0 (if b0 then follow t l k else k) D [] []) never_fails"
proof (rule run_whenever [where ?b0.0 = b0])
  show "(t > current_term (me c)) = b0" if "runs_as c0 k D [] [] c" for c
    using assms by (simp add: runs_me [OF that])
  assume b0
  with run_become_follower [of c0 k D "[]" "[]" t l]
  show "valid (runs_as c0 k D [] []) (become_follower t l)
     (\<lambda>_. runs_as c0 (if b0 then follow t l k else k) D [] []) never_fails" by simp
qed simp

lemma up_to_date_runs: "runs_as c0 k D U M c \<Longrightarrow> up_to_date msg (me c) = up_to_date msg k"
  by (simp add: up_to_date_def runs_me)

lemma handles_ite:
  assumes "\<And>c. runs_as c0 k D [] [] c \<Longrightarrow> b c = b0"
    and "b0 \<Longrightarrow> handles c0 D k m h" and "\<not> b0 \<Longrightarrow> handles c0 D k n h"
  shows "handles c0 D k (ite b m n) h"
  using assms unfolding handles_def by (intro run_ite [where ?b0.0 = b0]) auto

lemma handles_request_vote:
  assumes "voted_for k \<noteq> Some NO_VOTE" and "rv_candidate_id msg \<noteq> NO_VOTE"
  shows "handles c0 D k (on_request_vote frm msg) (request_vote_spec frm msg k)"
proof -
  define k1 where "k1 = (if rv_term msg > current_term k then follow (rv_term msg) None k else k)"
  have v1: "voted_for k1 \<noteq> Some NO_VOTE" using assms(1) by (simp add: k1_def)
  let ?h = "request_vote_spec frm msg k"
  let ?ok = "voted_for k1 \<in> {None, Some (rv_candidate_id msg)} \<and> up_to_date msg k1"
  let ?k2 = "k1\<lparr>voted_for := Some (rv_candidate_id msg)\<rparr>"
  have h: "?h = (if rv_term msg < current_term k1 then reply_vote_spec frm False k1
      else if ?ok then reply_vote_spec frm True ?k2 else reply_vote_spec frm False k1)"
    by (simp add: request_vote_spec_def k1_def Let_def)
  have grant: "handles c0 D k1 (block [upd (\<lambda>m. m\<lparr>voted_for := Some (rv_candidate_id msg)\<rparr>), arm_election_timer,
      reply_vote frm True]) (reply_vote_spec frm True ?k2)"
  proof (rule handles_Cons [OF run_upd], goal_cases)
    case 6
    show ?case
      by (rule handles_Cons [OF run_arm_election], rule handles_one, rule handles_reply_vote) (use assms(2) in simp)
  qed (simp_all add: core_eq_iff)
  show ?thesis
    unfolding on_request_vote_def
  proof (rule handles_Cons [OF run_when_follow [OF refl]], rule handles_one, fold k1_def)
    show "handles c0 D k1 (ite (\<lambda>c. rv_term msg < current_term (me c)) (reply_vote frm False)
         (ite (\<lambda>c. voted_for (me c) \<in> {None, Some (rv_candidate_id msg)} \<and> up_to_date msg (me c))
            (block [upd (\<lambda>m. m\<lparr>voted_for := Some (rv_candidate_id msg)\<rparr>), arm_election_timer, reply_vote frm True])
            (reply_vote frm False))) ?h"
      unfolding h
    proof (rule handles_ite [where ?b0.0 = "rv_term msg < current_term k1"], goal_cases)
      case 3
      then show ?case
        using grant handles_reply_vote [OF v1]
        by (intro handles_ite [where ?b0.0 = ?ok]) (auto simp: runs_me up_to_date_runs)
    qed (use handles_reply_vote [OF v1] in \<open>simp_all add: runs_me\<close>)
  qed
qed

lemma handles_follow_persist:
  assumes "voted_for k \<noteq> Some NO_VOTE"
  shows "handles c0 D k (block [become_follower t l, persist, storage_sync])
     (follow t l k, [WState (hard (follow t l k))], [])"
  by (rule handles_Cons [OF run_become_follower], rule handles_persist_sync)
    (use assms in \<open>auto intro: valid_block_Nil\<close>)

lemma handles_request_vote_reply:
  assumes "voted_for k \<noteq> Some NO_VOTE"
  shows "handles c0 D k (on_request_vote_reply frm msg) (request_vote_reply_spec frm msg k)"
  unfolding on_request_vote_reply_def
proof (rule handles_ite [where ?b0.0 = "rvr_term msg > current_term k"], goal_cases)
  case 2
  then show ?case
    using handles_follow_persist [OF assms] by (simp add: request_vote_reply_spec_def Let_def)
next
  case 3
  let ?k1 = "k\<lparr>votes_granted := set_add frm (votes_granted k)\<rparr>"
  have count: "handles c0 D k (block [upd (\<lambda>m. m\<lparr>votes_granted := set_add frm (votes_granted m)\<rparr>),
       whenever (\<lambda>c. int (length (votes_granted (me c))) \<ge> majority (me c)) become_leader])
       (if int (length (votes_granted ?k1)) \<ge> majority ?k1 then (lead ?k1, [], replicate_all (lead ?k1)) else (?k1, [], []))"
  proof (rule handles_Cons [OF run_upd], goal_cases)
    case 6
    let ?b = "int (length (votes_granted ?k1)) \<ge> majority ?k1"
    have "valid (runs_as c0 ?k1 D [] [])
        (whenever (\<lambda>c. int (length (votes_granted (me c))) \<ge> majority (me c)) become_leader)
        (\<lambda>_. runs_as c0 (if ?b then lead ?k1 else ?k1) D [] (if ?b then replicate_all (lead ?k1) else [])) never_fails"
      using run_become_leader [of c0 ?k1 D "[]" "[]"]
      by (intro run_whenever [where ?b0.0 = ?b]) (auto simp: runs_me majority_def cluster_size_def)
    from handles_one [OF handles_no_write [OF this]] show ?case by (auto split: if_splits)
  qed (simp_all add: core_eq_iff)
  show ?case
  proof (rule handles_ite [where ?b0.0 = "role k \<noteq> CANDIDATE \<or> rvr_term msg \<noteq> current_term k"], goal_cases)
    case 2
    with 3 have "request_vote_reply_spec frm msg k = (k, [], [])" by (auto simp: request_vote_reply_spec_def)
    then show ?case by (simp add: handles_ret)
  next
    case b: 3
    with 3 show ?case
      using count by (simp add: request_vote_reply_spec_def Let_def handles_ret)
  qed (simp add: runs_me)
qed (simp add: runs_me)

lemma handles_election_timeout:
  assumes "node_id k \<noteq> NO_VOTE"
  shows "handles c0 D k on_election_timeout (election_timeout_spec k)"
proof -
  define k1 where "k1 = k\<lparr>current_term := current_term k + 1, role := CANDIDATE, leader_id := None,
                 votes_granted := [node_id k], voted_for := Some (node_id k)\<rparr>"
  have f: "voted_for k1 \<noteq> Some NO_VOTE" "length (votes_granted k1) = 1"
    using assms by (simp_all add: k1_def)
  let ?D = "D @ [WState (hard k1)]"
  let ?rv = "MRequestVote (RequestVote (current_term k1) (node_id k1) (last_index (rlog k1)) (last_term (rlog k1)))"
  let ?send = "\<lambda>c. broadcast (MRequestVote (RequestVote (current_term (me c)) (node_id (me c))
                (last_index (rlog (me c))) (last_term (rlog (me c))))) c"
  define win where "win \<longleftrightarrow> 1 \<ge> majority k1"
  define k2 where "k2 = (if win then lead k1 else k1)"
  define ms where "ms = (if win then replicate_all (lead k1) else map (\<lambda>p. (p, ?rv)) (peers k1))"
  have spec: "election_timeout_spec k = (k2, [WState (hard k1)], ms)"
    by (simp add: election_timeout_spec_def Let_def k1_def k2_def ms_def win_def)
  have lost: "valid (runs_as c0 k1 ?D [] []) ?send
      (\<lambda>_. runs_as c0 k1 ?D [] (map (\<lambda>p. (p, ?rv)) (peers k1))) never_fails"
    by (rule valid_cong [where m' = "broadcast ?rv"])
      (use run_broadcast [of c0 k1 ?D "[]" "[]" ?rv] in \<open>simp_all add: runs_me\<close>)
  have last: "valid (runs_as c0 k1 ?D [] []) (ite (\<lambda>c. int (length (votes_granted (me c))) \<ge> majority (me c))
      become_leader ?send) (\<lambda>_. runs_as c0 k2 ?D [] ms) never_fails"
  proof (rule run_ite [where ?b0.0 = win])
    show "(int (length (votes_granted (me c))) \<ge> majority (me c)) = win" if "runs_as c0 k1 ?D [] [] c" for c
      using f(2) by (simp add: runs_me [OF that] majority_def cluster_size_def win_def)
  qed (use lost run_become_leader [of c0 k1 ?D "[]" "[]"] in \<open>simp_all add: k2_def ms_def\<close>)
  have rest: "handles c0 D k1 (block [arm_election_timer, persist, storage_sync,
      ite (\<lambda>c. int (length (votes_granted (me c))) \<ge> majority (me c)) become_leader ?send])
      (k2, [WState (hard k1)], ms)"
    by (rule handles_Cons [OF run_arm_election], rule handles_persist_sync [OF f(1)],
        rule valid_block_Cons [OF last], rule valid_block_Nil)
  show ?thesis
    unfolding on_election_timeout_def spec
  proof (rule handles_Cons [OF run_upd], goal_cases)
    case 6
    show ?case
    proof (rule handles_Cons [OF run_become_candidate], rule handles_Cons [OF run_upd], goal_cases)
      case 6
      then show ?case using rest by (simp add: k1_def)
    qed (simp_all add: core_eq_iff)
  qed (simp_all add: core_eq_iff)
qed

section \<open>Taking entries from a leader\<close>

lemma run_on_log:
  assumes "nde m" and "\<And>x l. m (rlog k) = Done x l \<Longrightarrow> log_wf (rlog k) \<Longrightarrow> l = g \<and> log_wf g"
  shows "valid (runs_as c0 k D U M) (on_log m) (\<lambda>_. runs_as c0 (k\<lparr>rlog := g\<rparr>) D U M) never_fails"
proof (rule valid_nde)
  show "nde (on_log m)" unfolding on_log_def by (rule nde_on_part [OF assms(1)])
  fix c x c'
  assume c: "runs_as c0 k D U M c" and "on_log m c = Done x c'"
  then obtain l where l: "m (rlog k) = Done x l" and c': "c' = c\<lparr>me := (me c)\<lparr>rlog := l\<rparr>\<rparr>"
    by (auto simp: on_log_def runs_me)
  from assms(2) [OF l runs_log_wf [OF c]] c show "runs_as c0 (k\<lparr>rlog := g\<rparr>) D U M c'"
    by (auto simp: runs_as_def c' core_eq_iff)
qed

lemma nde_log_append: "nde (log_append es)"
proof -
  have "log_append es l = Raised e l' \<Longrightarrow> \<not> is_disk_error e" for l e l'
    by (induction es l rule: log_append.induct) (auto simp: Let_def split: if_splits)
  then show ?thesis by (simp add: nde_def)
qed

lemma run_log_append:
  "valid (runs_as c0 k D U M) (on_log (log_append es)) (\<lambda>_. runs_as c0 (k\<lparr>rlog := rlog k @ es\<rparr>) D U M) never_fails"
  by (rule run_on_log [OF nde_log_append]) (auto dest: log_append_Done)

lemma run_log_truncate:
  "valid (runs_as c0 k D U M) (on_log (log_truncate_from i))
     (\<lambda>_. runs_as c0 (k\<lparr>rlog := take (nat (i - 1)) (rlog k)\<rparr>) D U M) never_fails"
  by (rule run_on_log) (auto simp: nde_def log_truncate_from_def log_wf_take split: if_splits)

definition take_one :: "Index \<Rightarrow> log_entry \<Rightarrow> raft_log \<Rightarrow> raft_log \<times> wal_rec list \<times> bool" where
  "take_one i e l =
     (if i \<le> last_index l then
        (if trm l i = le_term e then (l, [], False) else (take (nat (i - 1)) l @ [e], [WTruncate i], True))
      else (l @ [e], [], True))"

lemma take_spec_Cons:
  "take_spec i (e # es) l = (case take_one i e l of (l1, ws1, took) \<Rightarrow>
     case take_spec (i + 1) es l1 of (l2, ws2, app) \<Rightarrow> (l2, ws1 @ ws2, if took then e # app else app))"
  by (simp add: take_one_def split: prod.split)

declare take_spec.simps(2) [simp del]

lemma run_take_entry:
  "valid (runs_as c0 k D U []) (take_entry i e)
     (\<lambda>took c. took = snd (snd (take_one i e (rlog k)))
        \<and> runs_as c0 (k\<lparr>rlog := fst (take_one i e (rlog k))\<rparr>) D (U @ fst (snd (take_one i e (rlog k)))) [] c)
     (or_fails c0 D (U @ fst (snd (take_one i e (rlog k)))))"
proof -
  let ?post = "\<lambda>l V took (took' :: bool) c. took' = took \<and> runs_as c0 (k\<lparr>rlog := l\<rparr>) D V [] c"
  let ?app = "bind (on_log (log_append [e])) (\<lambda>_. ret True)"
  have app: "valid (runs_as c0 (k\<lparr>rlog := l\<rparr>) D V []) ?app (?post (l @ [e]) V True) never_fails" for l V
    using run_log_append [of c0 "k\<lparr>rlog := l\<rparr>" D V "[]" "[e]"]
    by (intro valid_bind [where R = "\<lambda>_. runs_as c0 (k\<lparr>rlog := l @ [e]\<rparr>) D V []"]) (simp_all add: valid_def ret_def)
  have k: "k\<lparr>rlog := rlog k\<rparr> = k" by simp
  show ?thesis
    unfolding take_entry_def Let_def
  proof (rule run_ite [where ?b0.0 = "i \<le> last_index (rlog k)"])
    assume le: "i \<le> last_index (rlog k)"
    let ?body = "\<lambda>t. if t = le_term e then ret False
          else bind (on_log (log_truncate_from i)) (\<lambda>_. bind (persist_truncation i) (\<lambda>_. ?app))"
    let ?Q = "\<lambda>took c. took = snd (snd (take_one i e (rlog k)))
        \<and> runs_as c0 (k\<lparr>rlog := fst (take_one i e (rlog k))\<rparr>) D (U @ fst (snd (take_one i e (rlog k)))) [] c"
    let ?E = "or_fails c0 D (U @ fst (snd (take_one i e (rlog k))))"
    have body: "valid (runs_as c0 k D U []) (?body (trm (rlog k) i)) ?Q ?E"
    proof (cases "trm (rlog k) i = le_term e")
      case True
      then show ?thesis using le by (simp add: take_one_def valid_def ret_def)
    next
      case False
      let ?l = "take (nat (i - 1)) (rlog k)"
      have "valid (runs_as c0 (k\<lparr>rlog := ?l\<rparr>) D U []) (bind (persist_truncation i) (\<lambda>_. ?app))
          (?post (?l @ [e]) (U @ [WTruncate i]) True) (or_fails c0 D (U @ [WTruncate i]))"
        by (rule valid_bind [OF run_persist_truncation], rule or_fails_lift, rule app)
      then have "valid (runs_as c0 k D U []) (bind (on_log (log_truncate_from i)) (\<lambda>_. bind (persist_truncation i) (\<lambda>_. ?app)))
          (?post (?l @ [e]) (U @ [WTruncate i]) True) (or_fails c0 D (U @ [WTruncate i]))"
        by (rule valid_bind [OF or_fails_lift [OF run_log_truncate]])
      then show ?thesis using le False by (simp add: take_one_def)
    qed
    have "valid (runs_as c0 k D U []) (bind (of_sum (term_at (rlog k) i)) ?body) ?Q ?E"
    proof (cases "log_wf (rlog k)")
      case True
      show ?thesis
      proof (rule run_of_sum_fails)
        fix t
        assume "term_at (rlog k) i = Inr t"
        then have "t = trm (rlog k) i" by (auto simp: term_at_wf [OF True] split: if_splits)
        with body show "valid (runs_as c0 k D U []) (?body t) ?Q ?E" by simp
      qed (rule term_at_errors)
    next
      case False
      then show ?thesis by (simp add: valid_def runs_as_def)
    qed
    then show "valid (runs_as c0 k D U []) (bind (\<lambda>c. of_sum (term_at (rlog (me c)) i) c) ?body) ?Q ?E"
      by (rule valid_cong [rotated]) (simp add: bind_def runs_me)
  next
    assume "\<not> i \<le> last_index (rlog k)"
    then show "valid (runs_as c0 k D U []) ?app (\<lambda>took c. took = snd (snd (take_one i e (rlog k)))
        \<and> runs_as c0 (k\<lparr>rlog := fst (take_one i e (rlog k))\<rparr>) D (U @ fst (snd (take_one i e (rlog k)))) [] c)
        (or_fails c0 D (U @ fst (snd (take_one i e (rlog k)))))"
      using or_fails_lift [OF app [of "rlog k" U], of c0 D U] by (simp add: take_one_def k)
  qed (simp add: runs_me)
qed

lemma run_take_entries:
  "valid (runs_as c0 k D U []) (take_entries i es app)
     (\<lambda>app' c. app' = app @ snd (snd (take_spec i es (rlog k)))
        \<and> runs_as c0 (k\<lparr>rlog := fst (take_spec i es (rlog k))\<rparr>) D (U @ fst (snd (take_spec i es (rlog k)))) [] c)
     (or_fails c0 D (U @ fst (snd (take_spec i es (rlog k)))))"
proof (induction es arbitrary: i app k U)
  case Nil
  then show ?case by (simp add: valid_def ret_def)
next
  case (Cons e es)
  obtain l1 ws1 took where one: "take_one i e (rlog k) = (l1, ws1, took)" by (cases "take_one i e (rlog k)")
  obtain l2 ws2 app2 where rest: "take_spec (i + 1) es l1 = (l2, ws2, app2)" by (cases "take_spec (i + 1) es l1")
  show ?case
    unfolding take_entries.simps
  proof (rule valid_bind)
    show "valid (runs_as c0 k D U []) (take_entry i e)
       (\<lambda>tk c. tk = took \<and> runs_as c0 (k\<lparr>rlog := l1\<rparr>) D (U @ ws1) [] c)
       (or_fails c0 D (U @ fst (snd (take_spec i (e # es) (rlog k)))))"
      using or_fails_prefix [OF run_take_entry [of c0 k D U i e], of ws2]
      by (simp add: one rest take_spec_Cons)
    fix tk
    show "valid (\<lambda>c. tk = took \<and> runs_as c0 (k\<lparr>rlog := l1\<rparr>) D (U @ ws1) [] c)
        (take_entries (i + 1) es (if tk then app @ [e] else app))
        (\<lambda>app' c. app' = app @ snd (snd (take_spec i (e # es) (rlog k)))
          \<and> runs_as c0 (k\<lparr>rlog := fst (take_spec i (e # es) (rlog k))\<rparr>) D
              (U @ fst (snd (take_spec i (e # es) (rlog k)))) [] c)
        (or_fails c0 D (U @ fst (snd (take_spec i (e # es) (rlog k)))))"
    proof (cases "tk = took")
      case False
      then show ?thesis by (simp add: valid_def)
    next
      case True
      show ?thesis
        by (rule valid_weaken [OF Cons.IH [of "k\<lparr>rlog := l1\<rparr>" "U @ ws1" "i + 1" "if tk then app @ [e] else app"]])
          (auto simp: True one rest take_spec_Cons)
    qed
  qed
qed

lemma run_reply:
  assumes "\<And>c. runs_as c0 k D U M c \<Longrightarrow> msg c = g"
  shows "valid (runs_as c0 k D U M) (\<lambda>c. node_send to (msg c) c) (\<lambda>_. runs_as c0 k D U (M @ [(to, g)])) never_fails"
  by (rule valid_cong [where m' = "node_send to g"], simp add: assms, rule run_send)

lemma handles_append_entries:
  assumes "voted_for k \<noteq> Some NO_VOTE"
  shows "handles c0 D k (on_append_entries frm msg) (append_entries_spec frm msg k)"
proof (cases "ae_term msg < current_term k")
  case True
  have spec: "append_entries_spec frm msg k
      = (k, [], [(frm, MAppendEntriesReply (AppendEntriesReply (current_term k) False 0))])"
    using True by (simp add: append_entries_spec_def)
  have first: "valid (runs_as c0 k D [] []) (whenever (\<lambda>c. ae_term msg > current_term (me c))
        (become_follower (ae_term msg) (Some (ae_leader_id msg)))) (\<lambda>_. runs_as c0 k D [] []) never_fails"
    using run_when_follow [where ?b0.0 = False and t = "ae_term msg" and k = k] True by simp
  show ?thesis
    unfolding on_append_entries_def spec
  proof (rule handles_Cons [OF first], rule handles_one, rule handles_ite [where ?b0.0 = True], goal_cases)
    case 2
    show ?case
      using run_reply [of c0 k D "[]" "[]" "\<lambda>c. MAppendEntriesReply (AppendEntriesReply (current_term (me c)) False 0)"
          "MAppendEntriesReply (AppendEntriesReply (current_term k) False 0)" frm]
      by (intro handles_no_write) (simp add: runs_me)
  qed (use True in \<open>simp_all add: runs_me\<close>)
next
  case False
  define k1 where "k1 = follow (ae_term msg) (Some (ae_leader_id msg)) k"
  let ?prev = "ae_prev_log_index msg"
  let ?k0 = "if ae_term msg > current_term k then k1 else k"
  have k0: "follow (ae_term msg) (Some (ae_leader_id msg)) ?k0 = k1" by (auto simp: k1_def follow_def)
  have cur: "current_term k1 = ae_term msg" using False by (simp add: k1_def)
  have v1: "voted_for k1 \<noteq> Some NO_VOTE" using assms by (simp add: k1_def)
  have first: "valid (runs_as c0 k D [] []) (whenever (\<lambda>c. ae_term msg > current_term (me c))
        (become_follower (ae_term msg) (Some (ae_leader_id msg)))) (\<lambda>_. runs_as c0 ?k0 D [] []) never_fails"
    unfolding k1_def by (rule run_when_follow [OF refl])
  let ?no = "MAppendEntriesReply (AppendEntriesReply (current_term k1) False 0)"
  let ?last_new = "?prev + int (length (ae_entries msg))"
  let ?yes = "MAppendEntriesReply (AppendEntriesReply (current_term k1) True ?last_new)"
  let ?tail = "\<lambda>consistent. if \<not> consistent then
                block [persist, storage_sync,
                  (\<lambda>c. node_send frm (MAppendEntriesReply (AppendEntriesReply (current_term (me c)) False 0)) c)]
              else bind (take_entries (?prev + 1) (ae_entries msg) []) (\<lambda>appended.
                let last_new = ?last_new in
                block [persist_entries appended, persist, storage_sync,
                  whenever (\<lambda>c. ae_leader_commit msg > commit_index (me c))
                    (block [upd (\<lambda>m. m\<lparr>commit_index := min (ae_leader_commit msg) last_new\<rparr>), apply_committed]),
                  (\<lambda>c. node_send frm (MAppendEntriesReply
                     (AppendEntriesReply (current_term (me c)) True last_new)) c)])"
  obtain l ws app where take: "take_spec (?prev + 1) (ae_entries msg) (rlog k1) = (l, ws, app)"
    by (cases "take_spec (?prev + 1) (ae_entries msg) (rlog k1)")
  define k2 where "k2 = k1\<lparr>rlog := l\<rparr>"
  define k3ms where "k3ms = (if ae_leader_commit msg > commit_index k2
      then apply_committed_spec (k2\<lparr>commit_index := min (ae_leader_commit msg) ?last_new\<rparr>) else (k2, []))"
  let ?W = "ws @ map WEntry app @ [WState (hard k1)]"
  have spec: "append_entries_spec frm msg k = (if \<not> has_entry (rlog k1) ?prev \<or> trm (rlog k1) ?prev \<noteq> ae_prev_log_term msg
      then (k1, [WState (hard k1)], [(frm, ?no)])
      else (fst k3ms, ?W, snd k3ms @ [(frm, ?yes)]))"
    using False by (simp add: append_entries_spec_def k1_def [symmetric] Let_def take k2_def k3ms_def case_prod_beta)
  have hard2: "hard k2 = hard k1" by (simp add: hard_def k2_def)
  have apply_fixed: "current_term (fst (apply_committed_spec k)) = current_term k" for k
  proof -
    have "current_term (fst (apply_spec n k)) = current_term k" for n k
      by (induction n arbitrary: k) (auto simp: apply_one_def case_prod_beta Let_def split: option.splits)
    then show ?thesis by (simp add: apply_committed_spec_def)
  qed
  have no: "handles c0 D k1 (?tail False) (k1, [WState (hard k1)], [(frm, ?no)])"
  proof (simp, rule handles_persist_sync [OF v1])
    have "valid (runs_as c0 k1 (D @ [WState (hard k1)]) [] [])
      (\<lambda>c. node_send frm (MAppendEntriesReply (AppendEntriesReply (current_term (me c)) False 0)) c)
      (\<lambda>_. runs_as c0 k1 (D @ [WState (hard k1)]) [] ([] @ [(frm, ?no)])) never_fails"
      by (rule run_reply) (simp add: runs_me)
    then show "valid (runs_as c0 k1 (D @ [WState (hard k1)]) [] [])
      (block [\<lambda>c. node_send frm (MAppendEntriesReply (AppendEntriesReply (current_term (me c)) False 0)) c])
      (\<lambda>_. runs_as c0 k1 (D @ [WState (hard k1)]) [] [(frm, ?no)]) never_fails"
      by (intro valid_block_Cons [OF _ valid_block_Nil]) simp_all
  qed
  have yes: "handles c0 D k1 (?tail True) (fst k3ms, ?W, snd k3ms @ [(frm, ?yes)])"
    unfolding handles_def Let_def fst_conv snd_conv not_True_eq_False if_False
  proof (rule valid_bind)
    show "valid (runs_as c0 k1 D [] []) (take_entries (?prev + 1) (ae_entries msg) [])
        (\<lambda>app' c. app' = app \<and> runs_as c0 k2 D ws [] c) (or_fails c0 D ?W)"
      using or_fails_prefix [OF run_take_entries [of c0 k1 D "[]" "?prev + 1" "ae_entries msg" "[]"],
          of "map WEntry app @ [WState (hard k1)]"] by (simp add: take k2_def)
    fix app'
    let ?D = "D @ ?W"
    let ?ret = "\<lambda>c. node_send frm (MAppendEntriesReply (AppendEntriesReply (current_term (me c)) True ?last_new)) c"
    let ?commit = "whenever (\<lambda>c. ae_leader_commit msg > commit_index (me c))
        (block [upd (\<lambda>m. m\<lparr>commit_index := min (ae_leader_commit msg) ?last_new\<rparr>), apply_committed])"
    have commit: "valid (runs_as c0 k2 ?D [] []) ?commit (\<lambda>_. runs_as c0 (fst k3ms) ?D [] (snd k3ms)) never_fails"
    proof (rule run_whenever [where ?b0.0 = "ae_leader_commit msg > commit_index k2"])
      assume gt: "ae_leader_commit msg > commit_index k2"
      have one: "valid (runs_as c0 k2 ?D [] []) (upd (\<lambda>m. m\<lparr>commit_index := min (ae_leader_commit msg) ?last_new\<rparr>))
          (\<lambda>_. runs_as c0 (k2\<lparr>commit_index := min (ae_leader_commit msg) ?last_new\<rparr>) ?D [] []) never_fails"
        by (rule run_upd) (simp_all add: core_eq_iff)
      show "valid (runs_as c0 k2 ?D [] []) (block [upd (\<lambda>m. m\<lparr>commit_index := min (ae_leader_commit msg) ?last_new\<rparr>),
          apply_committed]) (\<lambda>_. runs_as c0 (fst k3ms) ?D [] (snd k3ms)) never_fails"
        by (rule valid_block_Cons [OF one], rule valid_block_Cons [OF run_apply_committed], rule valid_block_Nil)
          (use gt in \<open>simp add: k3ms_def\<close>)
    qed (auto simp: runs_me k3ms_def)
    have "current_term (fst k3ms) = current_term k1"
      by (simp add: k3ms_def apply_fixed k2_def)
    then have reply: "valid (runs_as c0 (fst k3ms) ?D [] (snd k3ms)) ?ret
        (\<lambda>_. runs_as c0 (fst k3ms) ?D [] (snd k3ms @ [(frm, ?yes)])) never_fails"
      by (intro run_reply) (simp add: runs_me)
    have v2: "voted_for k2 \<noteq> Some NO_VOTE" using v1 by (simp add: k2_def)
    have st: "valid (runs_as c0 k2 D (ws @ map WEntry app) []) persist
        (\<lambda>_. runs_as c0 k2 D ?W []) (or_fails c0 D ?W)"
      using run_persist [OF v2, of c0 D "ws @ map WEntry app"] by (simp add: hard2)
    have en: "valid (runs_as c0 k2 D ws []) (persist_entries app) (\<lambda>_. runs_as c0 k2 D (ws @ map WEntry app) [])
        (or_fails c0 D ?W)"
      using or_fails_prefix [OF run_persist_entries [of c0 k2 D ws app], of "[WState (hard k1)]"] by simp
    have "valid (runs_as c0 k2 D ws []) (block [persist_entries app, persist, storage_sync, ?commit, ?ret])
        (\<lambda>_. runs_as c0 (fst k3ms) ?D [] (snd k3ms @ [(frm, ?yes)])) (or_fails c0 D ?W)"
      by (rule valid_block_Cons [OF en], rule valid_block_Cons [OF st],
          rule valid_block_Cons [OF or_fails_lift [OF run_sync]], rule valid_block_Cons [OF or_fails_lift [OF commit]],
          rule valid_block_Cons [OF or_fails_lift [OF reply]], rule valid_block_Nil)
    then show "valid (\<lambda>c. app' = app \<and> runs_as c0 k2 D ws [] c)
        (block [persist_entries app', persist, storage_sync, ?commit, ?ret])
        (\<lambda>_. runs_as c0 (fst k3ms) ?D [] (snd k3ms @ [(frm, ?yes)])) (or_fails c0 D ?W)"
      by (cases "app' = app") (simp_all add: valid_def)
  qed
  have branch: "handles c0 D k1 (bind (of_sum (consistent_at ?prev (ae_prev_log_term msg) (rlog k1))) ?tail)
      (append_entries_spec frm msg k)"
    unfolding handles_def
  proof (cases "log_wf (rlog k1)")
    case True
    let ?ok = "has_entry (rlog k1) ?prev \<and> trm (rlog k1) ?prev = ae_prev_log_term msg"
    have "consistent_at ?prev (ae_prev_log_term msg) (rlog k1) = Inr ?ok"
      by (auto simp: consistent_at_def term_at_wf [OF True])
    then have "bind (of_sum (consistent_at ?prev (ae_prev_log_term msg) (rlog k1))) ?tail = ?tail ?ok"
      by (intro ext) (simp add: bind_def of_sum_def)
    then show "valid (runs_as c0 k1 D [] []) (bind (of_sum (consistent_at ?prev (ae_prev_log_term msg) (rlog k1))) ?tail)
        (\<lambda>_. runs_as c0 (fst (append_entries_spec frm msg k)) (D @ fst (snd (append_entries_spec frm msg k))) []
          (snd (snd (append_entries_spec frm msg k)))) (or_fails c0 D (fst (snd (append_entries_spec frm msg k))))"
      using yes no unfolding handles_def spec by (cases ?ok) simp_all
  next
    case False
    then show "valid (runs_as c0 k1 D [] []) (bind (of_sum (consistent_at ?prev (ae_prev_log_term msg) (rlog k1))) ?tail)
        (\<lambda>_. runs_as c0 (fst (append_entries_spec frm msg k)) (D @ fst (snd (append_entries_spec frm msg k))) []
          (snd (snd (append_entries_spec frm msg k)))) (or_fails c0 D (fst (snd (append_entries_spec frm msg k))))"
      by (simp add: valid_def runs_as_def)
  qed
  have second: "valid (runs_as c0 ?k0 D [] []) (become_follower (ae_term msg) (Some (ae_leader_id msg)))
      (\<lambda>_. runs_as c0 k1 D [] []) never_fails"
    using run_become_follower [of c0 ?k0 D "[]" "[]" "ae_term msg" "Some (ae_leader_id msg)"] by (simp only: k0)
  show ?thesis
    unfolding on_append_entries_def
  proof (rule handles_Cons [OF first], rule handles_one, rule handles_ite [where ?b0.0 = False], goal_cases)
    case 3
    show ?case
      by (rule handles_Cons [OF second], rule handles_Cons [OF run_arm_election], rule handles_one,
          rule handles_cong [OF _ branch]) (simp add: bind_def runs_me)
  qed (use False in \<open>auto simp: runs_me k1_def\<close>)
qed

lemma handles_append_entries_reply:
  assumes "voted_for k \<noteq> Some NO_VOTE"
  shows "handles c0 D k (on_append_entries_reply frm msg) (append_entries_reply_spec frm msg k)"
  unfolding on_append_entries_reply_def
proof (rule handles_ite [where ?b0.0 = "aer_term msg > current_term k"], goal_cases)
  case 2
  then show ?case
    using handles_follow_persist [OF assms] by (simp add: append_entries_reply_spec_def Let_def)
next
  case gt: 3
  let ?i = "max (match_for k frm) (aer_match_index msg)"
  let ?k1 = "k\<lparr>match_index := (match_index k)(frm \<mapsto> ?i), next_index := (next_index k)(frm \<mapsto> ?i + 1)\<rparr>"
  let ?k2 = "k\<lparr>next_index := (next_index k)(frm \<mapsto> max 1 (next_for k frm - 1))\<rparr>"
  have ok: "handles c0 D k (block [upd (\<lambda>m. let i = max (match_for m frm) (aer_match_index msg)
                     in m\<lparr>match_index := (match_index m)(frm \<mapsto> i), next_index := (next_index m)(frm \<mapsto> i + 1)\<rparr>),
                   advance_commit_index]) (fst (advance_commit_spec ?k1), [], snd (advance_commit_spec ?k1))"
  proof (rule handles_Cons [OF run_upd], goal_cases)
    case 6
    show ?case
      using handles_one [OF handles_no_write [OF run_advance_commit [of c0 ?k1 D "[]" "[]"]]] by (simp add: Let_def)
  qed (auto simp: core_eq_iff Let_def match_for_def split: option.split)
  have no: "handles c0 D k (block [upd (\<lambda>m. m\<lparr>next_index := (next_index m)(frm \<mapsto> max 1 (next_for m frm - 1))\<rparr>),
      replicate_to frm]) (?k2, [], [(frm, replicate_msg ?k2 frm)])" if "role k = LEADER"
  proof (rule handles_Cons [OF run_upd], goal_cases)
    case 6
    show ?case
      using handles_one [OF handles_no_write [OF run_replicate [of ?k2 c0 D "[]" "[]" frm]]] that by simp
  qed (auto simp: core_eq_iff next_for_def split: option.split)
  show ?case
  proof (rule handles_ite [where ?b0.0 = "role k \<noteq> LEADER \<or> aer_term msg \<noteq> current_term k"], goal_cases)
    case 2
    with gt have "append_entries_reply_spec frm msg k = (k, [], [])" by (auto simp: append_entries_reply_spec_def)
    then show ?case by (simp add: handles_ret)
  next
    case 3
    with gt ok no show ?case
      by (simp add: append_entries_reply_spec_def Let_def case_prod_beta)
  qed (simp add: runs_me)
qed (simp add: runs_me)

lemma handles_client_request:
  "handles c0 D k (on_client_request frm msg) (client_request_spec frm msg k)"
  unfolding on_client_request_def
proof (rule handles_ite [where ?b0.0 = "role k \<noteq> LEADER"], goal_cases)
  case 2
  let ?g = "MClientReply (ClientReply (creq_request_id msg) False (leader_id k) None)"
  have "valid (runs_as c0 k D [] [])
      (\<lambda>c. node_send frm (MClientReply (ClientReply (creq_request_id msg) False (leader_id (me c)) None)) c)
      (\<lambda>_. runs_as c0 k D [] ([] @ [(frm, ?g)])) never_fails"
    by (rule run_reply) (simp add: runs_me)
  with 2 show ?case by (simp add: client_request_spec_def handles_no_write)
next
  case 3
  define e where "e = log_create (rlog k) (current_term k) (creq_command msg)"
  let ?a = "k\<lparr>rlog := rlog k @ [e]\<rparr>"
  define k1 where "k1 = ?a\<lparr>pending_clients := (pending_clients ?a)(le_index e \<mapsto> (frm, creq_request_id msg))\<rparr>"
  have lead: "role k1 = LEADER" using 3 by (simp add: k1_def)
  let ?D = "D @ [WEntry e]"
  let ?stmts = "[on_log (log_append [e]), persist_entries [e], storage_sync,
            upd (\<lambda>m. m\<lparr>pending_clients := (pending_clients m)(le_index e \<mapsto> (frm, creq_request_id msg))\<rparr>),
            (\<lambda>c. for_each (peers (me c)) replicate_to c), advance_commit_index]"
  have spec: "client_request_spec frm msg k
      = (fst (advance_commit_spec k1), [WEntry e], replicate_all k1 @ snd (advance_commit_spec k1))"
    using 3 by (simp add: client_request_spec_def Let_def e_def [symmetric] k1_def case_prod_beta)
  have u: "valid (runs_as c0 ?a ?D [] []) (upd (\<lambda>m. m\<lparr>pending_clients := (pending_clients m)(le_index e \<mapsto> (frm, creq_request_id msg))\<rparr>))
      (\<lambda>_. runs_as c0 k1 ?D [] []) never_fails"
    unfolding k1_def by (rule run_upd) (simp_all add: core_eq_iff)
  have rep: "valid (runs_as c0 k1 ?D [] []) (\<lambda>c. for_each (peers (me c)) replicate_to c)
      (\<lambda>_. runs_as c0 k1 ?D [] (replicate_all k1)) never_fails"
    using run_replicate_all [OF lead, of c0 ?D "[]" "[]"] by simp
  have per: "valid (runs_as c0 ?a D [] []) (persist_entries [e]) (\<lambda>_. runs_as c0 ?a D [WEntry e] [])
      (or_fails c0 D [WEntry e])"
    using run_persist_entries [of c0 ?a D "[]" "[e]"] by simp
  have "handles c0 D k (block ?stmts) (client_request_spec frm msg k)"
    unfolding handles_def spec fst_conv snd_conv
    by (rule valid_block_Cons [OF or_fails_lift [OF run_log_append]], rule valid_block_Cons [OF per],
        rule valid_block_Cons [OF or_fails_lift [OF run_sync]], rule valid_block_Cons [OF or_fails_lift [OF u]],
        rule valid_block_Cons [OF or_fails_lift [OF rep]], rule valid_block_Cons [OF or_fails_lift [OF run_advance_commit]],
        rule valid_block_Nil)
  then show ?case
    by (rule handles_cong [rotated]) (simp add: Let_def runs_me e_def)
qed (simp add: runs_me)

text \<open>Which messages and states the handlers are specified for: node 0, whose vote the disk format
  cannot hold, neither votes nor stands.\<close>

definition voter_ok :: "rnode \<Rightarrow> bool" where
  "voter_ok k \<longleftrightarrow> voted_for k \<noteq> Some NO_VOTE \<and> node_id k \<noteq> NO_VOTE"

definition msg_ok :: "message \<Rightarrow> bool" where
  "msg_ok m \<longleftrightarrow> (\<forall>rv. m = MRequestVote rv \<longrightarrow> rv_candidate_id rv \<noteq> NO_VOTE)"

lemma handles_dispatch:
  assumes "voter_ok k" and "msg_ok msg"
  shows "handles c0 D k (dispatch frm msg) (dispatch_spec frm msg k)"
  using assms
  by (cases msg) (simp_all add: voter_ok_def msg_ok_def handles_request_vote handles_request_vote_reply
      handles_append_entries handles_append_entries_reply handles_client_request handles_ret)

lemma handles_heartbeats: "role k = LEADER \<Longrightarrow> handles c0 D k send_heartbeats (heartbeat_spec k)"
  unfolding heartbeat_spec_def by (rule handles_no_write) (use run_send_heartbeats [of k c0 D "[]" "[]"] in simp)

end
