(* ===== verification/Node_Facts.thy ===== *)
theory Node_Facts
  imports Node_Refines
begin

text \<open>
  Facts about the specifications of the handlers: what an AppendEntries does to a log, that the records
  a handler makes durable rebuild its hard state and log, how term and vote move, and the rules of the
  protocol that the handlers follow. The properties at the end carry them to the code.
\<close>

declare block.simps [simp del]

section \<open>What an AppendEntries does to the log\<close>

text \<open>\<open>matching\<close> counts the leading entries of the message that the log has already.\<close>

fun matching :: "Index \<Rightarrow> log_entry list \<Rightarrow> raft_log \<Rightarrow> nat" where
  "matching i [] l = 0"
| "matching i (e # es) l =
     (if i \<le> int (length l) \<and> trm l i = le_term e then Suc (matching (i + 1) es l) else 0)"

definition merge_log :: "Index \<Rightarrow> log_entry list \<Rightarrow> raft_log \<Rightarrow> raft_log" where
  "merge_log i es l =
     (let m = matching i es l
      in if m = length es then l else take (nat (i - 1) + m) l @ drop m es)"

lemma matching_agrees:
  "p < matching i es l \<Longrightarrow> i + int p \<le> int (length l) \<and> trm l (i + int p) = le_term (es ! p)"
proof (induction i es l arbitrary: p rule: matching.induct)
  case (2 i e es l)
  then show ?case by (cases p) (auto simp: algebra_simps split: if_splits)
qed simp

lemma matching_le: "matching i es l \<le> length es"
  by (induction i es l rule: matching.induct) auto

lemma take_one_keeps:
  "int n < i \<Longrightarrow> n \<le> length l \<Longrightarrow> take_one i e l = (l1, ws, took) \<Longrightarrow> take n l1 = take n l \<and> n \<le> length l1"
  by (auto simp: take_one_def min_def split: if_splits)

lemma take_spec_keeps:
  "int n < i \<Longrightarrow> n \<le> length l \<Longrightarrow> take_spec i es l = (l', ws, app) \<Longrightarrow> take n l' = take n l \<and> n \<le> length l'"
proof (induction es arbitrary: i l l' ws app)
  case Nil
  then show ?case by simp
next
  case (Cons e es)
  obtain l1 ws1 took where one: "take_one i e l = (l1, ws1, took)" by (cases "take_one i e l")
  obtain l2 ws2 app2 where rest: "take_spec (i + 1) es l1 = (l2, ws2, app2)" by (cases "take_spec (i + 1) es l1")
  have "l' = l2" using Cons.prems(3) one rest by (simp add: take_spec_Cons)
  with take_one_keeps [OF Cons.prems(1,2) one] Cons.IH [OF _ _ rest] Cons.prems(1) show ?case by simp
qed

lemma take_spec_appends:
  "log_wf l \<Longrightarrow> log_wf l' \<Longrightarrow> take_spec (int (length l) + 1) es l = (l', ws, app) \<Longrightarrow>
     l' = l @ es \<and> ws = [] \<and> app = es"
proof (induction es arbitrary: l l' ws app)
  case Nil
  then show ?case by simp
next
  case (Cons e es)
  have one: "take_one (int (length l) + 1) e l = (l @ [e], [], True)"
    using Cons.prems(1) by (simp add: take_one_def last_index_wf)
  obtain l2 ws2 app2 where rest: "take_spec (int (length l) + 1 + 1) es (l @ [e]) = (l2, ws2, app2)"
    by (cases "take_spec (int (length l) + 1 + 1) es (l @ [e])")
  have l': "l' = l2" "ws = ws2" "app = e # app2" using Cons.prems(3) one rest by (auto simp: take_spec_Cons)
  have "take (length l + 1) l' = l @ [e]" using take_spec_keeps [OF _ _ rest, of "length l + 1"] l' by simp
  then have "log_wf (l @ [e])" using log_wf_take [OF Cons.prems(2), of "length l + 1"] by simp
  then show ?case using Cons.IH [of "l @ [e]" l' ws2 app2] Cons.prems(2) rest l' by (simp add: algebra_simps)
qed

text \<open>The loop over the entries is the merge: it keeps what matches and replaces what follows.\<close>

lemma take_spec_merge:
  assumes "1 \<le> i" "i \<le> int (length l) + 1" "log_wf l" "log_wf l'" "take_spec i es l = (l', ws, app)"
  shows "l' = merge_log i es l" and "app = drop (matching i es l) es"
    and "ws = (if matching i es l < length es \<and> i + int (matching i es l) \<le> int (length l)
               then [WTruncate (i + int (matching i es l))] else [])"
proof -
  have "l' = merge_log i es l \<and> app = drop (matching i es l) es
    \<and> ws = (if matching i es l < length es \<and> i + int (matching i es l) \<le> int (length l)
               then [WTruncate (i + int (matching i es l))] else [])"
    using assms
  proof (induction es arbitrary: i l l' ws app)
    case Nil
    then show ?case by (simp add: merge_log_def)
  next
    case (Cons e es)
    note li = last_index_wf [OF Cons.prems(3)]
    obtain l2 ws2 app2 where rest: "take_spec (i + 1) es (fst (take_one i e l)) = (l2, ws2, app2)"
      by (cases "take_spec (i + 1) es (fst (take_one i e l))")
    have l': "l' = l2" using Cons.prems(5) rest by (auto simp: take_spec_Cons split: prod.splits)
    show ?case
    proof (cases "i \<le> int (length l)")
      case False
      then have i: "i = int (length l) + 1" using Cons.prems(2) by simp
      from take_spec_appends [OF Cons.prems(3,4)] Cons.prems(5) have "l' = l @ e # es \<and> ws = [] \<and> app = e # es"
        unfolding i by blast
      with False show ?thesis by (simp add: merge_log_def i)
    next
      case le: True
      show ?thesis
      proof (cases "trm l i = le_term e")
        case True
        with le li have one: "take_one i e l = (l, [], False)" by (simp add: take_one_def)
        with Cons.prems(5) have "take_spec (i + 1) es l = (l', ws, app)"
          by (simp add: take_spec_Cons split: prod.splits)
        from Cons.IH [OF _ _ Cons.prems(3,4) this] Cons.prems(1) le True show ?thesis
          by (auto simp: merge_log_def Let_def algebra_simps nat_add_distrib nat_diff_distrib)
      next
        case False
        let ?l = "take (nat (i - 1)) l"
        from False le li have one: "take_one i e l = (?l @ [e], [WTruncate i], True)" by (simp add: take_one_def)
        have len: "length (?l @ [e]) = nat i" using le Cons.prems(1) by simp
        have keep: "take (nat i) l' = ?l @ [e]"
          using take_spec_keeps [of "nat i" "i + 1" "?l @ [e]" es l2 ws2 app2] rest one l' Cons.prems(1) len by simp
        then have wf: "log_wf (?l @ [e])" using log_wf_take [OF Cons.prems(4), of "nat i"] by simp
        have "take_spec (int (length (?l @ [e])) + 1) es (?l @ [e]) = (l', ws2, app2)"
          using rest one l' len Cons.prems(1) by simp
        from take_spec_appends [OF wf Cons.prems(4) this] have r: "l' = (?l @ [e]) @ es" "ws2 = []" "app2 = es" by auto
        have "ws = [WTruncate i]" "app = e # es"
          using Cons.prems(5) one rest r by (auto simp: take_spec_Cons)
        with r False le show ?thesis by (simp add: merge_log_def)
      qed
    qed
  qed
  then show "l' = merge_log i es l" and "app = drop (matching i es l) es"
    and "ws = (if matching i es l < length es \<and> i + int (matching i es l) \<le> int (length l)
               then [WTruncate (i + int (matching i es l))] else [])" by auto
qed

text \<open>Afterwards the log has, from \<open>i\<close> on, entries with the terms of the message.\<close>

lemma merge_log_terms:
  assumes "1 \<le> i" and "i \<le> int (length l) + 1" and "p < length es"
  shows "trm (merge_log i es l) (i + int p) = le_term (es ! p)"
proof -
  define m where "m = matching i es l"
  have pm: "i + int q \<le> int (length l)" "trm l (i + int q) = le_term (es ! q)" if "q < m" for q
    using matching_agrees [of q i es l] that by (simp_all add: m_def)
  show ?thesis
  proof (cases "m = length es")
    case True
    then show ?thesis using pm(2) [of p] assms(3) by (simp add: merge_log_def m_def [symmetric])
  next
    case False
    then have l: "merge_log i es l = take (nat (i - 1) + m) l @ drop m es"
      by (simp add: merge_log_def m_def [symmetric])
    have "i + int (m - 1) \<le> int (length l)" if "0 < m" using pm(1) [of "m - 1"] that by simp
    then have len: "length (take (nat (i - 1) + m) l) = nat (i - 1) + m"
      using assms(1,2) by (cases "m = 0") auto
    have idx: "nat (i + int p - 1) = nat (i - 1) + p" using assms(1) by linarith
    show ?thesis
    proof (cases "p < m")
      case True
      with pm(2) [OF True] assms(1) len idx show ?thesis by (simp add: l trm_def nth_append)
    next
      case False
      then show ?thesis using assms(1,3) len idx by (simp add: l trm_def nth_append)
    qed
  qed
qed

section \<open>Applying and committing touch nothing the protocol rests on\<close>

definition same_protocol :: "rnode \<Rightarrow> rnode \<Rightarrow> bool" where
  "same_protocol k' k \<longleftrightarrow>
     node_id k' = node_id k \<and> peers k' = peers k \<and> current_term k' = current_term k
     \<and> voted_for k' = voted_for k \<and> rlog k' = rlog k \<and> role k' = role k \<and> votes_granted k' = votes_granted k
     \<and> next_index k' = next_index k \<and> match_index k' = match_index k \<and> leader_id k' = leader_id k
     \<and> running k' = running k"

lemma same_protocol_refl [simp]: "same_protocol k k"
  by (simp add: same_protocol_def)

lemma same_protocol_trans: "same_protocol k3 k2 \<Longrightarrow> same_protocol k2 k1 \<Longrightarrow> same_protocol k3 k1"
  by (simp add: same_protocol_def)

lemma same_hard: "same_protocol k' k \<Longrightarrow> hard k' = hard k"
  by (simp add: same_protocol_def hard_def)

definition only_replies :: "(NodeId \<times> message) list \<Rightarrow> bool" where
  "only_replies ms \<longleftrightarrow> (\<forall>(to, m) \<in> set ms. \<exists>r. m = MClientReply r)"

lemma only_replies_simps [simp]:
  "only_replies []" "only_replies (a @ b) \<longleftrightarrow> only_replies a \<and> only_replies b"
  by (simp_all add: only_replies_def ball_Un)

lemma apply_one_same: "same_protocol (fst (apply_one k)) k \<and> only_replies (snd (apply_one k))
    \<and> commit_index (fst (apply_one k)) = commit_index k \<and> last_applied (fst (apply_one k)) = last_applied k + 1"
  by (auto simp: apply_one_def same_protocol_def only_replies_def Let_def split: option.split)

lemma apply_spec_same: "same_protocol (fst (apply_spec n k)) k \<and> only_replies (snd (apply_spec n k))
    \<and> commit_index (fst (apply_spec n k)) = commit_index k"
proof (induction n arbitrary: k)
  case 0
  then show ?case by simp
next
  case (Suc n)
  show ?case
    using Suc.IH [of "fst (apply_one k)"] apply_one_same [of k]
    by (auto simp: case_prod_beta intro: same_protocol_trans)
qed

lemma apply_committed_same: "same_protocol (fst (apply_committed_spec k)) k"
    "only_replies (snd (apply_committed_spec k))" "commit_index (fst (apply_committed_spec k)) = commit_index k"
  using apply_spec_same by (simp_all add: apply_committed_spec_def)

lemma same_protocol_commit [simp]: "same_protocol k' (k\<lparr>commit_index := i\<rparr>) \<longleftrightarrow> same_protocol k' k"
  by (simp add: same_protocol_def)

lemma advance_spec_same: "same_protocol (fst (advance_spec n i k)) k \<and> only_replies (snd (advance_spec n i k))"
  by (induction n arbitrary: i)
    (use apply_committed_same in \<open>auto dest!: same_protocol_commit [THEN iffD1]\<close>)

lemma advance_commit_same: "same_protocol (fst (advance_commit_spec k)) k" "only_replies (snd (advance_commit_spec k))"
  using advance_spec_same by (simp_all add: advance_commit_spec_def)

section \<open>The handlers in components\<close>

text \<open>A handled message is a new state, what is written and what is sent.\<close>

abbreviation new_state :: "handled \<Rightarrow> rnode" where "new_state h \<equiv> fst h"
abbreviation written :: "handled \<Rightarrow> wal_rec list" where "written h \<equiv> fst (snd h)"
abbreviation sent_by :: "handled \<Rightarrow> (NodeId \<times> message) list" where "sent_by h \<equiv> snd (snd h)"

text \<open>\<open>durable_as D k\<close>: replaying the durable records gives the hard state and log in memory.\<close>

definition durable_as :: "wal_rec list \<Rightarrow> rnode \<Rightarrow> bool" where
  "durable_as D k \<longleftrightarrow> wal_run D init_recovered = \<lparr>rec_state = hard k, rec_entries = rlog k\<rparr>"

lemma durable_as_same: "same_protocol k' k \<Longrightarrow> durable_as D k' \<longleftrightarrow> durable_as D k"
  by (simp add: durable_as_def same_protocol_def hard_def)

lemma durable_as_new: "durable_as [] (new_rnode n ps)"
  by (simp add: durable_as_def new_rnode_def hard_def init_recovered_def init_hard_state_def)

lemma append_entries_writes:
  assumes "log_wf (rlog k)" and "log_wf (rlog (new_state (append_entries_spec frm msg k)))"
    and "ae_term msg \<ge> current_term k"
    and "has_entry (rlog k) (ae_prev_log_index msg)" "trm (rlog k) (ae_prev_log_index msg) = ae_prev_log_term msg"
  defines "i \<equiv> ae_prev_log_index msg + 1"
  defines "m \<equiv> matching i (ae_entries msg) (rlog k)"
  shows "rlog (new_state (append_entries_spec frm msg k)) = merge_log i (ae_entries msg) (rlog k)"
    and "written (append_entries_spec frm msg k) =
      (if m < length (ae_entries msg) \<and> i + int m \<le> int (length (rlog k)) then [WTruncate (i + int m)] else [])
      @ map WEntry (drop m (ae_entries msg))
      @ [WState (hard (follow (ae_term msg) (Some (ae_leader_id msg)) k))]"
proof -
  let ?k1 = "follow (ae_term msg) (Some (ae_leader_id msg)) k"
  obtain l ws app where t: "take_spec i (ae_entries msg) (rlog k) = (l, ws, app)"
    by (cases "take_spec i (ae_entries msg) (rlog k)")
  have rl: "rlog (new_state (append_entries_spec frm msg k)) = l"
    using assms(3-5) t apply_committed_same(1)
    by (auto simp: append_entries_spec_def Let_def i_def same_protocol_def case_prod_beta)
  have i: "1 \<le> i" "i \<le> int (length (rlog k)) + 1"
    using assms(1,4) by (auto simp: i_def has_entry_wf)
  note M = take_spec_merge [OF i assms(1) _ t]
  have wf: "log_wf l" using assms(2) rl by simp
  show "rlog (new_state (append_entries_spec frm msg k)) = merge_log i (ae_entries msg) (rlog k)"
    using rl M(1) wf by simp
  show "written (append_entries_spec frm msg k) =
      (if m < length (ae_entries msg) \<and> i + int m \<le> int (length (rlog k)) then [WTruncate (i + int m)] else [])
      @ map WEntry (drop m (ae_entries msg)) @ [WState (hard ?k1)]"
    using assms(3-5) t M(2,3) wf
    by (auto simp: append_entries_spec_def Let_def i_def m_def case_prod_beta)
qed

section \<open>What is durable is what is in memory\<close>

lemma wal_run_merge:
  fixes es :: "log_entry list"
  assumes "wal_run D r = \<lparr>rec_state = st, rec_entries = l\<rparr>" and "1 \<le> i" and "i \<le> int (length l) + 1"
  defines "m \<equiv> matching i es l"
  shows "wal_run (D @ (if m < length es \<and> i + int m \<le> int (length l) then [WTruncate (i + int m)] else [])
      @ map WEntry (drop m es)) r = \<lparr>rec_state = st, rec_entries = merge_log i es l\<rparr>"
proof (cases "m < length es \<and> i + int m \<le> int (length l)")
  case True
  have "nat (i + int m - 1) = nat (i - 1) + m" using assms(2) by (simp add: nat_diff_distrib nat_add_distrib)
  with True assms(1,2) show ?thesis
    by (simp add: wal_run_entries merge_log_def m_def [symmetric] Let_def)
next
  case False
  have "take (nat (i - 1) + m) l = l" if "m \<noteq> length es"
    using that False matching_le [of i es l] assms(2,3) by (simp add: m_def [symmetric])
  with False assms(1) matching_le [of i es l] show ?thesis
    by (auto simp: wal_run_entries merge_log_def m_def [symmetric] Let_def)
qed

lemma durable_state: "wal_run D r = \<lparr>rec_state = st, rec_entries = l\<rparr> \<Longrightarrow>
    wal_run (D @ [WState st']) r = \<lparr>rec_state = st', rec_entries = l\<rparr>"
  by simp

lemma append_entries_stale:
  "ae_term msg < current_term k \<Longrightarrow> append_entries_spec frm msg k =
     (k, [], [(frm, MAppendEntriesReply (AppendEntriesReply (current_term k) False 0))])"
  by (simp add: append_entries_spec_def)

lemma append_entries_inconsistent:
  "ae_term msg \<ge> current_term k \<Longrightarrow>
     \<not> has_entry (rlog k) (ae_prev_log_index msg) \<or> trm (rlog k) (ae_prev_log_index msg) \<noteq> ae_prev_log_term msg \<Longrightarrow>
     append_entries_spec frm msg k = (let k1 = follow (ae_term msg) (Some (ae_leader_id msg)) k in
       (k1, [WState (hard k1)], [(frm, MAppendEntriesReply (AppendEntriesReply (current_term k1) False 0))]))"
  by (auto simp: append_entries_spec_def Let_def)

lemma append_entries_hard:
  "ae_term msg \<ge> current_term k \<Longrightarrow>
     hard (new_state (append_entries_spec frm msg k)) = hard (follow (ae_term msg) (Some (ae_leader_id msg)) k)"
  using apply_committed_same(1)
  by (auto simp: append_entries_spec_def Let_def case_prod_beta same_protocol_def hard_def)

lemma append_entries_durable:
  assumes "durable_as D k" and wf: "log_wf (rlog k)" "log_wf (rlog (new_state (append_entries_spec frm msg k)))"
  shows "durable_as (D @ written (append_entries_spec frm msg k)) (new_state (append_entries_spec frm msg k))"
proof (cases "ae_term msg < current_term k")
  case True
  then show ?thesis using assms(1) by (simp add: append_entries_stale)
next
  case False
  then have ge: "ae_term msg \<ge> current_term k" by simp
  show ?thesis
  proof (cases "has_entry (rlog k) (ae_prev_log_index msg) \<and> trm (rlog k) (ae_prev_log_index msg) = ae_prev_log_term msg")
    case False
    then have "append_entries_spec frm msg k = (let k1 = follow (ae_term msg) (Some (ae_leader_id msg)) k in
       (k1, [WState (hard k1)], [(frm, MAppendEntriesReply (AppendEntriesReply (current_term k1) False 0))]))"
      by (intro append_entries_inconsistent [OF ge]) blast
    with assms(1) show ?thesis by (simp add: Let_def durable_as_def)
  next
    case True
    then have i: "1 \<le> ae_prev_log_index msg + 1" "ae_prev_log_index msg + 1 \<le> int (length (rlog k)) + 1"
      using wf by (auto simp: has_entry_wf)
    from wal_run_merge [OF assms(1) [unfolded durable_as_def] i, of "ae_entries msg"] True
    show ?thesis
      unfolding durable_as_def append_entries_writes(1) [OF wf ge conjunct1 [OF True] conjunct2 [OF True]]
        append_entries_writes(2) [OF wf ge conjunct1 [OF True] conjunct2 [OF True]] append_entries_hard [OF ge]
      by (simp only: append_assoc [symmetric] durable_state)
  qed
qed

lemma durable_after_state: "durable_as D k \<Longrightarrow> rlog k' = rlog k \<Longrightarrow> durable_as (D @ [WState (hard k')]) k'"
  by (simp add: durable_as_def)

lemma durable_cong: "durable_as D k \<Longrightarrow> hard k' = hard k \<Longrightarrow> rlog k' = rlog k \<Longrightarrow> durable_as D k'"
  by (simp add: durable_as_def)

lemma request_vote_durable:
  "durable_as D k \<Longrightarrow> durable_as (D @ written (request_vote_spec frm msg k)) (new_state (request_vote_spec frm msg k))"
  by (auto simp: request_vote_spec_def reply_vote_spec_def Let_def durable_as_def)

lemma request_vote_reply_durable:
  "durable_as D k \<Longrightarrow>
     durable_as (D @ written (request_vote_reply_spec frm msg k)) (new_state (request_vote_reply_spec frm msg k))"
  by (auto simp: request_vote_reply_spec_def Let_def durable_as_def hard_def)

lemma append_entries_reply_durable:
  assumes "durable_as D k"
  shows "durable_as (D @ written (append_entries_reply_spec frm msg k)) (new_state (append_entries_reply_spec frm msg k))"
proof -
  let ?i = "max (match_for k frm) (aer_match_index msg)"
  let ?k1 = "k\<lparr>match_index := (match_index k)(frm \<mapsto> ?i), next_index := (next_index k)(frm \<mapsto> ?i + 1)\<rparr>"
  have "durable_as D ?k1" using assms by (simp add: durable_as_def hard_def)
  then have "durable_as D (fst (advance_commit_spec ?k1))"
    by (simp only: durable_as_same [OF advance_commit_same(1)])
  with assms show ?thesis
    by (auto simp: append_entries_reply_spec_def Let_def case_prod_beta durable_as_def hard_def)
qed

lemma client_request_durable:
  assumes "durable_as D k"
  shows "durable_as (D @ written (client_request_spec frm msg k)) (new_state (client_request_spec frm msg k))"
proof -
  let ?e = "log_create (rlog k) (current_term k) (creq_command msg)"
  let ?k1 = "k\<lparr>rlog := rlog k @ [?e],
                   pending_clients := (pending_clients k)(le_index ?e \<mapsto> (frm, creq_request_id msg))\<rparr>"
  have "durable_as (D @ [WEntry ?e]) ?k1" using assms by (simp add: durable_as_def hard_def)
  then have "durable_as (D @ [WEntry ?e]) (fst (advance_commit_spec ?k1))"
    by (simp only: durable_as_same [OF advance_commit_same(1)])
  with assms show ?thesis by (auto simp: client_request_spec_def Let_def case_prod_beta)
qed

lemma dispatch_durable:
  assumes "durable_as D k" and "log_wf (rlog k)" and "log_wf (rlog (new_state (dispatch_spec frm msg k)))"
  shows "durable_as (D @ written (dispatch_spec frm msg k)) (new_state (dispatch_spec frm msg k))"
  using assms
  by (cases msg) (simp_all add: request_vote_durable request_vote_reply_durable append_entries_durable
      append_entries_reply_durable client_request_durable)

lemma election_timeout_durable:
  "durable_as D k \<Longrightarrow> durable_as (D @ written (election_timeout_spec k)) (new_state (election_timeout_spec k))"
  by (auto simp: election_timeout_spec_def Let_def durable_as_def hard_def)

section \<open>Terms and votes\<close>

text \<open>\<open>vote_kept k k'\<close>: the term does not go back, and within a term a vote given is not given again.\<close>

definition vote_kept :: "hard_state \<Rightarrow> hard_state \<Rightarrow> bool" where
  "vote_kept st st' \<longleftrightarrow> hs_current_term st \<le> hs_current_term st'
     \<and> (hs_current_term st' = hs_current_term st \<and> hs_voted_for st \<noteq> None \<longrightarrow> hs_voted_for st' = hs_voted_for st)"

lemma vote_kept_refl [simp]: "vote_kept st st"
  by (simp add: vote_kept_def)

lemma vote_kept_trans: "vote_kept st st' \<Longrightarrow> vote_kept st' st'' \<Longrightarrow> vote_kept st st''"
  by (force simp: vote_kept_def)

lemma vote_kept_follow [simp]: "vote_kept (hard k) (hard (follow t0 l k))"
  by (simp add: vote_kept_def hard_def)

lemma append_entries_reply_hard:
  "hard (new_state (append_entries_reply_spec frm msg k)) =
     (if aer_term msg > current_term k then hard (follow (aer_term msg) None k) else hard k)"
  using advance_commit_same(1) by (auto simp: append_entries_reply_spec_def Let_def case_prod_beta same_protocol_def hard_def)

lemma client_request_hard: "hard (new_state (client_request_spec frm msg k)) = hard k"
  using advance_commit_same(1) by (auto simp: client_request_spec_def Let_def case_prod_beta same_protocol_def hard_def)

lemma request_vote_hard: "vote_kept (hard k) (hard (new_state (request_vote_spec frm msg k)))"
  by (auto simp: request_vote_spec_def reply_vote_spec_def Let_def vote_kept_def hard_def)

lemma request_vote_reply_hard: "vote_kept (hard k) (hard (new_state (request_vote_reply_spec frm msg k)))"
  by (auto simp: request_vote_reply_spec_def Let_def vote_kept_def hard_def)

lemma dispatch_vote_kept: "vote_kept (hard k) (hard (new_state (dispatch_spec frm msg k)))"
proof (cases msg)
  case (MAppendEntries ae)
  then show ?thesis
    using append_entries_hard [of k ae frm] append_entries_stale [of ae k frm]
    by (cases "ae_term ae < current_term k") auto
qed (simp_all add: request_vote_hard request_vote_reply_hard append_entries_reply_hard client_request_hard)

lemma timeout_vote_kept: "vote_kept (hard k) (hard (new_state (election_timeout_spec k)))"
  by (auto simp: election_timeout_spec_def Let_def vote_kept_def hard_def)

text \<open>Who gets a vote, and what of it is written first.\<close>

lemma vote_reply_origin:
  assumes "(to, MRequestVoteReply (RequestVoteReply t True)) \<in> set (sent_by (dispatch_spec frm msg k))"
  obtains rv where "msg = MRequestVote rv" "to = frm" "t = rv_term rv" "current_term k \<le> t" "up_to_date rv k"
    "hard (new_state (dispatch_spec frm msg k)) = HardState t (Some (rv_candidate_id rv))"
    "written (dispatch_spec frm msg k) = [WState (HardState t (Some (rv_candidate_id rv)))]"
proof (cases msg)
  case (MRequestVote rv)
  with assms show ?thesis
    by (intro that [of rv])
      (auto simp: request_vote_spec_def reply_vote_spec_def Let_def hard_def up_to_date_def split: if_splits)
next
  case (MAppendEntries ae)
  from assms have False
    using apply_committed_same(2)
    by (fastforce simp: MAppendEntries append_entries_spec_def Let_def case_prod_beta only_replies_def split: if_splits)
  then show ?thesis by simp
next
  case (MRequestVoteReply r)
  from assms have False
    by (auto simp: MRequestVoteReply request_vote_reply_spec_def Let_def replicate_all_def replicate_msg_def split: if_splits)
  then show ?thesis by simp
next
  case (MAppendEntriesReply r)
  from assms have False
    using advance_commit_same(2)
    by (fastforce simp: MAppendEntriesReply append_entries_reply_spec_def Let_def case_prod_beta only_replies_def
        replicate_msg_def split: if_splits)
  then show ?thesis by simp
next
  case (MClientRequest r)
  from assms have False
    using advance_commit_same(2)
    by (fastforce simp: MClientRequest client_request_spec_def Let_def case_prod_beta only_replies_def
        replicate_all_def replicate_msg_def split: if_splits)
  then show ?thesis by simp
next
  case (MClientReply r)
  with assms show ?thesis by simp
qed

section \<open>The commit rule\<close>

lemma apply_spec_commit_done:
  "commit_index k - last_applied k \<le> int n \<Longrightarrow> last_applied k \<le> commit_index k \<Longrightarrow>
     last_applied (fst (apply_spec n k)) = commit_index k"
proof (induction n arbitrary: k)
  case 0
  then show ?case by simp
next
  case (Suc n)
  show ?case
    using Suc.IH [of "fst (apply_one k)"] Suc.prems apply_one_same [of k] by (auto simp: case_prod_beta)
qed

lemma apply_committed_done:
  "last_applied k \<le> commit_index k \<Longrightarrow> last_applied (fst (apply_committed_spec k)) = commit_index k"
  by (simp add: apply_committed_spec_def apply_spec_commit_done)

lemma replicas_commit [simp]: "replicas (k\<lparr>commit_index := i\<rparr>) = replicas k"
  by (intro ext) (simp add: replicas_def match_for_def)

text \<open>The index it advances to is the highest with an entry of the current term on a majority.\<close>

definition committable :: "rnode \<Rightarrow> Index \<Rightarrow> bool" where
  "committable k i \<longleftrightarrow> trm (rlog k) i = current_term k \<and> majority k \<le> replicas k i"

lemma advance_spec_commit:
  "(\<exists>j. i - int n < j \<and> j \<le> i \<and> committable k j \<and> (\<forall>j'. j < j' \<and> j' \<le> i \<longrightarrow> \<not> committable k j')
        \<and> advance_spec n i k = apply_committed_spec (k\<lparr>commit_index := j\<rparr>))
     \<or> (\<forall>j. i - int n < j \<and> j \<le> i \<longrightarrow> \<not> committable k j) \<and> advance_spec n i k = (k, [])"
proof (induction n arbitrary: i)
  case 0
  then show ?case by auto
next
  case (Suc n)
  show ?case
  proof (cases "committable k i")
    case True
    then have "advance_spec (Suc n) i k = apply_committed_spec (k\<lparr>commit_index := i\<rparr>)" by (simp add: committable_def)
    with True show ?thesis by (intro disjI1 exI [of _ i]) auto
  next
    case False
    then have e: "advance_spec (Suc n) i k = advance_spec n (i - 1) k" by (auto simp: committable_def)
    have le: "j \<le> i \<longleftrightarrow> j = i \<or> j \<le> i - 1" for j by linarith
    have lo: "i - 1 - int n = i - int (Suc n)" by simp
    from Suc.IH [of "i - 1"] show ?thesis
    proof (elim disjE exE conjE)
      fix j
      assume "i - 1 - int n < j" "j \<le> i - 1" "committable k j" "\<forall>j'. j < j' \<and> j' \<le> i - 1 \<longrightarrow> \<not> committable k j'"
        "advance_spec n (i - 1) k = apply_committed_spec (k\<lparr>commit_index := j\<rparr>)"
      then show ?thesis using False unfolding e lo by (intro disjI1 exI [of _ j]) (auto simp: le)
    qed (use False in \<open>auto simp: e lo le simp del: advance_spec.simps\<close>)
  qed
qed

lemma advance_commit_rule:
  assumes "role k = LEADER"
  defines "k' \<equiv> fst (advance_commit_spec k)"
  shows "commit_index k' = commit_index k
      \<and> (\<forall>j. commit_index k < j \<and> j \<le> last_index (rlog k) \<longrightarrow> \<not> committable k j)
    \<or> commit_index k < commit_index k' \<and> commit_index k' \<le> last_index (rlog k) \<and> committable k (commit_index k')
      \<and> (\<forall>j. commit_index k' < j \<and> j \<le> last_index (rlog k) \<longrightarrow> \<not> committable k j)"
proof (cases "commit_index k \<le> last_index (rlog k)")
  case True
  let ?i = "last_index (rlog k)" and ?n = "nat (last_index (rlog k) - commit_index k)"
  have lo: "?i - int ?n = commit_index k" using True by simp
  from advance_spec_commit [of ?i ?n k] show ?thesis
    unfolding lo using assms(1) apply_committed_same(3)
    by (auto simp: k'_def advance_commit_spec_def)
next
  case False
  then have "nat (last_index (rlog k) - commit_index k) = 0" by simp
  with assms(1) False show ?thesis by (auto simp: k'_def advance_commit_spec_def)
qed

end
