(* ===== verification/Node_Recovery.thy ===== *)
theory Node_Recovery
  imports Node_Facts
begin

text \<open>
  Crashes and recoveries of a node with its disk: \<^verbatim>\<open>SimNode\<close> of \<^verbatim>\<open>raft/world.py\<close>, which kills a node
  together with its disk and brings both back. \<open>disk_keeps d D W\<close> says what a disk is good for in any
  condition (usable, failed, down): a recovery finds the records \<open>D\<close> and some prefix of \<open>W\<close>. The
  properties state what the handlers of \<open>Raft_Node\<close> do, in terms of their specifications.
\<close>

declare block.simps [simp del]

section \<open>SimNode\<close>

definition sim_node_crash :: "node_ctx stmt" where
  "sim_node_crash = block [node_crash, bind (on_disk sim_crash) (\<lambda>_. ret ())]"

definition sim_node_restart :: "node_ctx stmt" where
  "sim_node_restart = block [on_disk sim_restart, node_restart]"

section \<open>A disk in any condition\<close>

definition disk_keeps :: "sim_storage \<Rightarrow> wal_rec list \<Rightarrow> wal_rec list \<Rightarrow> bool" where
  "disk_keeps d D W \<longleftrightarrow> (\<exists>bs us U rest. disk_cut d (bs @ us) bs \<and> wal_image D bs \<and> wal_image U us \<and> W = U @ rest)"

lemma disk_wal_keeps: "disk_wal d D U \<Longrightarrow> disk_keeps d D U"
  unfolding disk_wal_def disk_keeps_def by (metis append_Nil2 disk_holds_cut)

lemma failed_as_keeps: "failed_as c0 D W c \<Longrightarrow> disk_keeps (disk c) D W"
  unfolding failed_as_def disk_keeps_def by (metis disk_torn_cut)

lemma disk_keeps_crash: "disk_keeps (dsk c) D W \<Longrightarrow> sim_crash c = Done kept c' \<Longrightarrow> disk_keeps (dsk c') D W"
  unfolding disk_keeps_def using disk_cut_crash by blast

lemma disk_keeps_restart:
  assumes "disk_keeps (dsk c) D W" and "sim_restart c = Done x c'"
  obtains n where "disk_wal (dsk c') (D @ take n W) []"
proof -
  from assms(1) obtain bs us U rest where k: "disk_cut (dsk c) (bs @ us) bs" "wal_image D bs" "wal_image U us" "W = U @ rest"
    by (auto simp: disk_keeps_def)
  from disk_cut_restart [OF k(1) assms(2)] obtain n where n: "length bs \<le> n"
    "disk_holds (dsk c') (take n (bs @ us)) (take n (bs @ us))" by blast
  let ?n = "min (n - length bs) (length U)"
  have "take n (bs @ us) = bs @ take ?n us" using n(1) wal_image_length [OF k(3)] by (simp add: min_def)
  moreover have "wal_image (D @ take ?n U) (bs @ take ?n us)"
    by (rule wal_image_append [OF k(2) wal_image_take [OF k(3)]])
  moreover have "take ?n U = take ?n W" by (simp add: k(4))
  ultimately have "disk_wal (dsk c') (D @ take ?n W) []"
    using n(2) unfolding disk_wal_def by (intro exI [of _ "bs @ take ?n us"] exI [of _ "[]"]) simp
  then show thesis by (rule that)
qed

section \<open>What a crash and a restart do to the node\<close>

lemma cancel_election_frame:
  assumes "frame c0 M c" and "cancel_election_timer c = Done x c'"
  shows "frame c0 M c' \<and> core (me c') = core (me c) \<and> disk c' = disk c"
proof (cases "election_timer (me c)")
  case None
  with assms show ?thesis by (simp add: cancel_election_timer_def)
next
  case (Some t)
  with assms(2) obtain b c1 where "timer_cancel t c = Done b c1"
    and c': "c' = c1\<lparr>me := (me c1)\<lparr>election_timer := None\<rparr>\<rparr>"
    by (auto simp: cancel_election_timer_def upd_def py_done)
  with assms(1) cancel_frame have "frame c0 M c1 \<and> me c1 = me c \<and> disk c1 = disk c" by blast
  then show ?thesis by (simp add: c' core_eq_iff)
qed

lemma cancel_heartbeat_frame:
  assumes "frame c0 M c" and "cancel_heartbeat c = Done x c'"
  shows "frame c0 M c' \<and> core (me c') = core (me c) \<and> disk c' = disk c"
proof (cases "heartbeat_timer (me c)")
  case None
  with assms show ?thesis by (simp add: cancel_heartbeat_def)
next
  case (Some t)
  with assms(2) obtain b c1 where "timer_cancel t c = Done b c1"
    and c': "c' = c1\<lparr>me := (me c1)\<lparr>heartbeat_timer := None\<rparr>\<rparr>"
    by (auto simp: cancel_heartbeat_def upd_def py_done)
  with assms(1) cancel_frame have "frame c0 M c1 \<and> me c1 = me c \<and> disk c1 = disk c" by blast
  then show ?thesis by (simp add: c' core_eq_iff)
qed

lemma node_record_frame:
  "frame c0 M c \<Longrightarrow> node_record kind d c = Done x c' \<Longrightarrow> frame c0 M c' \<and> me c' = me c \<and> disk c' = disk c"
  by (auto simp: node_record_def trace_write_Done intro!: frame_trace)

text \<open>\<open>moved c0 c\<close>: the node itself aside, nothing but timers of the node went onto the queue.\<close>

definition moved :: "node_ctx \<Rightarrow> node_ctx \<Rightarrow> bool" where
  "moved c0 c \<longleftrightarrow> frame (c0\<lparr>me := me c\<rparr>) [] c \<and> node_id (me c) = node_id (me c0) \<and> peers (me c) = peers (me c0)"

lemma frame_me: "node_id m = node_id (me c0) \<Longrightarrow> peers m = peers (me c0) \<Longrightarrow> running m = running (me c0) \<Longrightarrow>
    frame (c0\<lparr>me := m\<rparr>) M c \<longleftrightarrow> frame c0 M c"
  by (simp add: frame_def queued_def)

lemma frame_set_me: "frame c0 M c \<Longrightarrow> node_id m = node_id (me c0) \<Longrightarrow> peers m = peers (me c0) \<Longrightarrow>
    frame (c0\<lparr>me := m\<rparr>) M (c\<lparr>me := m\<rparr>)"
  by (auto simp: frame_def queued_def core_wf_def)

lemma moved_refl: "core_wf c \<Longrightarrow> moved c c"
  by (simp add: moved_def frame_refl)

lemma frame_moved: "frame c0 [] c \<Longrightarrow> moved c0 c"
  unfolding moved_def by (subst frame_me) (auto simp: frame_def)

lemma frame_trans:
  assumes "frame c0 [] c1" and "frame c1 M c2"
  shows "frame c0 M c2"
proof -
  have "\<exists>new. trace c2 = trace c0 @ new" using assms by (auto simp: frame_def)
  moreover have "queued c0 M e" if "e \<in> set (live (queue c2))" for e
    using assms that unfolding frame_def queued_def by auto
  ultimately show ?thesis using assms by (simp add: frame_def)
qed

lemma moved_trans: "moved c0 c1 \<Longrightarrow> moved c1 c2 \<Longrightarrow> moved c0 c2"
  unfolding moved_def using frame_set_me [of "c0\<lparr>me := me c1\<rparr>" "[]" c1 "me c2"] frame_trans by fastforce

lemma node_crash_Done:
  assumes "core_wf c" and "node_crash c = Done x c'"
  shows "core (me c') = core (if running (me c) then reset_memory ((me c)\<lparr>running := False\<rparr>) else me c)"
    and "disk c' = disk c" and "moved c c'"
proof -
  have "core (me c') = core (if running (me c) then reset_memory ((me c)\<lparr>running := False\<rparr>) else me c)
      \<and> disk c' = disk c \<and> moved c c'"
  proof (cases "running (me c)")
    case False
    with assms show ?thesis by (auto simp: node_crash_def py_done moved_refl)
  next
    case True
    let ?c1 = "c\<lparr>me := (me c)\<lparr>running := False\<rparr>\<rparr>"
    from assms(2) True obtain c2 c3 c4 x2 x3 y where
      run: "cancel_election_timer ?c1 = Done x2 c2" "cancel_heartbeat c2 = Done x3 c3"
      "node_record ''raft.crash'' y c3 = Done () c4"
      and c': "c' = c4\<lparr>me := reset_memory (me c4)\<rparr>"
      by (auto simp: node_crash_def cancel_timers_def upd_def py_done)
    have f1: "frame ?c1 [] ?c1" by (rule frame_refl) (use assms(1) in \<open>simp add: core_wf_def\<close>)
    from cancel_election_frame [OF f1 run(1)] have f2: "frame ?c1 [] c2"
      and m2: "core (me c2) = core (me ?c1)" "disk c2 = disk c" by auto
    from cancel_heartbeat_frame [OF f2 run(2)] m2 have f3: "frame ?c1 [] c3"
      and m3: "core (me c3) = core (me ?c1)" "disk c3 = disk c" by auto
    from node_record_frame [OF f3 run(3)] m3 have f4: "frame ?c1 [] c4"
      and m4: "core (me c4) = core (me ?c1)" "disk c4 = disk c" by auto
    have "core (reset_memory (me c4)) = core (reset_memory (me ?c1))"
      using m4(1) by (simp add: core_eq_iff reset_memory_def)
    moreover have "moved c c'"
      using frame_set_me [OF f4, of "reset_memory (me c4)"] m4(1)
      by (simp add: moved_def c' core_eq_iff reset_memory_def)
    ultimately show ?thesis using True m4(2) by (simp add: c')
  qed
  then show "core (me c') = core (if running (me c) then reset_memory ((me c)\<lparr>running := False\<rparr>) else me c)"
    and "disk c' = disk c" and "moved c c'" by blast+
qed

lemma storage_recover_Done:
  assumes "disk_wal (disk c) D []" and "storage_recover c = Done (st, l) c'"
  shows "wal_run D init_recovered = \<lparr>rec_state = st, rec_entries = l\<rparr>" and "log_wf l"
    and "c' = c\<lparr>disk := fill_cache (disk c)\<rparr>" and "disk_wal (disk c') D []"
proof -
  obtain bs where h: "disk_holds (disk c) bs bs" and im: "wal_image D bs"
    using assms(1) by (auto simp: disk_wal_def wal_image_def)
  have "sim_read_all \<lparr>drng = rng c, dsk = disk c\<rparr> = Done bs \<lparr>drng = rng c, dsk = fill_cache (disk c)\<rparr>"
    using sim_read_all_Done [of "\<lparr>drng = rng c, dsk = disk c\<rparr>" bs bs] h by simp
  with assms(2) have r: "replay bs = Inr \<lparr>rec_state = st, rec_entries = l\<rparr>" "log_wf l"
    and c': "c' = c\<lparr>disk := fill_cache (disk c)\<rparr>"
    by (auto simp: storage_recover_def on_disk_Done py_done new_raft_log_iff)
  from r(1) replay_wal_image [OF im] show "wal_run D init_recovered = \<lparr>rec_state = st, rec_entries = l\<rparr>" by simp
  show "log_wf l" by (rule r(2))
  show "c' = c\<lparr>disk := fill_cache (disk c)\<rparr>" by (rule c')
  show "disk_wal (disk c') D []"
    using disk_holds_fill [OF h] im unfolding disk_wal_def c' by (intro exI [of _ bs] exI [of _ "[]"]) simp
qed

definition recovered_node :: "recovered \<Rightarrow> rnode \<Rightarrow> rnode" where
  "recovered_node r m = m\<lparr>current_term := hs_current_term (rec_state r), voted_for := hs_voted_for (rec_state r),
     rlog := rec_entries r, running := True\<rparr>"

lemma node_restart_Done:
  assumes "core_wf c" and "disk_wal (disk c) D []" and "node_restart c = Done x c'"
  shows "core (me c') = core (recovered_node (wal_run D init_recovered) (me c))"
    and "log_wf (rlog (me c'))" and "disk_wal (disk c') D []" and "moved c c'"
proof -
  let ?r = "wal_run D init_recovered"
  from assms(3) obtain st l c1 c2 c3 y where rec: "storage_recover c = Done (st, l) c1"
    and c2: "c2 = c1\<lparr>me := recovered_node \<lparr>rec_state = st, rec_entries = l\<rparr> (me c1)\<rparr>"
    and run: "node_record ''raft.restart'' y c2 = Done () c3" "arm_election_timer c3 = Done () c'"
    by (auto simp: node_restart_def upd_def py_done recovered_node_def)
  note R = storage_recover_Done [OF assms(2) rec]
  have r: "?r = \<lparr>rec_state = st, rec_entries = l\<rparr>" by (rule R(1))
  have me2: "me c2 = recovered_node ?r (me c)" "rlog (me c2) = l"
    by (simp_all add: c2 R(3) r recovered_node_def)
  have wf2: "core_wf c2" using assms(1) by (simp add: c2 R(3) core_wf_def)
  have "runs_as c2 (me c2) D [] [] c2"
    using R(2,4) me2 frame_refl [OF wf2] by (simp add: runs_as_def c2)
  from validD_Done [OF run_record this run(1)] have "runs_as c2 (me c2) D [] [] c3" .
  from validD_Done [OF run_arm_election this run(2)] have end_state: "runs_as c2 (me c2) D [] [] c'" .
  then show "core (me c') = core (recovered_node ?r (me c))" "log_wf (rlog (me c'))" "disk_wal (disk c') D []"
    by (simp_all add: runs_as_def me2 core_eq_iff)
  have "frame (c\<lparr>me := me c2\<rparr>) [] c2"
    using wf2 by (auto simp: frame_def queued_def c2 R(3) core_wf_def fill_cache_def)
  then have "moved c c2" by (simp add: moved_def me2 recovered_node_def)
  moreover have "moved c2 c'" using end_state by (intro frame_moved) (simp add: runs_as_def)
  ultimately show "moved c c'" by (rule moved_trans)
qed

lemma disk_step_moved:
  assumes "core_wf c" and "disk_cfg d = disk_cfg (disk c)"
  shows "moved c (c\<lparr>rng := r, disk := d\<rparr>)"
  using assms by (auto simp: moved_def frame_def queued_def core_wf_def)

lemma sim_crash_cfg: "sim_crash c = Done kept c' \<Longrightarrow> disk_cfg (dsk c') = disk_cfg (dsk c)"
  by (elim sim_crash_Done) (auto dest!: crash_after_Done)

lemma sim_restart_cfg: "sim_restart c = Done x c' \<Longrightarrow> disk_cfg (dsk c') = disk_cfg (dsk c)"
  by (auto simp: sim_restart_def set_disk_def modify_def Let_def)

text \<open>A crash takes the node down with its disk and forgets everything but what is on the platter.\<close>

lemma sim_node_crash_Done:
  assumes "core_wf c" and "disk_keeps (disk c) D W" and "sim_node_crash c = Done x c'"
  shows "core (me c') = core (if running (me c) then reset_memory ((me c)\<lparr>running := False\<rparr>) else me c)"
    and "disk_keeps (disk c') D W" and "moved c c'"
proof -
  from assms(3) obtain c1 kept d x1 where crash: "node_crash c = Done x1 c1"
    and dc: "sim_crash \<lparr>drng = rng c1, dsk = disk c1\<rparr> = Done kept d" and c': "c' = c1\<lparr>rng := drng d, disk := dsk d\<rparr>"
    by (auto simp: sim_node_crash_def on_disk_Done py_done)
  note C = node_crash_Done [OF assms(1) crash]
  show "core (me c') = core (if running (me c) then reset_memory ((me c)\<lparr>running := False\<rparr>) else me c)"
    using C(1) by (simp add: c')
  show "disk_keeps (disk c') D W"
    using disk_keeps_crash [OF _ dc] assms(2) C(2) by (simp add: c')
  have "core_wf c1" using C(3) by (simp add: moved_def frame_def)
  then have "moved c1 c'" using disk_step_moved sim_crash_cfg [OF dc] by (simp add: c')
  with C(3) show "moved c c'" by (rule moved_trans)
qed

text \<open>A restart rebuilds hard state and log from some prefix of what was written, and nothing else.\<close>

lemma sim_node_restart_Done:
  assumes "core_wf c" and "disk_keeps (disk c) D W" and "sim_node_restart c = Done x c'"
  obtains n where "core (me c') = core (recovered_node (wal_run (D @ take n W) init_recovered) (me c))"
    and "log_wf (rlog (me c'))" and "disk_wal (disk c') (D @ take n W) []" and "moved c c'"
proof -
  from assms(3) obtain d c1 x1 where dr: "sim_restart \<lparr>drng = rng c, dsk = disk c\<rparr> = Done () d"
    and c1: "c1 = c\<lparr>rng := drng d, disk := dsk d\<rparr>" and re: "node_restart c1 = Done x1 c'"
    by (auto simp: sim_node_restart_def on_disk_Done py_done)
  have "disk_keeps (dsk \<lparr>drng = rng c, dsk = disk c\<rparr>) D W" using assms(2) by simp
  from disk_keeps_restart [OF this dr] obtain n where n: "disk_wal (disk c1) (D @ take n W) []" by (auto simp: c1)
  have m: "moved c c1" using disk_step_moved [OF assms(1)] sim_restart_cfg [OF dr] by (simp add: c1)
  then have "core_wf c1" by (simp add: moved_def frame_def)
  note R = node_restart_Done [OF this n re]
  show thesis by (rule that [of n]) (use R moved_trans [OF m R(4)] in \<open>auto simp: c1\<close>)
qed

end
