(* ===== verification/Raft_World.thy ===== *)
theory Raft_World
  imports Node_Recovery Sim_World Checkers Sim_Host
begin

text \<open>
  The cluster of \<^verbatim>\<open>groundhog/raft/world.py\<close>: three Raft nodes with their disks, a client that keeps its
  receipts, the fault injector and the invariant checkers, inside the simulator. The world is one
  record that extends the simulation's state; a node runs on its own view of it (\<open>on_node\<close>).
  \<open>world_act\<close> is what every callback on the queue does, \<open>raft_run\<close> the whole of \<^verbatim>\<open>RaftCluster.run\<close> and
  \<open>run_raft\<close> builds a cluster and runs it.
\<close>

declare block.simps [simp del]

section \<open>State\<close>

definition CLIENT_ID :: NodeId where "CLIENT_ID = 0"
definition NODE_IDS :: "NodeId list" where "NODE_IDS = [1, 2, 3]"
definition CLIENT_RETRY :: Tick where "CLIENT_RETRY = 400 * MILLISECOND"
definition REQUEST_GAP :: "Tick \<times> Tick" where "REQUEST_GAP = (5 * MILLISECOND, 40 * MILLISECOND)"
definition SETTLE :: Tick where "SETTLE = 5 * SECOND"
definition SUPERVISOR_DELAY :: Tick where "SUPERVISOR_DELAY = 200 * MILLISECOND"
definition NO_ELECTION_RESTRICTION :: string where "NO_ELECTION_RESTRICTION = ''no-election-restriction''"
definition MUTATIONS :: "string list" where "MUTATIONS = [''none'', NO_ELECTION_RESTRICTION]"
definition UNBEATABLE :: int where "UNBEATABLE = 2 ^ 40"

record raft_client =
  cl_writes :: int
  cl_keys :: int
  cl_target :: NodeId
  cl_next_request_id :: int
  cl_inflight :: "(int \<times> command) option"
  cl_acked :: "command list"
  cl_attempts :: int
  cl_retry_timer :: "raft_timer option"

definition new_client :: "int \<Rightarrow> int \<Rightarrow> raft_client" where
  "new_client writes keys =
     \<lparr>cl_writes = writes, cl_keys = keys, cl_target = NODE_IDS ! 0, cl_next_request_id = 0, cl_inflight = None,
      cl_acked = [], cl_attempts = 0, cl_retry_timer = None\<rparr>"

record raft_world = "(raft_action, described, message, inbox) faultsim" +
  w_nodes :: "(NodeId \<times> rnode \<times> sim_storage) list"
  w_client :: raft_client
  w_history :: client_history
  w_invariants :: invariants
  w_profile :: fault_profile
  w_mutate :: string
  w_max_ticks :: Tick

text \<open>A node's view: the shared simulation and network, its own state and its own disk.\<close>

definition node_view :: "rnode \<Rightarrow> sim_storage \<Rightarrow> raft_world \<Rightarrow> node_ctx" where
  "node_view m d w = netsim.extend (netsim.truncate w) (node_ctx.fields m d)"

definition node_back :: "NodeId \<Rightarrow> node_ctx \<Rightarrow> raft_world \<Rightarrow> raft_world" where
  "node_back n c w = netsim.extend (netsim.truncate c)
     (netsim.more (w\<lparr>w_nodes := AList.update n (me c, disk c) (w_nodes w)\<rparr>))"

definition on_node :: "NodeId \<Rightarrow> ('x, node_ctx) py \<Rightarrow> ('x, raft_world) py" where
  "on_node n h w =
     (case map_of (w_nodes w) n of None \<Rightarrow> Raised KeyError w
      | Some (m, d) \<Rightarrow> on_part (node_view m d) (node_back n) h w)"

definition upd_client :: "(raft_client \<Rightarrow> raft_client) \<Rightarrow> raft_world stmt" where
  "upd_client f = modify (\<lambda>w. w\<lparr>w_client := f (w_client w)\<rparr>)"

section \<open>The client\<close>

text \<open>\<^verbatim>\<open>NODE_IDS[(NODE_IDS.index(target) + 1) % len(NODE_IDS)]\<close>; \<^verbatim>\<open>index\<close> raises when \<open>target\<close> is no node.\<close>

fun index_of :: "'x list \<Rightarrow> 'x \<Rightarrow> exn + int" where
  "index_of [] x = Inl ValueError"
| "index_of (y # ys) x =
     (if y = x then Inr 0 else case index_of ys x of Inl e \<Rightarrow> Inl e | Inr i \<Rightarrow> Inr (i + 1))"

definition next_target :: "NodeId \<Rightarrow> exn + NodeId" where
  "next_target target =
     (case index_of NODE_IDS target of Inl e \<Rightarrow> Inl e
      | Inr i \<Rightarrow> py_nth NODE_IDS ((i + 1) mod int (length NODE_IDS)))"

definition client_arm_retry :: "raft_world stmt" where
  "client_arm_retry =
     block [(\<lambda>w. case cl_retry_timer (w_client w) of None \<Rightarrow> Done () w
               | Some t \<Rightarrow> bind (timer_cancel t) (\<lambda>_. ret ()) w),
       bind (clock_after CLIENT_RETRY (Callback ClientRetry) ''client.retry'' None) (\<lambda>t.
         upd_client (\<lambda>c. c\<lparr>cl_retry_timer := Some t\<rparr>))]"

definition client_send :: "raft_world stmt" where
  "client_send w =
     (case cl_inflight (w_client w) of None \<Rightarrow> Done () w
      | Some (request_id, cmd) \<Rightarrow>
          block [upd_client (\<lambda>c. c\<lparr>cl_attempts := cl_attempts c + 1\<rparr>),
            (\<lambda>w. trace_write [(''kind'', JStr ''client.send''), (''tick'', JInt (now w)),
               (''to'', JInt (cl_target (w_client w))), (''request'', JInt request_id),
               (''command'', JDesc (DescCommand cmd))] w),
            (\<lambda>w. net_send CLIENT_ID (cl_target (w_client w)) (MClientRequest (ClientRequest request_id cmd)) w),
            client_arm_retry] w)"

definition client_issue :: "raft_world stmt" where
  "client_issue w =
     (let c = w_client w; n = int (length (cl_acked c)) in
      if n \<ge> cl_writes c then Done () w
      else block [upd_client (\<lambda>c. c\<lparr>cl_next_request_id := cl_next_request_id c + 1\<rparr>),
        bind (of_sum (if cl_keys c = 0 then Inl ZeroDivisionError else Inr (n mod cl_keys c))) (\<lambda>k.
          let cmd = put (pystr (''k'' @ decimal k)) (pystr (''v'' @ decimal n)) in
          block [upd_client (\<lambda>c'. c'\<lparr>cl_inflight := Some (cl_next_request_id c, cmd)\<rparr>), client_send])] w)"

definition client_on_timeout :: "raft_world stmt" where
  "client_on_timeout =
     block [upd_client (\<lambda>c. c\<lparr>cl_retry_timer := None\<rparr>),
       whenever (\<lambda>w. cl_inflight (w_client w) \<noteq> None)
         (bind (\<lambda>w. of_sum (next_target (cl_target (w_client w))) w) (\<lambda>t.
           block [upd_client (\<lambda>c. c\<lparr>cl_target := t\<rparr>), client_send]))]"

definition client_after_gap :: "raft_callback \<Rightarrow> string \<Rightarrow> raft_world stmt" where
  "client_after_gap callback name =
     bind (with_rng (between (fst REQUEST_GAP) (snd REQUEST_GAP))) (\<lambda>d.
     bind (clock_after d (Callback callback) name None) (\<lambda>_. ret ()))"

definition client_on_reply :: "client_reply \<Rightarrow> raft_world stmt" where
  "client_on_reply msg w =
     (case cl_inflight (w_client w) of None \<Rightarrow> Done () w
      | Some (request_id, cmd) \<Rightarrow>
          if crep_request_id msg \<noteq> request_id then Done () w
          else if crep_ok msg then
            block [upd_client (\<lambda>c. c\<lparr>cl_acked := cl_acked c @ [cmd], cl_inflight := None\<rparr>),
              (\<lambda>w. case cl_retry_timer (w_client w) of None \<Rightarrow> Done () w
                 | Some t \<Rightarrow> block [bind (timer_cancel t) (\<lambda>_. ret ()), upd_client (\<lambda>c. c\<lparr>cl_retry_timer := None\<rparr>)] w),
              (\<lambda>w. trace_write [(''kind'', JStr ''client.acked''), (''tick'', JInt (now w)),
                 (''request'', JInt request_id), (''command'', JDesc (DescCommand cmd))] w),
              client_after_gap ClientNext ''client.next''] w
          else
            block [(case crep_leader_hint msg of
                Some hint \<Rightarrow> upd_client (\<lambda>c. c\<lparr>cl_target := hint\<rparr>)
              | None \<Rightarrow> bind (\<lambda>w. of_sum (next_target (cl_target (w_client w))) w) (\<lambda>t.
                  upd_client (\<lambda>c. c\<lparr>cl_target := t\<rparr>))),
              client_after_gap ClientRedirect ''client.redirect''] w)"

fun client_on_message :: "message \<Rightarrow> raft_world stmt" where
  "client_on_message (MClientReply msg) = client_on_reply msg"
| "client_on_message _ = ret ()"

definition client_window :: "raft_client \<Rightarrow> Tick" where
  "client_window c = cl_writes c * (snd REQUEST_GAP + CLIENT_RETRY)"

section \<open>Wiring\<close>

definition mutated :: "string \<Rightarrow> message \<Rightarrow> message" where
  "mutated mutate msg =
     (case msg of
        MRequestVote rv \<Rightarrow>
          if mutate = NO_ELECTION_RESTRICTION
          then MRequestVote (RequestVote (rv_term rv) (rv_candidate_id rv) UNBEATABLE UNBEATABLE)
          else msg
      | _ \<Rightarrow> msg)"

text \<open>\<^verbatim>\<open>_on_self_crash\<close>, always called by the node with its own id: its disk is the one of its view.\<close>

definition on_self_crash :: "NodeId \<Rightarrow> node_ctx stmt" where
  "on_self_crash n =
     block [net_set_state n CRASHED, bind (on_disk sim_crash) (\<lambda>_. ret ()),
       bind (clock_after SUPERVISOR_DELAY (Callback (Revive n)) ''node.supervise'' (Some n)) (\<lambda>_. ret ())]"

definition revive :: "NodeId \<Rightarrow> raft_world stmt" where
  "revive n =
     bind (net_state n) (\<lambda>st.
       if st \<noteq> CRASHED then ret ()
       else block [on_node n sim_node_restart, net_set_state n RUNNING])"

definition receive :: "NodeId \<Rightarrow> NodeId \<Rightarrow> message \<Rightarrow> raft_world stmt" where
  "receive n frm msg w = on_node n (node_on_message (Some on_self_crash) frm (mutated (w_mutate w) msg)) w"

definition note_receipt :: "NodeId \<Rightarrow> message \<Rightarrow> raft_world stmt" where
  "note_receipt frm msg w =
     (case msg of
        MClientReply r \<Rightarrow>
          (case cl_inflight (w_client w) of None \<Rightarrow> Done () w
           | Some (request_id, cmd) \<Rightarrow>
               if crep_ok r \<and> crep_request_id r = request_id
               then Done () (w\<lparr>w_history := record_ack (now w) request_id cmd frm (w_history w)\<rparr>)
               else Done () w)
      | _ \<Rightarrow> Done () w)"

definition deliver_to_client :: "NodeId \<Rightarrow> message \<Rightarrow> raft_world stmt" where
  "deliver_to_client frm msg = block [note_receipt frm msg, client_on_message msg]"

fun deliver :: "inbox \<Rightarrow> NodeId \<Rightarrow> message \<Rightarrow> raft_world stmt" where
  "deliver ToClient = deliver_to_client"
| "deliver (ToNode n) = receive n"

definition the_node :: "NodeId \<Rightarrow> (rnode, raft_world) py" where
  "the_node n w = (case map_of (w_nodes w) n of None \<Rightarrow> Raised KeyError w | Some (m, _) \<Rightarrow> Done m w)"

fun nodes_of :: "NodeId list \<Rightarrow> (rnode list, raft_world) py" where
  "nodes_of [] = ret []"
| "nodes_of (n # ns) = bind (the_node n) (\<lambda>m. bind (nodes_of ns) (\<lambda>ms. ret (m # ms)))"

definition check_world :: "Tick \<Rightarrow> raft_world stmt" where
  "check_world tick =
     bind (nodes_of NODE_IDS) (\<lambda>ms w.
       on_part w_invariants (\<lambda>iv w. w\<lparr>w_invariants := iv\<rparr>)
         (invariants_observe \<lparr>view_tick = tick, view_nodes = zip NODE_IDS ms, view_history = w_history w\<rparr>) w)"

section \<open>Events\<close>

fun call_back :: "raft_callback \<Rightarrow> raft_world stmt" where
  "call_back (ElectionTimeout n) = on_node n (fire_election_timeout (Some on_self_crash))"
| "call_back (HeartbeatTimeout n) = on_node n (fire_heartbeat (Some on_self_crash))"
| "call_back (Revive n) = revive n"
| "call_back ClientRetry = client_on_timeout"
| "call_back ClientNext = client_issue"
| "call_back ClientRedirect = client_send"

fun world_act :: "raft_action \<Rightarrow> raft_world stmt" where
  "world_act (Arrive frm to msg) = net_arrive deliver frm to msg"
| "world_act (StartPartition episode) = start_partition episode"
| "world_act HealPartition = heal_partition"
| "world_act (BeginOutage episode) = begin_outage (\<lambda>n. on_node n sim_node_crash) episode"
| "world_act (EndOutage episode) = end_outage (\<lambda>n. on_node n sim_node_restart) episode"
| "world_act (Callback cb) = call_back cb"

section \<open>Building the cluster\<close>

text \<open>The objects before \<^verbatim>\<open>__init__\<close> has filled them; \<open>words\<close> is the output of the Mersenne Twister seeded
  with \<open>sd\<close>.\<close>

definition blank_world :: "(nat \<Rightarrow> 32 word) \<Rightarrow> int \<Rightarrow> fault_profile \<Rightarrow> int \<Rightarrow> int \<Rightarrow> string \<Rightarrow> raft_world" where
  "blank_world stream sd p writes keys mutate =
     \<lparr>rng = \<lparr>seed = sd, calls = 0, src = stream, pos = 0\<rparr>, queue = empty_queue, now = 0, trace = [], header = [],
      events_run = 0, net_faults = fp_network p, describe_msg = (\<lambda>msg. JDesc (DescMessage msg)),
      arrive_action = Arrive, inboxes = [], status = Map.empty, held = Map.empty, partition = None,
      delivered = 0, dropped = 0, fault_plan = FaultSchedule [] [], fired = [], w_nodes = [],
      w_client = new_client writes keys, w_history = [],
      w_invariants = \<lparr>checkers = [], inv_seed = sd, stride = 1, stop_on_violation = True, violations = [], observations = 0\<rparr>,
      w_profile = p, w_mutate = mutate, w_max_ticks = 0\<rparr>"

definition quiet_by :: "raft_world \<Rightarrow> Tick" where
  "quiet_by w = foldl max (client_window (w_client w))
     (map (\<lambda>e. pe_at e + pe_duration e) (fs_partitions (fault_plan w))
      @ map (\<lambda>e. oe_at e + oe_duration e) (fs_outages (fault_plan w)))"

definition add_node :: "NodeId \<Rightarrow> raft_world stmt" where
  "add_node n =
     block [net_register n (ToNode n),
       ite (\<lambda>w. map_of (w_nodes w) n \<noteq> None) (raise ValueError)
         (modify (\<lambda>w. w\<lparr>w_nodes := AList.update n
            (new_rnode n (filter (\<lambda>p. p \<noteq> n) NODE_IDS), new_sim_storage (fp_disk (w_profile w))) (w_nodes w)\<rparr>))]"

definition raft_cluster :: "bool \<Rightarrow> int \<Rightarrow> raft_world stmt" where
  "raft_cluster check strd =
     block [whenever (\<lambda>w. w_mutate w \<notin> set MUTATIONS) (raise ValueError),
       bind (\<lambda>w. of_sum (new_invariants (if check then all_checkers else []) (seed (rng w)) strd True) w) (\<lambda>iv.
         modify (\<lambda>w. w\<lparr>w_invariants := iv\<rparr>)),
       net_register CLIENT_ID ToClient,
       bind (\<lambda>w. with_rng (generate_schedule (w_profile w) NODE_IDS (client_window (w_client w))) w) (\<lambda>sch.
         modify (\<lambda>w. w\<lparr>fault_plan := sch\<rparr>)),
       modify (\<lambda>w. w\<lparr>w_max_ticks := quiet_by w + SETTLE\<rparr>),
       modify (\<lambda>w. w\<lparr>header := dict_update
         [(''world'', JStr ''raft''), (''profile'', JStr (fp_name (w_profile w))), (''nodes'', JList (map JInt NODE_IDS)),
          (''writes'', JInt (cl_writes (w_client w))), (''network'', JObj (network_faults_describe (fp_network (w_profile w)))),
          (''faults'', JObj (fault_schedule_describe (fault_plan w)))] (header w)\<rparr>),
       for_each NODE_IDS add_node]"

section \<open>Running\<close>

definition raft_start :: "raft_world stmt" where
  "raft_start = block [for_each NODE_IDS (\<lambda>n. on_node n node_start), client_issue, injector_arm]"

record raft_result =
  res_seed :: int
  res_profile :: string
  res_acked :: int
  res_requested :: int
  res_attempts :: int
  res_quiescent :: bool
  res_leaders_elected :: int
  res_terms_seen :: Term
  res_committed :: "(NodeId \<times> Index) list"
  res_stores :: "(NodeId \<times> (pystr \<times> pystr) list) list"
  res_violations :: "violation list"

definition result_safe :: "raft_result \<Rightarrow> bool" where
  "result_safe r \<longleftrightarrow> res_violations r = []"

fun all_running :: "NodeId list \<Rightarrow> (bool, raft_world) py" where
  "all_running [] = ret True"
| "all_running (n # ns) = bind (net_state n) (\<lambda>st. if st = RUNNING then all_running ns else ret False)"

definition leader_ids :: "(NodeId list, raft_world) py" where
  "leader_ids = bind (nodes_of NODE_IDS) (\<lambda>ms.
     ret (map fst (filter (\<lambda>(n, m). role m = LEADER) (zip NODE_IDS ms))))"

definition raft_verdict :: "run_result \<Rightarrow> (raft_result, raft_world) py" where
  "raft_verdict outcome =
     bind (all_running NODE_IDS) (\<lambda>everyone_up.
     bind (nodes_of NODE_IDS) (\<lambda>ms.
     bind leader_ids (\<lambda>ls w.
       (let c = w_client w;
            result = \<lparr>res_seed = rr_seed outcome, res_profile = fp_name (w_profile w),
              res_acked = int (length (cl_acked c)), res_requested = cl_writes c, res_attempts = cl_attempts c,
              res_quiescent = (everyone_up \<and> cl_inflight c = None), res_leaders_elected = int (length ls),
              res_terms_seen = foldl max (current_term (hd ms)) (map current_term (tl ms)),
              res_committed = map (\<lambda>m. (node_id m, commit_index m)) ms,
              res_stores = map (\<lambda>m. (node_id m, snapshot (kv m))) ms,
              res_violations = violations (w_invariants w)\<rparr>
        in bind (trace_write
             [(''kind'', JStr ''raft.verdict''), (''tick'', JInt (now w)), (''acked'', JInt (res_acked result)),
              (''max_term'', JInt (res_terms_seen result)),
              (''commit'', JObj (map (\<lambda>(k, v). (decimal k, JInt v)) (res_committed result))),
              (''stores'', JObj (map (\<lambda>(k, v). (decimal k, json_store v)) (res_stores result)))])
             (\<lambda>_. ret result) w))))"

definition raft_run :: "(raft_result, raft_world) py" where
  "raft_run =
     bind raft_start (\<lambda>_ w.
       case sim_run world_act [check_world] (\<lambda>e. JDesc (DescError e)) (map fst (w_nodes w)) (w_max_ticks w) w of
         Done outcome w' \<Rightarrow> raft_verdict outcome w'
       | Raised e w' \<Rightarrow>
           if e = InvariantViolated then
             bind (trace_write (violation_record (last (violations (w_invariants w'))))) (\<lambda>_ w2.
               raft_verdict \<lparr>rr_seed = seed (rng w2), rr_events = 0, rr_final_tick = now w2,
                 rr_rng_calls = calls (rng w2), rr_stop_reason = ''violation''\<rparr> w2) w'
           else Raised e w'
       | Diverges \<Rightarrow> Diverges)"

definition run_raft ::
  "(nat \<Rightarrow> 32 word) \<Rightarrow> int \<Rightarrow> fault_profile \<Rightarrow> int \<Rightarrow> int \<Rightarrow> bool \<Rightarrow> int \<Rightarrow> string \<Rightarrow> (raft_result, raft_world) outcome" where
  "run_raft stream sd p writes keys check strd mutate =
     bind (raft_cluster check strd) (\<lambda>_. raft_run) (blank_world stream sd p writes keys mutate)"

end
