(* ===== verification/Node_Calm.thy ===== *)
theory Node_Calm
  imports Node_Recovery
begin

text \<open>
  Contexts in which nothing has to go wrong: any fair generator, a network that drops nothing, a disk with
  faults in their ranges, every destination registered. There the primitives of the node return (a
  write, when writes do not fail), so the specifications of the handlers can be followed step by step.
\<close>

declare block.simps [simp del]

definition lossless :: "network_faults \<Rightarrow> bool" where
  "lossless f \<longleftrightarrow> drop_percent f = 0 \<and> 0 \<le> duplicate_percent f \<and> duplicate_percent f \<le> 100
     \<and> 0 \<le> fst (latency f) \<and> fst (latency f) \<le> snd (latency f)"

definition in_range :: "disk_faults \<Rightarrow> bool" where
  "in_range f \<longleftrightarrow> 0 \<le> write_error_percent f \<and> write_error_percent f \<le> 100
     \<and> 0 \<le> lose_unsynced_percent f \<and> lose_unsynced_percent f \<le> 100 \<and> fst (sync_cost f) \<le> snd (sync_cost f)"

text \<open>\<open>writes_succeed d\<close> and its opposite, a disk that fails every write.\<close>

definition writes_succeed :: "sim_storage \<Rightarrow> bool" where
  "writes_succeed d \<longleftrightarrow> write_error_percent (disk_cfg d) = 0"

definition broken_disk_faults :: disk_faults where
  "broken_disk_faults = \<lparr>write_error_percent = 100, lose_unsynced_percent = 50, sync_cost = (0, 0)\<rparr>"

lemma profiles_in_range [simp]: "in_range default_disk_faults" "in_range aggressive_disk_faults" "in_range broken_disk_faults"
  "lossless default_network_faults"
  by (simp_all add: in_range_def lossless_def default_disk_faults_def aggressive_disk_faults_def broken_disk_faults_def
      default_network_faults_def)

lemma new_disk_writes [simp]: "writes_succeed (new_sim_storage default_disk_faults)"
  by (simp add: writes_succeed_def new_sim_storage_def default_disk_faults_def)

definition calm :: "node_ctx \<Rightarrow> bool" where
  "calm c \<longleftrightarrow> fair (rng c) \<and> core_wf c \<and> lossless (net_faults c) \<and> in_range (disk_cfg (disk c)) \<and> online (disk c)
     \<and> {0, 1, 2, 3} \<subseteq> fst ` set (inboxes c)"

definition calm_run :: "node_ctx \<Rightarrow> rnode \<Rightarrow> wal_rec list \<Rightarrow> wal_rec list \<Rightarrow> (NodeId \<times> message) list \<Rightarrow> node_ctx \<Rightarrow> bool" where
  "calm_run c0 k D U M c \<longleftrightarrow> calm c \<and> runs_as c0 k D U M c"

definition reaches :: "(node_ctx \<Rightarrow> bool) \<Rightarrow> ('x, node_ctx) py \<Rightarrow> ('x \<Rightarrow> node_ctx \<Rightarrow> bool) \<Rightarrow> bool" where
  "reaches P m Q \<longleftrightarrow> (\<forall>c. P c \<longrightarrow> (\<exists>x c'. m c = Done x c' \<and> Q x c'))"

lemma reachesD: "reaches P m Q \<Longrightarrow> P c \<Longrightarrow> \<exists>x c'. m c = Done x c' \<and> Q x c'"
  by (simp add: reaches_def)

lemma reaches_bind: "reaches P m R \<Longrightarrow> (\<And>x. reaches (R x) (f x) Q) \<Longrightarrow> reaches P (bind m f) Q"
  unfolding reaches_def by (fastforce simp: bind_def)

lemma reaches_block: "reaches P m (\<lambda>_. R) \<Longrightarrow> reaches R (block ms) Q \<Longrightarrow> reaches P (block (m # ms)) Q"
  unfolding reaches_def by (fastforce simp: block.simps)

lemma reaches_Nil: "(\<And>c. P c \<Longrightarrow> Q () c) \<Longrightarrow> reaches P (block []) Q"
  by (simp add: reaches_def block.simps)

lemma reaches_cong: "(\<And>c. P c \<Longrightarrow> m c = m' c) \<Longrightarrow> reaches P m' Q \<Longrightarrow> reaches P m Q"
  by (simp add: reaches_def)

lemma calm_update [simp]:
  "calm (c\<lparr>me := m\<rparr>) = calm c" "calm (c\<lparr>trace := t\<rparr>) = calm c"
  "calm c \<Longrightarrow> calm (c\<lparr>rng := r\<rparr>) = fair r" "calm c \<Longrightarrow> calm (c\<lparr>queue := q\<rparr>) = core_wf (c\<lparr>queue := q\<rparr>)"
  by (auto simp: calm_def core_wf_def)

lemma calm_cancel: "calm c \<Longrightarrow> \<exists>b c'. timer_cancel t c = Done b c' \<and> calm c'"
  using timer_cancel_total [of t c] timer_cancel_Done(1,2) [of t c]
  by (cases "timer_cancel t c") (fastforce simp: calm_def)+

lemma calm_after: "calm c \<Longrightarrow> 0 \<le> d \<Longrightarrow> \<exists>e c'. clock_after d a kind n c = Done e c' \<and> calm c'"
  using clock_after_returns [of d c a kind n] by (fastforce simp: calm_def)

lemma calm_record: "calm c \<Longrightarrow> \<exists>x c'. node_record kind d c = Done x c' \<and> calm c'"
  by (auto simp: node_record_def trace_write_def modify_def)

lemma calm_cancel_election: "calm c \<Longrightarrow> \<exists>x c'. cancel_election_timer c = Done x c' \<and> calm c'"
proof (cases "election_timer (me c)")
  case (Some t)
  assume "calm c"
  then obtain b c1 where "timer_cancel t c = Done b c1" "calm c1" using calm_cancel by blast
  with Some show ?thesis by (simp add: cancel_election_timer_def block.simps bind_def ret_def upd_def modify_def)
qed (simp add: cancel_election_timer_def)

lemma calm_cancel_heartbeat: "calm c \<Longrightarrow> \<exists>x c'. cancel_heartbeat c = Done x c' \<and> calm c'"
proof (cases "heartbeat_timer (me c)")
  case (Some t)
  assume "calm c"
  then obtain b c1 where "timer_cancel t c = Done b c1" "calm c1" using calm_cancel by blast
  with Some show ?thesis by (simp add: cancel_heartbeat_def block.simps bind_def ret_def upd_def modify_def)
qed (simp add: cancel_heartbeat_def)

lemma calm_upd: "calm c \<Longrightarrow> \<exists>x c'. upd f c = Done x c' \<and> calm c'"
  by (simp add: upd_def modify_def)

lemma calm_arm_election: "calm c \<Longrightarrow> \<exists>x c'. arm_election_timer c = Done x c' \<and> calm c'"
proof -
  assume "calm c"
  then obtain x1 c1 where 1: "cancel_election_timer c = Done x1 c1" "calm c1" using calm_cancel_election by blast
  obtain d r where r: "between (fst ELECTION_TIMEOUT) (snd ELECTION_TIMEOUT) (rng c1) = Done d r" "fair r" "fst ELECTION_TIMEOUT \<le> d"
    using between_fair [of "rng c1" "fst ELECTION_TIMEOUT" "snd ELECTION_TIMEOUT"] 1(2)
    by (auto simp: calm_def ELECTION_TIMEOUT_def)
  have "0 \<le> d" using r(3) by (simp add: ELECTION_TIMEOUT_def)
  then obtain e c2 where "clock_after d (Callback (ElectionTimeout (node_id (me c1)))) ''raft.election_timeout''
      (Some (node_id (me c1))) (c1\<lparr>rng := r\<rparr>) = Done e c2" "calm c2"
    using calm_after [of "c1\<lparr>rng := r\<rparr>"] 1(2) r(2) by fastforce
  with 1 r show ?thesis
    by (simp add: arm_election_timer_def block.simps bind_def with_rng_def on_part_def upd_def modify_def)
qed

lemma calm_send:
  assumes "calm c" and "to \<in> {0, 1, 2, 3}"
  shows "\<exists>x c'. node_send to msg c = Done x c' \<and> calm c'"
proof -
  obtain c1 where 1: "node_record ''raft.send'' [(''to'', JInt to), (''msg'', JDesc (DescMessage msg))] c = Done () c1" "calm c1"
    using calm_record [OF assms(1)] by (metis (full_types) old.unit.exhaust)
  have reg: "map_of (inboxes c1) to \<noteq> None"
    using 1(2) assms(2) by (auto simp: calm_def map_of_eq_None_iff)
  have ready: "net_ready to c1"
    using 1(2) reg by (simp add: calm_def net_ready_def lossless_def)
  obtain c2 where 2: "net_send (node_id (me c1)) to msg c1 = Done () c2" "net_ready to c2"
    using net_send_ready [OF ready, of "node_id (me c1)" msg] by (elim exE conjE) (rule that)
  have "core_wf c1" using 1(2) by (simp add: calm_def)
  from net_send_Done(2) [OF 2(1) this] obtain es where "sent_copies (node_id (me c1)) to msg es c1 c2" ..
  note eq = conjunct1 [OF this [unfolded sent_copies_def]]
  obtain r q t d where c2: "c2 = c1\<lparr>rng := r, queue := q, trace := t, dropped := d\<rparr>"
    by (rule that [OF eq])
  have "calm c2" using 1(2) 2(2) unfolding calm_def net_ready_def c2 by simp
  with 1 2(1) show ?thesis by (simp add: node_send_def block.simps)
qed

lemma calm_for_each:
  assumes "\<And>x c. x \<in> set xs \<Longrightarrow> calm c \<Longrightarrow> \<exists>u c'. f x c = Done u c' \<and> calm c'" and "calm c"
  shows "\<exists>u c'. for_each xs f c = Done u c' \<and> calm c'"
  using assms
proof (induction xs arbitrary: c)
  case Nil
  then show ?case by (simp add: for_each_def block.simps)
next
  case (Cons x xs)
  then obtain u c1 where 1: "f x c = Done u c1" "calm c1" by (metis list.set_intros(1))
  from Cons.IH [OF _ 1(2)] Cons.prems(1) obtain u2 c2 where "for_each xs f c1 = Done u2 c2" "calm c2" by auto
  with 1 show ?case by (simp add: for_each_def block.simps)
qed

lemma calm_broadcast: "calm c \<Longrightarrow> set (peers (me c)) \<subseteq> {0, 1, 2, 3} \<Longrightarrow> \<exists>x c'. broadcast msg c = Done x c' \<and> calm c'"
  unfolding broadcast_def using calm_send by (intro calm_for_each) auto

lemma calm_append:
  assumes "calm c" and "writes_succeed (disk c)" and "encode_records bs = Inr blob"
  shows "\<exists>x c'. on_disk (sim_append bs) c = Done x c' \<and> calm c'"
proof (cases "bs = []")
  case True
  with assms show ?thesis
    by (auto simp: on_disk_def on_part_def sim_append_def block.simps require_online_def ite_def ret_def online_def calm_def)
next
  case False
  let ?d = "\<lparr>drng = rng c, dsk = disk c\<rparr>"
  obtain r where r: "fair r" and a: "sim_append bs ?d =
    Done () (?d\<lparr>drng := r, dsk := (dsk ?d)\<lparr>disk_bytes := disk_bytes (dsk ?d) @ blob, cache := None\<rparr>\<rparr>)"
    using sim_append_fair [of ?d bs blob] assms False by (auto simp: calm_def writes_succeed_def)
  then show ?thesis
    using assms(1) by (auto simp: on_disk_def on_part_def calm_def core_wf_def online_def)
qed

lemma calm_sync: "calm c \<Longrightarrow> \<exists>x c'. storage_sync c = Done x c' \<and> calm c'"
proof -
  assume c: "calm c"
  obtain r cost where r: "fair r" and "sim_sync \<lparr>drng = rng c, dsk = disk c\<rparr> = Done () \<lparr>drng = r,
      dsk = (disk c)\<lparr>durable := length (disk_bytes (disk c)), owed_ticks := owed_ticks (disk c) + cost\<rparr>\<rparr>"
    using sim_sync_fair [of "\<lparr>drng = rng c, dsk = disk c\<rparr>"] c by (auto simp: calm_def in_range_def)
  with c r show ?thesis
    by (simp add: storage_sync_def on_disk_def on_part_def calm_def core_wf_def online_def)
qed

text \<open>What can be encoded.\<close>

lemma encode_state_fits: "hard_state_fits st \<Longrightarrow> \<exists>b blob. encode_state_record st = Inr b \<and> encode_records [b] = Inr blob"
proof -
  assume "hard_state_fits st"
  then obtain b where b: "encode_state_record st = Inr b" using encode_state_total by blast
  then have "length (b @ []) = 17"
    unfolding encode_state_record_def Let_def using unpack_header(2) by simp
  with b encode_records_total [of "[b]"] show ?thesis by (auto simp: MAX_RECORD_SIZE_def)
qed

lemma calm_persist:
  assumes "calm c" and "writes_succeed (disk c)" and "hard_state_fits (hard (me c))"
  shows "\<exists>x c'. persist c = Done x c' \<and> calm c'"
proof -
  obtain b blob where "encode_state_record (hard (me c)) = Inr b" "encode_records [b] = Inr blob"
    using encode_state_fits [OF assms(3)] by blast
  with calm_append [OF assms(1,2)] show ?thesis
    by (auto simp: persist_def save_state_def hard_def bind_def of_sum_def)
qed

definition entries_fit :: "log_entry list \<Rightarrow> bool" where
  "entries_fit es \<longleftrightarrow> (\<exists>bs blob. encode_entries es = Inr bs \<and> encode_records bs = Inr blob)"

lemma calm_persist_entries: "calm c \<Longrightarrow> writes_succeed (disk c) \<Longrightarrow> entries_fit es \<Longrightarrow> \<exists>x c'. persist_entries es c = Done x c' \<and> calm c'"
  by (cases "es = []")
    (use calm_append [of c] in \<open>auto simp: persist_entries_def storage_append_entries_def entries_fit_def bind_def of_sum_def ret_def\<close>)

section \<open>Following the specification\<close>

lemma reaches_triple:
  assumes "\<And>c. calm_run c0 k D U M c \<Longrightarrow> \<exists>x c'. m c = Done x c' \<and> calm c'"
    and "valid (runs_as c0 k D U M) m Q E"
  shows "reaches (calm_run c0 k D U M) m (\<lambda>x c. calm c \<and> Q x c)"
  using assms validD_Done unfolding reaches_def calm_run_def by metis

lemma reaches_runs:
  assumes "\<And>c. calm_run c0 k D U M c \<Longrightarrow> \<exists>x c'. m c = Done x c' \<and> calm c'"
    and "valid (runs_as c0 k D U M) m (\<lambda>_. runs_as c0 k' D' U' M') E"
  shows "reaches (calm_run c0 k D U M) m (\<lambda>_. calm_run c0 k' D' U' M')"
  using reaches_triple [OF assms] unfolding calm_run_def .

lemma reaches_ite:
  assumes "\<And>c. P c \<Longrightarrow> b c = b0" and "b0 \<Longrightarrow> reaches P m Q" and "\<not> b0 \<Longrightarrow> reaches P n Q"
  shows "reaches P (ite b m n) Q"
  using assms by (cases b0) (auto simp: reaches_def ite_def)

lemma reaches_whenever:
  assumes "\<And>c. P c \<Longrightarrow> b c = b0" and "b0 \<Longrightarrow> reaches P m Q" and "\<And>c. \<not> b0 \<Longrightarrow> P c \<Longrightarrow> Q () c"
  shows "reaches P (whenever b m) Q"
  using assms by (cases b0) (auto simp: reaches_def whenever_def)

lemma calm_runD: "calm_run c0 k D U M c \<Longrightarrow> calm c" "calm_run c0 k D U M c \<Longrightarrow> runs_as c0 k D U M c"
  by (simp_all add: calm_run_def)

lemmas calm_me = runs_me [OF calm_runD(2)]

lemma calm_cfg: "calm_run c0 k D U M c \<Longrightarrow> disk_cfg (disk c) = disk_cfg (disk c0)"
  "calm_run c0 k D U M c \<Longrightarrow> writes_succeed (disk c) = writes_succeed (disk c0)"
  by (simp_all add: calm_run_def runs_as_def frame_def writes_succeed_def)

lemma calm_become_follower: "calm c \<Longrightarrow> \<exists>x c'. become_follower t l c = Done x c' \<and> calm c'"
proof -
  assume "calm c"
  then obtain x1 c1 where 1: "upd (follow t l) c = Done x1 c1" "calm c1" using calm_upd by blast
  from calm_cancel_heartbeat [OF 1(2)] obtain x2 c2 where 2: "cancel_heartbeat c1 = Done x2 c2" "calm c2" by blast
  obtain c3 where "node_record ''raft.step_down'' [(''was'', JStr (role_value (role (me c)))),
      (''term'', JInt (current_term (me c2)))] c2 = Done () c3" "calm c3"
    using calm_record [OF 2(2)] by (metis (full_types) old.unit.exhaust)
  with 1 2 show ?thesis by (auto simp: become_follower_def Let_def block.simps ret_def)
qed

lemma go_follow: "reaches (calm_run c0 k D U M) (become_follower t l) (\<lambda>_. calm_run c0 (follow t l k) D U M)"
  by (rule reaches_runs [OF _ run_become_follower], rule calm_become_follower, erule calm_runD)

lemma go_arm_election: "reaches (calm_run c0 k D U M) arm_election_timer (\<lambda>_. calm_run c0 k D U M)"
  by (rule reaches_runs [OF _ run_arm_election], rule calm_arm_election, erule calm_runD)

lemma go_sync: "reaches (calm_run c0 k D U M) storage_sync (\<lambda>_. calm_run c0 k (D @ U) [] M)"
  by (rule reaches_runs [OF _ run_sync], rule calm_sync, erule calm_runD)

lemma go_send: "to \<in> {0, 1, 2, 3} \<Longrightarrow>
    reaches (calm_run c0 k D U M) (node_send to msg) (\<lambda>_. calm_run c0 k D U (M @ [(to, msg)]))"
  by (rule reaches_runs [OF _ run_send], rule calm_send, erule calm_runD)

lemma go_persist:
  assumes "writes_succeed (disk c0)" and "voted_for k \<noteq> Some NO_VOTE" and "hard_state_fits (hard k)"
  shows "reaches (calm_run c0 k D U []) persist (\<lambda>_. calm_run c0 k D (U @ [WState (hard k)]) [])"
proof (rule reaches_runs [OF _ run_persist [OF assms(2)]])
  fix c
  assume c: "calm_run c0 k D U [] c"
  then have "hard (me c) = hard k" by (simp add: hard_def calm_me)
  with assms(1,3) calm_cfg [OF c] show "\<exists>x c'. persist c = Done x c' \<and> calm c'"
    by (intro calm_persist calm_runD [OF c]) simp_all
qed

lemma go_upd:
  assumes "\<And>m k. core m = core k \<Longrightarrow> core (f m) = core (f k)"
    and "log_wf (rlog k) \<Longrightarrow> log_wf (rlog (f k))"
    and "node_id (f k) = node_id k" "peers (f k) = peers k" "running (f k) = running k"
  shows "reaches (calm_run c0 k D U M) (upd f) (\<lambda>_. calm_run c0 (f k) D U M)"
proof (rule reaches_runs)
  show "valid (runs_as c0 k D U M) (upd f) (\<lambda>_. runs_as c0 (f k) D U M) never_fails"
    by (rule run_upd) (fact assms)+
qed (rule calm_upd, erule calm_runD)

lemma go_reply_vote:
  assumes cfg: "writes_succeed (disk c0)"
    and "voted_for k \<noteq> Some NO_VOTE" and "hard_state_fits (hard k)" and "frm \<in> {0, 1, 2, 3}"
  shows "reaches (calm_run c0 k D [] []) (reply_vote frm g) (\<lambda>_. calm_run c0 k (D @ [WState (hard k)]) []
    [(frm, MRequestVoteReply (RequestVoteReply (current_term k) g))])"
proof -
  let ?m = "MRequestVoteReply (RequestVoteReply (current_term k) g)"
  have "reaches (calm_run c0 k (D @ [WState (hard k)]) [] [])
      (\<lambda>c. node_send frm (MRequestVoteReply (RequestVoteReply (current_term (me c)) g)) c)
      (\<lambda>_. calm_run c0 k (D @ [WState (hard k)]) [] [(frm, ?m)])"
    by (rule reaches_cong [where m' = "node_send frm ?m"])
      (use go_send [OF assms(4), of c0 k "D @ [WState (hard k)]" "[]" "[]"] in \<open>simp_all add: calm_me\<close>)
  note send = this
  show ?thesis
    unfolding reply_vote_def
    using go_persist [OF assms(1-3), of D "[]"] go_sync [of c0 k D "[WState (hard k)]" "[]"]
    by (intro reaches_block [OF _ reaches_block [OF _ reaches_block [OF send reaches_Nil]]]) simp_all
qed

text \<open>On a calm context a vote request whose term fits the disk format is always answered.\<close>

lemma go_request_vote:
  assumes cfg: "writes_succeed (disk c0)"
    and "voted_for k \<noteq> Some NO_VOTE" "hard_state_fits (hard k)" "frm \<in> {0, 1, 2, 3}"
    and "rv_candidate_id msg \<in> {1, 2, 3}" "0 \<le> rv_term msg" "rv_term msg < 2 ^ 64"
  shows "reaches (calm_run c0 k D [] []) (on_request_vote frm msg)
    (\<lambda>_. calm_run c0 (new_state (request_vote_spec frm msg k)) (D @ written (request_vote_spec frm msg k)) []
       (sent_by (request_vote_spec frm msg k)))"
proof -
  define k1 where "k1 = (if rv_term msg > current_term k then follow (rv_term msg) None k else k)"
  let ?h = "request_vote_spec frm msg k"
  let ?ok = "voted_for k1 \<in> {None, Some (rv_candidate_id msg)} \<and> up_to_date msg k1"
  let ?k2 = "k1\<lparr>voted_for := Some (rv_candidate_id msg)\<rparr>"
  have h: "?h = (if rv_term msg < current_term k1 then reply_vote_spec frm False k1
      else if ?ok then reply_vote_spec frm True ?k2 else reply_vote_spec frm False k1)"
    by (simp add: request_vote_spec_def k1_def Let_def)
  have f1: "voted_for k1 \<noteq> Some NO_VOTE" "hard_state_fits (hard k1)"
    using assms by (auto simp: k1_def hard_def hard_state_fits_def)
  have f2: "voted_for ?k2 \<noteq> Some NO_VOTE" "hard_state_fits (hard ?k2)"
    using f1 assms(5) by (auto simp: NO_VOTE_def hard_def hard_state_fits_def)
  have first: "reaches (calm_run c0 k D [] []) (whenever (\<lambda>c. rv_term msg > current_term (me c))
      (become_follower (rv_term msg) None)) (\<lambda>_. calm_run c0 k1 D [] [])"
    using go_follow [of c0 k D "[]" "[]" "rv_term msg" None]
    by (intro reaches_whenever [where ?b0.0 = "rv_term msg > current_term k"]) (simp_all add: calm_me k1_def)
  have grant: "reaches (calm_run c0 k1 D [] []) (block [upd (\<lambda>m. m\<lparr>voted_for := Some (rv_candidate_id msg)\<rparr>),
      arm_election_timer, reply_vote frm True])
      (\<lambda>_. calm_run c0 ?k2 (D @ [WState (hard ?k2)]) [] [(frm, MRequestVoteReply (RequestVoteReply (current_term ?k2) True))])"
  proof (rule reaches_block [OF go_upd], goal_cases)
    case 6
    show ?case
      by (rule reaches_block [OF go_arm_election], rule reaches_block [OF go_reply_vote [OF cfg f2 assms(4)]], rule reaches_Nil)
  qed (simp_all add: core_eq_iff)
  have refuse: "reaches (calm_run c0 k1 D [] []) (reply_vote frm False)
      (\<lambda>_. calm_run c0 k1 (D @ [WState (hard k1)]) [] [(frm, MRequestVoteReply (RequestVoteReply (current_term k1) False))])"
    by (rule go_reply_vote [OF cfg f1 assms(4)])
  show ?thesis
    unfolding on_request_vote_def
  proof (rule reaches_block [OF first], rule reaches_block [OF _ reaches_Nil],
      rule reaches_ite [where ?b0.0 = "rv_term msg < current_term k1"])
    assume "\<not> rv_term msg < current_term k1"
    then show "reaches (calm_run c0 k1 D [] []) (ite (\<lambda>c. voted_for (me c) \<in> {None, Some (rv_candidate_id msg)} \<and> up_to_date msg (me c))
            (block [upd (\<lambda>m. m\<lparr>voted_for := Some (rv_candidate_id msg)\<rparr>), arm_election_timer, reply_vote frm True])
            (reply_vote frm False)) (\<lambda>_. calm_run c0 (new_state ?h) (D @ written ?h) [] (sent_by ?h))"
      using grant refuse
      by (intro reaches_ite [where ?b0.0 = ?ok]) (auto simp: h reply_vote_spec_def calm_me up_to_date_runs [OF calm_runD(2)])
  qed (use refuse in \<open>simp_all add: h reply_vote_spec_def calm_me\<close>)
qed

text \<open>New entries of a leader are taken over and acknowledged.\<close>

lemma go_take_new:
  "log_wf (rlog k @ es) \<Longrightarrow> reaches (calm_run c0 k D [] []) (take_entries (int (length (rlog k)) + 1) es app)
     (\<lambda>r c. r = app @ es \<and> calm_run c0 (k\<lparr>rlog := rlog k @ es\<rparr>) D [] [] c)"
proof (induction es arbitrary: k app)
  case Nil
  then show ?case by (simp add: reaches_def ret_def)
next
  case (Cons e es)
  have wf: "log_wf ((rlog k @ [e]) @ es)" using Cons.prems by simp
  then have wf1: "log_wf (rlog k @ [e])" by (metis append_eq_conv_conj log_wf_take)
  have "reaches (calm_run c0 k D [] []) (on_log (log_append [e])) (\<lambda>_. calm_run c0 (k\<lparr>rlog := rlog k @ [e]\<rparr>) D [] [])"
  proof (rule reaches_runs [OF _ run_log_append])
    fix c
    assume c: "calm_run c0 k D [] [] c"
    have "log_append [e] (rlog (me c)) = Done () (rlog k @ [e])"
      using log_append_contiguous [OF wf1] by (simp add: calm_me [OF c])
    then show "\<exists>x c'. on_log (log_append [e]) c = Done x c' \<and> calm c'"
      using calm_runD(1) [OF c] by (simp add: on_log_def on_part_def del: log_append.simps)
  qed
  then have one: "reaches (calm_run c0 k D [] []) (take_entry (int (length (rlog k)) + 1) e)
      (\<lambda>took c. took \<and> calm_run c0 (k\<lparr>rlog := rlog k @ [e]\<rparr>) D [] [] c)"
    unfolding take_entry_def Let_def
    by (intro reaches_ite [where ?b0.0 = False] reaches_bind [where R = "\<lambda>_. calm_run c0 (k\<lparr>rlog := rlog k @ [e]\<rparr>) D [] []"])
      (auto simp: calm_me reaches_def ret_def last_index_wf [OF runs_log_wf [OF calm_runD(2)]])
  show ?case
    unfolding take_entries.simps
  proof (rule reaches_bind [OF one])
    fix took
    have "reaches (calm_run c0 (k\<lparr>rlog := rlog k @ [e]\<rparr>) D [] []) (take_entries (int (length (rlog k)) + 1 + 1) es (app @ [e]))
        (\<lambda>r c. r = app @ e # es \<and> calm_run c0 (k\<lparr>rlog := rlog k @ e # es\<rparr>) D [] [] c)"
      using Cons.IH [of "k\<lparr>rlog := rlog k @ [e]\<rparr>" "app @ [e]"] wf by (simp add: algebra_simps)
    then show "reaches (\<lambda>c. took \<and> calm_run c0 (k\<lparr>rlog := rlog k @ [e]\<rparr>) D [] [] c)
        (take_entries (int (length (rlog k)) + 1 + 1) es (if took then app @ [e] else app))
        (\<lambda>r c. r = app @ e # es \<and> calm_run c0 (k\<lparr>rlog := rlog k @ e # es\<rparr>) D [] [] c)"
      by (cases took) (simp_all add: reaches_def)
  qed
qed

lemma go_append_new:
  fixes msg :: append_entries and k :: rnode
  defines "k1 \<equiv> follow (ae_term msg) (Some (ae_leader_id msg)) k"
  assumes cfg: "writes_succeed (disk c0)"
    and "voted_for k1 \<noteq> Some NO_VOTE" "hard_state_fits (hard k1)" "frm \<in> {0, 1, 2, 3}"
    and "current_term k \<le> ae_term msg" "ae_prev_log_index msg = int (length (rlog k))"
    and "trm (rlog k) (ae_prev_log_index msg) = ae_prev_log_term msg"
    and "log_wf (rlog k @ ae_entries msg)" "entries_fit (ae_entries msg)" "ae_leader_commit msg \<le> commit_index k"
  shows "reaches (calm_run c0 k D [] []) (on_append_entries frm msg) (\<lambda>_. calm)"
proof -
  let ?l = "rlog k @ ae_entries msg" and ?prev = "ae_prev_log_index msg"
  let ?k2 = "k1\<lparr>rlog := ?l\<rparr>"
  have wf: "log_wf (rlog k)" using assms(9) by (metis append_eq_conv_conj log_wf_take)
  define k0 where "k0 = (if current_term k < ae_term msg then k1 else k)"
  have k01: "follow (ae_term msg) (Some (ae_leader_id msg)) k0 = k1"
    by (cases k) (auto simp: k0_def k1_def follow_def)
  have ok: "consistent_at ?prev (ae_prev_log_term msg) (rlog k1) = Inr True"
    using assms(7,8) wf by (simp add: consistent_at_def k1_def term_at_wf has_entry_wf)
  have f2: "voted_for ?k2 \<noteq> Some NO_VOTE" "hard_state_fits (hard ?k2)"
    using assms(3,4) by (simp_all add: hard_def)
  have first: "reaches (calm_run c0 k D [] []) (whenever (\<lambda>c. ae_term msg > current_term (me c))
      (become_follower (ae_term msg) (Some (ae_leader_id msg)))) (\<lambda>_. calm_run c0 k0 D [] [])"
    using go_follow [of c0 k D "[]" "[]" "ae_term msg" "Some (ae_leader_id msg)"]
    by (intro reaches_whenever [where ?b0.0 = "ae_term msg > current_term k"]) (simp_all add: calm_me k0_def k1_def)
  have le0: "\<not> ae_term msg < current_term k0" using assms(6) by (simp add: k0_def k1_def)
  have per: "reaches (calm_run c0 ?k2 D [] []) (persist_entries (ae_entries msg))
      (\<lambda>_. calm_run c0 ?k2 D (map WEntry (ae_entries msg)) [])"
    by (rule reaches_runs [OF _ run_persist_entries [of c0 ?k2 D "[]", simplified]])
      (rule calm_persist_entries, erule calm_runD, use calm_cfg cfg assms(10) in auto)
  have idle: "reaches (calm_run c0 ?k2 D' [] []) (whenever (\<lambda>c. ae_leader_commit msg > commit_index (me c)) m)
      (\<lambda>_. calm_run c0 ?k2 D' [] [])" for D' m
    by (rule reaches_whenever [where ?b0.0 = False]) (use assms(11) in \<open>simp_all add: calm_me k1_def\<close>)
  have send: "reaches (calm_run c0 ?k2 D' [] []) (\<lambda>c. node_send frm (g c) c) (\<lambda>_. calm)" for D' g
    using calm_send [OF calm_runD(1) assms(5)] unfolding reaches_def by blast
  have took: "reaches (calm_run c0 k1 D [] []) (take_entries (?prev + 1) (ae_entries msg) [])
      (\<lambda>r c. r = ae_entries msg \<and> calm_run c0 ?k2 D [] [] c)"
    using go_take_new [of k1 "ae_entries msg" c0 D "[]"] assms(7,9) by (simp add: k1_def)
  have tail: "reaches (\<lambda>c. r = ae_entries msg \<and> calm_run c0 ?k2 D [] [] c)
     (block [persist_entries r, persist, storage_sync,
                  whenever (\<lambda>c. ae_leader_commit msg > commit_index (me c)) m,
                  (\<lambda>c. node_send frm (g c) c)]) (\<lambda>_. calm)" for r m g
  proof (cases "r = ae_entries msg")
    case True
    have "reaches (calm_run c0 ?k2 D [] []) (block [persist_entries (ae_entries msg), persist, storage_sync,
                  whenever (\<lambda>c. ae_leader_commit msg > commit_index (me c)) m, (\<lambda>c. node_send frm (g c) c)]) (\<lambda>_. calm)"
      by (rule reaches_block [OF per], rule reaches_block [OF go_persist [OF cfg f2]], rule reaches_block [OF go_sync],
          rule reaches_block [OF idle], rule reaches_block [OF send], rule reaches_Nil)
    with True show ?thesis by simp
  qed (simp add: reaches_def)
  show ?thesis
    unfolding on_append_entries_def
    apply (rule reaches_block [OF first])
    apply (rule reaches_block [where R = calm, OF _ reaches_Nil])
     apply (rule reaches_ite [where ?b0.0 = False])
       apply (use le0 in \<open>simp add: calm_me\<close>)
      apply simp
     apply (rule reaches_block [OF go_follow [where k = k0]], unfold k01)
     apply (rule reaches_block [OF go_arm_election])
     apply (rule reaches_block [OF _ reaches_Nil])
      apply (rule reaches_cong [OF _ reaches_bind [OF took]])
       apply (simp add: bind_def of_sum_def ok calm_me Let_def)
      apply (rule tail)
     apply simp
    apply simp
    done
qed

section \<open>An example context\<close>

definition example_ctx :: "disk_faults \<Rightarrow> rnode \<Rightarrow> node_ctx" where
  "example_ctx cfg k =
     \<lparr>rng = \<lparr>seed = 0, calls = 0, src = (\<lambda>_. 0), pos = 0\<rparr>, queue = empty_queue, now = 0, trace = [], header = [],
      events_run = 0, net_faults = default_network_faults, describe_msg = (\<lambda>m. JDesc (DescMessage m)),
      arrive_action = Arrive, inboxes = [(0, ToClient), (1, ToNode 1), (2, ToNode 2), (3, ToNode 3)],
      status = [0 \<mapsto> RUNNING, 1 \<mapsto> RUNNING, 2 \<mapsto> RUNNING, 3 \<mapsto> RUNNING],
      held = [0 \<mapsto> [], 1 \<mapsto> [], 2 \<mapsto> [], 3 \<mapsto> []], partition = None, delivered = 0, dropped = 0,
      me = k, disk = new_sim_storage cfg\<rparr>"

lemma example_ctx_simps [simp]:
  "me (example_ctx cfg k) = k" "queue (example_ctx cfg k) = empty_queue" "disk (example_ctx cfg k) = new_sim_storage cfg"
  "arrive_action (example_ctx cfg k) = Arrive" "fair (rng (example_ctx cfg k))" "core_wf (example_ctx cfg k)"
  by (simp_all add: example_ctx_def core_wf_def zero_stream_fair zero_stream_def)

lemma example_calm: "in_range cfg \<Longrightarrow> calm (example_ctx cfg k)"
  by (auto simp add: calm_def example_ctx_def core_wf_def zero_stream_fair zero_stream_def new_sim_storage_def online_def)

lemma example_runs: "log_wf (rlog k) \<Longrightarrow> runs_as (example_ctx cfg k) k [] [] [] (example_ctx cfg k)"
  by (auto simp: runs_as_def disk_wal_def frame_refl intro!: exI [of _ "[]"])

lemma example_calm_run:
  "log_wf (rlog k) \<Longrightarrow> in_range cfg \<Longrightarrow>
     calm_run (example_ctx cfg k) k [] [] [] (example_ctx cfg k)"
  by (simp add: calm_run_def example_calm example_runs)

end
