(* ===== verification/Node_Sends.thy ===== *)
theory Node_Sends
  imports Node_Calm
begin

text \<open>
  What is on the queue after a handler, from below: where nothing is lost, every message sent has its
  delivery among the live events, and an armed timer has its event there. The specifications of
  \<open>Node_Spec\<close> bound what a handler sends from above; \<open>on_queue\<close> follows a calm run with the events it
  must have left. On top: what a timeout, a granted vote and a won election put on the queue.
\<close>

declare block.simps [simp del]

section \<open>Events that must be there\<close>

text \<open>\<open>ticking c\<close>: the election timer of the node is set, and its event is live.\<close>

definition ticking :: "node_ctx \<Rightarrow> bool" where
  "ticking c \<longleftrightarrow> (\<exists>t \<in> set (live (queue c)). election_timer (me c) = Some t
     \<and> ev_action t = Callback (ElectionTimeout (node_id (me c))))"

definition due_actions :: "node_ctx \<Rightarrow> raft_action set" where
  "due_actions c = ev_action ` set (live (queue c))"

text \<open>\<open>carries T H A c\<close>: ticking, if \<open>T\<close>, the heartbeat timer one of \<open>H\<close>, and the actions \<open>A\<close> due.\<close>

definition carries :: "bool \<Rightarrow> raft_timer option set \<Rightarrow> raft_action set \<Rightarrow> node_ctx \<Rightarrow> bool" where
  "carries T H A c \<longleftrightarrow> (T \<longrightarrow> ticking c) \<and> heartbeat_timer (me c) \<in> H \<and> A \<subseteq> due_actions c"

definition on_queue :: "node_ctx \<Rightarrow> rnode \<Rightarrow> wal_rec list \<Rightarrow> wal_rec list \<Rightarrow> (NodeId \<times> message) list \<Rightarrow>
    bool \<Rightarrow> raft_timer option set \<Rightarrow> raft_action set \<Rightarrow> node_ctx \<Rightarrow> bool" where
  "on_queue c0 k D U M T H A c \<longleftrightarrow> calm_run c0 k D U M c \<and> carries T H A c"

lemma on_queueD: "on_queue c0 k D U M T H A c \<Longrightarrow> calm_run c0 k D U M c"
  "on_queue c0 k D U M T H A c \<Longrightarrow> carries T H A c"
  by (simp_all add: on_queue_def)

lemmas on_queue_me = calm_me [OF on_queueD(1)]

lemma on_queue_start: "calm_run c0 k D U M c \<Longrightarrow> on_queue c0 k D U M False UNIV {} c"
  by (simp add: on_queue_def carries_def)

lemma reaches_carries:
  assumes "reaches (calm_run c0 k D U M) m (\<lambda>_. calm_run c0 k' D' U' M')"
    and "\<And>c x c'. calm_run c0 k D U M c \<Longrightarrow> carries T H A c \<Longrightarrow> m c = Done x c' \<Longrightarrow> carries T' H' A' c'"
  shows "reaches (on_queue c0 k D U M T H A) m (\<lambda>_. on_queue c0 k' D' U' M' T' H' A')"
  using assms unfolding reaches_def on_queue_def by blast

lemma carries_update [simp]:
  "carries T H A (c\<lparr>trace := t\<rparr>) = carries T H A c" "carries T H A (c\<lparr>rng := r\<rparr>) = carries T H A c"
  "carries T H A (c\<lparr>rng := r, disk := d\<rparr>) = carries T H A c"
  by (simp_all add: carries_def ticking_def due_actions_def)

section \<open>The primitives\<close>

lemma due_upd:
  assumes "reaches (calm_run c0 k D U M) (upd f) (\<lambda>_. calm_run c0 k' D U M)"
    and "\<And>m. election_timer (f m) = election_timer m" "\<And>m. heartbeat_timer (f m) = heartbeat_timer m"
      "\<And>m. node_id (f m) = node_id m"
  shows "reaches (on_queue c0 k D U M T H A) (upd f) (\<lambda>_. on_queue c0 k' D U M T H A)"
  by (rule reaches_carries [OF assms(1)])
    (use assms(2-) in \<open>auto simp: upd_def modify_def carries_def ticking_def due_actions_def\<close>)

lemma due_record: "reaches (on_queue c0 k D U M T H A) (node_record kind d) (\<lambda>_. on_queue c0 k D U M T H A)"
proof (rule reaches_carries)
  show "reaches (calm_run c0 k D U M) (node_record kind d) (\<lambda>_. calm_run c0 k D U M)"
    by (rule reaches_runs [OF _ run_record]) (rule calm_record, erule calm_runD)
qed (auto simp: node_record_def trace_write_def modify_def)

lemma on_disk_carries: "on_disk m c = Done x c' \<Longrightarrow> carries T H A c' = carries T H A c"
  by (auto simp: on_disk_Done)

lemma due_sync: "reaches (on_queue c0 k D U M T H A) storage_sync (\<lambda>_. on_queue c0 k (D @ U) [] M T H A)"
  by (rule reaches_carries [OF go_sync]) (auto simp: storage_sync_def dest: on_disk_carries)

lemma due_persist:
  assumes "writes_succeed (disk c0)" and "voted_for k \<noteq> Some NO_VOTE" and "hard_state_fits (hard k)"
  shows "reaches (on_queue c0 k D U [] T H A) persist (\<lambda>_. on_queue c0 k D (U @ [WState (hard k)]) [] T H A)"
  by (rule reaches_carries [OF go_persist [OF assms]])
    (auto simp: persist_def save_state_def bind_def of_sum_def dest: on_disk_carries split: sum.splits)

text \<open>A message that nothing can lose is on its way.\<close>

lemma node_send_due:
  assumes "calm c" and "node_send to msg c = Done x c'"
  shows "me c' = me c" and "set (live (queue c)) \<subseteq> set (live (queue c'))"
    and "arrive_action c (node_id (me c)) to msg \<in> due_actions c'"
proof -
  let ?n = "node_id (me c)"
  obtain t where s: "net_send ?n to msg (c\<lparr>trace := t\<rparr>) = Done x c'"
    using assms(2) by (auto simp: node_send_def block.simps node_record_def trace_write_def modify_def ret_def
        split: outcome.splits)
  have "core_wf (c\<lparr>trace := t\<rparr>)" and nf: "drop_percent (net_faults c) = 0"
    using assms(1) by (simp_all add: calm_def lossless_def)
  from net_send_Done(2) [OF s this(1)] obtain es where es: "sent_copies ?n to msg es (c\<lparr>trace := t\<rparr>) c'" ..
  note eq = conjunct1 [OF es [unfolded sent_copies_def]]
  show "me c' = me c" by (rule eq [THEN arg_cong, of me, simplified])
  show "set (live (queue c)) \<subseteq> set (live (queue c'))" using es by (auto simp: sent_copies_def)
  have ne: "es \<noteq> []" using es nf by (simp add: sent_copies_def)
  have "hd es \<in> set (live (queue c'))" and "delivery c ?n to msg (hd es)"
    using es ne by (auto simp: sent_copies_def)
  then show "arrive_action c ?n to msg \<in> due_actions c'" unfolding due_actions_def delivery_def by force
qed

lemma due_send: "to \<in> {0, 1, 2, 3} \<Longrightarrow>
    reaches (on_queue c0 k D U M T H A) (node_send to msg)
      (\<lambda>_. on_queue c0 k D U (M @ [(to, msg)]) T H (insert (arrive_action c0 (node_id k) to msg) A))"
proof (rule reaches_carries [OF go_send], assumption)
  fix c x c'
  assume c: "calm_run c0 k D U M c" and A: "carries T H A c" and s: "node_send to msg c = Done x c'"
  have "arrive_action c = arrive_action c0" using c by (simp add: calm_run_def runs_as_def frame_def)
  with node_send_due [OF calm_runD(1) [OF c] s] A calm_me(1) [OF c]
  show "carries T H (insert (arrive_action c0 (node_id k) to msg) A) c'"
    by (fastforce simp: carries_def ticking_def due_actions_def)
qed

lemma due_each:
  assumes "\<And>x M A. x \<in> set xs \<Longrightarrow> reaches (on_queue c0 k D U M T H A) (f x)
      (\<lambda>_. on_queue c0 k D U (M @ [(x, g x)]) T H (insert (arrive_action c0 (node_id k) x (g x)) A))"
  shows "reaches (on_queue c0 k D U M T H A) (for_each xs f)
      (\<lambda>_. on_queue c0 k D U (M @ map (\<lambda>x. (x, g x)) xs) T H (A \<union> (\<lambda>x. arrive_action c0 (node_id k) x (g x)) ` set xs))"
  using assms
proof (induction xs arbitrary: M A)
  case Nil
  then show ?case by (simp add: for_each_def reaches_Nil)
next
  case (Cons x xs)
  let ?a = "\<lambda>x. arrive_action c0 (node_id k) x (g x)"
  have "reaches (on_queue c0 k D U M T H A) (block (f x # map f xs))
      (\<lambda>_. on_queue c0 k D U ((M @ [(x, g x)]) @ map (\<lambda>x. (x, g x)) xs) T H (insert (?a x) A \<union> ?a ` set xs))"
  proof (rule reaches_block)
    show "reaches (on_queue c0 k D U M T H A) (f x) (\<lambda>_. on_queue c0 k D U (M @ [(x, g x)]) T H (insert (?a x) A))"
      by (rule Cons.prems) simp
    show "reaches (on_queue c0 k D U (M @ [(x, g x)]) T H (insert (?a x) A)) (block (map f xs))
        (\<lambda>_. on_queue c0 k D U ((M @ [(x, g x)]) @ map (\<lambda>x. (x, g x)) xs) T H (insert (?a x) A \<union> ?a ` set xs))"
      using Cons.IH [of "M @ [(x, g x)]" "insert (?a x) A"] Cons.prems by (simp add: for_each_def)
  qed
  then show ?case by (simp add: for_each_def)
qed

section \<open>Timers\<close>

lemma cancel_election_heartbeat:
  assumes "cancel_election_timer c = Done x c'" and "core_wf c"
  shows "heartbeat_timer (me c') = heartbeat_timer (me c) \<and> node_id (me c') = node_id (me c) \<and> core_wf c'"
proof (cases "election_timer (me c)")
  case (Some t)
  with assms(1) obtain b c1 where b: "timer_cancel t c = Done b c1"
    and c': "c' = c1\<lparr>me := (me c1)\<lparr>election_timer := None\<rparr>\<rparr>"
    by (auto simp: cancel_election_timer_def block.simps bind_def ret_def upd_def modify_def split: outcome.splits)
  from timer_cancel_Done(1,2) [OF b assms(2)] obtain q where "core_wf c1" "c1 = c\<lparr>queue := q\<rparr>" by blast
  then show ?thesis by (simp add: c' core_wf_def)
qed (use assms in \<open>simp add: cancel_election_timer_def\<close>)

lemma due_cancel_election: "reaches (on_queue c0 k D U M T H {}) cancel_election_timer (\<lambda>_. on_queue c0 k D U M False H {})"
proof (rule reaches_carries [OF reaches_runs [OF _ run_cancel_election]])
  fix c x c'
  assume "calm_run c0 k D U M c" "carries T H {} c" "cancel_election_timer c = Done x c'"
  then show "carries False H {} c'"
    using cancel_election_heartbeat [of c x c'] by (auto simp: carries_def calm_run_def calm_def)
qed (rule calm_cancel_election, erule calm_runD)

lemma arm_election_ticking:
  assumes "arm_election_timer c = Done x c'" and "core_wf c"
  shows "ticking c' \<and> heartbeat_timer (me c') = heartbeat_timer (me c)"
proof -
  from assms(1) obtain c1 d r e c2 where 1: "cancel_election_timer c = Done () c1"
    and d: "clock_after d (Callback (ElectionTimeout (node_id (me c1)))) ''raft.election_timeout''
        (Some (node_id (me c1))) (c1\<lparr>rng := r\<rparr>) = Done e c2"
    and c': "c' = c2\<lparr>me := (me c2)\<lparr>election_timer := Some e\<rparr>\<rparr>"
    by (auto simp: arm_election_timer_def block.simps bind_def with_rng_def on_part_def upd_def modify_def ret_def
        split: outcome.splits)
  note c1 = cancel_election_heartbeat [OF 1 assms(2)]
  from c1 have "core_wf (c1\<lparr>rng := r\<rparr>)" by simp
  note D = clock_after_Done [OF d this]
  from D(2) obtain q where "c2 = c1\<lparr>rng := r, queue := q\<rparr>" by auto
  with D(3,5) c1 show ?thesis by (simp add: c' ticking_def set_insort_key)
qed

lemma due_arm_election: "reaches (on_queue c0 k D U M T H {}) arm_election_timer (\<lambda>_. on_queue c0 k D U M True H {})"
proof (rule reaches_carries [OF go_arm_election])
  fix c x c'
  assume "calm_run c0 k D U M c" "carries T H {} c" "arm_election_timer c = Done x c'"
  then show "carries True H {} c'"
    using arm_election_ticking [of c x c'] by (auto simp: carries_def calm_run_def calm_def)
qed

lemma calm_arm_heartbeat: "calm c \<Longrightarrow> \<exists>x c'. arm_heartbeat_timer c = Done x c' \<and> calm c'"
proof -
  assume "calm c"
  then obtain x1 c1 where 1: "cancel_heartbeat c = Done x1 c1" "calm c1" using calm_cancel_heartbeat by blast
  have "0 \<le> HEARTBEAT_INTERVAL" by (simp add: HEARTBEAT_INTERVAL_def)
  then obtain e c2 where "clock_after HEARTBEAT_INTERVAL (Callback (HeartbeatTimeout (node_id (me c1)))) ''raft.heartbeat''
      (Some (node_id (me c1))) c1 = Done e c2" "calm c2"
    using calm_after [OF 1(2)] by blast
  with 1 show ?thesis by (simp add: arm_heartbeat_timer_def block.simps bind_def upd_def modify_def)
qed

lemma due_arm_heartbeat:
  "reaches (on_queue c0 k D U M T {None} A) arm_heartbeat_timer
     (\<lambda>_. on_queue c0 k D U M T UNIV (insert (Callback (HeartbeatTimeout (node_id k))) A))"
proof (rule reaches_carries [OF reaches_runs [OF _ run_arm_heartbeat]])
  fix c x c'
  assume c: "calm_run c0 k D U M c" and A: "carries T {None} A c" and run: "arm_heartbeat_timer c = Done x c'"
  let ?n = "node_id (me c)"
  from A run obtain e c2 where d: "clock_after HEARTBEAT_INTERVAL (Callback (HeartbeatTimeout ?n)) ''raft.heartbeat'' (Some ?n) c = Done e c2"
    and c': "c' = c2\<lparr>me := (me c2)\<lparr>heartbeat_timer := Some e\<rparr>\<rparr>"
    by (auto simp: carries_def arm_heartbeat_timer_def cancel_heartbeat_def block.simps bind_def upd_def modify_def
        split: outcome.splits)
  from c have "core_wf c" by (simp add: calm_run_def calm_def)
  note D = clock_after_Done [OF d this]
  from D(2) obtain q where "c2 = c\<lparr>queue := q\<rparr>" by blast
  with A D(3,5) calm_me(1) [OF c] show "carries T UNIV (insert (Callback (HeartbeatTimeout (node_id k))) A) c'"
    by (auto simp: c' carries_def ticking_def due_actions_def set_insort_key)
qed (rule calm_arm_heartbeat, erule calm_runD)

section \<open>What the handlers of an election put on the queue\<close>

lemma due_follow: "reaches (calm_run c0 k D U M) (become_follower t l) (\<lambda>_. on_queue c0 (follow t l k) D U M False UNIV {})"
  using go_follow [of c0 k D U M t l] on_queue_start unfolding reaches_def by blast

text \<open>A vote that can be given is given: the answer is on its way, and the voter ticks.\<close>

lemma due_vote:
  fixes msg :: request_vote and k :: rnode
  defines "k1 \<equiv> (if rv_term msg > current_term k then follow (rv_term msg) None k else k)"
  defines "k2 \<equiv> k1\<lparr>voted_for := Some (rv_candidate_id msg)\<rparr>"
  defines "answer \<equiv> MRequestVoteReply (RequestVoteReply (current_term k1) True)"
  assumes cfg: "writes_succeed (disk c0)"
    and "current_term k \<le> rv_term msg" "voted_for k1 \<in> {None, Some (rv_candidate_id msg)}" "up_to_date msg k1"
    and "rv_candidate_id msg \<noteq> NO_VOTE" "hard_state_fits (hard k2)" "frm \<in> {0, 1, 2, 3}"
  shows "reaches (calm_run c0 k D [] []) (on_request_vote frm msg)
    (\<lambda>_. on_queue c0 k2 (D @ [WState (hard k2)]) [] [(frm, answer)] True UNIV {arrive_action c0 (node_id k) frm answer})"
proof -
  have first: "reaches (calm_run c0 k D [] []) (whenever (\<lambda>c. rv_term msg > current_term (me c))
      (become_follower (rv_term msg) None)) (\<lambda>_. on_queue c0 k1 D [] [] False UNIV {})"
    using due_follow [of c0 k D "[]" "[]" "rv_term msg" None]
    by (intro reaches_whenever [where ?b0.0 = "rv_term msg > current_term k"]) (simp_all add: calm_me k1_def on_queue_start)
  have vote: "reaches (on_queue c0 k1 D [] [] False UNIV {}) (upd (\<lambda>m. m\<lparr>voted_for := Some (rv_candidate_id msg)\<rparr>))
      (\<lambda>_. on_queue c0 k2 D [] [] False UNIV {})"
    unfolding k2_def by (rule due_upd [OF go_upd]) (simp_all add: core_eq_iff)
  have v2: "voted_for k2 \<noteq> Some NO_VOTE" and t2: "current_term k2 = current_term k1" "node_id k2 = node_id k"
    using assms by (simp_all add: k2_def k1_def)
  have send: "reaches (on_queue c0 k2 D' [] [] True UNIV {})
      (\<lambda>c. node_send frm (MRequestVoteReply (RequestVoteReply (current_term (me c)) True)) c)
      (\<lambda>_. on_queue c0 k2 D' [] [(frm, answer)] True UNIV {arrive_action c0 (node_id k) frm answer})" for D'
    by (rule reaches_cong [where m' = "node_send frm answer"])
      (use due_send [OF assms(10), of c0 k2 D' "[]" "[]"] in \<open>simp_all add: on_queue_me t2 answer_def\<close>)
  have reply: "reaches (on_queue c0 k2 D [] [] True UNIV {}) (reply_vote frm True)
      (\<lambda>_. on_queue c0 k2 (D @ [WState (hard k2)]) [] [(frm, answer)] True UNIV {arrive_action c0 (node_id k) frm answer})"
    unfolding reply_vote_def
    using due_persist [OF cfg v2 assms(9), of D "[]"] due_sync [of c0 k2 D "[WState (hard k2)]"]
    by (intro reaches_block [OF _ reaches_block [OF _ reaches_block [OF send reaches_Nil]]]) simp_all
  have le: "\<not> rv_term msg < current_term k1" using assms(5) by (simp add: k1_def)
  show ?thesis
    unfolding on_request_vote_def
    by (rule reaches_block [OF first], rule reaches_block [OF _ reaches_Nil],
        rule reaches_ite [where ?b0.0 = False], use le in \<open>simp add: on_queue_me\<close>, simp,
        rule reaches_ite [where ?b0.0 = True],
        use assms(6,7) up_to_date_runs [OF calm_runD(2) [OF on_queueD(1)]] in \<open>simp add: on_queue_me\<close>,
        rule reaches_block [OF vote], rule reaches_block [OF due_arm_election],
        rule reaches_block [OF reply], rule reaches_Nil, assumption, simp, assumption)
qed

text \<open>A timeout in a cluster of more than one makes a candidate: everybody is asked, and it ticks on.\<close>

definition stands :: "rnode \<Rightarrow> rnode" where
  "stands k = k\<lparr>current_term := current_term k + 1, role := CANDIDATE, leader_id := None,
     votes_granted := [node_id k], voted_for := Some (node_id k)\<rparr>"

definition call_for_votes :: "rnode \<Rightarrow> message" where
  "call_for_votes k = MRequestVote (RequestVote (current_term k) (node_id k) (last_index (rlog k)) (last_term (rlog k)))"

lemma due_broadcast:
  assumes "set (peers k) \<subseteq> {0, 1, 2, 3}"
  shows "reaches (on_queue c0 k D U M T H A) (broadcast msg)
    (\<lambda>_. on_queue c0 k D U (M @ map (\<lambda>p. (p, msg)) (peers k)) T H
       (A \<union> (\<lambda>p. arrive_action c0 (node_id k) p msg) ` set (peers k)))"
  unfolding broadcast_def
  by (rule reaches_cong [where m' = "for_each (peers k) (\<lambda>peer. node_send peer msg)"], simp add: on_queue_me,
      rule due_each, rule due_send, use assms in blast)

lemma due_election_timeout:
  fixes k :: rnode
  defines "k1 \<equiv> stands k"
  assumes cfg: "writes_succeed (disk c0)"
    and "hard_state_fits (hard k1)" "node_id k \<noteq> NO_VOTE" "1 < majority k" "set (peers k) \<subseteq> {0, 1, 2, 3}"
  shows "reaches (on_queue c0 k D [] [] False H {}) on_election_timeout
    (\<lambda>_. on_queue c0 k1 (D @ [WState (hard k1)]) [] (map (\<lambda>p. (p, call_for_votes k1)) (peers k)) True H
       ((\<lambda>p. arrive_action c0 (node_id k) p (call_for_votes k1)) ` set (peers k)))"
proof -
  let ?ka = "k\<lparr>current_term := current_term k + 1\<rparr>"
  let ?kb = "?ka\<lparr>role := CANDIDATE, leader_id := None, votes_granted := [node_id k]\<rparr>"
  let ?send = "\<lambda>c. broadcast (MRequestVote (RequestVote (current_term (me c)) (node_id (me c))
                (last_index (rlog (me c))) (last_term (rlog (me c))))) c"
  have k1: "?kb\<lparr>voted_for := Some (node_id k)\<rparr> = k1" by (simp add: k1_def stands_def)
  have f: "voted_for k1 \<noteq> Some NO_VOTE" "length (votes_granted k1) = 1" "peers k1 = peers k" "node_id k1 = node_id k"
    "majority k1 = majority k"
    using assms by (simp_all add: k1_def stands_def majority_def cluster_size_def)
  have term_up: "reaches (on_queue c0 k D [] [] False H {}) (upd (\<lambda>m. m\<lparr>current_term := current_term m + 1\<rparr>))
      (\<lambda>_. on_queue c0 ?ka D [] [] False H {})"
    by (rule due_upd [OF go_upd]) (simp_all add: core_eq_iff)
  have cand: "reaches (on_queue c0 ?ka D [] [] False H {}) become_candidate (\<lambda>_. on_queue c0 ?kb D [] [] False H {})"
  proof -
    have up: "reaches (on_queue c0 ?ka D [] [] False H {}) (upd (\<lambda>m. m\<lparr>role := CANDIDATE, leader_id := None, votes_granted := [node_id m]\<rparr>))
        (\<lambda>_. on_queue c0 ((\<lambda>m. m\<lparr>role := CANDIDATE, leader_id := None, votes_granted := [node_id m]\<rparr>) ?ka) D [] [] False H {})"
      by (rule due_upd [OF go_upd]) (simp_all add: core_eq_iff)
    have rec: "reaches (on_queue c0 ?kb D [] [] False H {}) (\<lambda>c. node_record ''raft.candidate'' [(''term'', JInt (current_term (me c)))] c)
        (\<lambda>_. on_queue c0 ?kb D [] [] False H {})"
      by (rule reaches_cong [OF _ due_record [of _ _ _ _ _ _ _ _ "''raft.candidate''" "[(''term'', JInt (current_term ?kb))]"]])
        (simp add: on_queue_me)
    show ?thesis
      unfolding become_candidate_def
      using up by (intro reaches_block [OF _ reaches_block [OF rec reaches_Nil]]) simp_all
  qed
  have vote: "reaches (on_queue c0 ?kb D [] [] False H {}) (upd (\<lambda>m. m\<lparr>voted_for := Some (node_id m)\<rparr>))
      (\<lambda>_. on_queue c0 k1 D [] [] False H {})"
  proof -
    have "reaches (on_queue c0 ?kb D [] [] False H {}) (upd (\<lambda>m. m\<lparr>voted_for := Some (node_id m)\<rparr>))
      (\<lambda>_. on_queue c0 ((\<lambda>m. m\<lparr>voted_for := Some (node_id m)\<rparr>) ?kb) D [] [] False H {})"
      by (rule due_upd [OF go_upd]) (simp_all add: core_eq_iff)
    then show ?thesis by (simp add: k1 [symmetric])
  qed
  have send: "reaches (on_queue c0 k1 D' [] [] True H {}) ?send
      (\<lambda>_. on_queue c0 k1 D' [] (map (\<lambda>p. (p, call_for_votes k1)) (peers k)) True H
        ((\<lambda>p. arrive_action c0 (node_id k) p (call_for_votes k1)) ` set (peers k)))" for D'
    by (rule reaches_cong [where m' = "broadcast (call_for_votes k1)"])
      (use due_broadcast [of k1 c0 D' "[]" "[]" True H "{}"] assms(6) f(3,4) in \<open>simp_all add: on_queue_me call_for_votes_def\<close>)
  have last: "reaches (on_queue c0 k1 D' [] [] True H {}) (ite (\<lambda>c. int (length (votes_granted (me c))) \<ge> majority (me c)) become_leader ?send)
      (\<lambda>_. on_queue c0 k1 D' [] (map (\<lambda>p. (p, call_for_votes k1)) (peers k)) True H
        ((\<lambda>p. arrive_action c0 (node_id k) p (call_for_votes k1)) ` set (peers k)))" for D'
    by (rule reaches_ite [where ?b0.0 = False])
      (use f assms(5) send in \<open>auto simp: on_queue_me majority_def cluster_size_def\<close>)
  have sync: "reaches (on_queue c0 k1 D [WState (hard k1)] [] True H {}) storage_sync
      (\<lambda>_. on_queue c0 k1 (D @ [WState (hard k1)]) [] [] True H {})"
    using due_sync [of c0 k1 D "[WState (hard k1)]"] by simp
  have pers: "reaches (on_queue c0 k1 D [] [] True H {}) persist (\<lambda>_. on_queue c0 k1 D [WState (hard k1)] [] True H {})"
    using due_persist [OF cfg f(1) assms(3), of D "[]"] by simp
  show ?thesis
    unfolding on_election_timeout_def
    by (rule reaches_block [OF term_up], rule reaches_block [OF cand], rule reaches_block [OF vote],
        rule reaches_block [OF due_arm_election], rule reaches_block [OF pers], rule reaches_block [OF sync],
        rule reaches_block [OF last], rule reaches_Nil)
qed

text \<open>A new leader writes to everybody and its heartbeat ticks.\<close>

lemma due_replicate:
  assumes "role k = LEADER" and "next_for k p = last_index (rlog k) + 1" and "p \<in> {0, 1, 2, 3}"
  shows "reaches (on_queue c0 k D U M T H A) (replicate_to p)
    (\<lambda>_. on_queue c0 k D U (M @ [(p, replicate_msg k p)]) T H (insert (arrive_action c0 (node_id k) p (replicate_msg k p)) A))"
proof (rule reaches_cong [OF _ due_send [OF assms(3)]])
  fix c
  assume c: "on_queue c0 k D U M T H A c"
  have wf: "log_wf (rlog k)" by (rule runs_log_wf [OF calm_runD(2) [OF on_queueD(1) [OF c]]])
  have "term_at (rlog k) (last_index (rlog k)) = Inr (trm (rlog k) (last_index (rlog k)))"
    using wf by (simp add: term_at_wf has_entry_wf last_index_wf)
  then show "replicate_to p c = node_send p (replicate_msg k p) c"
    using assms(1,2) wf
    by (simp add: replicate_to_def Let_def on_queue_me [OF c] bind_def of_sum_def replicate_msg_def last_index_wf)
qed

lemma due_become_leader:
  assumes "set (peers k) \<subseteq> {0, 1, 2, 3}"
  shows "reaches (on_queue c0 k D U M T {None} {}) become_leader
    (\<lambda>_. on_queue c0 (lead k) D U (M @ replicate_all (lead k)) False UNIV
       (insert (Callback (HeartbeatTimeout (node_id k)))
         ((\<lambda>p. arrive_action c0 (node_id k) p (replicate_msg (lead k) p)) ` set (peers k))))"
proof -
  let ?A = "(\<lambda>p. arrive_action c0 (node_id k) p (replicate_msg (lead k) p)) ` set (peers k)"
  have up: "reaches (on_queue c0 k D U M T {None} {}) (upd lead) (\<lambda>_. on_queue c0 (lead k) D U M T {None} {})"
    by (rule due_upd [OF go_upd]) (auto simp: core_eq_iff lead_def)
  have rec: "reaches (on_queue c0 (lead k) D U M False {None} {}) (\<lambda>c. node_record ''raft.leader''
      [(''term'', JInt (current_term (me c))), (''log'', JInt (last_index (rlog (me c))))] c)
      (\<lambda>_. on_queue c0 (lead k) D U M False {None} {})"
    by (rule reaches_cong [OF _ due_record [of _ _ _ _ _ _ _ _ "''raft.leader''"
        "[(''term'', JInt (current_term k)), (''log'', JInt (last_index (rlog k)))]"]]) (simp add: on_queue_me)
  have nxt: "next_for (lead k) p = last_index (rlog (lead k)) + 1" for p
    by (simp add: next_for_def lead_def)
  have "reaches (on_queue c0 (lead k) D U M False {None} {}) (for_each (peers (lead k)) replicate_to)
      (\<lambda>_. on_queue c0 (lead k) D U (M @ replicate_all (lead k)) False {None} ?A)"
    using due_each [of "peers k" c0 "lead k" D U False "{None}" replicate_to "replicate_msg (lead k)" M "{}",
        OF due_replicate [of "lead k", OF _ nxt]] assms
    by (simp add: replicate_all_def subset_iff)
  then have all: "reaches (on_queue c0 (lead k) D U M False {None} {}) (\<lambda>c. for_each (peers (me c)) replicate_to c)
      (\<lambda>_. on_queue c0 (lead k) D U (M @ replicate_all (lead k)) False {None} ?A)"
    by (rule reaches_cong [rotated]) (simp add: on_queue_me)
  have beats: "reaches (on_queue c0 (lead k) D U M False {None} {}) send_heartbeats
      (\<lambda>_. on_queue c0 (lead k) D U (M @ replicate_all (lead k)) False UNIV (insert (Callback (HeartbeatTimeout (node_id k))) ?A))"
    unfolding send_heartbeats_def
    using due_arm_heartbeat [of c0 "lead k" D U "M @ replicate_all (lead k)" False ?A]
    by (intro reaches_block [OF all] reaches_block [OF _ reaches_Nil]) simp_all
  show ?thesis
    unfolding become_leader_def
    by (rule reaches_block [OF up], rule reaches_block [OF due_cancel_election], rule reaches_block [OF rec],
        rule reaches_block [OF beats], rule reaches_Nil)
qed

lemma due_vote_reply:
  fixes k :: rnode and frm :: NodeId
  defines "k1 \<equiv> k\<lparr>votes_granted := set_add frm (votes_granted k)\<rparr>"
  assumes "role k = CANDIDATE" "majority k \<le> int (length (votes_granted k1))" "set (peers k) \<subseteq> {0, 1, 2, 3}"
  shows "reaches (on_queue c0 k D U M T {None} {}) (on_request_vote_reply frm (RequestVoteReply (current_term k) True))
    (\<lambda>_. on_queue c0 (lead k1) D U (M @ replicate_all (lead k1)) False UNIV
       (insert (Callback (HeartbeatTimeout (node_id k)))
         ((\<lambda>p. arrive_action c0 (node_id k) p (replicate_msg (lead k1) p)) ` set (peers k))))"
proof -
  have f: "majority k1 = majority k" "peers k1 = peers k" "node_id k1 = node_id k"
    by (simp_all add: k1_def majority_def cluster_size_def)
  have up: "reaches (on_queue c0 k D U M T {None} {}) (upd (\<lambda>m. m\<lparr>votes_granted := set_add frm (votes_granted m)\<rparr>))
      (\<lambda>_. on_queue c0 k1 D U M T {None} {})"
    unfolding k1_def by (rule due_upd [OF go_upd]) (simp_all add: core_eq_iff)
  have win: "reaches (on_queue c0 k1 D U M T {None} {}) (whenever (\<lambda>c. int (length (votes_granted (me c))) \<ge> majority (me c)) become_leader)
      (\<lambda>_. on_queue c0 (lead k1) D U (M @ replicate_all (lead k1)) False UNIV
       (insert (Callback (HeartbeatTimeout (node_id k)))
         ((\<lambda>p. arrive_action c0 (node_id k) p (replicate_msg (lead k1) p)) ` set (peers k))))"
    using due_become_leader [of k1 c0 D U M T] assms(3,4) f
    by (intro reaches_whenever [where ?b0.0 = True]) (simp_all add: on_queue_me majority_def cluster_size_def)
  show ?thesis
    unfolding on_request_vote_reply_def
    by (rule reaches_ite [where ?b0.0 = False], simp add: on_queue_me, simp,
        rule reaches_ite [where ?b0.0 = False], simp add: on_queue_me assms(2), simp,
        simp, rule reaches_block [OF up], rule reaches_block [OF win], rule reaches_Nil)
qed

end
