(* ===== verification/Node_Props.thy ===== *)
theory Node_Props
  imports Node_Sends
begin

text \<open>
  The properties of one Raft node: each message and timeout refines its specification, disk errors and
  crashes included; what a node told another is durable; and the rules of the protocol that are local
  to a node (votes, log merging, the commit rule).
\<close>

declare block.simps [simp del]

section \<open>What a handler leaves alone\<close>

text \<open>\<open>node_ok D c\<close>: a node between two events, with the records \<open>D\<close> durable and nothing unsynced.\<close>

definition node_ok :: "wal_rec list \<Rightarrow> node_ctx \<Rightarrow> bool" where
  "node_ok D c \<longleftrightarrow> core_wf c \<and> log_wf (rlog (me c)) \<and> disk_wal (disk c) D [] \<and> voter_ok (me c)"

lemma node_ok_runs: "node_ok D c \<Longrightarrow> runs_as c (me c) D [] [] c"
  by (simp add: node_ok_def runs_as_def frame_refl)

lemma runs_node_ok: "runs_as c0 k D [] M c \<Longrightarrow> voter_ok k \<Longrightarrow> node_ok D c"
  by (auto simp: node_ok_def runs_as_def frame_def voter_ok_def core_eq_iff)

lemma dispatch_ids: "node_id (new_state (dispatch_spec frm msg k)) = node_id k
    \<and> peers (new_state (dispatch_spec frm msg k)) = peers k \<and> running (new_state (dispatch_spec frm msg k)) = running k"
proof (cases msg)
  case (MAppendEntries ae)
  show ?thesis
    using apply_committed_same(1)
    by (auto simp: MAppendEntries append_entries_spec_def Let_def case_prod_beta same_protocol_def)
next
  case (MAppendEntriesReply r)
  show ?thesis
    using advance_commit_same(1)
    by (auto simp: MAppendEntriesReply append_entries_reply_spec_def Let_def case_prod_beta same_protocol_def)
next
  case (MClientRequest r)
  show ?thesis
    using advance_commit_same(1)
    by (auto simp: MClientRequest client_request_spec_def Let_def case_prod_beta same_protocol_def)
qed (auto simp: request_vote_spec_def reply_vote_spec_def request_vote_reply_spec_def Let_def)

lemma dispatch_voter_ok: "voter_ok k \<Longrightarrow> msg_ok msg \<Longrightarrow> voter_ok (new_state (dispatch_spec frm msg k))"
proof -
  assume ok: "voter_ok k" "msg_ok msg"
  have "voted_for (new_state (dispatch_spec frm msg k)) \<noteq> Some NO_VOTE"
  proof (cases msg)
    case (MRequestVote rv)
    with ok show ?thesis
      by (auto simp: request_vote_spec_def reply_vote_spec_def Let_def voter_ok_def msg_ok_def)
  next
    case (MAppendEntries ae)
    with ok show ?thesis
      using append_entries_hard [of k ae frm] append_entries_stale [of ae k frm]
      by (cases "ae_term ae < current_term k") (auto simp: voter_ok_def hard_def)
  next
    case (MAppendEntriesReply r)
    with ok show ?thesis
      using arg_cong [OF append_entries_reply_hard [of frm r k], of hs_voted_for]
      by (auto simp: voter_ok_def hard_def split: if_splits)
  next
    case (MClientRequest r)
    with ok show ?thesis
      using client_request_hard [of frm r k] by (simp add: voter_ok_def hard_def)
  qed (use ok in \<open>auto simp: request_vote_reply_spec_def Let_def voter_ok_def\<close>)
  with ok dispatch_ids show ?thesis by (simp add: voter_ok_def)
qed

lemma timeout_voter_ok: "voter_ok k \<Longrightarrow> voter_ok (new_state (election_timeout_spec k))"
  by (auto simp: election_timeout_spec_def Let_def voter_ok_def)

text \<open>\<open>new_events c M c'\<close>: beyond what was queued in \<open>c\<close>, only messages of \<open>M\<close> and timers of this node.\<close>

definition new_events :: "node_ctx \<Rightarrow> (NodeId \<times> message) list \<Rightarrow> node_ctx \<Rightarrow> bool" where
  "new_events c M c' \<longleftrightarrow> (\<forall>e \<in> set (live (queue c')). e \<in> set (live (queue c))
     \<or> timer_of (node_id (me c)) (ev_action e)
     \<or> (\<exists>(to, m) \<in> set M. ev_action e = arrive_action c (node_id (me c)) to m))"

lemma frame_new_events: "frame c M c' \<Longrightarrow> new_events c M c'"
  by (simp add: frame_def new_events_def queued_def)

lemma failed_as_new_events: "failed_as c D W c' \<Longrightarrow> new_events c [] c'"
  by (auto simp: failed_as_def intro: frame_new_events)

text \<open>What \<open>handles\<close> says of a node between two events.\<close>

lemma handles_outcome:
  assumes "node_ok D c" and "handles c D (me c) m h" and "voter_ok (new_state h)"
  shows "case m c of
      Done _ c' \<Rightarrow> core (me c') = core (new_state h) \<and> node_ok (D @ written h) c' \<and> new_events c (sent_by h) c'
    | Raised e c' \<Rightarrow> is_disk_error e \<longrightarrow> disk_keeps (disk c') D (written h) \<and> new_events c [] c'
    | Diverges \<Rightarrow> True"
proof (cases "m c")
  case (Done x c')
  from validD_Done [OF assms(2) [unfolded handles_def] node_ok_runs [OF assms(1)] Done]
  have r: "runs_as c (new_state h) (D @ written h) [] (sent_by h) c'" .
  with runs_node_ok [OF r assms(3)] Done show ?thesis
    by (auto simp: runs_as_def intro: frame_new_events)
next
  case (Raised e c')
  from validD_Raised [OF assms(2) [unfolded handles_def] node_ok_runs [OF assms(1)] Raised] Raised show ?thesis
    by (auto simp: or_fails_def intro: failed_as_keeps failed_as_new_events)
next
  case Diverges
  then show ?thesis by simp
qed

lemma handles_dispatch_outcome:
  "node_ok D c \<Longrightarrow> msg_ok msg \<Longrightarrow> handles c D (me c) (dispatch frm msg) (dispatch_spec frm msg (me c))"
  by (rule handles_dispatch) (simp_all add: node_ok_def)

lemma dispatch_Done:
  assumes "node_ok D c" and "msg_ok msg" and "dispatch frm msg c = Done x c'"
  shows "core (me c') = core (new_state (dispatch_spec frm msg (me c)))"
    and "node_ok (D @ written (dispatch_spec frm msg (me c))) c'"
    and "new_events c (sent_by (dispatch_spec frm msg (me c))) c'"
    and "log_wf (rlog (new_state (dispatch_spec frm msg (me c))))"
  using handles_outcome [OF assms(1) handles_dispatch_outcome [OF assms(1,2)] dispatch_voter_ok [OF _ assms(2)], of frm]
    assms(1,3)
  by (auto simp: node_ok_def core_eq_iff)

lemma dispatch_Raised:
  assumes "node_ok D c" and "msg_ok msg" and "dispatch frm msg c = Raised x c'" and "is_disk_error x"
  shows "disk_keeps (disk c') D (written (dispatch_spec frm msg (me c)))" and "new_events c [] c'"
  using handles_outcome [OF assms(1) handles_dispatch_outcome [OF assms(1,2)] dispatch_voter_ok [OF _ assms(2)], of frm]
    assms(1,3,4)
  by (auto simp: node_ok_def)

lemma hard_core: "core m = core k \<Longrightarrow> hard m = hard k"
  by (simp add: core_eq_iff hard_def)

lemma durable_core: "core m = core k \<Longrightarrow> durable_as D m = durable_as D k"
  by (simp add: durable_as_def core_eq_iff hard_def)

section \<open>A crash and a restart after a message\<close>

definition down :: "rnode \<Rightarrow> rnode" where
  "down m = (if running m then reset_memory (m\<lparr>running := False\<rparr>) else m)"

lemma crash_restart_Done:
  assumes "core_wf c" and "disk_wal (disk c) D []"
    and "sim_node_crash c = Done x c1" and "sim_node_restart c1 = Done y c2"
  shows "core (me c2) = core (recovered_node (wal_run D init_recovered) (down (me c)))"
    and "log_wf (rlog (me c2))" and "disk_wal (disk c2) D []" and "moved c c2"
proof -
  note C = sim_node_crash_Done [OF assms(1) disk_wal_keeps [OF assms(2)] assms(3)]
  have "core_wf c1" using C(3) by (simp add: moved_def frame_def)
  from sim_node_restart_Done [OF this C(2) assms(4)] obtain n where
    R: "core (me c2) = core (recovered_node (wal_run (D @ take n []) init_recovered) (me c1))"
    "log_wf (rlog (me c2))" "disk_wal (disk c2) (D @ take n []) []" "moved c1 c2" by blast
  have "core (recovered_node r (me c1)) = core (recovered_node r (down (me c)))" for r
    using C(1) by (simp add: core_eq_iff recovered_node_def down_def)
  with R show "core (me c2) = core (recovered_node (wal_run D init_recovered) (down (me c)))"
    and "log_wf (rlog (me c2))" and "disk_wal (disk c2) D []" by simp_all
  show "moved c c2" by (rule moved_trans [OF C(3) R(4)])
qed

lemma calm_node_crash: "calm c \<Longrightarrow> \<exists>c'. node_crash c = Done () c' \<and> calm c'"
proof (cases "running (me c)")
  case True
  assume "calm c"
  let ?c1 = "c\<lparr>me := (me c)\<lparr>running := False\<rparr>\<rparr>"
  have "calm ?c1" using \<open>calm c\<close> by simp
  then obtain x2 c2 where 2: "cancel_election_timer ?c1 = Done x2 c2" "calm c2" using calm_cancel_election by blast
  then obtain x3 c3 where 3: "cancel_heartbeat c2 = Done x3 c3" "calm c3" using calm_cancel_heartbeat by blast
  obtain x4 c4 where 4: "node_record ''raft.crash'' [(''role'', JStr (role_value (role (me c3)))),
      (''term'', JInt (current_term (me c3)))] c3 = Done x4 c4" "calm c4"
    using calm_record [OF 3(2)] by blast
  show ?thesis
    using True 2 3 4 by (simp add: node_crash_def whenever_def block.simps upd_def modify_def cancel_timers_def)
qed (simp add: node_crash_def whenever_def)

lemma calm_crash_restart:
  assumes "calm c" and "disk_wal (disk c) D []" and "log_wf (rec_entries (wal_run D init_recovered))"
  shows "\<exists>c1 c2. sim_node_crash c = Done () c1 \<and> sim_node_restart c1 = Done () c2"
proof -
  obtain c1 where 1: "node_crash c = Done () c1" "calm c1" using calm_node_crash [OF assms(1)] by blast
  have wf: "core_wf c" "core_wf c1" using assms(1) 1(2) by (simp_all add: calm_def)
  have d1: "disk c1 = disk c" using node_crash_Done(2) [OF wf(1) 1(1)] .
  let ?d = "\<lparr>drng = rng c1, dsk = disk c1\<rparr>"
  obtain bs where "disk_holds (disk c) bs bs" using assms(2) by (auto simp: disk_wal_def wal_image_def)
  then have "durable (dsk ?d) \<le> length (disk_bytes (dsk ?d))" using d1 by (simp add: disk_holds_durable_le)
  then obtain kept e1 e2 where ec: "sim_crash ?d = Done kept e1" "sim_restart e1 = Done () e2"
    using sim_crash_fair [of ?d] 1(2) by (auto simp: calm_def in_range_def)
  obtain r1 d1' r2 d2 where e: "e1 = \<lparr>drng = r1, dsk = d1'\<rparr>" "e2 = \<lparr>drng = r2, dsk = d2\<rparr>"
    by (cases e1, cases e2) auto
  note crash = ec [unfolded e]
  let ?c2 = "c1\<lparr>rng := r1, disk := d1'\<rparr>" and ?c3 = "c1\<lparr>rng := r2, disk := d2\<rparr>"
  have run: "sim_node_crash c = Done () ?c2"
    using 1(1) crash(1) by (simp add: sim_node_crash_def block.simps bind_def on_disk_def on_part_def ret_def)
  have "disk_keeps (dsk \<lparr>drng = r1, dsk = d1'\<rparr>) D []"
    using sim_node_crash_Done(2) [OF wf(1) disk_wal_keeps [OF assms(2)] run] by simp
  from disk_keeps_restart [OF this crash(2)] have "disk_wal d2 D []" by auto
  then obtain bs' where h: "disk_holds d2 bs' bs'" and im: "wal_image D bs'"
    by (auto simp: disk_wal_def wal_image_def)
  let ?r = "wal_run D init_recovered"
  have "sim_read_all \<lparr>drng = r2, dsk = d2\<rparr> = Done bs' \<lparr>drng = r2, dsk = fill_cache d2\<rparr>"
    using sim_read_all_Done [of "\<lparr>drng = r2, dsk = d2\<rparr>" bs' bs'] h by simp
  then have rec: "storage_recover ?c3 = Done (rec_state ?r, rec_entries ?r) (?c3\<lparr>disk := fill_cache d2\<rparr>)"
    using replay_wal_image [OF im] assms(3)
    by (simp add: storage_recover_def bind_def on_disk_def on_part_def of_sum_def new_raft_log_def check_contiguous_log_wf ret_def)
  let ?c4 = "?c3\<lparr>disk := fill_cache d2, me := recovered_node ?r (me c1)\<rparr>"
  have calm4: "calm ?c4"
  proof -
    have r2: "r2 = r1" using crash(2) by (auto simp: sim_restart_def set_disk_def modify_def Let_def)
    have "fair r1"
      by (rule sim_crash_Done [OF crash(1)])
        (use 1(2) fair_stream in \<open>auto simp: calm_def dest!: crash_after_Done(3)\<close>)
    moreover have "disk_cfg d2 = disk_cfg (disk c1)"
      using sim_crash_cfg [OF crash(1)] sim_restart_cfg [OF crash(2)] by simp
    moreover have "online d2" using h by (simp add: disk_holds_def)
    ultimately show ?thesis using 1(2) r2 by (simp add: calm_def core_wf_def fill_cache_def online_def)
  qed
  obtain c5 where 5: "node_record ''raft.restart'' [(''term'', JInt (current_term (me ?c4))),
      (''voted_for'', jopt (voted_for (me ?c4))), (''entries'', JInt (int (length (rlog (me ?c4)))))] ?c4 = Done () c5" "calm c5"
    using calm_record [OF calm4] by (metis (full_types) old.unit.exhaust)
  obtain c6 where 6: "arm_election_timer c5 = Done () c6"
    using calm_arm_election [OF 5(2)] by (metis (full_types) old.unit.exhaust)
  have "sim_node_restart ?c2 = Done () c6"
    using crash(2) rec 5(1) 6
    by (simp add: sim_node_restart_def block.simps on_disk_def on_part_def node_restart_def bind_def upd_def modify_def
        recovered_node_def)
  with run show ?thesis by blast
qed

section \<open>Properties\<close>

text \<open>
  C9. Handling a message refines its specification. When \<^verbatim>\<open>_dispatch\<close> returns, the node's state is the
  specified one, the specified records are durable behind those that were, and beyond timers of its own
  the only new events are deliveries of the specified messages. When a disk write fails instead, no
  message has been sent, and what a recovery can find is what was durable followed by a prefix of the
  records being written.
\<close>

theorem dispatch_refines:
  assumes "node_ok D c" and "msg_ok msg"
  shows "case dispatch frm msg c of
      Done _ c' \<Rightarrow> (let h = dispatch_spec frm msg (me c)
        in core (me c') = core (new_state h) \<and> node_ok (D @ written h) c' \<and> new_events c (sent_by h) c')
    | Raised e c' \<Rightarrow> is_disk_error e \<longrightarrow>
        disk_keeps (disk c') D (written (dispatch_spec frm msg (me c))) \<and> new_events c [] c'
    | Diverges \<Rightarrow> True"
  unfolding Let_def
  by (rule handles_outcome [OF assms(1) handles_dispatch_outcome [OF assms]], rule dispatch_voter_ok)
    (use assms in \<open>simp_all add: node_ok_def\<close>)

definition ask_vote :: message where
  "ask_vote = MRequestVote (RequestVote 1 2 0 0)"

lemma ask_vote_facts: "msg_ok ask_vote" "node_ok [] (example_ctx cfg (new_rnode 1 [2, 3]))"
  using example_runs [of "new_rnode 1 [2, 3]" cfg]
  by (simp_all add: msg_ok_def ask_vote_def NO_VOTE_def node_ok_def runs_as_def voter_ok_def new_rnode_def)

lemma ask_vote_answered:
  "\<exists>c'. dispatch 2 ask_vote (example_ctx default_disk_faults (new_rnode 1 [2, 3])) = Done () c' \<and> calm c'
     \<and> Arrive 1 2 (MRequestVoteReply (RequestVoteReply 1 True)) \<in> due_actions c'"
proof -
  let ?k = "new_rnode 1 [2, 3]"
  have "log_wf (rlog ?k)" by (simp add: new_rnode_def)
  note start = example_calm_run [OF this, of default_disk_faults]
  from reachesD [OF due_vote start, of "RequestVote 1 2 0 0" 2] show ?thesis
    by (auto simp: ask_vote_def new_rnode_def hard_def hard_state_fits_def NO_VOTE_def follow_def
        up_to_date_def on_queue_def calm_run_def carries_def)
qed

lemma ask_vote_returns:
  "\<exists>c'. dispatch 2 ask_vote (example_ctx default_disk_faults (new_rnode 1 [2, 3])) = Done () c' \<and> calm c'"
  using ask_vote_answered by blast

lemma ask_vote_spec: "dispatch_spec 2 ask_vote (new_rnode 1 [2, 3]) =
    ((new_rnode 1 [2, 3])\<lparr>current_term := 1, voted_for := Some 2\<rparr>, [WState (HardState 1 (Some 2))],
     [(2, MRequestVoteReply (RequestVoteReply 1 True))])"
  by (simp add: ask_vote_def request_vote_spec_def reply_vote_spec_def follow_def new_rnode_def up_to_date_def hard_def
      last_index_def last_term_def)

theorem dispatch_refines_witness:
  "\<exists>c'. dispatch 2 ask_vote (example_ctx default_disk_faults (new_rnode 1 [2, 3])) = Done () c'
     \<and> voted_for (me c') = Some 2 \<and> node_ok [WState (HardState 1 (Some 2))] c'"
  using ask_vote_returns dispatch_refines [OF ask_vote_facts(2,1), of 2 default_disk_faults]
  by (auto simp: ask_vote_spec Let_def core_eq_iff)

text \<open>
  C10. A vote is durable before anybody hears of it: if a granted vote for term \<open>t\<close> went onto the network
  while a message was handled, whether the handler returned or the disk failed under it, then the
  message was the request of a candidate in that term whose log is at least as up to date, and if the node
  loses power in the state the handler left it comes back in term \<open>t\<close> having voted for that candidate.
\<close>

theorem vote_durable_before_reply:
  assumes "node_ok D c" and "msg_ok msg" and "arrive_action c = Arrive"
    and "dispatch frm msg c = Done () c1 \<or> (\<exists>x. is_disk_error x \<and> dispatch frm msg c = Raised x c1)"
    and "e \<in> set (live (queue c1))" and "e \<notin> set (live (queue c))"
    and "ev_action e = Arrive (node_id (me c)) to (MRequestVoteReply (RequestVoteReply t True))"
    and "sim_node_crash c1 = Done () c2" and "sim_node_restart c2 = Done () c3"
  shows "\<exists>rv. msg = MRequestVote rv \<and> to = frm \<and> rv_term rv = t \<and> current_term (me c) \<le> t
    \<and> (last_term (rlog (me c)), last_index (rlog (me c))) \<le> (rv_last_log_term rv, rv_last_log_index rv)
    \<and> current_term (me c3) = t \<and> voted_for (me c3) = Some (rv_candidate_id rv)"
proof -
  let ?h = "dispatch_spec frm msg (me c)"
  have "\<not> new_events c [] c1" using assms(5-7) by (auto simp: new_events_def timer_of_def)
  then have "dispatch frm msg c = Done () c1"
    using assms(4) dispatch_Raised [OF assms(1,2)] by blast
  note R = dispatch_Done [OF assms(1,2) this]
  from R(3) assms(3,5-7) have "(to, MRequestVoteReply (RequestVoteReply t True)) \<in> set (sent_by ?h)"
    by (auto simp: new_events_def timer_of_def)
  then obtain rv where rv: "msg = MRequestVote rv" "to = frm" "t = rv_term rv" "current_term (me c) \<le> t"
    "up_to_date rv (me c)" and w: "written ?h = [WState (HardState t (Some (rv_candidate_id rv)))]"
    by (rule vote_reply_origin)
  from R(2) have ok: "core_wf c1" "disk_wal (disk c1) (D @ written ?h) []" by (simp_all add: node_ok_def)
  have "core (me c3) = core (recovered_node (wal_run (D @ written ?h) init_recovered) (down (me c1)))"
    by (rule crash_restart_Done(1) [OF ok assms(8,9)])
  then have "current_term (me c3) = t" "voted_for (me c3) = Some (rv_candidate_id rv)"
    by (simp_all add: w core_eq_iff recovered_node_def)
  with rv show ?thesis by (simp add: up_to_date_def)
qed

theorem vote_durable_before_reply_witness:
  "\<exists>c1 e c2 c3. dispatch 2 ask_vote (example_ctx default_disk_faults (new_rnode 1 [2, 3])) = Done () c1
     \<and> e \<in> set (live (queue c1)) \<and> ev_action e = Arrive 1 2 (MRequestVoteReply (RequestVoteReply 1 True))
     \<and> sim_node_crash c1 = Done () c2 \<and> sim_node_restart c2 = Done () c3
     \<and> current_term (me c3) = 1 \<and> voted_for (me c3) = Some 2"
proof -
  let ?c = "example_ctx default_disk_faults (new_rnode 1 [2, 3])"
  obtain c1 e where 1: "dispatch 2 ask_vote ?c = Done () c1" "calm c1"
    and e: "e \<in> set (live (queue c1))" "ev_action e = Arrive 1 2 (MRequestVoteReply (RequestVoteReply 1 True))"
    using ask_vote_answered by (auto simp: due_actions_def)
  have "disk_wal (disk c1) [WState (HardState 1 (Some 2))] []"
    using dispatch_Done(2) [OF ask_vote_facts(2,1) 1(1)] by (simp add: ask_vote_spec node_ok_def)
  from calm_crash_restart [OF 1(2) this] obtain c2 c3 where
    2: "sim_node_crash c1 = Done () c2" "sim_node_restart c2 = Done () c3"
    by (auto simp: init_recovered_def)
  have "current_term (me c3) = 1 \<and> voted_for (me c3) = Some 2"
    using vote_durable_before_reply [OF ask_vote_facts(2,1) _ disjI1 [OF 1(1)] e(1) _ _ 2, of 2 1] e(2)
    by (auto simp: new_rnode_def ask_vote_def)
  with 1(1) e 2 show ?thesis by blast
qed

text \<open>
  C11. A node recovers exactly what it was: whatever message it handled last, losing power and coming
  back gives it the term, vote and log it had, and the volatile state of a fresh node; and replaying
  its disk would give the same again.
\<close>

theorem restart_recovers:
  assumes "node_ok D c" and "durable_as D (me c)" and "running (me c)" and "msg_ok msg"
    and "dispatch frm msg c = Done () c1"
    and "sim_node_crash c1 = Done () c2" and "sim_node_restart c2 = Done () c3"
  shows "(let fresh = new_rnode (node_id (me c)) (peers (me c)) in
      core (me c3) = fresh\<lparr>current_term := current_term (me c1), voted_for := voted_for (me c1), rlog := rlog (me c1)\<rparr>)
    \<and> (\<exists>D'. node_ok D' c3 \<and> durable_as D' (me c3))"
proof -
  let ?h = "dispatch_spec frm msg (me c)"
  let ?D = "D @ written ?h"
  note R = dispatch_Done [OF assms(1,4,5)]
  from R(2) have ok: "core_wf c1" "disk_wal (disk c1) ?D []" "voter_ok (me c1)" by (simp_all add: node_ok_def)
  have "durable_as ?D (new_state ?h)"
    by (rule dispatch_durable [OF assms(2) _ R(4)]) (use assms(1) in \<open>simp add: node_ok_def\<close>)
  then have dur: "wal_run ?D init_recovered = \<lparr>rec_state = hard (me c1), rec_entries = rlog (me c1)\<rparr>"
    using durable_core [OF R(1), of ?D] by (simp only: durable_as_def)
  note C = crash_restart_Done [OF ok(1,2) assms(6,7)]
  have ids: "node_id (me c1) = node_id (me c)" "peers (me c1) = peers (me c)" "running (me c1)"
    using R(1) dispatch_ids [of frm msg "me c"] assms(3) by (simp_all add: core_eq_iff)
  have c3: "core (me c3) = core (recovered_node \<lparr>rec_state = hard (me c1), rec_entries = rlog (me c1)\<rparr> (down (me c1)))"
    using C(1) dur by simp
  then have "node_ok ?D c3 \<and> durable_as ?D (me c3)"
    using C(2-4) ok(3) dur by (auto simp: node_ok_def moved_def frame_def voter_ok_def durable_as_def core_eq_iff
        recovered_node_def down_def reset_memory_def hard_def split: if_splits)
  moreover have "core (me c3) = (new_rnode (node_id (me c)) (peers (me c)))\<lparr>current_term := current_term (me c1),
      voted_for := voted_for (me c1), rlog := rlog (me c1)\<rparr>"
    unfolding c3 using ids
    by (simp add: core_def recovered_node_def down_def reset_memory_def new_rnode_def hard_def)
  ultimately show ?thesis by (auto simp: Let_def)
qed

lemma ask_vote_durable: "durable_as [] (new_rnode 1 [2, 3])" "running (new_rnode 1 [2, 3])"
  by (simp_all add: durable_as_def hard_def new_rnode_def init_recovered_def init_hard_state_def)

theorem restart_recovers_witness:
  "\<exists>c1 c2 c3. dispatch 2 ask_vote (example_ctx default_disk_faults (new_rnode 1 [2, 3])) = Done () c1
     \<and> sim_node_crash c1 = Done () c2 \<and> sim_node_restart c2 = Done () c3
     \<and> core (me c3) = (new_rnode 1 [2, 3])\<lparr>current_term := 1, voted_for := Some 2\<rparr>"
proof -
  let ?c = "example_ctx default_disk_faults (new_rnode 1 [2, 3])"
  obtain c1 where 1: "dispatch 2 ask_vote ?c = Done () c1" "calm c1" using ask_vote_returns by blast
  note R = dispatch_Done(1,2) [OF ask_vote_facts(2,1) 1(1)]
  have wal: "disk_wal (disk c1) [WState (HardState 1 (Some 2))] []"
    using R(2) by (simp add: ask_vote_spec node_ok_def)
  from calm_crash_restart [OF 1(2) this] obtain c2 c3 where
    2: "sim_node_crash c1 = Done () c2" "sim_node_restart c2 = Done () c3"
    by (auto simp: init_recovered_def)
  have "durable_as [] (me ?c)" "running (me ?c)" using ask_vote_durable by simp_all
  note rec = restart_recovers [OF ask_vote_facts(2) this ask_vote_facts(1) 1(1) 2]
  have "current_term (me c1) = 1 \<and> voted_for (me c1) = Some 2 \<and> rlog (me c1) = []"
    using R(1) by (simp add: ask_vote_spec core_eq_iff) (simp add: new_rnode_def)
  with rec 1 2 show ?thesis by (auto simp: Let_def) (simp add: new_rnode_def)
qed

text \<open>
  C13. What an AppendEntries does to the log: nothing when it is stale or does not fit the log at its
  previous entry; otherwise the longest run of leading entries the log already has (by term) is kept, and
  only if something of the message remains is the rest of the log replaced by it, so a retransmission
  truncates nothing; and afterwards the log carries the terms of the message at its positions.
\<close>

theorem append_entries_merges:
  assumes "node_ok D c" and "dispatch frm (MAppendEntries msg) c = Done () c'"
  shows "let l = rlog (me c); i = ae_prev_log_index msg + 1; es = ae_entries msg; m = matching i es l in
    if ae_term msg < current_term (me c) \<or> \<not> has_entry l (i - 1) \<or> trm l (i - 1) \<noteq> ae_prev_log_term msg
    then rlog (me c') = l
    else rlog (me c') = (if m = length es then l else take (nat (i - 1) + m) l @ drop m es)
      \<and> (\<forall>p < length es. trm (rlog (me c')) (i + int p) = le_term (es ! p))"
proof -
  let ?h = "append_entries_spec frm msg (me c)" and ?i = "ae_prev_log_index msg + 1"
  have wf: "log_wf (rlog (me c))" using assms(1) by (simp add: node_ok_def)
  have "msg_ok (MAppendEntries msg)" by (simp add: msg_ok_def)
  note R = dispatch_Done [OF assms(1) this assms(2), unfolded dispatch_spec.simps]
  have l': "rlog (me c') = rlog (new_state ?h)" using R(1) by (simp add: core_eq_iff)
  show ?thesis
  proof (cases "ae_term msg < current_term (me c) \<or> \<not> has_entry (rlog (me c)) (?i - 1)
      \<or> trm (rlog (me c)) (?i - 1) \<noteq> ae_prev_log_term msg")
    case True
    then have "rlog (new_state ?h) = rlog (me c)"
      using append_entries_stale [of msg "me c" frm] append_entries_inconsistent [of "me c" msg frm]
      by (cases "ae_term msg < current_term (me c)") (auto simp: Let_def)
    with True l' show ?thesis by (simp add: Let_def)
  next
    case False
    then have ok: "current_term (me c) \<le> ae_term msg" "has_entry (rlog (me c)) (ae_prev_log_index msg)"
      "trm (rlog (me c)) (ae_prev_log_index msg) = ae_prev_log_term msg" by auto
    have "rlog (me c') = merge_log ?i (ae_entries msg) (rlog (me c))"
      using append_entries_writes(1) [OF wf R(4) ok] l' by simp
    moreover have "1 \<le> ?i" "?i \<le> int (length (rlog (me c))) + 1" using ok(2) wf by (auto simp: has_entry_wf)
    ultimately show ?thesis
      using False merge_log_terms [of ?i "rlog (me c)" _ "ae_entries msg"] by (simp add: merge_log_def Let_def)
  qed
qed

definition first_entry :: log_entry where "first_entry = LogEntry 1 1 (put [97] [49])"

lemma first_entry_fits: "entries_fit [first_entry]" "log_wf [first_entry]"
proof -
  have "\<exists>b. encode_entry_record first_entry = Inr b"
    using encode_entry_total by (simp add: first_entry_def encodable_def put_def is_scalar_def utf8_char_def)
  then obtain b where b: "encode_entry_record first_entry = Inr b" ..
  then obtain h c where "pack_header RT_ENTRY 1 1 = Inr h" "encode_command (put [97] [49]) = Inr c" "b = h @ c"
    by (auto simp: encode_entry_record_def first_entry_def split: sum.splits)
  then have "length b = 26"
    using unpack_header(2) [of RT_ENTRY 1 1 h] length_encode_command [of "put [97] [49]" c]
    by (simp add: put_def utf8_char_def)
  then show "entries_fit [first_entry]"
    using b encode_records_total [of "[b]"] by (auto simp: entries_fit_def MAX_RECORD_SIZE_def)
  show "log_wf [first_entry]" by (simp add: log_wf_def first_entry_def)
qed

theorem append_entries_merges_witness:
  "\<exists>c'. dispatch 2 (MAppendEntries (AppendEntries 1 2 0 0 [first_entry] 0))
      (example_ctx default_disk_faults (new_rnode 1 [2, 3])) = Done () c' \<and> rlog (me c') = [first_entry]"
proof -
  let ?k = "new_rnode 1 [2, 3]" and ?m = "AppendEntries 1 2 0 0 [first_entry] 0"
  have wf: "log_wf (rlog ?k)" by (simp add: new_rnode_def)
  have "reaches (calm_run (example_ctx default_disk_faults ?k) ?k [] [] []) (on_append_entries 2 ?m) (\<lambda>_. calm)"
    by (rule go_append_new)
      (use first_entry_fits in \<open>simp_all add: new_rnode_def follow_def hard_def hard_state_fits_def NO_VOTE_def\<close>)
  from reachesD [OF this example_calm_run [OF wf]] obtain c' where
    c': "dispatch 2 (MAppendEntries ?m) (example_ctx default_disk_faults ?k) = Done () c'" by auto
  from append_entries_merges [OF ask_vote_facts(2) c'] c' show ?thesis
    by (simp add: new_rnode_def has_entry_def)
qed

text \<open>
  C12. The commit rule (section 5.4.2 of the paper): answering a follower's reply, a node moves its
  commit index only if it leads in the term of the reply, only forward, only to an entry of its own term
  that a majority (itself included) is known to hold, and to the highest such entry.
\<close>

theorem commit_rule:
  assumes "node_ok D c" and "dispatch frm (MAppendEntriesReply msg) c = Done () c'"
  shows "commit_index (me c') = commit_index (me c)
    \<or> role (me c) = LEADER \<and> aer_term msg = current_term (me c) \<and> aer_success msg
      \<and> commit_index (me c) < commit_index (me c') \<and> commit_index (me c') \<le> last_index (rlog (me c))
      \<and> rlog (me c') = rlog (me c)
      \<and> trm (rlog (me c)) (commit_index (me c')) = current_term (me c)
      \<and> majority (me c) \<le> 1 + int (length (filter (\<lambda>p. commit_index (me c') \<le> match_for (me c') p) (peers (me c))))
      \<and> (\<forall>j. commit_index (me c') < j \<and> j \<le> last_index (rlog (me c)) \<longrightarrow> \<not> committable (me c') j)"
proof -
  let ?k = "me c"
  let ?h = "append_entries_reply_spec frm msg ?k"
  have "msg_ok (MAppendEntriesReply msg)" by (simp add: msg_ok_def)
  note R = dispatch_Done [OF assms(1) this assms(2), unfolded dispatch_spec.simps]
  let ?i = "max (match_for ?k frm) (aer_match_index msg)"
  let ?k1 = "?k\<lparr>match_index := (match_index ?k)(frm \<mapsto> ?i), next_index := (next_index ?k)(frm \<mapsto> ?i + 1)\<rparr>"
  show ?thesis
  proof (cases "aer_term msg > current_term ?k \<or> role ?k \<noteq> LEADER \<or> aer_term msg \<noteq> current_term ?k \<or> \<not> aer_success msg")
    case True
    then have "commit_index (new_state ?h) = commit_index ?k"
      by (auto simp: append_entries_reply_spec_def Let_def)
    with R(1) show ?thesis by (simp add: core_eq_iff)
  next
    case False
    then have h: "new_state ?h = fst (advance_commit_spec ?k1)" and lead: "role ?k1 = LEADER"
      by (simp_all add: append_entries_reply_spec_def Let_def case_prod_beta)
    have same: "same_protocol (me c') ?k1"
      using R(1) advance_commit_same(1) [of ?k1] unfolding h by (simp add: same_protocol_def core_eq_iff)
    have mf: "match_for (me c') = match_for ?k1" and com: "committable (me c') = committable ?k1"
      using same by (auto simp: fun_eq_iff match_for_def committable_def replicas_def majority_def cluster_size_def
          same_protocol_def)
    have "commit_index (me c') = commit_index (fst (advance_commit_spec ?k1))"
      using R(1) by (simp add: core_eq_iff h)
    with advance_commit_rule [OF lead] False show ?thesis
      unfolding com mf using same
      by (auto simp: committable_def replicas_def same_protocol_def majority_def cluster_size_def)
  qed
qed

definition leader_example :: rnode where
  "leader_example = lead ((new_rnode 1 [2, 3])\<lparr>current_term := 1, voted_for := Some 1, rlog := [first_entry]\<rparr>)"

lemma leader_example_ok: "node_ok [] (example_ctx cfg leader_example)"
proof -
  have "log_wf (rlog leader_example)" using first_entry_fits(2) by (simp add: leader_example_def)
  from example_runs [OF this] show ?thesis
    by (rule runs_node_ok) (simp add: voter_ok_def leader_example_def new_rnode_def NO_VOTE_def)
qed

theorem commit_rule_witness:
  "\<exists>c'. dispatch 2 (MAppendEntriesReply (AppendEntriesReply 1 True 1)) (example_ctx default_disk_faults leader_example) = Done () c'
     \<and> commit_index (me c') = 1 \<and> majority leader_example \<le> 1 + int (length (filter (\<lambda>p. 1 \<le> match_for (me c') p) [2, 3]))"
proof -
  have l: "term_at [first_entry] 1 = Inr 1" "entry_at [first_entry] 1 = Inr first_entry" "last_index [first_entry] = 1"
    by (simp_all add: term_at_def entry_at_def last_index_def first_entry_def py_nth_def)
  obtain c' where c': "dispatch 2 (MAppendEntriesReply (AppendEntriesReply 1 True 1)) (example_ctx default_disk_faults leader_example) = Done () c'"
    and com: "commit_index (me c') = 1"
    by (simp add: on_append_entries_reply_def ite_def example_ctx_def leader_example_def lead_def new_rnode_def
        block.simps upd_def modify_def match_for_def advance_commit_index_def l replicas_def majority_def
        cluster_size_def bind_def of_sum_def apply_committed_def numeral_nat whenever_def apply_next_def
        node_record_def trace_write_def ret_def)
  from commit_rule [OF leader_example_ok c'] com c' show ?thesis
    by (auto simp: leader_example_def new_rnode_def)
qed

text \<open>
  C18. Terms never go back and a vote is given once: handling a message, the term does not decrease, and
  while it stays the same a vote already given is not changed or withdrawn.
\<close>

theorem one_vote_per_term:
  assumes "node_ok D c" and "msg_ok msg" and "dispatch frm msg c = Done () c'"
  shows "current_term (me c) \<le> current_term (me c')
    \<and> (current_term (me c') = current_term (me c) \<and> voted_for (me c) \<noteq> None \<longrightarrow> voted_for (me c') = voted_for (me c))"
  using dispatch_vote_kept [of "me c" frm msg] hard_core [OF dispatch_Done(1) [OF assms]]
  by (simp add: vote_kept_def hard_def)

theorem one_vote_per_term_witness:
  "\<exists>c'. dispatch 2 ask_vote (example_ctx default_disk_faults (new_rnode 1 [2, 3])) = Done () c' \<and> 0 \<le> current_term (me c')"
proof -
  obtain c' where c': "dispatch 2 ask_vote (example_ctx default_disk_faults (new_rnode 1 [2, 3])) = Done () c'"
    using ask_vote_returns by blast
  from one_vote_per_term [OF ask_vote_facts(2,1) this] c' show ?thesis by (simp add: new_rnode_def)
qed

section \<open>Failing stop\<close>

lemma node_crash_returns: "\<exists>c'. node_crash c = Done () c'"
proof -
  have cancel: "\<exists>b c'. timer_cancel t c = Done b c'" for t and c :: node_ctx
    using timer_cancel_total [of t c] by (cases "timer_cancel t c") auto
  have e: "\<exists>c'. cancel_election_timer c = Done () c'" for c
  proof (cases "election_timer (me c)")
    case (Some t)
    obtain b c1 where "timer_cancel t c = Done b c1" using cancel by blast
    with Some show ?thesis by (simp add: cancel_election_timer_def block.simps bind_def ret_def upd_def modify_def)
  qed (simp add: cancel_election_timer_def)
  have h: "\<exists>c'. cancel_heartbeat c = Done () c'" for c
  proof (cases "heartbeat_timer (me c)")
    case (Some t)
    obtain b c1 where "timer_cancel t c = Done b c1" using cancel by blast
    with Some show ?thesis by (simp add: cancel_heartbeat_def block.simps bind_def ret_def upd_def modify_def)
  qed (simp add: cancel_heartbeat_def)
  obtain c1 where 1: "cancel_election_timer (c\<lparr>me := (me c)\<lparr>running := False\<rparr>\<rparr>) = Done () c1" using e by blast
  obtain c2 where 2: "cancel_heartbeat c1 = Done () c2" using h by blast
  show ?thesis
    by (simp add: node_crash_def whenever_def block.simps upd_def modify_def cancel_timers_def 1 2 node_record_def
        trace_write_def)
qed

text \<open>What \<^verbatim>\<open>guard\<close> makes of a handler: its outcome, or a node that is down.\<close>

lemma guard_outcome:
  assumes "node_ok D c" and "handles c D (me c) m h" and "voter_ok (new_state h)" and "running (me c)"
  shows "case m c of Raised e c1 \<Rightarrow>
      if is_disk_error e then \<exists>c2. guard f m c = (case f of None \<Rightarrow> Done () c2 | Some g \<Rightarrow> g (node_id (me c)) c2)
        \<and> core (me c2) = (new_rnode (node_id (me c)) (peers (me c)))\<lparr>running := False\<rparr>
        \<and> disk_keeps (disk c2) D (written h) \<and> moved c c2
      else guard f m c = Raised e c1
    | out \<Rightarrow> guard f m c = out"
proof (cases "m c")
  case (Raised e c1)
  show ?thesis
  proof (cases "is_disk_error e")
    case True
    from validD_Raised [OF assms(2) [unfolded handles_def] node_ok_runs [OF assms(1)] Raised] True
    have f: "failed_as c D (written h) c1" by (simp add: or_fails_def)
    then have fr: "frame c [] c1" by (simp add: failed_as_def)
    let ?c1 = "c1\<lparr>trace := trace c1 @ [[(''kind'', JStr ''raft.disk_error''), (''tick'', JInt (now c1)),
      (''node'', JInt (node_id (me c1))), (''error'', JDesc (DescError e))]]\<rparr>"
    obtain c2 where c2: "node_crash ?c1 = Done () c2" using node_crash_returns by blast
    have fr1: "frame c [] ?c1" by (rule frame_trace [OF fr])
    then have wf: "core_wf ?c1" by (simp add: frame_def)
    note C = node_crash_Done [OF wf c2]
    have ids: "node_id (me c1) = node_id (me c)" "peers (me c1) = peers (me c)" "running (me c1)"
      using fr assms(4) by (simp_all add: frame_def)
    have cr: "core (me c2) = (new_rnode (node_id (me c)) (peers (me c)))\<lparr>running := False\<rparr>"
      using C(1) ids by (simp add: core_def reset_memory_def new_rnode_def)
    have "guard f m c = (case f of None \<Rightarrow> Done () c2 | Some g \<Rightarrow> g (node_id (me c2)) c2)"
      using Raised True c2
      by (simp add: guard_def block.simps node_record_def trace_write_def modify_def ret_def split: option.split outcome.split)
    moreover have "node_id (me c2) = node_id (me c)" using arg_cong [OF cr, of node_id] by (simp add: core_def new_rnode_def)
    moreover have "disk_keeps (disk c2) D (written h)" using failed_as_keeps [OF f] C(2) by simp
    moreover have "moved c c2" using moved_trans [OF frame_moved [OF fr1] C(3)] .
    ultimately show ?thesis using Raised True cr by (auto intro!: exI [of _ c2] split: option.split)
  next
    case False
    with Raised show ?thesis by (simp add: guard_def)
  qed
qed (simp_all add: guard_def)

text \<open>
  C14. A node fails by stopping: a message to a running node is either handled to the end as specified, or
  a disk write failed, and then the node is down with its volatile memory gone, nothing of the handler's
  messages was sent, and a recovery will find the records that were durable followed by some of those
  being written. No third outcome returns.
\<close>

theorem message_fails_stop:
  assumes "node_ok D c" and "msg_ok msg" and "running (me c)"
    and "node_on_message None frm msg c = Done () c'"
  shows "(let h = dispatch_spec frm msg (me c) in
      core (me c') = core (new_state h) \<and> node_ok (D @ written h) c' \<and> new_events c (sent_by h) c'
    \<or> core (me c') = (new_rnode (node_id (me c)) (peers (me c)))\<lparr>running := False\<rparr>
      \<and> disk_keeps (disk c') D (written h) \<and> new_events c [] c')"
proof -
  let ?h = "dispatch_spec frm msg (me c)"
  define c1 where "c1 = c\<lparr>trace := trace c @ [[(''kind'', JStr ''raft.recv''), (''tick'', JInt (now c)),
      (''node'', JInt (node_id (me c))), (''frm'', JInt frm), (''msg'', JDesc (DescMessage msg))]]\<rparr>"
  have me1: "me c1 = me c" "queue c1 = queue c" "arrive_action c1 = arrive_action c" by (simp_all add: c1_def)
  have ok1: "node_ok D c1" using assms(1) by (simp add: node_ok_def c1_def core_wf_def)
  have run: "guard None (dispatch frm msg) c1 = Done () c'"
    using assms(3,4) by (simp add: node_on_message_def whenever_def block.simps node_record_def trace_write_def
        modify_def c1_def split: outcome.splits)
  have ev: "new_events c1 M c' = new_events c M c'" for M by (simp add: new_events_def me1)
  have ho: "handles c1 D (me c1) (dispatch frm msg) ?h"
    using handles_dispatch_outcome [OF ok1 assms(2)] by (simp add: me1)
  have vo: "voter_ok (new_state ?h)" using assms(1,2) by (intro dispatch_voter_ok) (simp_all add: node_ok_def)
  note G = guard_outcome [OF ok1 ho vo, of None, unfolded me1, OF assms(3)]
  note H = handles_outcome [OF ok1 ho vo, unfolded ev]
  show ?thesis
  proof (cases "dispatch frm msg c1")
    case (Done x d)
    with G run have "d = c'" by simp
    with Done H ev show ?thesis by (simp add: Let_def)
  next
    case (Raised e d)
    with G run have "is_disk_error e" by (auto split: if_splits)
    with Raised G run have "core (me c') = (new_rnode (node_id (me c)) (peers (me c)))\<lparr>running := False\<rparr>"
      "disk_keeps (disk c') D (written ?h)" and m: "moved c1 c'" by auto
    moreover have "new_events c [] c'"
      using m by (auto simp: moved_def frame_def queued_def new_events_def me1)
    ultimately show ?thesis by (simp add: Let_def)
  next
    case Diverges
    with G run show ?thesis by simp
  qed
qed

lemma failing_disk:
  "\<exists>e c'. dispatch 2 ask_vote ((example_ctx broken_disk_faults (new_rnode 1 [2, 3]))\<lparr>trace := t\<rparr>) = Raised e c'
     \<and> is_disk_error e"
proof -
  let ?k = "new_rnode 1 [2, 3]" and ?c = "(example_ctx broken_disk_faults (new_rnode 1 [2, 3]))\<lparr>trace := t\<rparr>"
  let ?k1 = "follow 1 None ?k" and ?k2 = "(follow 1 None ?k)\<lparr>voted_for := Some 2\<rparr>"
  have "core_wf ?c" by (simp add: core_wf_def example_ctx_def)
  from frame_refl [OF this] example_runs [of ?k broken_disk_faults] have "runs_as ?c ?k [] [] [] ?c"
    by (simp add: runs_as_def new_rnode_def)
  then have start: "calm_run ?c ?k [] [] [] ?c"
    using example_calm [of broken_disk_faults ?k] by (simp add: calm_run_def)
  obtain c1 where 1: "become_follower 1 None ?c = Done () c1" "calm_run ?c ?k1 [] [] [] c1"
    using reachesD [OF go_follow start] by auto
  have "reaches (calm_run ?c ?k1 [] [] []) (upd (\<lambda>m. m\<lparr>voted_for := Some 2\<rparr>)) (\<lambda>_. calm_run ?c ?k2 [] [] [])"
    by (rule go_upd) (simp_all add: core_eq_iff)
  from reachesD [OF this 1(2)] obtain c2 where
    2: "upd (\<lambda>m. m\<lparr>voted_for := Some 2\<rparr>) c1 = Done () c2" "calm_run ?c ?k2 [] [] [] c2" by auto
  obtain c3 where 3: "arm_election_timer c2 = Done () c3" "calm_run ?c ?k2 [] [] [] c3"
    using reachesD [OF go_arm_election 2(2)] by auto
  have hard3: "HardState (current_term (me c3)) (voted_for (me c3)) = HardState 1 (Some 2)"
    by (simp add: calm_me [OF 3(2)]) (simp add: new_rnode_def)
  obtain b blob where b: "encode_state_record (HardState 1 (Some 2)) = Inr b" "encode_records [b] = Inr blob"
    using encode_state_fits [of "HardState 1 (Some 2)"] by (auto simp: hard_state_fits_def)
  have cfg: "disk_cfg (disk c3) = broken_disk_faults"
    using calm_cfg [OF 3(2)] by (simp add: new_sim_storage_def)
  let ?d = "\<lparr>drng = rng c3, dsk = disk c3\<rparr>"
  have "fair (drng ?d)" "online (dsk ?d)" "disk_cfg (dsk ?d) = broken_disk_faults"
    using calm_runD(1) [OF 3(2)] cfg by (simp_all add: calm_def)
  from sim_append_breaks [OF this(1) _ this(2) _ b(2)] this(3) obtain e d where
    e: "sim_append [b] ?d = Raised e d" "is_disk_error e"
    by (auto simp: broken_disk_faults_def)
  have "persist c3 = Raised e (c3\<lparr>rng := drng d, disk := dsk d\<rparr>)"
    by (simp add: persist_def hard3 save_state_def bind_def of_sum_def b(1) on_disk_def on_part_def e(1))
  then have rv: "reply_vote 2 True c3 = Raised e (c3\<lparr>rng := drng d, disk := dsk d\<rparr>)"
    by (simp add: reply_vote_def block.simps)
  have up: "up_to_date (RequestVote 1 2 0 0) (me c1)"
    using up_to_date_runs [OF calm_runD(2) [OF 1(2)], of "RequestVote 1 2 0 0"]
    by (simp add: up_to_date_def new_rnode_def)
  have m1: "current_term (me c1) = 1" "voted_for (me c1) = None"
    by (simp_all add: calm_me [OF 1(2)] new_rnode_def follow_def)
  have "dispatch 2 ask_vote ?c = Raised e (c3\<lparr>rng := drng d, disk := dsk d\<rparr>)"
    using 1(1) 2(1) 3(1) rv up m1
    by (simp add: ask_vote_def on_request_vote_def block.simps whenever_def ite_def)
      (simp add: new_rnode_def)
  with e(2) show ?thesis by blast
qed

theorem message_fails_stop_witness:
  "\<exists>c'. node_on_message None 2 ask_vote (example_ctx broken_disk_faults (new_rnode 1 [2, 3])) = Done () c'
     \<and> \<not> running (me c') \<and> voted_for (me c') = None \<and> disk_keeps (disk c') [] [WState (HardState 1 (Some 2))]"
proof -
  let ?k = "new_rnode 1 [2, 3]" and ?c = "example_ctx broken_disk_faults (new_rnode 1 [2, 3])"
  define t where "t = trace ?c @ [[(''kind'', JStr ''raft.recv''), (''tick'', JInt (now ?c)),
      (''node'', JInt (node_id ?k)), (''frm'', JInt 2), (''msg'', JDesc (DescMessage ask_vote))]]"
  let ?c1 = "?c\<lparr>trace := t\<rparr>"
  obtain e d where d: "dispatch 2 ask_vote ?c1 = Raised e d" "is_disk_error e" using failing_disk by blast
  have ok: "node_ok [] ?c1" using ask_vote_facts(2) [of broken_disk_faults]
    by (simp add: node_ok_def core_wf_def)
  have run1: "running (me ?c)" "running (me ?c1)" by (simp_all add: new_rnode_def)
  have "voter_ok (new_state (dispatch_spec 2 ask_vote (me ?c1)))"
    by (rule dispatch_voter_ok) (use ok ask_vote_facts(1) in \<open>simp_all add: node_ok_def\<close>)
  from guard_outcome [OF ok handles_dispatch_outcome [OF ok ask_vote_facts(1)] this run1(2), of None] d
  obtain c' where c': "guard None (dispatch 2 ask_vote) ?c1 = Done () c'"
    "core (me c') = (new_rnode 1 [2, 3])\<lparr>running := False\<rparr>" by (auto simp: new_rnode_def)
  have run: "node_on_message None 2 ask_vote ?c = Done () c'"
    using c'(1) run1(1) by (simp add: node_on_message_def whenever_def block.simps node_record_def trace_write_def
        modify_def t_def)
  have off: "\<not> running (me c')" "voted_for (me c') = None"
    using arg_cong [OF c'(2), of running] arg_cong [OF c'(2), of voted_for] by (simp_all add: core_def new_rnode_def)
  with message_fails_stop [OF ask_vote_facts(2,1) run1(1) run] run show ?thesis
    by (auto simp: ask_vote_spec Let_def core_eq_iff)
qed

end
