(* ===== verification/Cluster.thy ===== *)
theory Cluster
  imports Node_Props
begin

text \<open>
  The Raft cluster as a step relation, between the code and the theorems of the protocol. A cluster is
  the nodes' states between two events, what is durable on each disk and what may be on its platter
  besides, every message ever sent, every state a node was ever in and every leader's state that it was
  writing when its disk failed; the last three only grow. A step
  handles one event completely, fails in the middle of it at a disk error, crashes or restarts a node
  or lets a client send a request, all with the handlers' specifications of \<open>Node_Spec\<close>. Messages are
  lost by never being handled, and may be handled late, twice or in any order; \<open>mut\<close> is what is done to
  a message on its way in. Shown: hard states are durable, votes are cast once, and there is one leader
  per term.
\<close>

section \<open>Quorums\<close>

locale quorum_system =
  fixes quorum :: "'n set \<Rightarrow> bool"
  assumes meet: "quorum A \<Longrightarrow> quorum B \<Longrightarrow> A \<inter> B \<noteq> {}"
begin

lemma witness:
  assumes "quorum A" and "quorum B"
  obtains p where "p \<in> A" "p \<in> B"
  using meet [OF assms] by blast

lemma agree: "quorum A \<Longrightarrow> quorum B \<Longrightarrow> \<forall>p \<in> A. f p = x \<Longrightarrow> \<forall>p \<in> B. f p = y \<Longrightarrow> x = y"
  by (metis witness)

end

definition majority_of :: "NodeId list \<Rightarrow> NodeId set \<Rightarrow> bool" where
  "majority_of ids Q \<longleftrightarrow> Q \<subseteq> set ids \<and> length ids < 2 * card Q"

interpretation majorities: quorum_system "majority_of ids" for ids
proof
  fix A B :: "NodeId set"
  assume A: "majority_of ids A" and B: "majority_of ids B"
  then have "card (A \<union> B) \<le> length ids" "finite A" "finite B"
    by (auto simp: majority_of_def intro: finite_subset order_trans [OF card_mono card_length])
  then show "A \<inter> B \<noteq> {}" using A B card_Un_disjoint [of A B] by (auto simp: majority_of_def)
qed

section \<open>The step relation\<close>

record cluster =
  node_at :: "NodeId \<Rightarrow> rnode"
  wal :: "NodeId \<Rightarrow> wal_rec list"
  unsynced :: "NodeId \<Rightarrow> wal_rec list"
  sent :: "(NodeId \<times> NodeId \<times> message) set"
  past :: "(NodeId \<times> rnode) set"
  tried :: "(NodeId \<times> rnode) set"

definition peers_of :: "NodeId list \<Rightarrow> NodeId \<Rightarrow> NodeId list" where
  "peers_of ids n = filter (\<lambda>p. p \<noteq> n) ids"

definition initial :: "NodeId list \<Rightarrow> cluster" where
  "initial ids = \<lparr>node_at = (\<lambda>n. new_rnode n (peers_of ids n)), wal = (\<lambda>_. []), unsynced = (\<lambda>_. []), sent = {},
     past = (\<lambda>n. (n, new_rnode n (peers_of ids n))) ` set ids, tried = {}\<rparr>"

text \<open>What may befall a running node, and what it does.\<close>

datatype stimulus = Receives NodeId message | ElectionTimer | HeartbeatTimer

fun handle :: "stimulus \<Rightarrow> rnode \<Rightarrow> handled" where
  "handle (Receives frm msg) k = dispatch_spec frm msg k"
| "handle ElectionTimer k = election_timeout_spec k"
| "handle HeartbeatTimer k = heartbeat_spec k"

fun due :: "(message \<Rightarrow> message) \<Rightarrow> cluster \<Rightarrow> NodeId \<Rightarrow> stimulus \<Rightarrow> bool" where
  "due mut s n (Receives frm msg) \<longleftrightarrow> (\<exists>m. (frm, n, m) \<in> sent s \<and> msg = mut m)"
| "due mut s n ElectionTimer \<longleftrightarrow> True"
| "due mut s n HeartbeatTimer \<longleftrightarrow> role (node_at s n) = LEADER"

definition sends :: "NodeId \<Rightarrow> (NodeId \<times> message) list \<Rightarrow> (NodeId \<times> NodeId \<times> message) set" where
  "sends n ms = (\<lambda>(to, m). (n, to, m)) ` set ms"

definition complete :: "NodeId \<Rightarrow> handled \<Rightarrow> cluster \<Rightarrow> cluster" where
  "complete n h s = s\<lparr>node_at := (node_at s)(n := new_state h), wal := (wal s)(n := wal s n @ written h),
     sent := sent s \<union> sends n (sent_by h), past := insert (n, new_state h) (past s)\<rparr>"

definition fail :: "NodeId \<Rightarrow> handled \<Rightarrow> cluster \<Rightarrow> cluster" where
  "fail n h s = s\<lparr>node_at := (node_at s)(n := down (node_at s n)), unsynced := (unsynced s)(n := written h),
     tried := (if role (new_state h) = LEADER \<and> hard (new_state h) = hard (node_at s n)
               then insert (n, new_state h) (tried s) else tried s)\<rparr>"

definition crash :: "NodeId \<Rightarrow> cluster \<Rightarrow> cluster" where
  "crash n s = s\<lparr>node_at := (node_at s)(n := down (node_at s n))\<rparr>"

definition platter :: "cluster \<Rightarrow> NodeId \<Rightarrow> nat \<Rightarrow> recovered" where
  "platter s n i = wal_run (wal s n @ take i (unsynced s n)) init_recovered"

definition restart :: "NodeId \<Rightarrow> nat \<Rightarrow> cluster \<Rightarrow> cluster" where
  "restart n i s = (let k = recovered_node (platter s n i) (node_at s n) in
     s\<lparr>node_at := (node_at s)(n := k), wal := (wal s)(n := wal s n @ take i (unsynced s n)),
       unsynced := (unsynced s)(n := []), past := insert (n, k) (past s)\<rparr>)"

definition request :: "NodeId \<Rightarrow> NodeId \<Rightarrow> client_request \<Rightarrow> cluster \<Rightarrow> cluster" where
  "request c n r s = s\<lparr>sent := insert (c, n, MClientRequest r) (sent s)\<rparr>"

inductive cstep :: "NodeId list \<Rightarrow> (message \<Rightarrow> message) \<Rightarrow> cluster \<Rightarrow> cluster \<Rightarrow> bool" for ids mut where
  completes: "n \<in> set ids \<Longrightarrow> running (node_at s n) \<Longrightarrow> due mut s n x \<Longrightarrow>
     log_wf (rlog (new_state (handle x (node_at s n)))) \<Longrightarrow>
     cstep ids mut s (complete n (handle x (node_at s n)) s)"
| fails: "n \<in> set ids \<Longrightarrow> running (node_at s n) \<Longrightarrow> due mut s n x \<Longrightarrow>
     cstep ids mut s (fail n (handle x (node_at s n)) s)"
| crashes: "n \<in> set ids \<Longrightarrow> cstep ids mut s (crash n s)"
| restarts: "n \<in> set ids \<Longrightarrow> log_wf (rec_entries (platter s n i)) \<Longrightarrow> cstep ids mut s (restart n i s)"
| requests: "c \<notin> set ids \<Longrightarrow> cstep ids mut s (request c n r s)"

inductive reachable :: "NodeId list \<Rightarrow> (message \<Rightarrow> message) \<Rightarrow> cluster \<Rightarrow> bool" for ids mut where
  starts: "reachable ids mut (initial ids)"
| moves: "reachable ids mut s \<Longrightarrow> cstep ids mut s s' \<Longrightarrow> reachable ids mut s'"

lemma reachable_steps:
  assumes "(cstep ids mut)\<^sup>*\<^sup>* s s'" and "reachable ids mut s"
  shows "reachable ids mut s'"
  using assms by (induction rule: rtranclp_induct) (auto intro: reachable.moves)

text \<open>Node ids are distinct and not the id the disk takes for no vote; what is done to messages on their
  way in changes at most the log position a candidate claims.\<close>

definition ids_ok :: "NodeId list \<Rightarrow> bool" where
  "ids_ok ids \<longleftrightarrow> distinct ids \<and> NO_VOTE \<notin> set ids"

definition mut_ok :: "(message \<Rightarrow> message) \<Rightarrow> bool" where
  "mut_ok mut \<longleftrightarrow> (\<forall>m. mut m = m \<or> (\<exists>rv i t. m = MRequestVote rv
     \<and> mut m = MRequestVote (RequestVote (rv_term rv) (rv_candidate_id rv) i t)))"

section \<open>What a node says about votes\<close>

definition cast :: "cluster \<Rightarrow> NodeId \<Rightarrow> Term \<Rightarrow> NodeId \<Rightarrow> bool" where
  "cast s n t c \<longleftrightarrow> (\<exists>k. (n, k) \<in> past s \<and> current_term k = t \<and> voted_for k = Some c)"

definition msg_fine :: "NodeId list \<Rightarrow> (NodeId \<Rightarrow> Term \<Rightarrow> NodeId \<Rightarrow> bool) \<Rightarrow> NodeId \<Rightarrow> NodeId \<Rightarrow> message \<Rightarrow> bool" where
  "msg_fine ids V frm to m \<longleftrightarrow> (frm \<in> set ids \<or> (\<exists>r. m = MClientRequest r))
     \<and> (case m of MRequestVote rv \<Rightarrow> rv_candidate_id rv = frm
        | MRequestVoteReply r \<Rightarrow> rvr_vote_granted r \<longrightarrow> V frm (rvr_term r) to
        | _ \<Rightarrow> True)"

definition role_fine :: "NodeId list \<Rightarrow> (NodeId \<Rightarrow> Term \<Rightarrow> NodeId \<Rightarrow> bool) \<Rightarrow> rnode \<Rightarrow> bool" where
  "role_fine ids V k \<longleftrightarrow>
     (role k \<noteq> FOLLOWER \<longrightarrow> voted_for k = Some (node_id k))
   \<and> (role k = CANDIDATE \<longrightarrow> distinct (votes_granted k)
        \<and> (\<forall>p \<in> set (votes_granted k). p \<in> set ids \<and> V p (current_term k) (node_id k)))
   \<and> (role k = LEADER \<longrightarrow> (\<exists>Q. majority_of ids Q \<and> (\<forall>p \<in> Q. V p (current_term k) (node_id k))))"

lemma role_fine_mono: "role_fine ids V k \<Longrightarrow> (\<And>p t c. V p t c \<Longrightarrow> W p t c) \<Longrightarrow> role_fine ids W k"
  unfolding role_fine_def by blast

lemma msg_fine_mono: "msg_fine ids V f t m \<Longrightarrow> (\<And>p t c. V p t c \<Longrightarrow> W p t c) \<Longrightarrow> msg_fine ids W f t m"
  by (auto simp: msg_fine_def split: message.splits)

lemma role_fine_same: "same_protocol k' k \<Longrightarrow> role_fine ids V k' = role_fine ids V k"
  by (simp add: role_fine_def same_protocol_def)

lemma role_fine_follower: "role k = FOLLOWER \<Longrightarrow> role_fine ids V k"
  by (simp add: role_fine_def)

lemma follow_role [simp]: "role (follow t l k) = FOLLOWER"
  by (simp add: follow_def)

lemma length_peers_of: "distinct ids \<Longrightarrow> n \<in> set ids \<Longrightarrow> Suc (length (peers_of ids n)) = length ids"
  unfolding peers_of_def
proof (induction ids)
  case (Cons i ids)
  have "filter (\<lambda>p. p \<noteq> n) ids = ids" if "n \<notin> set ids" using that by (auto simp: filter_id_conv)
  with Cons show ?case by auto
qed simp

lemma majority_votes:
  assumes "distinct ids" and "n \<in> set ids" and "peers k = peers_of ids n"
    and "distinct qs" and "set qs \<subseteq> set ids" and "majority k \<le> int (length qs)"
  shows "majority_of ids (set qs)"
proof -
  have "int (length (peers k)) + 1 = int (length ids)" using length_peers_of [OF assms(1,2)] assms(3) by simp
  then have "majority k = int (length ids) div 2 + 1" by (simp add: majority_def cluster_size_def)
  with assms(4-6) show ?thesis by (simp add: majority_of_def distinct_card)
qed

lemma lead_fine:
  assumes "distinct ids" and "node_id k \<in> set ids" and "peers k = peers_of ids (node_id k)"
    and "role_fine ids V k" and "role k = CANDIDATE" and "majority k \<le> int (length (votes_granted k))"
  shows "role_fine ids V (lead k)"
proof -
  have "majority_of ids (set (votes_granted k))"
    by (rule majority_votes [OF assms(1-3)]) (use assms(4-6) in \<open>auto simp: role_fine_def\<close>)
  with assms(4,5) show ?thesis by (auto simp: role_fine_def lead_def)
qed

section \<open>What handling an event does to votes and roles\<close>

lemma replicate_all_fine: "(to, m) \<in> set (replicate_all k) \<Longrightarrow> \<exists>ae. m = MAppendEntries ae \<and> ae_leader_id ae = node_id k"
  by (auto simp: replicate_all_def replicate_msg_def Let_def)

lemma only_repliesD: "only_replies ms \<Longrightarrow> (to, m) \<in> set ms \<Longrightarrow> \<exists>r. m = MClientReply r"
  by (auto simp: only_replies_def)

text \<open>Every message a handler sends is one of these.\<close>

lemma handle_sends:
  assumes "(to, m) \<in> set (sent_by (handle x k))"
  shows "(\<exists>r. m = MRequestVoteReply r \<and> \<not> rvr_vote_granted r)
    \<or> (\<exists>rv. x = Receives to (MRequestVote rv) \<and> m = MRequestVoteReply (RequestVoteReply (rv_term rv) True)
          \<and> hard (new_state (handle x k)) = HardState (rv_term rv) (Some (rv_candidate_id rv)))
    \<or> (\<exists>rv. x = ElectionTimer \<and> m = MRequestVote rv \<and> rv_candidate_id rv = node_id k)
    \<or> (\<exists>ae. m = MAppendEntries ae \<and> ae_leader_id ae = node_id k)
    \<or> (\<exists>r. m = MAppendEntriesReply r) \<or> (\<exists>r. m = MClientReply r)"
proof (cases x)
  case (Receives frm msg)
  show ?thesis
  proof (cases msg)
    case (MRequestVote rv)
    show ?thesis
    proof (cases m)
      case (MRequestVoteReply r)
      show ?thesis
      proof (cases "rvr_vote_granted r")
        case True
        then have "(to, MRequestVoteReply (RequestVoteReply (rvr_term r) True)) \<in> set (sent_by (dispatch_spec frm msg k))"
          using assms Receives MRequestVoteReply by (cases r) simp
        then show ?thesis
          by (rule vote_reply_origin) (use Receives MRequestVote MRequestVoteReply True in \<open>cases r; simp\<close>)
      qed (use MRequestVoteReply in auto)
    qed (use assms Receives MRequestVote in \<open>auto simp: request_vote_spec_def reply_vote_spec_def Let_def split: if_splits\<close>)
  next
    case (MRequestVoteReply r)
    have "node_id (lead (k\<lparr>votes_granted := g\<rparr>)) = node_id k" for g by simp
    with assms Receives MRequestVoteReply show ?thesis
      by (auto simp: request_vote_reply_spec_def Let_def split: if_splits dest!: replicate_all_fine)
  next
    case (MAppendEntries ae)
    with assms Receives apply_committed_same(2) show ?thesis
      by (auto simp: append_entries_spec_def Let_def case_prod_beta split: if_splits dest: only_repliesD)
  next
    case (MAppendEntriesReply r)
    with assms Receives advance_commit_same(2) show ?thesis
      by (auto simp: append_entries_reply_spec_def Let_def case_prod_beta replicate_msg_def split: if_splits
          dest: only_repliesD)
  next
    case (MClientRequest r)
    with assms Receives advance_commit_same(2) show ?thesis
      by (auto simp: client_request_spec_def Let_def case_prod_beta split: if_splits
          dest: only_repliesD dest!: replicate_all_fine)
  qed (use assms Receives in simp)
next
  case ElectionTimer
  with assms show ?thesis
    by (auto simp: election_timeout_spec_def Let_def split: if_splits dest!: replicate_all_fine)
next
  case HeartbeatTimer
  with assms show ?thesis by (auto simp: heartbeat_spec_def dest!: replicate_all_fine)
qed

lemma handle_vote_kept: "vote_kept (hard k) (hard (new_state (handle x k)))"
  by (cases x) (simp_all add: dispatch_vote_kept timeout_vote_kept heartbeat_spec_def)

lemma handle_ids: "node_id (new_state (handle x k)) = node_id k \<and> peers (new_state (handle x k)) = peers k
    \<and> running (new_state (handle x k)) = running k"
  by (cases x) (auto simp: dispatch_ids heartbeat_spec_def election_timeout_spec_def Let_def)

lemma handle_durable:
  "durable_as D k \<Longrightarrow> log_wf (rlog k) \<Longrightarrow> log_wf (rlog (new_state (handle x k))) \<Longrightarrow>
     durable_as (D @ written (handle x k)) (new_state (handle x k))"
  by (cases x) (simp_all add: dispatch_durable election_timeout_durable heartbeat_spec_def)

text \<open>Whatever was written of it when a handler fails, the hard state on the platter is the old or the
  new one.\<close>

lemma handle_writes_hard: "WState st \<in> set (written (handle x k)) \<Longrightarrow> st = hard (new_state (handle x k))"
proof (cases x)
  case (Receives frm msg)
  assume w: "WState st \<in> set (written (handle x k))"
  show ?thesis
  proof (cases msg)
    case (MAppendEntries ae)
    show ?thesis
    proof (cases "ae_term ae < current_term k")
      case True
      with w Receives MAppendEntries show ?thesis by (simp add: append_entries_stale)
    next
      case False
      then have ge: "ae_term ae \<ge> current_term k" by simp
      have no: "WState st \<notin> set (fst (snd (take_spec i es l)))" for i es l
        by (induction i es l rule: take_spec.induct) (auto simp: take_spec.simps(2) split: prod.splits if_splits)
      from w Receives MAppendEntries False have "st = hard (follow (ae_term ae) (Some (ae_leader_id ae)) k)"
        using no by (fastforce simp: append_entries_spec_def Let_def case_prod_beta split: if_splits)
      with append_entries_hard [OF ge] Receives MAppendEntries show ?thesis by simp
    qed
  qed (use w Receives in \<open>auto simp: request_vote_spec_def reply_vote_spec_def request_vote_reply_spec_def
      append_entries_reply_spec_def client_request_spec_def Let_def case_prod_beta split: if_splits\<close>)
next
  case ElectionTimer
  assume "WState st \<in> set (written (handle x k))"
  with ElectionTimer show ?thesis
    by (auto simp: election_timeout_spec_def Let_def hard_def split: if_splits)
next
  case HeartbeatTimer
  assume "WState st \<in> set (written (handle x k))"
  with HeartbeatTimer show ?thesis by (simp add: heartbeat_spec_def)
qed

lemma wal_run_state:
  "rec_state (wal_run ws r) = rec_state r \<or> WState (rec_state (wal_run ws r)) \<in> set ws"
proof (induction ws arbitrary: r)
  case (Cons w ws)
  show ?case using Cons.IH [of "wal_apply w r"] by (cases w) auto
qed simp

lemma handle_platter_hard:
  assumes "durable_as D k"
  shows "rec_state (wal_run (D @ take i (written (handle x k))) init_recovered) \<in> {hard k, hard (new_state (handle x k))}"
  using wal_run_state [of "take i (written (handle x k))" "wal_run D init_recovered"] assms
    handle_writes_hard [of _ x k] in_set_takeD [of _ i "written (handle x k)"]
  by (auto simp: durable_as_def)

lemma timeout_hard: "current_term (new_state (election_timeout_spec k)) = current_term k + 1"
    "voted_for (new_state (election_timeout_spec k)) = Some (node_id k)"
  by (simp_all add: election_timeout_spec_def Let_def lead_def)

lemma handle_role_fine:
  assumes ids: "distinct ids" "node_id k \<in> set ids" "peers k = peers_of ids (node_id k)"
    and fine: "role_fine ids V k"
    and msg: "\<And>frm msg. x = Receives frm msg \<Longrightarrow> msg_fine ids V frm (node_id k) msg"
    and mono: "\<And>p t c. V p t c \<Longrightarrow> W p t c"
    and own: "\<And>c. voted_for (new_state (handle x k)) = Some c \<Longrightarrow>
      W (node_id k) (current_term (new_state (handle x k))) c"
  shows "role_fine ids W (new_state (handle x k))"
proof (cases x)
  case (Receives frm msg)
  have W: "role_fine ids W k" by (rule role_fine_mono [OF fine mono])
  have f: "role_fine ids W (follow t l k)" for t l by (rule role_fine_follower) simp
  show ?thesis
  proof (cases msg)
    case (MRequestVote rv)
    have "role_fine ids W (j\<lparr>voted_for := Some c\<rparr>)" if "role_fine ids W j" "voted_for j \<in> {None, Some c}" for j c
      using that by (auto simp: role_fine_def)
    with f W Receives MRequestVote show ?thesis
      by (auto simp: request_vote_spec_def reply_vote_spec_def Let_def)
  next
    case (MRequestVoteReply r)
    let ?k1 = "k\<lparr>votes_granted := set_add frm (votes_granted k)\<rparr>"
    have k1: "role_fine ids W ?k1" if "rvr_term r = current_term k" "rvr_vote_granted r" "role k = CANDIDATE"
    proof -
      have "frm \<in> set ids \<and> V frm (current_term k) (node_id k)"
        using msg [OF Receives] that MRequestVoteReply by (auto simp: msg_fine_def)
      with W that mono show ?thesis by (auto simp: role_fine_def)
    qed
    have "role_fine ids W (lead ?k1)"
      if "rvr_term r = current_term k" "rvr_vote_granted r" "role k = CANDIDATE"
        "majority ?k1 \<le> int (length (votes_granted ?k1))"
      by (rule lead_fine [OF ids(1) _ _ k1]) (use that ids in simp_all)
    with k1 f W Receives MRequestVoteReply show ?thesis
      by (auto simp: request_vote_reply_spec_def Let_def)
  next
    case (MAppendEntries ae)
    show ?thesis
    proof (cases "ae_term ae < current_term k")
      case True
      with W Receives MAppendEntries show ?thesis by (simp add: append_entries_stale)
    next
      case False
      with Receives MAppendEntries apply_committed_same(1) have "role (new_state (handle x k)) = FOLLOWER"
        by (auto simp: append_entries_spec_def Let_def case_prod_beta same_protocol_def)
      then show ?thesis by (rule role_fine_follower)
    qed
  next
    case (MAppendEntriesReply r)
    let ?i = "max (match_for k frm) (aer_match_index r)"
    let ?k1 = "k\<lparr>match_index := (match_index k)(frm \<mapsto> ?i), next_index := (next_index k)(frm \<mapsto> ?i + 1)\<rparr>"
    have "role_fine ids W (k\<lparr>next_index := a\<rparr>)" for a using W by (simp add: role_fine_def)
    moreover have "role_fine ids W (fst (advance_commit_spec ?k1))"
      using W by (subst role_fine_same [OF advance_commit_same(1)]) (simp add: role_fine_def)
    ultimately show ?thesis using f W Receives MAppendEntriesReply
      by (auto simp: append_entries_reply_spec_def Let_def case_prod_beta)
  next
    case (MClientRequest r)
    have "role_fine ids W (fst (advance_commit_spec (k\<lparr>rlog := a, pending_clients := b\<rparr>)))" for a b
      using W by (subst role_fine_same [OF advance_commit_same(1)]) (simp add: role_fine_def)
    with W Receives MClientRequest show ?thesis
      by (auto simp: client_request_spec_def Let_def case_prod_beta)
  qed (use W Receives in simp)
next
  case ElectionTimer
  let ?k1 = "k\<lparr>current_term := current_term k + 1, role := CANDIDATE, leader_id := None,
                 votes_granted := [node_id k], voted_for := Some (node_id k)\<rparr>"
  have "W (node_id k) (current_term k + 1) (node_id k)"
    using own [of "node_id k"] ElectionTimer
    by (simp add: timeout_hard)
  then have k1: "role_fine ids W ?k1" using ids(2) by (simp add: role_fine_def)
  have "role_fine ids W (lead ?k1)" if "majority ?k1 \<le> 1"
    by (rule lead_fine [OF ids(1) _ _ k1]) (use that ids in simp_all)
  with k1 ElectionTimer show ?thesis
    by (auto simp: election_timeout_spec_def Let_def majority_def cluster_size_def)
next
  case HeartbeatTimer
  with role_fine_mono [OF fine mono] show ?thesis by (simp add: heartbeat_spec_def)
qed

section \<open>The invariant\<close>

definition node_fine :: "NodeId list \<Rightarrow> cluster \<Rightarrow> NodeId \<Rightarrow> bool" where
  "node_fine ids s n \<longleftrightarrow> (let k = node_at s n in
     node_id k = n \<and> peers k = peers_of ids n \<and> voter_ok k \<and> log_wf (rlog k)
   \<and> (running k \<longrightarrow> unsynced s n = [] \<and> durable_as (wal s n) k \<and> (n, k) \<in> past s)
   \<and> (\<not> running k \<longrightarrow> role k = FOLLOWER)
   \<and> (\<forall>i. hs_voted_for (rec_state (platter s n i)) \<noteq> Some NO_VOTE
        \<and> (\<forall>p. (n, p) \<in> past s \<longrightarrow> vote_kept (hard p) (rec_state (platter s n i)))))"

definition past_fine :: "NodeId list \<Rightarrow> cluster \<Rightarrow> bool" where
  "past_fine ids s \<longleftrightarrow> (\<forall>(n, k) \<in> past s. n \<in> set ids \<and> node_id k = n \<and> role_fine ids (cast s) k)"

definition sent_fine :: "NodeId list \<Rightarrow> cluster \<Rightarrow> bool" where
  "sent_fine ids s \<longleftrightarrow> (\<forall>(f, t, m) \<in> sent s. msg_fine ids (cast s) f t m)"

definition one_vote :: "cluster \<Rightarrow> bool" where
  "one_vote s \<longleftrightarrow> (\<forall>n t a b. cast s n t a \<longrightarrow> cast s n t b \<longrightarrow> a = b)"

definition cluster_inv :: "NodeId list \<Rightarrow> cluster \<Rightarrow> bool" where
  "cluster_inv ids s \<longleftrightarrow> (\<forall>n \<in> set ids. node_fine ids s n) \<and> past_fine ids s \<and> sent_fine ids s \<and> one_vote s"

lemma cast_same [simp]: "cast (s\<lparr>node_at := a\<rparr>) = cast s" "cast (s\<lparr>wal := b\<rparr>) = cast s"
    "cast (s\<lparr>unsynced := c\<rparr>) = cast s" "cast (s\<lparr>sent := d\<rparr>) = cast s" "cast (s\<lparr>tried := e\<rparr>) = cast s"
  by (simp_all add: fun_eq_iff cast_def)

lemma one_vote_insert:
  assumes "one_vote s" and "\<forall>p. (n, p) \<in> past s \<longrightarrow> vote_kept (hard p) (hard k)"
  shows "one_vote (s\<lparr>past := insert (n, k) (past s)\<rparr>)"
proof -
  have new: "v = c" if "cast s n (current_term k) v" "voted_for k = Some c" for v c
  proof -
    from that(1) obtain p where "(n, p) \<in> past s" "current_term p = current_term k" "voted_for p = Some v"
      by (auto simp: cast_def)
    with assms(2) that(2) show ?thesis by (fastforce simp: vote_kept_def hard_def)
  qed
  have c: "cast (s\<lparr>past := insert (n, k) (past s)\<rparr>) m t v \<longleftrightarrow> cast s m t v \<or> m = n \<and> current_term k = t \<and> voted_for k = Some v"
    for m t v by (auto simp: cast_def)
  show ?thesis unfolding one_vote_def c using assms(1) new unfolding one_vote_def by (metis option.inject)
qed

lemma past_fine_insert:
  assumes "past_fine ids s" and "n \<in> set ids" "node_id k = n" "role_fine ids (cast (s\<lparr>past := insert (n, k) (past s)\<rparr>)) k"
  shows "past_fine ids (s\<lparr>past := insert (n, k) (past s)\<rparr>)"
proof -
  have mono: "cast s p t c \<Longrightarrow> cast (s\<lparr>past := insert (n, k) (past s)\<rparr>) p t c" for p t c by (auto simp: cast_def)
  with assms show ?thesis by (auto simp: past_fine_def intro: role_fine_mono)
qed

lemma sent_fine_insert: "sent_fine ids s \<Longrightarrow> sent_fine ids (s\<lparr>past := insert (n, k) (past s)\<rparr>)"
proof -
  have mono: "cast s p t c \<Longrightarrow> cast (s\<lparr>past := insert (n, k) (past s)\<rparr>) p t c" for p t c by (auto simp: cast_def)
  then show "sent_fine ids s \<Longrightarrow> sent_fine ids (s\<lparr>past := insert (n, k) (past s)\<rparr>)"
    by (fastforce simp: sent_fine_def intro: msg_fine_mono)
qed

text \<open>The parts of the invariant that look at messages and past states only see those.\<close>

lemma fine_update [simp]:
  "past_fine ids (s\<lparr>node_at := a\<rparr>) = past_fine ids s" "past_fine ids (s\<lparr>wal := b\<rparr>) = past_fine ids s"
  "past_fine ids (s\<lparr>unsynced := c\<rparr>) = past_fine ids s" "past_fine ids (s\<lparr>sent := d\<rparr>) = past_fine ids s"
  "sent_fine ids (s\<lparr>node_at := a\<rparr>) = sent_fine ids s" "sent_fine ids (s\<lparr>wal := b\<rparr>) = sent_fine ids s"
  "sent_fine ids (s\<lparr>unsynced := c\<rparr>) = sent_fine ids s"
  "one_vote (s\<lparr>node_at := a\<rparr>) = one_vote s" "one_vote (s\<lparr>wal := b\<rparr>) = one_vote s"
  "one_vote (s\<lparr>unsynced := c\<rparr>) = one_vote s" "one_vote (s\<lparr>sent := d\<rparr>) = one_vote s"
  "past_fine ids (s\<lparr>tried := e\<rparr>) = past_fine ids s" "sent_fine ids (s\<lparr>tried := e\<rparr>) = sent_fine ids s"
  "one_vote (s\<lparr>tried := e\<rparr>) = one_vote s"
  by (simp_all add: past_fine_def sent_fine_def one_vote_def)

lemma msg_fine_mut: "mut_ok mut \<Longrightarrow> msg_fine ids V f t m \<Longrightarrow> msg_fine ids V f t (mut m)"
  unfolding mut_ok_def by (erule allE [of _ m]) (auto simp: msg_fine_def)

lemma msg_fine_ok: "ids_ok ids \<Longrightarrow> msg_fine ids V f t m \<Longrightarrow> msg_ok m"
  by (auto simp: msg_fine_def msg_ok_def ids_ok_def)

lemma due_fine: "sent_fine ids s \<Longrightarrow> mut_ok mut \<Longrightarrow> due mut s n (Receives frm msg) \<Longrightarrow> msg_fine ids (cast s) frm n msg"
  by (auto simp: sent_fine_def intro: msg_fine_mut)

lemma handle_voter_ok:
  assumes "voter_ok k" and "\<And>frm msg. x = Receives frm msg \<Longrightarrow> msg_ok msg"
  shows "voter_ok (new_state (handle x k))"
  using assms by (cases x) (simp_all add: dispatch_voter_ok timeout_voter_ok heartbeat_spec_def)

lemma inv_complete:
  assumes inv: "cluster_inv ids s" and ids: "ids_ok ids" "mut_ok mut" "n \<in> set ids"
    and run: "running (node_at s n)" and due: "due mut s n x"
    and wf: "log_wf (rlog (new_state (handle x (node_at s n))))"
  shows "cluster_inv ids (complete n (handle x (node_at s n)) s)"
proof -
  let ?k = "node_at s n" and ?h = "handle x (node_at s n)"
  let ?k' = "new_state ?h" and ?s1 = "s\<lparr>past := insert (n, new_state ?h) (past s)\<rparr>"
  have nf: "node_fine ids s n" and pf: "past_fine ids s" and sf: "sent_fine ids s" and ov: "one_vote s"
    using inv ids(3) by (simp_all add: cluster_inv_def)
  have k: "node_id ?k = n" "peers ?k = peers_of ids n" "voter_ok ?k" "log_wf (rlog ?k)" "unsynced s n = []"
    "durable_as (wal s n) ?k" "(n, ?k) \<in> past s"
    using nf run by (simp_all add: node_fine_def Let_def)
  have fine: "msg_fine ids (cast s) frm n msg" if "x = Receives frm msg" for frm msg
    using due_fine [OF sf ids(2)] due that by blast
  have "platter s n 0 = \<lparr>rec_state = hard ?k, rec_entries = rlog ?k\<rparr>"
    using k(5,6) by (simp add: platter_def durable_as_def)
  then have "vote_kept (hard p) (hard ?k)" if "(n, p) \<in> past s" for p
    using nf that by (auto simp: node_fine_def Let_def dest!: spec [of _ 0])
  then have kept: "vote_kept (hard p) (hard ?k')" if "(n, p) \<in> past s" for p
    using that handle_vote_kept vote_kept_trans by blast
  have ids': "node_id ?k' = n" "peers ?k' = peers_of ids n" "running ?k'" using handle_ids [of x ?k] k run by auto
  have cast1: "cast ?s1 m t v \<longleftrightarrow> cast s m t v \<or> m = n \<and> current_term ?k' = t \<and> voted_for ?k' = Some v" for m t v
    by (auto simp: cast_def)
  have "role_fine ids (cast s) ?k" using pf k(7) by (auto simp: past_fine_def)
  then have "role_fine ids (cast ?s1) ?k'"
    by (rule handle_role_fine [rotated 3]) (use ids k fine in \<open>auto simp: ids_ok_def cast1\<close>)
  then have pf1: "past_fine ids ?s1" by (rule past_fine_insert [OF pf ids(3) ids'(1)])
  have ov1: "one_vote ?s1" by (rule one_vote_insert [OF ov]) (use kept in blast)
  have sf1: "sent_fine ids ?s1" by (rule sent_fine_insert [OF sf])
  have vote: "cast ?s1 n t c" if "hard ?k' = HardState t (Some c)" for t c
    using that by (auto simp: cast_def hard_def simp del: handle.simps)
  have new_msg: "msg_fine ids (cast ?s1) n to m" if "(to, m) \<in> set (sent_by ?h)" for to m
    using handle_sends [OF that] ids(3) k(1) fine vote
    by (auto simp: msg_fine_def simp del: handle.simps)
  let ?s' = "complete n ?h s"
  have s': "?s' = ?s1\<lparr>node_at := (node_at s)(n := ?k'), wal := (wal s)(n := wal s n @ written ?h),
      sent := sent s \<union> sends n (sent_by ?h)\<rparr>"
    by (simp add: complete_def)
  have "sent_fine ids ?s'"
    using sf1 new_msg by (auto simp: s' sent_fine_def sends_def)
  moreover have "node_fine ids ?s' m" if m: "m \<in> set ids" for m
  proof (cases "m = n")
    case False
    have "node_fine ids s m" using inv m by (simp add: cluster_inv_def)
    with False show ?thesis by (simp add: node_fine_def s' platter_def Let_def)
  next
    case True
    have d: "durable_as (wal s n @ written ?h) ?k'" by (rule handle_durable [OF k(6,4) wf])
    then have "platter ?s' n i = \<lparr>rec_state = hard ?k', rec_entries = rlog ?k'\<rparr>" for i
      using k(5) by (simp add: platter_def s' durable_as_def)
    moreover have "voter_ok ?k'"
      by (rule handle_voter_ok [OF k(3)]) (use fine msg_fine_ok [OF ids(1)] in blast)
    ultimately show ?thesis
      using True ids' wf d k(5) kept by (auto simp: node_fine_def s' voter_ok_def hard_def)
  qed
  ultimately show ?thesis using pf1 ov1 by (simp add: cluster_inv_def s')
qed

lemma node_fine_same:
  "node_fine ids s m \<Longrightarrow> node_at s' m = node_at s m \<Longrightarrow> wal s' m = wal s m \<Longrightarrow> unsynced s' m = unsynced s m \<Longrightarrow>
     (\<And>p. (m, p) \<in> past s' \<longleftrightarrow> (m, p) \<in> past s) \<Longrightarrow> node_fine ids s' m"
  by (simp add: node_fine_def platter_def)

lemma down_facts [simp]: "running m \<Longrightarrow> node_id (down m) = node_id m" "running m \<Longrightarrow> peers (down m) = peers m"
    "running m \<Longrightarrow> \<not> running (down m)" "running m \<Longrightarrow> role (down m) = FOLLOWER" "running m \<Longrightarrow> rlog (down m) = []"
    "running m \<Longrightarrow> voted_for (down m) = None" "\<not> running m \<Longrightarrow> down m = m"
  by (simp_all add: down_def reset_memory_def)

lemma inv_fail:
  assumes inv: "cluster_inv ids s" and ids: "ids_ok ids" "mut_ok mut" "n \<in> set ids"
    and run: "running (node_at s n)" and due: "due mut s n x"
  shows "cluster_inv ids (fail n (handle x (node_at s n)) s)"
proof -
  let ?k = "node_at s n" and ?h = "handle x (node_at s n)" and ?s' = "fail n (handle x (node_at s n)) s"
  have nf: "node_fine ids s n" and sf: "sent_fine ids s"
    using inv ids(3) by (simp_all add: cluster_inv_def)
  have k: "node_id ?k = n" "peers ?k = peers_of ids n" "voter_ok ?k" "unsynced s n = []" "durable_as (wal s n) ?k"
    using nf run by (simp_all add: node_fine_def Let_def)
  have "voter_ok (new_state ?h)"
    by (rule handle_voter_ok [OF k(3)]) (use due_fine [OF sf ids(2)] due msg_fine_ok [OF ids(1)] in blast)
  have "platter s n 0 = \<lparr>rec_state = hard ?k, rec_entries = rlog ?k\<rparr>"
    using k(4,5) by (simp add: platter_def durable_as_def)
  then have kept: "vote_kept (hard p) (hard ?k)" "vote_kept (hard p) (hard (new_state ?h))" if "(n, p) \<in> past s" for p
    using nf that handle_vote_kept vote_kept_trans by (fastforce simp: node_fine_def Let_def dest!: spec [of _ 0])+
  have plat: "rec_state (platter ?s' n i) = hard ?k \<or> rec_state (platter ?s' n i) = hard (new_state ?h)" for i
    using handle_platter_hard [OF k(5)] by (simp add: platter_def fail_def)
  have "hs_voted_for (hard ?k) \<noteq> Some NO_VOTE" "hs_voted_for (hard (new_state ?h)) \<noteq> Some NO_VOTE"
    using k(3) \<open>voter_ok (new_state ?h)\<close> by (simp_all add: voter_ok_def hard_def)
  then have "hs_voted_for (rec_state (platter ?s' n i)) \<noteq> Some NO_VOTE
      \<and> (\<forall>p. (n, p) \<in> past s \<longrightarrow> vote_kept (hard p) (rec_state (platter ?s' n i)))" for i
    using plat [of i] kept by (elim disjE) simp_all
  then have "node_fine ids ?s' n"
    using k run by (simp add: node_fine_def fail_def voter_ok_def)
  moreover have "node_fine ids ?s' m" if "m \<in> set ids" "m \<noteq> n" for m
    by (rule node_fine_same [of _ s]) (use inv that in \<open>simp_all add: cluster_inv_def fail_def\<close>)
  ultimately have "\<forall>m \<in> set ids. node_fine ids ?s' m" by blast
  with inv show ?thesis by (simp add: cluster_inv_def fail_def)
qed

lemma inv_crash:
  assumes inv: "cluster_inv ids s" and n: "n \<in> set ids"
  shows "cluster_inv ids (crash n s)"
proof -
  let ?s' = "crash n s"
  have nf: "node_fine ids s n" using inv n by (simp add: cluster_inv_def)
  have pl: "platter ?s' = platter s" by (simp add: fun_eq_iff platter_def crash_def)
  have "node_fine ids ?s' n"
    using nf by (cases "running (node_at s n)") (auto simp: node_fine_def pl Let_def voter_ok_def, auto simp: crash_def)
  moreover have "node_fine ids ?s' m" if "m \<in> set ids" "m \<noteq> n" for m
    by (rule node_fine_same [of _ s]) (use inv that in \<open>simp_all add: cluster_inv_def crash_def\<close>)
  ultimately have "\<forall>m \<in> set ids. node_fine ids ?s' m" by blast
  with inv show ?thesis by (simp add: cluster_inv_def crash_def)
qed

lemma recovered_node_facts [simp]:
  "node_id (recovered_node r k) = node_id k" "peers (recovered_node r k) = peers k" "running (recovered_node r k)"
  "role (recovered_node r k) = role k" "rlog (recovered_node r k) = rec_entries r"
  "hard (recovered_node r k) = rec_state r" "voted_for (recovered_node r k) = hs_voted_for (rec_state r)"
  by (simp_all add: recovered_node_def hard_def)

lemma recovered_same: "running k \<Longrightarrow> recovered_node \<lparr>rec_state = hard k, rec_entries = rlog k\<rparr> k = k"
  by (simp add: recovered_node_def hard_def)

lemma inv_restart:
  assumes inv: "cluster_inv ids s" and n: "n \<in> set ids" and wf: "log_wf (rec_entries (platter s n i))"
  shows "cluster_inv ids (restart n i s)"
proof -
  let ?k = "node_at s n" and ?r = "platter s n i"
  let ?k' = "recovered_node ?r ?k"
  let ?s1 = "s\<lparr>past := insert (n, ?k') (past s)\<rparr>" and ?s' = "restart n i s"
  have nf: "node_fine ids s n" and pf: "past_fine ids s" and sf: "sent_fine ids s" and ov: "one_vote s"
    using inv n by (simp_all add: cluster_inv_def)
  have k: "node_id ?k = n" "peers ?k = peers_of ids n" "voter_ok ?k"
    and plat: "hs_voted_for (rec_state ?r) \<noteq> Some NO_VOTE" "\<And>p. (n, p) \<in> past s \<Longrightarrow> vote_kept (hard p) (rec_state ?r)"
    using nf by (auto simp: node_fine_def Let_def)
  have mono: "cast s p t c \<Longrightarrow> cast ?s1 p t c" for p t c by (auto simp: cast_def)
  have role: "role_fine ids (cast ?s1) ?k'"
  proof (cases "running ?k")
    case True
    then have d: "unsynced s n = []" "durable_as (wal s n) ?k" "(n, ?k) \<in> past s" using nf by (simp_all add: node_fine_def Let_def)
    then have "?k' = ?k" using recovered_same [OF True] by (simp add: platter_def durable_as_def)
    with pf d(3) mono show ?thesis by (auto simp: past_fine_def intro: role_fine_mono)
  next
    case False
    then show ?thesis using nf by (intro role_fine_follower) (simp add: node_fine_def Let_def)
  qed
  have pf1: "past_fine ids ?s1" by (rule past_fine_insert [OF pf n _ role]) (simp add: k)
  have ov1: "one_vote ?s1" by (rule one_vote_insert [OF ov]) (use plat in simp)
  have sf1: "sent_fine ids ?s1" by (rule sent_fine_insert [OF sf])
  have s': "?s' = ?s1\<lparr>node_at := (node_at s)(n := ?k'), wal := (wal s)(n := wal s n @ take i (unsynced s n)),
      unsynced := (unsynced s)(n := [])\<rparr>"
    by (simp add: restart_def Let_def)
  have pl: "platter ?s' n j = ?r" for j by (simp add: s' platter_def)
  have "durable_as (wal s n @ take i (unsynced s n)) ?k'" by (simp add: durable_as_def platter_def)
  then have "node_fine ids ?s' n"
    using k plat wf by (auto simp: node_fine_def pl voter_ok_def) (auto simp: s')
  moreover have "node_fine ids ?s' m" if "m \<in> set ids" "m \<noteq> n" for m
    by (rule node_fine_same [of _ s]) (use inv that in \<open>simp_all add: cluster_inv_def s'\<close>)
  ultimately have "\<forall>m \<in> set ids. node_fine ids ?s' m" by blast
  with pf1 ov1 sf1 show ?thesis by (simp add: cluster_inv_def s')
qed

lemma inv_request:
  assumes "cluster_inv ids s"
  shows "cluster_inv ids (request c n r s)"
proof -
  have "node_fine ids (request c n r s) m" if "m \<in> set ids" for m
    by (rule node_fine_same [of _ s]) (use assms that in \<open>simp_all add: cluster_inv_def request_def\<close>)
  moreover have "sent_fine ids (request c n r s)"
    using assms by (auto simp: cluster_inv_def sent_fine_def request_def msg_fine_def)
  ultimately show ?thesis using assms by (simp add: cluster_inv_def request_def)
qed

lemma inv_initial:
  assumes "ids_ok ids"
  shows "cluster_inv ids (initial ids)"
proof -
  have "node_fine ids (initial ids) n" if "n \<in> set ids" for n
    using assms that
    by (auto simp: node_fine_def initial_def Let_def ids_ok_def voter_ok_def platter_def durable_as_def new_rnode_def
        hard_def init_recovered_def init_hard_state_def)
  moreover have "one_vote (initial ids)" by (auto simp: one_vote_def cast_def initial_def new_rnode_def)
  ultimately show ?thesis
    by (auto simp: cluster_inv_def past_fine_def sent_fine_def initial_def role_fine_def new_rnode_def)
qed

theorem reachable_inv:
  assumes "reachable ids mut s" and "ids_ok ids" and "mut_ok mut"
  shows "cluster_inv ids s"
  using assms(1)
proof induction
  case starts
  show ?case by (rule inv_initial [OF assms(2)])
next
  case (moves s s')
  from moves(2,3) show ?case
    by cases (simp_all add: inv_complete [OF _ assms(2,3)] inv_fail [OF _ assms(2,3)] inv_crash inv_restart inv_request)
qed

text \<open>There is one leader per term, whenever the two were seen.\<close>

lemma inv_election_safety:
  assumes inv: "cluster_inv ids s"
    and "(a, k) \<in> past s" "role k = LEADER" and "(b, l) \<in> past s" "role l = LEADER"
    and t: "current_term k = current_term l"
  shows "a = b"
proof -
  have "role_fine ids (cast s) k" "node_id k = a" "role_fine ids (cast s) l" "node_id l = b"
    using inv assms(2,4) by (auto simp: cluster_inv_def past_fine_def)
  then obtain Q R where
    Q: "majority_of ids Q" "\<forall>p \<in> Q. cast s p (current_term k) a" and
    R: "majority_of ids R" "\<forall>p \<in> R. cast s p (current_term k) b"
    using assms(3,5) t by (auto simp: role_fine_def)
  obtain p where "p \<in> Q" "p \<in> R" by (rule majorities.witness [OF Q(1) R(1)])
  with Q R inv show ?thesis by (auto simp: cluster_inv_def one_vote_def)
qed

section \<open>Properties\<close>

text \<open>
  C7. One leader per term: of two nodes that were ever leader in the same term of a reachable cluster,
  whatever was lost, delayed, repeated, crashed or restarted in between, and even when the log position
  in vote requests is tampered with, both are the same node.
\<close>

theorem one_leader_per_term:
  assumes "reachable ids mut s" and "ids_ok ids" and "mut_ok mut"
    and "(a, k) \<in> past s" and "role k = LEADER" and "(b, l) \<in> past s" and "role l = LEADER"
    and "current_term k = current_term l"
  shows "a = b"
  by (rule inv_election_safety [OF reachable_inv [OF assms(1-3)] assms(4-8)])

text \<open>Node 1 of three times out, node 2 votes for it, and it leads.\<close>

definition elected :: cluster where
  "elected =
     (let s0 = initial [1, 2, 3];
          s1 = complete 1 (handle ElectionTimer (node_at s0 1)) s0;
          s2 = complete 2 (handle (Receives 1 (MRequestVote (RequestVote 1 1 0 0))) (node_at s1 2)) s1
      in complete 1 (handle (Receives 2 (MRequestVoteReply (RequestVoteReply 1 True))) (node_at s2 1)) s2)"

lemma elected_reachable:
  "reachable [1, 2, 3] (\<lambda>m. m) elected \<and> role (node_at elected 1) = LEADER \<and> (1, node_at elected 1) \<in> past elected
     \<and> current_term (node_at elected 1) = 1"
proof -
  let ?ids = "[1, 2, 3] :: NodeId list"
  let ?s0 = "initial ?ids"
  let ?h1 = "handle ElectionTimer (node_at ?s0 1)"
  let ?s1 = "complete 1 ?h1 ?s0"
  let ?h2 = "handle (Receives 1 (MRequestVote (RequestVote 1 1 0 0))) (node_at ?s1 2)"
  let ?s2 = "complete 2 ?h2 ?s1"
  let ?h3 = "handle (Receives 2 (MRequestVoteReply (RequestVoteReply 1 True))) (node_at ?s2 1)"
  note defs = initial_def peers_of_def new_rnode_def complete_def election_timeout_spec_def request_vote_spec_def
    request_vote_reply_spec_def reply_vote_spec_def majority_def cluster_size_def Let_def follow_def lead_def
    sends_def up_to_date_def last_index_def last_term_def set_add_def
  have 1: "cstep ?ids (\<lambda>m. m) ?s0 ?s1"
    by (rule cstep.completes) (simp_all add: defs)
  have 2: "cstep ?ids (\<lambda>m. m) ?s1 ?s2"
    by (rule cstep.completes) (simp_all add: defs)
  have 3: "cstep ?ids (\<lambda>m. m) ?s2 (complete 1 ?h3 ?s2)"
    by (rule cstep.completes) (simp_all add: defs)
  have e: "elected = complete 1 ?h3 ?s2" by (simp only: elected_def Let_def)
  have "reachable ?ids (\<lambda>m. m) elected"
    unfolding e using 1 2 3 by (blast intro: reachable.intros)
  moreover have "role (node_at elected 1) = LEADER \<and> (1, node_at elected 1) \<in> past elected
     \<and> current_term (node_at elected 1) = 1"
    unfolding e by (simp add: defs)
  ultimately show ?thesis by blast
qed

theorem one_leader_per_term_witness:
  "\<exists>s k. reachable [1, 2, 3] (\<lambda>m. m) s \<and> (1, k) \<in> past s \<and> role k = LEADER \<and> current_term k = 1
     \<and> (\<forall>l b. (b, l) \<in> past s \<longrightarrow> role l = LEADER \<longrightarrow> current_term l = 1 \<longrightarrow> b = 1)"
proof -
  have ok: "ids_ok [1, 2, 3]" "mut_ok (\<lambda>m. m)" by (simp_all add: ids_ok_def NO_VOTE_def mut_ok_def)
  note E = elected_reachable
  have "b = 1" if "(b, l) \<in> past elected" "role l = LEADER" "current_term l = 1" for b l
    using one_leader_per_term [OF _ ok that(1,2), of 1 "node_at elected 1"] E that(3) by simp
  with E show ?thesis by blast
qed

end
