(* ===== verification/World_Moves.thy ===== *)
theory World_Moves
  imports Raft_World Cluster
begin

text \<open>
  What the operations of the world do to messages in flight and to the parts of the world they do not
  own. \<open>moving M m\<close>: returning, \<open>m\<close> keeps the queue well-formed and puts no message in flight that was
  not, except those of \<open>M\<close>. \<open>keeps f m\<close>: whatever the outcome, \<open>m\<close> leaves the part \<open>f\<close> of the state as
  it was. Both follow the structure of a statement (\<open>moving_rules\<close>, \<open>keeps_rules\<close>).
\<close>

declare block.simps [simp del]

section \<open>Parts left alone\<close>

named_theorems keeps_rules

definition keeps :: "('s \<Rightarrow> 'f) \<Rightarrow> ('a, 's) py \<Rightarrow> bool" where
  "keeps f m \<longleftrightarrow> (\<forall>s. case m s of Done x s' \<Rightarrow> f s' = f s | Raised e s' \<Rightarrow> f s' = f s | Diverges \<Rightarrow> True)"

lemma keeps_Done: "keeps f m \<Longrightarrow> m s = Done x s' \<Longrightarrow> f s' = f s"
  unfolding keeps_def by (drule spec [of _ s]) simp

lemma keeps_Raised: "keeps f m \<Longrightarrow> m s = Raised e s' \<Longrightarrow> f s' = f s"
  unfolding keeps_def by (drule spec [of _ s]) simp

lemma keeps_basic [keeps_rules]: "keeps f (ret x)" "keeps f (raise e)" "keeps f (of_sum r)" "keeps f (Done x)"
    "keeps f (Raised e)"
  by (auto simp: keeps_def ret_def raise_def of_sum_def split: sum.splits)

lemma keeps_modify [keeps_rules]: "(\<And>s. f (g s) = f s) \<Longrightarrow> keeps f (modify g)"
  by (simp add: keeps_def modify_def)

lemma keeps_bind [keeps_rules]: "keeps f m \<Longrightarrow> (\<And>x. keeps f (k x)) \<Longrightarrow> keeps f (bind m k)"
  unfolding keeps_def bind_def by (fastforce split: outcome.splits)

lemma keeps_block [keeps_rules]: "keeps f (block [])" "keeps f m \<Longrightarrow> keeps f (block ms) \<Longrightarrow> keeps f (block (m # ms))"
  unfolding keeps_def by (fastforce simp: block.simps split: outcome.splits)+

lemma keeps_for_each [keeps_rules]: "(\<And>x. keeps f (g x)) \<Longrightarrow> keeps f (for_each xs g)"
  unfolding for_each_def by (induction xs) (simp_all add: keeps_block)

lemma keeps_ite [keeps_rules]: "keeps f m \<Longrightarrow> keeps f n \<Longrightarrow> keeps f (ite b m n)" "keeps f m \<Longrightarrow> keeps f (whenever b m)"
  by (simp_all add: keeps_def ite_def whenever_def)

lemma keeps_if [keeps_rules]: "(b \<Longrightarrow> keeps f m) \<Longrightarrow> (\<not> b \<Longrightarrow> keeps f n) \<Longrightarrow> keeps f (if b then m else n)"
  by simp

lemma keeps_state: "(\<And>s. keeps f (m s)) \<Longrightarrow> keeps f (\<lambda>s. m s s)"
  by (simp add: keeps_def)

lemma keepsI:
  assumes "\<And>s x s'. m s = Done x s' \<Longrightarrow> f s' = f s" and "\<And>s e s'. m s = Raised e s' \<Longrightarrow> f s' = f s"
  shows "keeps f m"
  unfolding keeps_def
proof
  fix s
  show "case m s of Done x s' \<Rightarrow> f s' = f s | Raised e s' \<Rightarrow> f s' = f s | Diverges \<Rightarrow> True"
    by (cases "m s") (simp_all only: outcome.case assms)
qed

lemma keeps_via:
  assumes "keeps f m" and "\<And>s s'. f s' = f s \<Longrightarrow> g s' = g s"
  shows "keeps g m"
  by (rule keepsI) (rule assms(2), erule keeps_Done [OF assms(1)] keeps_Raised [OF assms(1)])+

lemma keeps_point:
  assumes "\<And>s. \<exists>n. keeps f n \<and> m s = n s"
  shows "keeps f m"
proof (rule keepsI)
  fix s x s'
  assume run: "m s = Done x s'"
  from assms [of s] obtain n where n: "keeps f n \<and> m s = n s" ..
  show "f s' = f s" by (rule keeps_Done [OF n [THEN conjunct1]]) (rule trans [OF sym [OF n [THEN conjunct2]] run])
next
  fix s e s'
  assume run: "m s = Raised e s'"
  from assms [of s] obtain n where n: "keeps f n \<and> m s = n s" ..
  show "f s' = f s" by (rule keeps_Raised [OF n [THEN conjunct1]]) (rule trans [OF sym [OF n [THEN conjunct2]] run])
qed

lemma keeps_on_part [keeps_rules]: "(\<And>t s. f (wr t s) = f s) \<Longrightarrow> keeps f (on_part rd wr m)"
  by (auto simp: keeps_def on_part_def split: outcome.splits)

text \<open>What a node's event may change is the simulation, the network and the node's own entry.\<close>

lemma node_back_fields:
  "w_invariants (node_back n c w) = w_invariants w" "w_mutate (node_back n c w) = w_mutate w"
  "w_nodes (node_back n c w) = AList.update n (me c, disk c) (w_nodes w)"
  "core_wf (node_back n c w) = core_wf c" "arrive_action (node_back n c w) = arrive_action c"
  "inboxes (node_back n c w) = inboxes c" "queue (node_back n c w) = queue c" "held (node_back n c w) = held c"
  by (cases w, simp add: node_back_def netsim.defs core_wf_def)+

lemma node_view_fields:
  "me (node_view m d w) = m" "disk (node_view m d w) = d" "core_wf (node_view m d w) = core_wf w"
  "arrive_action (node_view m d w) = arrive_action w" "inboxes (node_view m d w) = inboxes w"
  "queue (node_view m d w) = queue w" "held (node_view m d w) = held w"
  by (simp_all add: node_view_def netsim.defs node_ctx.defs core_wf_def)

section \<open>Messages in flight\<close>

definition in_flight :: "(raft_action, described, message, inbox, 'z) netsim_scheme \<Rightarrow> (NodeId \<times> NodeId \<times> message) set" where
  "in_flight c = {(f, t, m). (\<exists>e \<in> set (live (queue c)). ev_action e = Arrive f t m)
     \<or> (\<exists>ms. held c t = Some ms \<and> (f, m) \<in> set ms)}"

definition net_moves :: "(NodeId \<times> NodeId \<times> message) set \<Rightarrow>
    (raft_action, described, message, inbox, 'z) netsim_scheme \<Rightarrow>
    (raft_action, described, message, inbox, 'z) netsim_scheme \<Rightarrow> bool" where
  "net_moves M c c' \<longleftrightarrow> core_wf c' \<and> arrive_action c' = Arrive \<and> inboxes c' = inboxes c
     \<and> in_flight c' \<subseteq> in_flight c \<union> M"

definition moving :: "(NodeId \<times> NodeId \<times> message) set \<Rightarrow>
    ('x, (raft_action, described, message, inbox, 'z) netsim_scheme) py \<Rightarrow> bool" where
  "moving M m \<longleftrightarrow> (\<forall>c x c'. core_wf c \<longrightarrow> arrive_action c = Arrive \<longrightarrow> m c = Done x c' \<longrightarrow> net_moves M c c')"

named_theorems moving_rules

lemma net_moves_refl: "core_wf c \<Longrightarrow> arrive_action c = Arrive \<Longrightarrow> net_moves M c c"
  by (simp add: net_moves_def)

lemma net_moves_trans: "net_moves M a b \<Longrightarrow> net_moves M b c \<Longrightarrow> net_moves M a c"
  by (auto simp: net_moves_def)

lemma net_moves_mono: "net_moves M a b \<Longrightarrow> M \<subseteq> N \<Longrightarrow> net_moves N a b"
  by (auto simp: net_moves_def)

lemma movingD: "moving M m \<Longrightarrow> core_wf c \<Longrightarrow> arrive_action c = Arrive \<Longrightarrow> m c = Done x c' \<Longrightarrow> net_moves M c c'"
  by (simp add: moving_def)

lemma movingI: "(\<And>c x c'. core_wf c \<Longrightarrow> arrive_action c = Arrive \<Longrightarrow> m c = Done x c' \<Longrightarrow> net_moves M c c') \<Longrightarrow> moving M m"
  by (simp add: moving_def)

lemma net_movesD: "net_moves M c c' \<Longrightarrow> core_wf c'" "net_moves M c c' \<Longrightarrow> arrive_action c' = Arrive"
  by (simp_all add: net_moves_def)

lemma moving_mono: "moving {} m \<Longrightarrow> moving M m"
  unfolding moving_def using net_moves_mono by blast

lemma moving_basic [moving_rules]: "moving M (ret x)" "moving M (raise e)" "moving M (of_sum r)"
  by (simp_all add: moving_def ret_Done raise_Done of_sum_Done net_moves_refl)

lemma moving_bind [moving_rules]:
  assumes "moving M m" and "\<And>x. moving M (k x)"
  shows "moving M (bind m k)"
proof (rule movingI)
  fix c y c'
  assume c: "core_wf c" "arrive_action c = Arrive" and "bind m k c = Done y c'"
  then obtain x c1 where 1: "m c = Done x c1" and 2: "k x c1 = Done y c'" by (auto simp: bind_Done)
  have m1: "net_moves M c c1" by (rule movingD [OF assms(1) c 1])
  from net_moves_trans [OF this movingD [OF assms(2) net_movesD [OF this] 2]] show "net_moves M c c'" .
qed

lemma moving_Nil [moving_rules]: "moving M (block [])"
  by (rule movingI) (simp add: net_moves_refl)

lemma moving_Cons [moving_rules]:
  assumes "moving M m" and "moving M (block ms)"
  shows "moving M (block (m # ms))"
proof (rule movingI)
  fix c y c'
  assume c: "core_wf c" "arrive_action c = Arrive" and "block (m # ms) c = Done y c'"
  then obtain c1 where 1: "m c = Done () c1" and 2: "block ms c1 = Done y c'" by (auto simp: block_Cons_Done)
  have m1: "net_moves M c c1" by (rule movingD [OF assms(1) c 1])
  from net_moves_trans [OF this movingD [OF assms(2) net_movesD [OF this] 2]] show "net_moves M c c'" .
qed

lemma moving_for_each: "(\<And>x. x \<in> set xs \<Longrightarrow> moving M (g x)) \<Longrightarrow> moving M (for_each xs g)"
  unfolding for_each_def by (induction xs) (simp_all add: moving_Nil moving_Cons)

lemma moving_ite [moving_rules]: "moving M m \<Longrightarrow> moving M n \<Longrightarrow> moving M (ite b m n)" "moving M m \<Longrightarrow> moving M (whenever b m)"
  by (simp_all add: moving_def ite_def whenever_def net_moves_refl)

lemma moving_if [moving_rules]: "(b \<Longrightarrow> moving M m) \<Longrightarrow> (\<not> b \<Longrightarrow> moving M n) \<Longrightarrow> moving M (if b then m else n)"
  by simp

lemma moving_state: "(\<And>s. moving M (m s)) \<Longrightarrow> moving M (\<lambda>s. m s s)"
  by (simp add: moving_def)

lemma moving_point: "(\<And>c. \<exists>n. moving M n \<and> m c = n c) \<Longrightarrow> moving M m"
  unfolding moving_def by metis

lemma moving_modify: "(\<And>c. queue (g c) = queue c \<and> now (g c) = now c \<and> held (g c) = held c
    \<and> arrive_action (g c) = arrive_action c \<and> inboxes (g c) = inboxes c) \<Longrightarrow> moving M (modify g)"
  by (auto simp: moving_def modify_Done net_moves_def in_flight_def core_wf_def)

lemma moving_trace [moving_rules]: "moving M (trace_write r)"
  unfolding trace_write_def by (rule moving_modify) simp

lemma moving_record [moving_rules]: "moving M (net_record k d)" "moving M (net_record_msg k f t m)"
  by (rule movingI, simp add: net_record_dones net_moves_def in_flight_def)+

lemma moving_rng [moving_rules]: "moving M (with_rng m)"
  by (auto simp: moving_def with_rng_Done net_moves_def in_flight_def core_wf_def)

lemma moving_queue:
  assumes "core_wf (c\<lparr>queue := q\<rparr>)" "arrive_action c = Arrive"
    and "\<And>e f t m. e \<in> set (live q) \<Longrightarrow> ev_action e = Arrive f t m \<Longrightarrow> e \<in> set (live (queue c)) \<or> (f, t, m) \<in> M"
  shows "net_moves M c (c\<lparr>queue := q\<rparr>)"
proof -
  have "in_flight (c\<lparr>queue := q\<rparr>) \<subseteq> in_flight c \<union> M"
    unfolding in_flight_def using assms(3) by (auto; blast)
  with assms(1,2) show ?thesis by (simp add: net_moves_def)
qed

lemma moving_after: "\<forall>f t m. a = Arrive f t m \<longrightarrow> (f, t, m) \<in> M \<Longrightarrow> moving M (clock_after d a k actor)"
  unfolding moving_def
proof (intro allI impI)
  fix c c' :: "(raft_action, described, message, inbox, 'a) netsim_scheme" and e
  assume a: "\<forall>f t m. a = Arrive f t m \<longrightarrow> (f, t, m) \<in> M" and c: "core_wf c" "arrive_action c = Arrive"
    and run: "clock_after d a k actor c = Done e c'"
  note D = clock_after_Done [OF run c(1)]
  from D(2) obtain q where c': "c' = c\<lparr>queue := q\<rparr>" ..
  show "net_moves M c c'"
    unfolding c' by (rule moving_queue) (use D a c(2) in \<open>auto simp: c' set_insort_key\<close>)
qed

lemma moving_callback [moving_rules]: "moving M (clock_after d (Callback t) k actor)"
  by (rule moving_after) simp

lemma moving_cancel [moving_rules]: "moving M (timer_cancel t)"
  unfolding moving_def
proof (intro allI impI)
  fix c c' :: "(raft_action, described, message, inbox, 'a) netsim_scheme" and b
  assume c: "core_wf c" "arrive_action c = Arrive" and run: "timer_cancel t c = Done b c'"
  note D = timer_cancel_Done [OF run c(1)]
  from D(2) obtain q where c': "c' = c\<lparr>queue := q\<rparr>" ..
  show "net_moves M c c'"
    unfolding c' by (rule moving_queue) (use D c(2) in \<open>auto simp: c'\<close>)
qed

lemma moving_schedule: "moving {(frm, to, msg)} (net_schedule frm to msg tag delay)"
proof -
  have "net_moves {(frm, to, msg)} c c'"
    if "core_wf c" "arrive_action c = Arrive" "net_schedule frm to msg tag delay c = Done x c'"
    for c c' :: "(raft_action, described, message, inbox, 'a) netsim_scheme" and x
    using that(3,1)
  proof (rule net_schedule_Done)
    fix e r q d
    assume c': "c' = c\<lparr>rng := r, queue := q\<rparr>" "core_wf c'" "live q = insort_key ev_key e (live (queue c))"
      "ev_action e = arrive_action c frm to msg"
    then show "net_moves {(frm, to, msg)} c c'"
      using that(2) by (auto simp: net_moves_def in_flight_def set_insort_key)
  qed
  then show ?thesis by (simp add: moving_def)
qed

lemma moving_send: "moving {(frm, to, msg)} (net_send frm to msg)"
  unfolding net_send_def
  by (intro moving_rules moving_schedule moving_modify
      moving_state [where m = "\<lambda>c. with_rng (chance (drop_percent (net_faults c)))"]
      moving_state [where m = "\<lambda>c. with_rng (chance (duplicate_percent (net_faults c)))"]) simp_all

lemma moving_release: "moving M (net_release n)"
  unfolding moving_def
proof (intro allI impI)
  fix c c' :: "(raft_action, described, message, inbox, 'a) netsim_scheme" and x
  assume c: "core_wf c" "arrive_action c = Arrive" and run: "net_release n c = Done x c'"
  obtain ms es where r: "held c n = Some ms" "held c' = (held c)(n := Some [])"
    "map ev_action es = map (\<lambda>(frm, msg). arrive_action c frm n msg) ms"
    "live (queue c') = filter (\<lambda>e. ev_tick e = now c) (live (queue c)) @ es
          @ filter (\<lambda>e. ev_tick e \<noteq> now c) (live (queue c))"
    "c' = c\<lparr>queue := queue c', held := held c', trace := trace c'\<rparr>" "core_wf c'"
    by (rule net_release_Done [OF run c(1)])
  have f: "arrive_action c' = Arrive" "inboxes c' = inboxes c" by (subst r(5), simp add: c)+
  have "ev_action e \<in> (\<lambda>(frm, msg). Arrive frm n msg) ` set ms" if "e \<in> set es" for e
    using arg_cong [OF r(3), of set] that c(2) by auto
  then have "in_flight c' \<subseteq> in_flight c"
    using r(1,2) by (fastforce simp: in_flight_def r(4) split: if_splits)
  then show "net_moves M c c'" using f r(6) by (auto simp: net_moves_def)
qed

lemma in_flight_drop_held: "in_flight (c\<lparr>status := st, held := (held c)(n := Some [])\<rparr>) \<subseteq> in_flight c"
  by (auto simp: in_flight_def split: if_splits)

lemma moving_set_state [moving_rules]: "moving M (net_set_state n st)"
  unfolding moving_def
proof (intro allI impI)
  fix c c' :: "(raft_action, described, message, inbox, 'a) netsim_scheme" and x
  assume c: "core_wf c" "arrive_action c = Arrive" and run: "net_set_state n st c = Done x c'"
  let ?c1 = "c\<lparr>status := (status c)(n := Some st)\<rparr>"
  have m1: "net_moves M c ?c1" using c by (auto simp: net_moves_def in_flight_def core_wf_def)
  have c1: "core_wf ?c1" "arrive_action ?c1 = Arrive" by (rule net_movesD [OF m1])+
  obtain previous where st: "status c n = Some previous" using run by (cases "status c n") (auto simp: net_set_state_def)
  have "net_moves M ?c1 c'"
  proof (cases "st = CRASHED")
    case True
    with run st have "c' = ?c1\<lparr>held := (held c)(n := Some [])\<rparr>" by (simp add: net_set_state_def)
    with c1 show ?thesis by (auto simp: net_moves_def in_flight_def core_wf_def split: if_splits)
  next
    case False
    show ?thesis
    proof (cases "previous = HUNG")
      case True
      with run st False have "net_release n ?c1 = Done () c'" by (simp add: net_set_state_def)
      from movingD [OF moving_release c1 this] show ?thesis .
    next
      case no: False
      with run st False have "c' = ?c1" by (simp add: net_set_state_def)
      with c1 show ?thesis by (simp add: net_moves_refl)
    qed
  qed
  with m1 show "net_moves M c c'" by (rule net_moves_trans)
qed

lemma moving_split [moving_rules]: "moving M (net_split p)"
  unfolding net_split_def by (intro moving_rules moving_modify) simp

lemma moving_heal [moving_rules]: "moving M net_heal"
proof (rule movingI)
  fix c c' :: "(raft_action, described, message, inbox, 'a) netsim_scheme" and x
  assume c: "core_wf c" "arrive_action c = Arrive" and run: "net_heal c = Done x c'"
  show "net_moves M c c'"
  proof (cases "netsim.partition c")
    case None
    with run have "c' = c\<lparr>partition := None\<rparr>" by (simp add: net_heal_def)
    with c show ?thesis by (simp add: net_moves_def in_flight_def core_wf_def)
  next
    case (Some p)
    with run c show ?thesis
      by (auto simp: net_heal_def net_record_dones net_moves_def in_flight_def core_wf_def)
  qed
qed

section \<open>The client\<close>

text \<open>What the world's own operations leave to the nodes and the checkers.\<close>

definition apart :: "raft_world \<Rightarrow> (NodeId \<times> rnode \<times> sim_storage) list \<times> string \<times> invariants" where
  "apart w = (w_nodes w, w_mutate w, w_invariants w)"

lemma apart_fields: "apart w' = apart w \<longleftrightarrow> w_nodes w' = w_nodes w \<and> w_mutate w' = w_mutate w \<and> w_invariants w' = w_invariants w"
  by (simp add: apart_def)

lemma apart_more: "netsim.more w' = netsim.more w \<Longrightarrow> apart w' = apart w"
  by (cases w; cases w') (simp add: apart_def)

lemma keeps_more: "keeps netsim.more m \<Longrightarrow> keeps apart (m :: ('x, raft_world) py)"
  by (erule keeps_via) (rule apart_more)

lemma keeps_net [keeps_rules]:
  "keeps netsim.more (trace_write r)" "keeps netsim.more (with_rng m)" "keeps netsim.more (clock_after d a k actor)"
  "keeps netsim.more (timer_cancel t)" "keeps netsim.more (net_record k d')" "keeps netsim.more (net_record_msg k f to msg)"
  by (auto simp: keeps_def trace_write_def modify_def with_rng_def on_part_def clock_after_def with_queue_def
      timer_cancel_def net_record_def net_record_msg_def split: outcome.splits)

lemma keeps_schedule [keeps_rules]: "keeps netsim.more (net_schedule frm to msg tag delay)"
proof -
  have a: "keeps netsim.more (\<lambda>c. clock_after d (arrive_action c frm to msg) tag (Some to) c)" for d
    by (rule keeps_point) (blast intro: keeps_net)
  have b: "keeps netsim.more (case delay of None \<Rightarrow> (\<lambda>c. with_rng (between (fst (latency (net_faults c))) (snd (latency (net_faults c)))) c)
      | Some d \<Rightarrow> ret d)"
    by (cases delay) (auto intro: keeps_basic keeps_point keeps_net)
  show ?thesis unfolding net_schedule_def by (intro keeps_rules a b)
qed

lemma keeps_send [keeps_rules]: "keeps netsim.more (net_send frm to msg)"
proof -
  have "keeps netsim.more (\<lambda>c. with_rng (chance (p c)) c)" for p :: "('a, 'b, 'c, 'd, 'e) netsim_scheme \<Rightarrow> int"
    by (rule keeps_point) (blast intro: keeps_net)
  then show ?thesis unfolding net_send_def by (intro keeps_rules) simp_all
qed

lemma keeps_release [keeps_rules]: "keeps netsim.more (net_release n)"
proof (rule keeps_point)
  fix c :: "('a, 'b, 'c, 'd, 'e) netsim_scheme"
  show "\<exists>m. keeps netsim.more m \<and> net_release n c = m c"
  proof (cases "held c n")
    case None
    then show ?thesis by (intro exI [of _ "raise KeyError"]) (simp add: net_release_def raise_def keeps_basic)
  next
    case (Some ms)
    show ?thesis
    proof (intro exI conjI)
      show "keeps netsim.more (if ms = [] then ret () else block [modify (\<lambda>c. c\<lparr>held := (held c)(n := Some [])\<rparr>),
                 net_record ''net.release'' [(''to'', JInt n), (''count'', JInt (int (length ms)))],
                 for_each ms (\<lambda>(frm, msg). net_schedule frm n msg ''net.deliver_held'' (Some 0))])"
        by (intro keeps_rules) (auto intro!: keeps_rules split: prod.split)
    qed (use Some in \<open>simp add: net_release_def ret_def\<close>)
  qed
qed

lemma keeps_set_state [keeps_rules]: "keeps netsim.more (net_set_state n st)"
proof (rule keeps_point)
  fix c :: "('a, 'b, 'c, 'd, 'e) netsim_scheme"
  show "\<exists>m. keeps netsim.more m \<and> net_set_state n st c = m c"
  proof (cases "status c n")
    case None
    then show ?thesis by (intro exI [of _ "raise KeyError"]) (simp add: net_set_state_def raise_def keeps_basic)
  next
    case (Some previous)
    show ?thesis
    proof (intro exI conjI)
      show "keeps netsim.more (block [modify (\<lambda>c. c\<lparr>status := (status c)(n := Some st)\<rparr>),
            (if st = CRASHED then modify (\<lambda>c. c\<lparr>held := (held c)(n := Some [])\<rparr>)
             else if previous = HUNG then net_release n
             else ret ())])"
        by (intro keeps_rules) simp_all
    qed (use Some in \<open>simp add: net_set_state_def\<close>)
  qed
qed

lemma keeps_state_read [keeps_rules]: "keeps f (net_state n)"
  by (auto simp: keeps_def net_state_def split: option.split)

lemma keeps_split [keeps_rules]: "keeps netsim.more (net_split p)" "keeps netsim.more net_heal"
proof -
  show "keeps netsim.more (net_split p)" unfolding net_split_def by (intro keeps_rules) simp
  have "keeps netsim.more (\<lambda>c. case netsim.partition c of None \<Rightarrow> Done () c | Some p \<Rightarrow> net_record ''net.heal'' (partition_describe p) c)"
    by (rule keeps_point) (auto split: option.split intro: keeps_basic keeps_net)
  then show "keeps netsim.more net_heal" unfolding net_heal_def by (intro keeps_rules) simp_all
qed

lemmas keeps_apart [keeps_rules] = keeps_net [THEN keeps_more] keeps_send [THEN keeps_more] keeps_set_state [THEN keeps_more]
  keeps_split [THEN keeps_more]

definition client_msgs :: "(NodeId \<times> NodeId \<times> message) set" where
  "client_msgs = {(f, t, m). f = CLIENT_ID \<and> (\<exists>r. m = MClientRequest r)}"

text \<open>\<open>aside m\<close>: the client's and the injector's steps send nothing but requests and leave nodes and
  checkers alone.\<close>

definition aside :: "('x, raft_world) py \<Rightarrow> bool" where
  "aside m \<longleftrightarrow> moving client_msgs m \<and> keeps apart m"

lemma aside_point:
  assumes "\<And>w. \<exists>n. aside n \<and> m w = n w"
  shows "aside m"
proof -
  have "\<exists>n. moving client_msgs n \<and> m w = n w" for w
  proof -
    from assms [of w] obtain n where "aside n \<and> m w = n w" ..
    then show ?thesis unfolding aside_def by (intro exI [of _ n]) simp
  qed
  moreover have "\<exists>n. keeps apart n \<and> m w = n w" for w
  proof -
    from assms [of w] obtain n where "aside n \<and> m w = n w" ..
    then show ?thesis unfolding aside_def by (intro exI [of _ n]) simp
  qed
  ultimately show ?thesis unfolding aside_def by (intro conjI moving_point keeps_point)
qed

lemma asideI: "moving client_msgs m \<Longrightarrow> keeps apart m \<Longrightarrow> aside m"
  by (simp add: aside_def)

lemma asideD: "aside m \<Longrightarrow> moving client_msgs m" "aside m \<Longrightarrow> keeps apart m"
  by (simp_all add: aside_def)

lemma aside_basic: "aside (ret x)" "aside (raise e)" "aside (of_sum r)" "aside (block [])"
  by (rule asideI; intro moving_rules keeps_rules)+

lemma aside_combine:
  "aside m \<Longrightarrow> (\<And>x. aside (g x)) \<Longrightarrow> aside (bind m g)"
  "aside m1 \<Longrightarrow> aside (block ms) \<Longrightarrow> aside (block (m1 # ms))"
  "aside m1 \<Longrightarrow> aside m2 \<Longrightarrow> aside (ite b m1 m2)" "aside m1 \<Longrightarrow> aside (whenever b m1)"
  by (rule asideI; intro moving_rules keeps_rules asideD; assumption)+

lemma aside_net: "aside (trace_write rec)" "aside (with_rng d)" "aside (clock_after n (Callback t) k actor)"
  "aside (timer_cancel tm)" "aside (net_set_state i st)" "aside (net_split p)" "aside net_heal"
  by (rule asideI, rule moving_rules, rule keeps_apart)+

lemmas aside_rules = aside_basic aside_combine aside_net

lemma aside_modify: "(\<And>c. queue (g c) = queue c \<and> now (g c) = now c \<and> held (g c) = held c
    \<and> arrive_action (g c) = arrive_action c \<and> inboxes (g c) = inboxes c \<and> apart (g c) = apart c) \<Longrightarrow> aside (modify g)"
  unfolding aside_def by (simp add: moving_modify keeps_modify)

lemma aside_upd_client: "aside (upd_client f)"
  unfolding upd_client_def by (rule aside_modify) (simp add: apart_fields)

lemma aside_send: "aside (net_send CLIENT_ID to (MClientRequest r))"
  unfolding aside_def using moving_send [of CLIENT_ID to "MClientRequest r"] net_moves_mono keeps_apart
  by (fastforce simp: moving_def client_msgs_def)

lemma aside_for_each: "(\<And>x. aside (g x)) \<Longrightarrow> aside (for_each xs g)"
  unfolding for_each_def by (induction xs) (simp_all add: aside_rules)

lemma aside_trace_of: "aside (\<lambda>w. trace_write (f w) w)"
proof (rule aside_point)
  show "\<exists>n. aside n \<and> trace_write (f w) w = n w" for w
    by (rule exI [of _ "trace_write (f w)"]) (simp add: aside_net)
qed

lemma aside_sum_of: "aside (\<lambda>w. of_sum (f w) w)"
proof (rule aside_point)
  show "\<exists>n. aside n \<and> of_sum (f w) w = n w" for w
    by (rule exI [of _ "of_sum (f w)"]) (simp add: aside_basic)
qed

lemma aside_request_of: "aside (\<lambda>w. net_send CLIENT_ID (f w) (MClientRequest r) w)"
proof (rule aside_point)
  show "\<exists>n. aside n \<and> net_send CLIENT_ID (f w) (MClientRequest r) w = n w" for w
    by (rule exI [of _ "net_send CLIENT_ID (f w) (MClientRequest r)"]) (simp add: aside_send)
qed

lemma aside_Done: "aside (Done x)"
  using aside_basic(1) [of x] by (simp add: ret_def [abs_def])

lemma aside_cases:
  assumes "aside m" and "\<And>x. aside (g x)"
  shows "aside (\<lambda>w. case f w of None \<Rightarrow> m w | Some x \<Rightarrow> g x w)"
proof (rule aside_point)
  show "\<exists>n. aside n \<and> (case f w of None \<Rightarrow> m w | Some x \<Rightarrow> g x w) = n w" for w
    by (cases "f w") (use assms in auto)
qed

lemmas aside_world = aside_upd_client aside_trace_of aside_sum_of aside_request_of

lemma aside_arm_retry: "aside client_arm_retry"
proof -
  have "aside (\<lambda>w. case cl_retry_timer (w_client w) of None \<Rightarrow> Done () w | Some t \<Rightarrow> bind (timer_cancel t) (\<lambda>_. ret ()) w)"
    by (rule aside_cases) (intro aside_Done aside_rules)+
  then show ?thesis unfolding client_arm_retry_def by (intro aside_rules aside_world)
qed

lemma aside_client_send: "aside client_send"
proof (rule aside_point)
  fix w
  show "\<exists>n. aside n \<and> client_send w = n w"
  proof (cases "cl_inflight (w_client w)")
    case None
    then show ?thesis by (intro exI [of _ "ret ()"]) (simp add: client_send_def ret_def aside_basic)
  next
    case (Some rc)
    obtain r c where rc: "rc = (r, c)" by (cases rc)
    show ?thesis
      by (intro exI conjI; (simp add: client_send_def Some rc)?) (intro aside_rules aside_world aside_arm_retry)
  qed
qed

lemma aside_client_issue: "aside client_issue"
proof (rule aside_point)
  fix w :: raft_world
  let ?c = "w_client w" and ?n = "int (length (cl_acked (w_client w)))"
  let ?m = "if ?n \<ge> cl_writes ?c then ret ()
      else block [upd_client (\<lambda>c. c\<lparr>cl_next_request_id := cl_next_request_id c + 1\<rparr>),
        bind (of_sum (if cl_keys ?c = 0 then Inl ZeroDivisionError else Inr (?n mod cl_keys ?c))) (\<lambda>k.
          block [upd_client (\<lambda>c'. c'\<lparr>cl_inflight := Some (cl_next_request_id ?c,
              put (pystr (''k'' @ decimal k)) (pystr (''v'' @ decimal ?n)))\<rparr>), client_send])]"
  have "aside (block [upd_client (\<lambda>c. c\<lparr>cl_next_request_id := cl_next_request_id c + 1\<rparr>),
        bind (of_sum s) (\<lambda>k. block [upd_client (f k), client_send])])" for s :: "exn + int" and f
    by (intro aside_rules aside_world aside_client_send)
  then have "aside ?m" by (simp add: aside_basic)
  moreover have "client_issue w = ?m w" by (simp add: client_issue_def Let_def ret_def)
  ultimately show "\<exists>n. aside n \<and> client_issue w = n w" by (intro exI [of _ ?m] conjI)
qed

lemma aside_client_timeout: "aside client_on_timeout"
  unfolding client_on_timeout_def by (intro aside_rules aside_world aside_client_send)

lemma aside_after_gap: "aside (client_after_gap cb name)"
  unfolding client_after_gap_def by (intro aside_rules)

lemma aside_client_reply: "aside (client_on_reply msg)"
proof (rule aside_point)
  fix w
  show "\<exists>n. aside n \<and> client_on_reply msg w = n w"
  proof (cases "cl_inflight (w_client w)")
    case None
    then show ?thesis by (intro exI [of _ "ret ()"]) (simp add: client_on_reply_def ret_def aside_basic)
  next
    case (Some rc)
    obtain r c where rc: "rc = (r, c)" by (cases rc)
    have cancel: "aside (\<lambda>w. case cl_retry_timer (w_client w) of None \<Rightarrow> Done () w
      | Some t \<Rightarrow> block [bind (timer_cancel t) (\<lambda>_. ret ()), upd_client (\<lambda>c. c\<lparr>cl_retry_timer := None\<rparr>)] w)"
      by (rule aside_cases) (intro aside_Done aside_rules aside_world)+
    have target: "aside (case crep_leader_hint msg of Some hint \<Rightarrow> upd_client (\<lambda>c. c\<lparr>cl_target := hint\<rparr>)
        | None \<Rightarrow> bind (\<lambda>w. of_sum (next_target (cl_target (w_client w))) w) (\<lambda>t. upd_client (\<lambda>c. c\<lparr>cl_target := t\<rparr>)))"
      by (cases "crep_leader_hint msg") (auto intro: aside_rules aside_world)
    consider "crep_request_id msg \<noteq> r" | "crep_request_id msg = r" "crep_ok msg" | "crep_request_id msg = r" "\<not> crep_ok msg"
      by blast
    then show ?thesis
    proof cases
      case 1
      then show ?thesis by (intro exI [of _ "ret ()"]) (simp add: client_on_reply_def ret_def aside_basic Some rc)
    next
      case 2
      show ?thesis
        by (intro exI conjI; (simp add: client_on_reply_def Some rc 2)?) (intro aside_rules aside_world cancel aside_after_gap)
    next
      case 3
      show ?thesis
        by (intro exI conjI; (simp add: client_on_reply_def Some rc 3)?) (intro aside_rules aside_world target aside_after_gap)
    qed
  qed
qed

lemma aside_deliver_client: "aside (deliver_to_client frm msg)"
proof -
  have h: "aside (modify (\<lambda>w. w\<lparr>w_history := f w\<rparr>))" for f by (rule aside_modify) (simp add: apart_fields)
  have "aside (note_receipt frm msg)"
  proof (cases msg)
    case (MClientReply r)
    show ?thesis
    proof (rule aside_point)
      fix w
      show "\<exists>n. aside n \<and> note_receipt frm msg w = n w"
      proof (cases "cl_inflight (w_client w)")
        case None
        then show ?thesis by (intro exI [of _ "ret ()"]) (simp add: note_receipt_def MClientReply ret_def aside_basic)
      next
        case (Some rc)
        obtain i c where rc: "rc = (i, c)" by (cases rc)
        let ?m = "if crep_ok r \<and> crep_request_id r = i
          then modify (\<lambda>w. w\<lparr>w_history := record_ack (now w) i c frm (w_history w)\<rparr>) else ret ()"
        have "aside ?m" using h by (simp add: aside_basic)
        moreover have "note_receipt frm msg w = ?m w"
          by (simp add: note_receipt_def MClientReply Some rc ret_def modify_def)
        ultimately show ?thesis by (intro exI [of _ ?m] conjI)
      qed
    qed
  qed (simp_all add: note_receipt_def [abs_def] aside_Done)
  moreover have "aside (client_on_message msg)"
    by (cases msg) (simp_all add: aside_basic aside_client_reply)
  ultimately show ?thesis unfolding deliver_to_client_def by (intro aside_rules)
qed

lemma aside_note_fired: "aside (note_fired what)"
  unfolding note_fired_def by (rule aside_modify) (simp add: apart_fields)

lemma aside_partition: "aside (start_partition e)" "aside heal_partition"
  unfolding start_partition_def heal_partition_def by (intro aside_rules aside_note_fired)+

end
