(* ===== verification/World_Refines.thy ===== *)
theory World_Refines
  imports World_Moves
begin

text \<open>
  The world simulates the cluster of \<open>Cluster\<close>: \<open>represents w s\<close> relates a world between two events to a
  cluster state, and whatever an event does to a represented world, the cluster can do in a few steps.
  So what holds of every reachable cluster holds of every world a run passes through. \<open>observer\<close> is the
  interface between the run and the invariant checkers that watch it.
\<close>

declare block.simps [simp del]

section \<open>The relation\<close>

definition node_rep :: "rnode \<Rightarrow> sim_storage \<Rightarrow> cluster \<Rightarrow> NodeId \<Rightarrow> bool" where
  "node_rep m d s n \<longleftrightarrow> core m = core (node_at s n)
     \<and> (if running m then disk_wal d (wal s n) [] else disk_keeps d (wal s n) (unsynced s n))"

definition represents :: "raft_world \<Rightarrow> cluster \<Rightarrow> bool" where
  "represents w s \<longleftrightarrow> core_wf w \<and> arrive_action w = Arrive
     \<and> (\<forall>to h. map_of (inboxes w) to = Some h \<longrightarrow> h = ToClient \<or> h = ToNode to)
     \<and> in_flight w \<subseteq> sent s \<union> client_msgs
     \<and> (\<forall>n m d. map_of (w_nodes w) n = Some (m, d) \<longrightarrow> n \<in> set NODE_IDS \<and> node_rep m d s n)"

lemma representsD:
  assumes "represents w s"
  shows "core_wf w" "arrive_action w = Arrive" "in_flight w \<subseteq> sent s \<union> client_msgs"
    "map_of (inboxes w) to = Some h \<Longrightarrow> h = ToClient \<or> h = ToNode to"
    "map_of (w_nodes w) n = Some (m, d) \<Longrightarrow> n \<in> set NODE_IDS \<and> node_rep m d s n"
  using assms by (auto simp: represents_def)

lemma represents_moves:
  assumes "represents w s" and "net_moves M w w'" and "M \<subseteq> sent s \<union> client_msgs" and "apart w' = apart w"
  shows "represents w' s"
  using assms unfolding represents_def net_moves_def apart_fields by auto

lemma represents_aside:
  "represents w s \<Longrightarrow> aside m \<Longrightarrow> m w = Done x w' \<Longrightarrow> represents w' s"
  using represents_moves [OF _ _ Un_upper2] movingD [OF asideD(1)] keeps_Done [OF asideD(2)] representsD(1,2) by metis

text \<open>A node's event, seen from its own view.\<close>

lemma on_node_Done:
  assumes "on_node n h w = Done x w'"
  obtains m d c' where "map_of (w_nodes w) n = Some (m, d)" "h (node_view m d w) = Done x c'" "w' = node_back n c' w"
  using assms by (cases "map_of (w_nodes w) n") (auto simp: on_node_def)

lemma node_view_in_flight [simp]: "in_flight (node_view m d w) = in_flight w"
  by (simp add: in_flight_def node_view_fields)

lemma node_back_in_flight [simp]: "in_flight (node_back n c w) = in_flight c"
  by (simp add: in_flight_def node_back_fields)

lemma represents_node:
  assumes r: "represents w s" and n: "n \<in> set NODE_IDS"
    and moves: "net_moves M (node_view m d w) c"
    and sent: "M \<subseteq> sent s'" "sent s \<subseteq> sent s'"
    and node: "node_rep (me c) (disk c) s' n"
    and others: "\<And>k. k \<noteq> n \<Longrightarrow> node_at s' k = node_at s k \<and> wal s' k = wal s k \<and> unsynced s' k = unsynced s k"
  shows "represents (node_back n c w) s'"
proof -
  have "k \<in> set NODE_IDS \<and> node_rep m' d' s' k" if "map_of (w_nodes (node_back n c w)) k = Some (m', d')" for k m' d'
  proof (cases "k = n")
    case True
    with that node n show ?thesis by (simp add: node_back_fields update_conv')
  next
    case False
    with that have "map_of (w_nodes w) k = Some (m', d')" by (simp add: node_back_fields update_conv')
    from representsD(5) [OF r this] others [OF False] show ?thesis by (simp add: node_rep_def)
  qed
  moreover have "in_flight c \<subseteq> sent s' \<union> client_msgs"
    using moves representsD(3) [OF r] sent unfolding net_moves_def node_view_in_flight by blast
  ultimately show ?thesis
    using moves representsD(1,2,4) [OF r]
    unfolding represents_def net_moves_def by (simp add: node_back_fields node_view_fields)
qed

section \<open>A guarded handler is a step\<close>

lemma frame_moves:
  assumes "frame c0 M c" and "arrive_action c0 = Arrive"
  shows "net_moves (sends (node_id (me c0)) M) c0 c"
  using assms by (auto simp: frame_def net_moves_def in_flight_def queued_def timer_of_def sends_def)

lemma moved_moves: "moved c0 c \<Longrightarrow> arrive_action c0 = Arrive \<Longrightarrow> net_moves {} c0 c"
  unfolding moved_def by (drule conjunct1, drule frame_moves) (auto simp: net_moves_def sends_def in_flight_def)

lemma on_disk_moving: "on_disk m c = Done x c' \<Longrightarrow> core_wf c \<Longrightarrow> arrive_action c = Arrive \<Longrightarrow> net_moves {} c c'"
  by (auto simp: on_disk_Done net_moves_def in_flight_def core_wf_def)

lemma self_crash_Done:
  assumes "on_self_crash n c = Done x c'" and "core_wf c" "arrive_action c = Arrive" and "disk_keeps (disk c) D W"
  shows "net_moves {} c c'" and "me c' = me c" and "disk_keeps (disk c') D W"
proof -
  from assms(1) obtain c1 c2 kept t where
    1: "net_set_state n CRASHED c = Done () c1" and 2: "on_disk sim_crash c1 = Done kept c2"
    and 3: "clock_after SUPERVISOR_DELAY (Callback (Revive n)) ''node.supervise'' (Some n) c2 = Done t c'"
    by (auto simp: on_self_crash_def)
  have m1: "net_moves {} c c1" by (rule movingD [OF moving_set_state assms(2,3) 1])
  have m2: "net_moves {} c1 c2" by (rule on_disk_moving [OF 2 net_movesD [OF m1]])
  have m3: "net_moves {} c2 c'" by (rule movingD [OF moving_callback net_movesD [OF m2] 3])
  show "net_moves {} c c'" by (rule net_moves_trans [OF net_moves_trans [OF m1 m2] m3])
  have k1: "netsim.more c1 = netsim.more c" by (rule keeps_Done [OF keeps_set_state 1])
  have k3: "netsim.more c' = netsim.more c2" by (rule keeps_Done [OF keeps_net(3) 3])
  from 2 obtain d where d: "sim_crash \<lparr>drng = rng c1, dsk = disk c1\<rparr> = Done kept d"
    and c2: "c2 = c1\<lparr>rng := drng d, disk := dsk d\<rparr>" by (auto simp: on_disk_Done)
  have e: "me c1 = me c" "disk c1 = disk c" "me c' = me c2" "disk c' = disk c2"
    using k1 k3 by (cases c; cases c1; cases c2; cases c'; simp)+
  show "me c' = me c" by (simp add: e c2)
  show "disk_keeps (disk c') D W" using disk_keeps_crash [OF _ d] assms(4) by (simp add: e c2)
qed

lemma guard_Done:
  assumes wf: "core_wf c" "arrive_action c = Arrive"
    and k: "core (me c) = core k" "log_wf (rlog k)" "running k" and disk: "disk_wal (disk c) D []"
    and h: "handles c D k m h" and run: "guard (Some on_self_crash) m c = Done x c'"
  shows "core (me c') = core (new_state h) \<and> log_wf (rlog (new_state h)) \<and> disk_wal (disk c') (D @ written h) []
        \<and> net_moves (sends (node_id k) (sent_by h)) c c'
    \<or> core (me c') = core (down k) \<and> disk_keeps (disk c') D (written h) \<and> net_moves {} c c'"
proof (cases "m c")
  case (Done y c1)
  have r0: "runs_as c k D [] [] c" using assms by (simp add: runs_as_def frame_refl)
  from run Done have "c' = c1" by (simp add: guard_def)
  with validD_Done [OF h [unfolded handles_def] r0 Done] frame_moves [OF _ wf(2), of _ c'] k(1) show ?thesis
    by (auto simp: runs_as_def core_eq_iff)
next
  case (Raised e c1)
  have r0: "runs_as c k D [] [] c" using assms by (simp add: runs_as_def frame_refl)
  from run Raised have e: "is_disk_error e" by (auto simp: guard_def split: if_splits)
  with validD_Raised [OF h [unfolded handles_def] r0 Raised] have f: "failed_as c D (written h) c1"
    by (simp add: or_fails_def)
  from run Raised e obtain c2 c3 r where
    2: "node_record ''raft.disk_error'' r c1 = Done () c2" and 3: "node_crash c2 = Done () c3"
    and 4: "on_self_crash (node_id (me c3)) c3 = Done () c'"
    by (auto simp: guard_def)
  have fr: "frame c [] c1" using f by (simp add: failed_as_def)
  from node_record_frame [OF fr 2] have fr2: "frame c [] c2" "me c2 = me c1" "disk c2 = disk c1" by auto
  then have wf2: "core_wf c2" by (simp add: frame_def)
  note C = node_crash_Done [OF wf2 3]
  have m2: "net_moves {} c c2" using frame_moves [OF fr2(1) wf(2)] by (simp add: sends_def)
  have m3: "net_moves {} c2 c3" by (rule moved_moves [OF C(3) net_movesD(2) [OF m2]])
  have "disk_keeps (disk c3) D (written h)" using failed_as_keeps [OF f] C(2) fr2(3) by simp
  note S = self_crash_Done [OF 4 net_movesD [OF m3] this]
  have run1: "running (me c1)" "node_id (me c1) = node_id k" "peers (me c1) = peers k"
    using fr k(1,3) by (simp_all add: frame_def core_eq_iff)
  have "core (me c') = core (reset_memory ((me c2)\<lparr>running := False\<rparr>))"
    using S(2) C(1) run1(1) fr2(2) by simp
  also have "\<dots> = core (down k)"
    using run1 k(3) fr2(2) by (simp add: down_def core_eq_iff reset_memory_def)
  finally have "core (me c') = core (down k)" .
  with S(3) net_moves_trans [OF net_moves_trans [OF m2 m3] S(1)] show ?thesis by blast
next
  case Diverges
  with run show ?thesis by (simp add: guard_def)
qed

section \<open>Every event of a node\<close>

text \<open>What a run is a simulation of: some steps of the cluster from a reachable state.\<close>

abbreviation steps :: "string \<Rightarrow> cluster \<Rightarrow> cluster \<Rightarrow> bool" where
  "steps mode \<equiv> (cstep NODE_IDS (mutated mode))\<^sup>*\<^sup>*"

lemma NODE_IDS_ok: "ids_ok NODE_IDS"
  by (simp add: ids_ok_def NODE_IDS_def NO_VOTE_def)

lemma mutated_ok: "mut_ok (mutated mode)"
  by (auto simp: mut_ok_def mutated_def split: message.split)

lemma node_facts:
  assumes "reachable NODE_IDS (mutated mode) s" and "represents w s" and "map_of (w_nodes w) n = Some (m, d)"
  shows "n \<in> set NODE_IDS" "core m = core (node_at s n)" "node_id m = n" "running m = running (node_at s n)"
    "role m = role (node_at s n)" "disk_keeps d (wal s n) (unsynced s n)"
    "running m \<Longrightarrow> log_wf (rlog (node_at s n)) \<and> voter_ok (node_at s n) \<and> disk_wal d (wal s n) []"
proof -
  have r: "n \<in> set NODE_IDS" "node_rep m d s n" using representsD(5) [OF assms(2,3)] by blast+
  have "cluster_inv NODE_IDS s" by (rule reachable_inv [OF assms(1) NODE_IDS_ok mutated_ok])
  then have f: "node_fine NODE_IDS s n" using r(1) by (simp add: cluster_inv_def)
  show "n \<in> set NODE_IDS" by (rule r(1))
  show c: "core m = core (node_at s n)" using r(2) by (simp add: node_rep_def)
  then show "node_id m = n" "running m = running (node_at s n)" "role m = role (node_at s n)"
    using f by (simp_all add: core_eq_iff node_fine_def Let_def)
  then show "running m \<Longrightarrow> log_wf (rlog (node_at s n)) \<and> voter_ok (node_at s n) \<and> disk_wal d (wal s n) []"
    using f r(2) by (simp add: node_fine_def Let_def node_rep_def)
  show "disk_keeps d (wal s n) (unsynced s n)"
    using f r(2) \<open>running m = running (node_at s n)\<close>
    by (auto simp: node_fine_def Let_def node_rep_def intro: disk_wal_keeps split: if_splits)
qed

lemma guarded_step:
  assumes reach: "reachable NODE_IDS (mutated mode) s" and rep: "represents w s"
    and node: "map_of (w_nodes w) n = Some (m, d)"
    and c: "core (me c) = core m" "disk c = d" "net_moves {} (node_view m d w) c"
    and up: "running m" and due: "due (mutated mode) s n x"
    and h: "\<And>k. voter_ok k \<Longrightarrow> (\<And>frm msg. x = Receives frm msg \<Longrightarrow> msg_ok msg) \<Longrightarrow>
      (x = HeartbeatTimer \<Longrightarrow> role k = LEADER) \<Longrightarrow> handles c (wal s n) k action (handle x k)"
    and run: "guard (Some on_self_crash) action c = Done y c'"
  shows "\<exists>s'. steps mode s s' \<and> represents (node_back n c' w) s'"
proof -
  let ?k = "node_at s n"
  let ?h = "handle x ?k"
  note F = node_facts [OF reach rep node]
  have inv: "cluster_inv NODE_IDS s" by (rule reachable_inv [OF reach NODE_IDS_ok mutated_ok])
  have k: "log_wf (rlog ?k)" "voter_ok ?k" "disk_wal d (wal s n) []" "running ?k" "node_id ?k = n" "unsynced s n = []"
    using F up inv by (auto simp: core_eq_iff cluster_inv_def node_fine_def Let_def)
  have msg: "msg_ok msg" if "x = Receives frm msg" for frm msg
    using due_fine [of NODE_IDS s "mutated mode" n frm msg] due that inv msg_fine_ok [OF NODE_IDS_ok] mutated_ok
    by (auto simp: cluster_inv_def)
  have lead: "role ?k = LEADER" if "x = HeartbeatTimer" using due that by simp
  have ck: "core (me c) = core ?k" using c(1) F(2) by simp
  have "handles c (wal s n) ?k action ?h" by (rule h [OF k(2)]) (use msg lead in blast)+
  from guard_Done [OF net_movesD [OF c(3)] ck k(1,4) _ this run] k(3) c(2)
  consider (completed) "core (me c') = core (new_state ?h)" "log_wf (rlog (new_state ?h))"
      "disk_wal (disk c') (wal s n @ written ?h) []" "net_moves (sends n (sent_by ?h)) c c'"
    | (failed) "core (me c') = core (down ?k)" "disk_keeps (disk c') (wal s n) (written ?h)" "net_moves {} c c'"
    by (auto simp: k(5))
  then show ?thesis
  proof cases
    case completed
    have "running (new_state ?h)" using handle_ids [of x ?k] k(4) by simp
    then have "running (me c')" using completed(1) by (simp add: core_eq_iff)
    then have "node_rep (me c') (disk c') (complete n ?h s) n"
      using completed(1,3) by (simp add: node_rep_def complete_def)
    moreover have "net_moves (sends n (sent_by ?h)) (node_view m d w) c'"
      by (rule net_moves_trans [OF net_moves_mono [OF c(3)] completed(4)]) simp
    ultimately have "represents (node_back n c' w) (complete n ?h s)"
      by (intro represents_node [OF rep F(1)]) (auto simp: complete_def)
    moreover have "cstep NODE_IDS (mutated mode) s (complete n ?h s)"
      by (rule cstep.completes [OF F(1) k(4) due completed(2)])
    ultimately show ?thesis by blast
  next
    case failed
    have "\<not> running (me c')" using failed(1) k(4) by (simp add: core_eq_iff)
    then have "node_rep (me c') (disk c') (fail n ?h s) n"
      using failed(1,2) by (simp add: node_rep_def fail_def)
    moreover have "net_moves {} (node_view m d w) c'" by (rule net_moves_trans [OF c(3) failed(3)])
    ultimately have "represents (node_back n c' w) (fail n ?h s)"
      by (intro represents_node [OF rep F(1)]) (auto simp: fail_def)
    moreover have "cstep NODE_IDS (mutated mode) s (fail n ?h s)"
      by (rule cstep.fails [OF F(1) k(4) due])
    ultimately show ?thesis by blast
  qed
qed

text \<open>An event that finds the node in no state to handle it changes nothing the relation sees.\<close>

lemma idle_step:
  assumes "represents w s" and "map_of (w_nodes w) n = Some (m, d)"
    and "core (me c) = core m" "disk c = d" "net_moves {} (node_view m d w) c"
  shows "represents (node_back n c w) s"
proof -
  have "node_rep m d s n" "n \<in> set NODE_IDS" using representsD(5) [OF assms(1,2)] by blast+
  moreover from this assms(3,4) have "node_rep (me c) (disk c) s n"
    by (simp add: node_rep_def core_eq_iff)
  ultimately show ?thesis by (intro represents_node [OF assms(1) _ assms(5)]) auto
qed

lemma receive_step:
  assumes reach: "reachable NODE_IDS (mutated mode) s" and rep: "represents w s" and mode: "w_mutate w = mode"
    and sent: "(frm, n, msg) \<in> sent s \<union> client_msgs" and run: "receive n frm msg w = Done x w'"
  shows "\<exists>s'. steps mode s s' \<and> represents w' s'"
proof -
  let ?s = "if (frm, n, msg) \<in> sent s then s else s\<lparr>sent := insert (frm, n, msg) (sent s)\<rparr>"
  have s: "(cstep NODE_IDS (mutated mode))\<^sup>*\<^sup>* s ?s"
  proof (cases "(frm, n, msg) \<in> sent s")
    case False
    with sent obtain r where "frm = CLIENT_ID" "msg = MClientRequest r" by (auto simp: client_msgs_def)
    moreover have "CLIENT_ID \<notin> set NODE_IDS" by (simp add: CLIENT_ID_def NODE_IDS_def)
    ultimately have "cstep NODE_IDS (mutated mode) s (s\<lparr>sent := insert (frm, n, msg) (sent s)\<rparr>)"
      using cstep.requests [of frm NODE_IDS "mutated mode" s n r] by (simp add: request_def)
    with False show ?thesis by simp
  qed simp
  have reach1: "reachable NODE_IDS (mutated mode) ?s" by (rule reachable_steps [OF s reach])
  have rep1: "represents w ?s" using rep by (auto simp: represents_def node_rep_def)
  from run obtain m d c' where node: "map_of (w_nodes w) n = Some (m, d)"
    and h: "node_on_message (Some on_self_crash) frm (mutated mode msg) (node_view m d w) = Done x c'"
    and w': "w' = node_back n c' w"
    by (auto simp: receive_def mode elim!: on_node_Done)
  let ?v = "node_view m d w"
  have v: "core_wf ?v" "arrive_action ?v = Arrive" using representsD(1,2) [OF rep] by (simp_all add: node_view_fields)
  show ?thesis
  proof (cases "running m")
    case False
    with h have "c' = ?v" by (simp add: node_on_message_def node_view_fields)
    with idle_step [OF rep node, of ?v] net_moves_refl [OF v] rep s show ?thesis
      by (auto simp: w' node_view_fields)
  next
    case True
    with h obtain r c where rec: "node_record ''raft.recv'' r ?v = Done () c"
      and g: "guard (Some on_self_crash) (dispatch frm (mutated mode msg)) c = Done x c'"
      by (auto simp: node_on_message_def node_view_fields)
    have "me c = m" "disk c = d" "net_moves {} ?v c"
      using rec v by (auto simp: node_record_def trace_write_Done node_view_fields net_moves_def in_flight_def)
    moreover have "due (mutated mode) ?s n (Receives frm (mutated mode msg))" by auto
    ultimately have "\<exists>s'. steps mode ?s s' \<and> represents (node_back n c' w) s'"
      by (intro guarded_step [OF reach1 rep1 node _ _ _ True _ _ g, where x = "Receives frm (mutated mode msg)"])
        (auto intro: handles_dispatch)
    with s show ?thesis unfolding w' by (meson rtranclp_trans)
  qed
qed

lemma timer_step:
  assumes reach: "reachable NODE_IDS (mutated mode) s" and rep: "represents w s"
    and run: "on_node n (block [upd f, whenever (\<lambda>c. running (me c) \<and> ok (me c)) (guard (Some on_self_crash) action)]) w = Done y w'"
    and f: "\<And>m. core (f m) = core m" and ok: "\<And>m m'. core m' = core m \<Longrightarrow> ok m' = ok m"
    and due: "\<And>m. ok m \<Longrightarrow> core m = core (node_at s n) \<Longrightarrow> due (mutated mode) s n x"
    and h: "\<And>c k. voter_ok k \<Longrightarrow> (\<And>frm msg. x = Receives frm msg \<Longrightarrow> msg_ok msg) \<Longrightarrow>
      (x = HeartbeatTimer \<Longrightarrow> role k = LEADER) \<Longrightarrow> handles c (wal s n) k action (handle x k)"
  shows "\<exists>s'. steps mode s s' \<and> represents w' s'"
proof -
  from run obtain m d c' where node: "map_of (w_nodes w) n = Some (m, d)" and w': "w' = node_back n c' w"
    and r: "block [upd f, whenever (\<lambda>c. running (me c) \<and> ok (me c)) (guard (Some on_self_crash) action)] (node_view m d w) = Done y c'"
    by (elim on_node_Done)
  let ?v = "node_view m d w"
  let ?c = "?v\<lparr>me := f m\<rparr>"
  have v: "core_wf ?v" "arrive_action ?v = Arrive" using representsD(1,2) [OF rep] by (simp_all add: node_view_fields)
  then have c: "core (me ?c) = core m" "disk ?c = d" "net_moves {} ?v ?c"
    by (simp_all add: f node_view_fields net_moves_def in_flight_def core_wf_def)
  have r2: "whenever (\<lambda>c. running (me c) \<and> ok (me c)) (guard (Some on_self_crash) action) ?c = Done () c'"
    using r by (simp add: upd_def node_view_fields)
  show ?thesis
  proof (cases "running (f m) \<and> ok (f m)")
    case False
    with r2 have "c' = ?c" by auto
    with idle_step [OF rep node c] show ?thesis by (auto simp: w')
  next
    case True
    with r2 have g: "guard (Some on_self_crash) action ?c = Done () c'" by auto
    have "running m" "ok m" using True f [of m] ok [OF f [of m]] by (simp_all add: core_eq_iff)
    with due node_facts(2) [OF reach rep node] have "due (mutated mode) s n x" by blast
    with guarded_step [OF reach rep node c \<open>running m\<close> _ h g] show ?thesis by (simp add: w')
  qed
qed

lemma election_step:
  assumes "reachable NODE_IDS (mutated mode) s" and "represents w s"
    and "on_node n (fire_election_timeout (Some on_self_crash)) w = Done y w'"
  shows "\<exists>s'. steps mode s s' \<and> represents w' s'"
  by (rule timer_step [OF assms(1,2), of n "\<lambda>m. m\<lparr>election_timer := None\<rparr>" "\<lambda>_. True" on_election_timeout y w' ElectionTimer])
    (use assms(3) in \<open>auto simp: fire_election_timeout_def core_eq_iff voter_ok_def intro: handles_election_timeout\<close>)

lemma heartbeat_step:
  assumes "reachable NODE_IDS (mutated mode) s" and "represents w s"
    and "on_node n (fire_heartbeat (Some on_self_crash)) w = Done y w'"
  shows "\<exists>s'. steps mode s s' \<and> represents w' s'"
  by (rule timer_step [OF assms(1,2), of n "\<lambda>m. m\<lparr>heartbeat_timer := None\<rparr>" "\<lambda>m. role m = LEADER" send_heartbeats y w' HeartbeatTimer])
    (use assms(3) in \<open>auto simp: fire_heartbeat_def core_eq_iff intro: handles_heartbeats\<close>)

lemma crash_step:
  assumes reach: "reachable NODE_IDS (mutated mode) s" and rep: "represents w s"
    and run: "on_node n sim_node_crash w = Done x w'"
  shows "\<exists>s'. steps mode s s' \<and> represents w' s'"
proof -
  from run obtain m d c' where node: "map_of (w_nodes w) n = Some (m, d)" and w': "w' = node_back n c' w"
    and h: "sim_node_crash (node_view m d w) = Done x c'" by (elim on_node_Done)
  let ?v = "node_view m d w"
  note F = node_facts [OF reach rep node]
  have v: "core_wf ?v" "arrive_action ?v = Arrive" "disk_keeps (disk ?v) (wal s n) (unsynced s n)"
    using representsD(1,2) [OF rep] F(6) by (simp_all add: node_view_fields)
  note C = sim_node_crash_Done [OF v(1,3) h, folded down_def]
  have "core (me c') = core (down (node_at s n))"
    using C(1) F(2,4) by (auto simp: node_view_fields down_def core_eq_iff reset_memory_def split: if_splits)
  moreover have "\<not> running (down k)" for k by (simp add: down_def reset_memory_def)
  ultimately have "node_rep (me c') (disk c') (crash n s) n"
    using C(2) by (simp add: node_rep_def crash_def core_eq_iff)
  then have "represents (node_back n c' w) (crash n s)"
    using moved_moves [OF C(3) v(2)] by (intro represents_node [OF rep F(1)]) (auto simp: crash_def)
  with cstep.crashes [OF F(1)] show ?thesis unfolding w' by blast
qed

lemma restart_step:
  assumes reach: "reachable NODE_IDS (mutated mode) s" and rep: "represents w s"
    and run: "on_node n sim_node_restart w = Done x w'"
  shows "\<exists>s'. steps mode s s' \<and> represents w' s'"
proof -
  from run obtain m d c' where node: "map_of (w_nodes w) n = Some (m, d)" and w': "w' = node_back n c' w"
    and h: "sim_node_restart (node_view m d w) = Done x c'" by (elim on_node_Done)
  let ?v = "node_view m d w"
  note F = node_facts [OF reach rep node]
  have v: "core_wf ?v" "arrive_action ?v = Arrive" "disk_keeps (disk ?v) (wal s n) (unsynced s n)"
    using representsD(1,2) [OF rep] F(6) by (simp_all add: node_view_fields)
  from sim_node_restart_Done [OF v(1,3) h] obtain i where
    R: "core (me c') = core (recovered_node (platter s n i) (me ?v))" "log_wf (rlog (me c'))"
      "disk_wal (disk c') (wal s n @ take i (unsynced s n)) []" "moved ?v c'"
    unfolding platter_def by blast
  have "core (me c') = core (recovered_node (platter s n i) (node_at s n))"
    using R(1) F(2) by (simp add: node_view_fields core_eq_iff recovered_node_def)
  then have "node_rep (me c') (disk c') (restart n i s) n"
    using R(3) by (auto simp: node_rep_def restart_def Let_def core_eq_iff)
  then have "represents (node_back n c' w) (restart n i s)"
    using moved_moves [OF R(4) v(2)] by (intro represents_node [OF rep F(1)]) (auto simp: restart_def Let_def)
  moreover have "log_wf (rec_entries (platter s n i))" using R(1,2) by (simp add: core_eq_iff)
  ultimately show ?thesis using cstep.restarts [OF F(1)] unfolding w' by blast
qed

lemma start_step:
  assumes rep: "represents w s" and run: "on_node n node_start w = Done x w'"
  shows "represents w' s"
proof -
  from run obtain m d c' where node: "map_of (w_nodes w) n = Some (m, d)" and w': "w' = node_back n c' w"
    and h: "node_start (node_view m d w) = Done x c'" by (elim on_node_Done)
  let ?v = "node_view m d w"
  have v: "core_wf ?v" "arrive_action ?v = Arrive" using representsD(1,2) [OF rep] by (simp_all add: node_view_fields)
  from h obtain c1 d' r c2 t where 1: "cancel_election_timer ?v = Done () c1"
    and 2: "clock_after d' (Callback (ElectionTimeout (node_id (me c1)))) ''raft.election_timeout''
        (Some (node_id (me c1))) (c1\<lparr>rng := r\<rparr>) = Done t c2"
    and c': "c' = c2\<lparr>me := (me c2)\<lparr>election_timer := Some t\<rparr>\<rparr>"
    by (auto simp: node_start_def arm_election_timer_def with_rng_Done upd_def)
  note C1 = cancel_election_frame [OF frame_refl [OF v(1)] 1]
  have f2: "frame ?v [] (c1\<lparr>rng := r\<rparr>)" using C1 by (auto simp: frame_def core_wf_def queued_def)
  have C2: "frame ?v [] c2" "me c2 = me c1" "disk c2 = disk c1" using after_frame [OF f2 2] by (simp_all add: timer_of_def)
  then have "frame ?v [] c'" by (simp add: c')
  from frame_moves [OF this v(2)] have "net_moves {} ?v c'" by (simp add: sends_def)
  with idle_step [OF rep node, of c'] C1 C2 show ?thesis by (simp add: w' c' core_eq_iff node_view_fields)
qed

section \<open>Every event of the world\<close>

definition watch :: "raft_world \<Rightarrow> string \<times> invariants" where
  "watch w = (w_mutate w, w_invariants w)"

lemma watch_fields: "watch w' = watch w \<longleftrightarrow> w_mutate w' = w_mutate w \<and> w_invariants w' = w_invariants w"
  by (simp add: watch_def)

text \<open>\<open>simulated mode m\<close>: whatever \<open>m\<close> does to a represented world the cluster can do, and the checkers are
  left alone.\<close>

definition simulated :: "string \<Rightarrow> ('x, raft_world) py \<Rightarrow> bool" where
  "simulated mode m \<longleftrightarrow> keeps watch m \<and>
     (\<forall>w s x w'. reachable NODE_IDS (mutated mode) s \<longrightarrow> represents w s \<longrightarrow> w_mutate w = mode \<longrightarrow> m w = Done x w' \<longrightarrow>
       (\<exists>s'. steps mode s s' \<and> represents w' s'))"

named_theorems simulated_rules

lemma simulatedI:
  assumes "keeps watch m"
    and "\<And>w s x w'. reachable NODE_IDS (mutated mode) s \<Longrightarrow> represents w s \<Longrightarrow> w_mutate w = mode \<Longrightarrow> m w = Done x w' \<Longrightarrow>
      \<exists>s'. steps mode s s' \<and> represents w' s'"
  shows "simulated mode m"
  using assms unfolding simulated_def by blast

lemma simulatedD:
  assumes "simulated mode m" and "reachable NODE_IDS (mutated mode) s" and "represents w s" and "w_mutate w = mode"
    and "m w = Done x w'"
  obtains s' where "steps mode s s'" "represents w' s'" "w_mutate w' = mode" "w_invariants w' = w_invariants w"
    "reachable NODE_IDS (mutated mode) s'"
proof -
  from assms obtain s' where s': "steps mode s s'" "represents w' s'" unfolding simulated_def by blast
  have "watch w' = watch w" by (rule keeps_Done [of _ m]) (use assms in \<open>simp_all add: simulated_def\<close>)
  with that [OF s'] reachable_steps [OF s'(1) assms(2)] assms(4) show thesis by (simp add: watch_fields)
qed

lemma simulated_keeps: "simulated mode m \<Longrightarrow> keeps watch m"
  by (simp add: simulated_def)

lemma simulated_bind [simulated_rules]:
  assumes "simulated mode m" and "\<And>x. simulated mode (g x)"
  shows "simulated mode (bind m g)"
proof (rule simulatedI)
  show "keeps watch (bind m g)" by (intro keeps_bind assms [THEN simulated_keeps])
  fix w s y w'
  assume a: "reachable NODE_IDS (mutated mode) s" "represents w s" "w_mutate w = mode" and "bind m g w = Done y w'"
  then obtain x w1 where 1: "m w = Done x w1" and 2: "g x w1 = Done y w'" by auto
  from simulatedD [OF assms(1) a 1] obtain s1 where s1: "steps mode s s1" "represents w1 s1" "w_mutate w1 = mode"
    "reachable NODE_IDS (mutated mode) s1" by metis
  from simulatedD [OF assms(2) s1(4,2,3) 2] obtain s2 where "steps mode s1 s2" "represents w' s2" by metis
  with s1(1) show "\<exists>s'. steps mode s s' \<and> represents w' s'" by (blast intro: rtranclp_trans)
qed

lemma simulated_aside: "aside m \<Longrightarrow> simulated mode m"
  by (rule simulatedI) (erule keeps_via [OF asideD(2)], simp add: apart_fields watch_fields, blast intro: represents_aside)

lemma simulated_Nil [simulated_rules]: "simulated mode (block [])"
  by (intro simulated_aside aside_rules)

lemma simulated_Cons [simulated_rules]: "simulated mode m \<Longrightarrow> simulated mode (block ms) \<Longrightarrow> simulated mode (block (m # ms))"
proof -
  assume m: "simulated mode m" "simulated mode (block ms)"
  have "block (m # ms) = bind m (\<lambda>_. block ms)"
    by (rule ext) (simp add: block.simps bind_def split: outcome.split)
  with simulated_bind [OF m(1), of "\<lambda>_. block ms"] m(2) show "simulated mode (block (m # ms))" by simp
qed

lemma simulated_if [simulated_rules]: "simulated mode m \<Longrightarrow> simulated mode n \<Longrightarrow> simulated mode (if b then m else n)"
  by simp

lemma simulated_for_each: "(\<And>x. simulated mode (g x)) \<Longrightarrow> simulated mode (for_each xs g)"
  unfolding for_each_def by (induction xs) (simp_all add: simulated_rules)

lemma keeps_on_node: "keeps watch (on_node n h)"
  by (rule keepsI)
    (auto simp: on_node_def on_part_def watch_fields node_back_fields split: option.splits outcome.splits)

lemma simulated_node [simulated_rules]:
  "simulated mode (on_node n (fire_election_timeout (Some on_self_crash)))"
  "simulated mode (on_node n (fire_heartbeat (Some on_self_crash)))"
  "simulated mode (on_node n sim_node_crash)" "simulated mode (on_node n sim_node_restart)"
  "simulated mode (on_node n node_start)"
  by (rule simulatedI [OF keeps_on_node], blast intro: election_step heartbeat_step crash_step restart_step start_step)+

lemma simulated_aside_rules [simulated_rules]:
  "simulated mode (net_set_state n st)" "simulated mode (ret x)" "simulated mode (note_fired what)"
  "simulated mode client_issue" "simulated mode client_send" "simulated mode client_on_timeout"
  "simulated mode (start_partition e)" "simulated mode heal_partition"
  by (intro simulated_aside aside_rules aside_note_fired aside_client_issue aside_client_send aside_client_timeout
      aside_partition)+

lemma simulated_state [simulated_rules]: "simulated mode (net_state n)"
proof -
  have "aside (net_state n)"
    by (rule asideI) (auto simp: moving_def net_state_def keeps_def net_moves_refl split: option.splits)
  then show ?thesis by (rule simulated_aside)
qed

lemma simulated_call_back: "simulated mode (call_back cb)"
proof (cases cb)
  case (Revive n)
  then show ?thesis by (simp add: revive_def) (intro simulated_rules)
qed (auto intro: simulated_rules)

text \<open>An arrival is the one event that needs to know where the message comes from.\<close>

lemma simulated_outage [simulated_rules]:
  "simulated mode (begin_outage (\<lambda>n. on_node n sim_node_crash) e)"
  "simulated mode (end_outage (\<lambda>n. on_node n sim_node_restart) e)"
  unfolding begin_outage_def end_outage_def by (intro simulated_rules)+

lemma aside_record [simulated_rules]: "aside (net_record_msg k f t m)"
  by (rule asideI) (auto intro: moving_rules keeps_more keeps_net)

lemma aside_drop_arrived: "aside (net_drop_arrived f t m)"
  unfolding net_drop_arrived_def by (intro aside_rules aside_record aside_modify) (simp add: apart_fields)

lemma keeps_more_watch: "keeps netsim.more m \<Longrightarrow> keeps watch (m :: ('x, raft_world) py)"
  by (erule keeps_via) (simp add: watch_fields apart_fields [symmetric], drule apart_more, simp add: apart_fields)

lemma keeps_deliver: "keeps watch (deliver h f m)"
proof (cases h)
  case ToClient
  then show ?thesis using simulated_keeps [OF simulated_aside [OF aside_deliver_client]] by simp
next
  case (ToNode n)
  have "keeps watch (receive n f m)"
    unfolding receive_def [abs_def]
    by (rule keeps_state [where m = "\<lambda>w. on_node n (node_on_message (Some on_self_crash) f (mutated (w_mutate w) m))"])
      (rule keeps_on_node)
  with ToNode show ?thesis by simp
qed

lemma keeps_hold: "keeps netsim.more (block [modify (\<lambda>c. c\<lparr>held := h c\<rparr>), net_record_msg k f t m])"
  by (intro keeps_rules) simp

lemma keeps_arrive: "keeps watch (net_arrive deliver f t m)"
proof (rule keeps_point)
  fix w :: raft_world
  let ?h = "\<lambda>ms. block [modify (\<lambda>c. c\<lparr>held := (held c)(t := Some (ms @ [(f, m)]))\<rparr>), net_record_msg ''net.hold'' f t m] :: raft_world stmt"
  let ?d = "\<lambda>h. block [modify (\<lambda>c. c\<lparr>delivered := delivered c + 1\<rparr>), deliver h f m] :: raft_world stmt"
  have d: "keeps watch (?d h)" for h
    by (intro keeps_block keeps_modify keeps_deliver) (simp add: watch_def)
  have e: "keeps watch (block [modify (\<lambda>c. c\<lparr>delivered := delivered c + 1\<rparr>), raise KeyError] :: raft_world stmt)"
    by (intro keeps_block keeps_modify keeps_basic) (simp add: watch_def)
  have x: "keeps watch (net_drop_arrived f t m)" by (rule simulated_keeps [OF simulated_aside [OF aside_drop_arrived]])
  have h: "keeps watch (?h ms)" for ms by (rule keeps_more_watch [OF keeps_hold])
  let ?n = "if case netsim.partition w of None \<Rightarrow> False | Some p \<Rightarrow> blocks p f t then net_drop_arrived f t m
    else case status w t of None \<Rightarrow> raise KeyError | Some CRASHED \<Rightarrow> net_drop_arrived f t m
      | Some HUNG \<Rightarrow> (case held w t of None \<Rightarrow> raise KeyError | Some ms \<Rightarrow> ?h ms)
      | Some RUNNING \<Rightarrow> (case map_of (inboxes w) t of
            None \<Rightarrow> block [modify (\<lambda>c. c\<lparr>delivered := delivered c + 1\<rparr>), raise KeyError] | Some h \<Rightarrow> ?d h)"
  have "net_arrive deliver f t m w = ?n w"
    by (simp add: net_arrive_def raise_def block.simps modify_def split: option.split node_status.split)
  moreover have "keeps watch ?n"
    using d e x h keeps_basic(2) by (auto split: option.split node_status.split)
  ultimately show "\<exists>n. keeps watch n \<and> net_arrive deliver f t m w = n w" by blast
qed

lemma arrive_step:
  assumes reach: "reachable NODE_IDS (mutated mode) s" and rep: "represents w s" and mode: "w_mutate w = mode"
    and sent: "(f, t, m) \<in> sent s \<union> client_msgs" and run: "net_arrive deliver f t m w = Done x w'"
  shows "\<exists>s'. steps mode s s' \<and> represents w' s'"
proof -
  have wf: "core_wf w" "arrive_action w = Arrive" using representsD(1,2) [OF rep] .
  consider (dropped) "net_drop_arrived f t m w = Done x w'"
    | (held) ms where "held w t = Some ms"
        "net_record_msg ''net.hold'' f t m (w\<lparr>held := (held w)(t := Some (ms @ [(f, m)]))\<rparr>) = Done x w'"
    | (delivered) h where "map_of (inboxes w) t = Some h" "deliver h f m (w\<lparr>delivered := delivered w + 1\<rparr>) = Done x w'"
    using run by (auto simp: net_arrive_def split: if_splits option.splits node_status.splits)
  then show ?thesis
  proof cases
    case dropped
    from represents_aside [OF rep aside_drop_arrived this] show ?thesis by blast
  next
    case held
    have "net_moves {(f, t, m)} w w'"
      using held wf by (auto simp: net_record_dones net_moves_def in_flight_def core_wf_def split: if_splits)
    moreover have "apart w' = apart w" using held(2) by (simp add: net_record_dones apart_def)
    ultimately have "represents w' s" using represents_moves [OF rep] sent by blast
    then show ?thesis by blast
  next
    case delivered
    let ?w = "w\<lparr>delivered := delivered w + 1\<rparr>"
    have "net_moves {} w ?w" using wf by (simp add: net_moves_def in_flight_def core_wf_def)
    then have rep1: "represents ?w s" using represents_moves [OF rep] by (simp add: apart_def)
    from representsD(4) [OF rep delivered(1)] show ?thesis
    proof
      assume "h = ToClient"
      then show ?thesis using delivered(2) represents_aside [OF rep1 aside_deliver_client] by auto
    next
      assume "h = ToNode t"
      then show ?thesis using receive_step [OF reach rep1 _ sent] delivered(2) mode by simp
    qed
  qed
qed

theorem world_act_step:
  assumes "reachable NODE_IDS (mutated mode) s" and "represents w s" and "w_mutate w = mode"
    and "\<And>f t m. a = Arrive f t m \<Longrightarrow> (f, t, m) \<in> sent s \<union> client_msgs" and "world_act a w = Done x w'"
  shows "\<exists>s'. steps mode s s' \<and> represents w' s'"
proof (cases a)
  case (Arrive f t m)
  with assms show ?thesis by (intro arrive_step [OF assms(1-3)]) auto
next
  case (Callback cb)
  with simulatedD [OF simulated_call_back assms(1-3)] assms(5) show ?thesis by (metis world_act.simps(6))
qed (use simulatedD [OF _ assms(1-3)] assms(5) simulated_outage simulated_aside_rules in \<open>metis world_act.simps\<close>)+

lemma keeps_world_act: "keeps watch (world_act a)"
  by (cases a) (auto simp: keeps_arrive intro: simulated_keeps simulated_call_back simulated_rules)

end
