(* ===== verification/World_Runs.thy ===== *)
theory World_Runs
  imports World_Refines
begin

text \<open>
  What holds of every reachable cluster holds of every world a run passes through, and so of what the
  invariant checkers report. \<open>observer\<close> is the interface: what a checker remembers of the states it saw,
  as a property \<open>ok\<close> that the cluster's steps and every look at it keep; inside it, the verdict of a
  whole run is shown \<open>fine\<close>. The election-safety checker is one instance: no run ever
  reports two leaders in a term, whatever the faults, the seed and the mutation.
\<close>

declare block.simps [simp del]

section \<open>Watching a run\<close>

definition views :: "cluster \<Rightarrow> cluster_view \<Rightarrow> bool" where
  "views s v \<longleftrightarrow> map fst (view_nodes v) = NODE_IDS \<and> (\<forall>(n, k) \<in> set (view_nodes v). core k = core (node_at s n))"

definition follows :: "string \<Rightarrow> (invariants \<Rightarrow> cluster \<Rightarrow> bool) \<Rightarrow> raft_world \<Rightarrow> bool" where
  "follows mode ok w \<longleftrightarrow> w_mutate w = mode
     \<and> (\<exists>s. reachable NODE_IDS (mutated mode) s \<and> represents w s \<and> ok (w_invariants w) s)"

definition about_to :: "string \<Rightarrow> (invariants \<Rightarrow> cluster \<Rightarrow> bool) \<Rightarrow> (raft_action, described) event \<Rightarrow> raft_world \<Rightarrow> bool" where
  "about_to mode ok e w \<longleftrightarrow> w_mutate w = mode
     \<and> (\<exists>s. reachable NODE_IDS (mutated mode) s \<and> represents w s \<and> ok (w_invariants w) s
          \<and> (\<forall>f t m. ev_action e = Arrive f t m \<longrightarrow> (f, t, m) \<in> sent s \<union> client_msgs))"

lemma represents_queue:
  assumes "represents w s" and "core_wf w'" and "set (live (queue w')) \<subseteq> set (live (queue w))"
    and "w' = w\<lparr>queue := queue w', now := now w', events_run := events_run w', trace := trace w'\<rparr>"
  shows "represents w' s"
proof -
  have f: "arrive_action w' = arrive_action w" "inboxes w' = inboxes w" "held w' = held w" "w_nodes w' = w_nodes w"
    by (subst assms(4), simp)+
  have "in_flight w' \<subseteq> in_flight w" using assms(3) by (auto simp: in_flight_def f(3))
  with assms(1,2) f show ?thesis by (auto simp: represents_def)
qed

lemma nodes_of_Done:
  "nodes_of ns w = Done ms w' \<Longrightarrow> w' = w \<and> length ms = length ns
     \<and> (\<forall>(n, m) \<in> set (zip ns ms). \<exists>d. map_of (w_nodes w) n = Some (m, d))"
  by (induction ns arbitrary: ms w') (auto simp: the_node_def split: option.splits)

lemma nodes_of_Raised: "nodes_of ns w = Raised e w' \<Longrightarrow> w' = w"
  by (induction ns arbitrary: w')
    (auto simp: the_node_def bind_def ret_def split: option.splits outcome.splits dest: nodes_of_Done)

lemma represents_views:
  assumes "represents w s" and "nodes_of NODE_IDS w = Done ms w'"
  shows "views s \<lparr>view_tick = t, view_nodes = zip NODE_IDS ms, view_history = h\<rparr>"
proof -
  note N = nodes_of_Done [OF assms(2)]
  have "core m = core (node_at s n)" if "(n, m) \<in> set (zip NODE_IDS ms)" for n m
    using N that representsD(5) [OF assms(1)] by (fastforce simp: node_rep_def)
  with N show ?thesis by (auto simp: views_def)
qed

lemma aside_inject: "(\<And>f t m. action \<noteq> Arrive f t m) \<Longrightarrow> aside (inject_at tick kind action)"
proof (rule aside_point)
  fix w :: raft_world
  assume a: "\<And>f t m. action \<noteq> Arrive f t m"
  have "aside (bind (clock_after (max 0 (tick - now w)) action kind None) (\<lambda>_. ret ()))"
    by (intro aside_rules asideI moving_after keeps_apart) (simp add: a)
  moreover have "inject_at tick kind action w = bind (clock_after (max 0 (tick - now w)) action kind None) (\<lambda>_. ret ()) w"
    by (simp add: inject_at_def)
  ultimately show "\<exists>n. aside n \<and> inject_at tick kind action w = n w" by blast
qed

lemma simulated_start: "simulated mode raft_start"
proof -
  have "aside injector_arm"
  proof (rule aside_point)
    fix w :: raft_world
    let ?m = "block [for_each (fs_partitions (fault_plan w)) (\<lambda>split.
              block [inject_at (pe_at split) ''fault.partition'' (StartPartition split),
                     inject_at (pe_at split + pe_duration split) ''fault.heal'' HealPartition]),
            for_each (fs_outages (fault_plan w)) (\<lambda>outage.
              block [inject_at (oe_at outage) (''fault.'' @ oe_kind outage) (BeginOutage outage),
                     inject_at (oe_at outage + oe_duration outage) ''fault.recover'' (EndOutage outage)])] :: raft_world stmt"
    have "aside ?m" by (intro aside_rules aside_for_each aside_inject) simp_all
    moreover have "injector_arm w = ?m w" by (simp add: injector_arm_def)
    ultimately show "\<exists>n. aside n \<and> injector_arm w = n w" by blast
  qed
  then show ?thesis unfolding raft_start_def by (intro simulated_rules simulated_for_each simulated_aside)
qed

lemma all_running_Done: "all_running ns w = Done b w' \<Longrightarrow> w' = w"
  by (induction ns arbitrary: w w' b) (auto simp: net_state_def ret_def split: option.splits if_splits)

section \<open>What the observers of a run may rely on\<close>

locale observer =
  fixes mode :: string and ok :: "invariants \<Rightarrow> cluster \<Rightarrow> bool" and fine :: "invariants \<Rightarrow> bool"
  assumes later: "ok iv s \<Longrightarrow> cstep NODE_IDS (mutated mode) s s' \<Longrightarrow> ok iv s'"
    and looks: "reachable NODE_IDS (mutated mode) s \<Longrightarrow> ok iv s \<Longrightarrow> views s v \<Longrightarrow>
      (case invariants_observe v iv of Done x iv' \<Rightarrow> ok iv' s | Raised e iv' \<Rightarrow> fine iv' | Diverges \<Rightarrow> True)"
    and content: "ok iv s \<Longrightarrow> fine iv"
begin

lemma steps_later: "steps mode s s' \<Longrightarrow> ok iv s \<Longrightarrow> ok iv s'"
  by (induction rule: rtranclp_induct) (auto intro: later)

lemma follows_fine: "follows mode ok w \<Longrightarrow> fine (w_invariants w)"
  by (auto simp: follows_def content)

lemma follows_step:
  assumes "reachable NODE_IDS (mutated mode) s" and "ok (w_invariants w) s" and "w_mutate w = mode" and "watch w' = watch w"
    and "\<exists>s'. steps mode s s' \<and> represents w' s'"
  shows "follows mode ok w'"
  using assms steps_later reachable_steps unfolding follows_def watch_fields by metis

lemma simulated_valid:
  "simulated mode m \<Longrightarrow> valid (follows mode ok) m (\<lambda>_. follows mode ok) (\<lambda>_ w. fine (w_invariants w))"
proof (rule validI)
  fix w x w'
  assume m: "simulated mode m" and w: "follows mode ok w" and run: "m w = Done x w'"
  from w obtain s where s: "reachable NODE_IDS (mutated mode) s" "represents w s" "ok (w_invariants w) s" "w_mutate w = mode"
    by (auto simp: follows_def)
  from simulatedD [OF m s(1,2,4) run] obtain s' where "steps mode s s' \<and> represents w' s'" by metis
  with follows_step [OF s(1,3,4) keeps_Done [OF simulated_keeps [OF m] run]] show "follows mode ok w'" by blast
next
  fix w e w'
  assume m: "simulated mode m" and "follows mode ok w" and "m w = Raised e w'"
  then show "fine (w_invariants w')"
    using follows_fine [of w] keeps_Raised [OF simulated_keeps [OF m]] by (metis watch_fields)
qed

lemma act_valid:
  "valid (about_to mode ok e) (world_act (ev_action e)) (\<lambda>_. follows mode ok) (\<lambda>_ w. fine (w_invariants w))"
proof (rule validI)
  fix w x w'
  assume w: "about_to mode ok e w" and run: "world_act (ev_action e) w = Done x w'"
  from w obtain s where s: "reachable NODE_IDS (mutated mode) s" "represents w s" "ok (w_invariants w) s" "w_mutate w = mode"
    and a: "\<And>f t m. ev_action e = Arrive f t m \<Longrightarrow> (f, t, m) \<in> sent s \<union> client_msgs"
    by (auto simp: about_to_def)
  show "follows mode ok w'"
    by (rule follows_step [OF s(1,3,4) keeps_Done [OF keeps_world_act run] world_act_step [OF s(1,2,4) a run]])
next
  fix w x w'
  assume w: "about_to mode ok e w" and run: "world_act (ev_action e) w = Raised x w'"
  have "watch w' = watch w" by (rule keeps_Raised [OF keeps_world_act run])
  with w content show "fine (w_invariants w')" by (auto simp: about_to_def watch_fields)
qed

lemma check_valid: "valid (follows mode ok) (check_world t) (\<lambda>_. follows mode ok) (\<lambda>_ w. fine (w_invariants w))"
  unfolding check_world_def
proof (rule valid_bind)
  let ?v = "\<lambda>w ms. \<lparr>view_tick = t, view_nodes = zip NODE_IDS ms, view_history = w_history w\<rparr>"
  let ?P = "\<lambda>ms w. w_mutate w = mode \<and> (\<exists>s. reachable NODE_IDS (mutated mode) s \<and> represents w s \<and> ok (w_invariants w) s
      \<and> views s (?v w ms))"
  show "valid (follows mode ok) (nodes_of NODE_IDS) ?P (\<lambda>_ w. fine (w_invariants w))"
  proof (rule validI)
    show "?P ms w'" if "follows mode ok w" "nodes_of NODE_IDS w = Done ms w'" for w ms w'
      using that represents_views nodes_of_Done [OF that(2)] unfolding follows_def by blast
    show "fine (w_invariants w')" if "follows mode ok w" "nodes_of NODE_IDS w = Raised e w'" for w e w'
      using that follows_fine nodes_of_Raised by blast
  qed
  show "valid (?P ms) (\<lambda>w. on_part w_invariants (\<lambda>iv w. w\<lparr>w_invariants := iv\<rparr>) (invariants_observe (?v w ms)) w)
      (\<lambda>_. follows mode ok) (\<lambda>_ w. fine (w_invariants w))" for ms
    unfolding valid_def
  proof (intro allI impI)
    fix w
    assume w: "?P ms w"
    then obtain s where s: "reachable NODE_IDS (mutated mode) s" "represents w s" "ok (w_invariants w) s" "views s (?v w ms)"
      by blast
    have "represents (w\<lparr>w_invariants := iv\<rparr>) s" for iv
      using s(2) by (simp add: represents_def in_flight_def core_wf_def)
    with looks [OF s(1,3,4)] s(1) w
    show "case on_part w_invariants (\<lambda>iv w. w\<lparr>w_invariants := iv\<rparr>) (invariants_observe (?v w ms)) w of
        Done _ w' \<Rightarrow> follows mode ok w' | Raised _ w' \<Rightarrow> fine (w_invariants w') | Diverges \<Rightarrow> True"
      unfolding on_part_def follows_def by (auto split: outcome.splits)
  qed
qed

lemma loop_valid:
  "valid (follows mode ok) (sim_run world_act [check_world] show_exn ids max_ticks) (\<lambda>_. follows mode ok)
     (\<lambda>_ w. fine (w_invariants w))"
proof (rule valid_weaken [OF sim_run_valid [where J = "about_to mode ok" and I = "follows mode ok"
      and E = "\<lambda>_ w. fine (w_invariants w)"]])
  show "core_wf w" if "follows mode ok w" for w using that representsD(1) by (auto simp: follows_def)
  show "follows mode ok (w\<lparr>queue := q\<rparr>)" if "follows mode ok w" "peek_tick (queue w) = Done t q" for w t q
  proof -
    from that(1) obtain s where s: "reachable NODE_IDS (mutated mode) s" "represents w s" "ok (w_invariants w) s" "w_mutate w = mode"
      by (auto simp: follows_def)
    have "queue_wf (queue w)" using representsD(1) [OF s(2)] by (simp add: core_wf_def)
    from peek_tick_Done [OF this that(2)] representsD(1) [OF s(2)]
    have "represents (w\<lparr>queue := q\<rparr>) s" by (intro represents_queue [OF s(2)]) (auto simp: core_wf_def)
    with s show ?thesis by (auto simp: follows_def)
  qed
  show "about_to mode ok e (w\<lparr>queue := q, now := ev_tick e, events_run := events_run w + 1, trace := r\<rparr>)"
    if "follows mode ok w" "pop (queue w) = Done (Some e) q" "ev_tick e \<le> max_ticks" for w e q r
  proof -
    from that(1) obtain s where s: "reachable NODE_IDS (mutated mode) s" "represents w s" "ok (w_invariants w) s" "w_mutate w = mode"
      by (auto simp: follows_def)
    let ?w = "w\<lparr>queue := q, now := ev_tick e, events_run := events_run w + 1, trace := r\<rparr>"
    have wf: "core_wf w" by (rule representsD(1) [OF s(2)])
    then have wq: "queue_wf (queue w)" by (simp add: core_wf_def)
    note P = pop_Done [OF wq that(2)]
    have e: "e \<in> set (live (queue w))" "set (live q) \<subseteq> set (live (queue w))"
      using P by (auto split: option.splits list.splits)
    have "core_wf ?w"
      using wf P(1) sq.take_next_earliest [OF wq that(2)] e by (auto simp: core_wf_def)
    then have rep: "represents ?w s" by (rule represents_queue [OF s(2)]) (use e in simp_all)
    have "(f, t, m) \<in> sent s \<union> client_msgs" if "ev_action e = Arrive f t m" for f t m
      using representsD(3) [OF s(2)] e(1) that unfolding in_flight_def by blast
    with rep s show ?thesis by (auto simp: about_to_def)
  qed
  show "valid (about_to mode ok e) (world_act (ev_action e)) (\<lambda>_. follows mode ok) (\<lambda>_ w. fine (w_invariants w))" for e
    by (rule act_valid)
  show "valid (follows mode ok) (h t) (\<lambda>_. follows mode ok) (\<lambda>_ w. fine (w_invariants w))" if "h \<in> set [check_world]" for h t
    using that check_valid by simp
  show "follows mode ok (w\<lparr>trace := r\<rparr>)" if "follows mode ok w" for w r
  proof -
    from that obtain s where s: "reachable NODE_IDS (mutated mode) s" "represents w s" "ok (w_invariants w) s" "w_mutate w = mode"
      by (auto simp: follows_def)
    have "represents (w\<lparr>trace := r\<rparr>) s" 
      by (rule represents_queue [OF s(2)]) (use representsD(1) [OF s(2)] in \<open>simp_all add: core_wf_def\<close>)
    with s show ?thesis by (auto simp: follows_def)
  qed
qed simp_all

lemma verdict_fine:
  assumes "raft_verdict outcome w = Done res w'" and "fine (w_invariants w)"
  shows "\<exists>iv. fine iv \<and> res_violations res = violations iv"
proof -
  have "res_violations res = violations (w_invariants w)"
    using assms(1) by (auto simp: raft_verdict_def leader_ids_def Let_def dest!: all_running_Done nodes_of_Done)
  with assms(2) show ?thesis by blast
qed

text \<open>The whole of a run, from a world that already follows a cluster.\<close>

theorem run_fine:
  assumes "follows mode ok w" and "raft_run w = Done res w'"
  shows "\<exists>iv. fine iv \<and> res_violations res = violations iv"
proof -
  from assms(2) obtain w1 where 1: "raft_start w = Done () w1"
    and 2: "(case sim_run world_act [check_world] (\<lambda>e. JDesc (DescError e)) (map fst (w_nodes w1)) (w_max_ticks w1) w1 of
         Done outcome w' \<Rightarrow> raft_verdict outcome w'
       | Raised e w' \<Rightarrow>
           if e = InvariantViolated then
             bind (trace_write (violation_record (last (violations (w_invariants w'))))) (\<lambda>_ w2.
               raft_verdict \<lparr>rr_seed = seed (rng w2), rr_events = 0, rr_final_tick = now w2,
                 rr_rng_calls = calls (rng w2), rr_stop_reason = ''violation''\<rparr> w2) w'
           else Raised e w'
       | Diverges \<Rightarrow> Diverges) = Done res w'"
    by (auto simp: raft_run_def)
  have f1: "follows mode ok w1" by (rule validD_Done [OF simulated_valid [OF simulated_start] assms(1) 1])
  show ?thesis
  proof (cases "sim_run world_act [check_world] (\<lambda>e. JDesc (DescError e)) (map fst (w_nodes w1)) (w_max_ticks w1) w1")
    case (Done outcome w2)
    with validD_Done [OF loop_valid f1 Done] follows_fine 2 show ?thesis by (auto intro: verdict_fine)
  next
    case (Raised e w2)
    with validD_Raised [OF loop_valid f1 Raised] 2 show ?thesis
      by (auto split: if_splits simp: trace_write_Done elim!: verdict_fine)
  next
    case Diverges
    with 2 show ?thesis by simp
  qed
qed

end

section \<open>A cluster as it is built\<close>

definition fresh_world :: "string \<Rightarrow> raft_world \<Rightarrow> bool" where
  "fresh_world mode w \<longleftrightarrow> core_wf w \<and> live (queue w) = [] \<and> arrive_action w = Arrive \<and> w_mutate w = mode
     \<and> (\<forall>to h. map_of (inboxes w) to = Some h \<longrightarrow> h = ToClient \<or> h = ToNode to)
     \<and> (\<forall>n. held w n = None \<or> held w n = Some [])
     \<and> (\<forall>n m d. map_of (w_nodes w) n = Some (m, d) \<longrightarrow> n \<in> set NODE_IDS \<and> m = new_rnode n (peers_of NODE_IDS n)
          \<and> (\<exists>p. d = new_sim_storage p))"

lemma fresh_represents:
  assumes "fresh_world mode w"
  shows "represents w (initial NODE_IDS)"
proof -
  have f: "live (queue w) = []" "\<And>n. held w n = None \<or> held w n = Some []"
    using assms unfolding fresh_world_def by blast+
  have "in_flight w = {}"
  proof -
    have "ms = []" if "held w t = Some ms" for t ms using f(2) [of t] that by auto
    then show ?thesis using f(1) by (fastforce simp: in_flight_def)
  qed
  moreover have "node_rep m d (initial NODE_IDS) n" if "map_of (w_nodes w) n = Some (m, d)" for n m d
  proof -
    from assms that obtain p where "m = new_rnode n (peers_of NODE_IDS n)" "d = new_sim_storage p"
      unfolding fresh_world_def by blast
    moreover have "disk_wal (new_sim_storage p) [] []"
      unfolding disk_wal_def by (intro exI [of _ "[]"]) simp
    ultimately show ?thesis by (simp add: node_rep_def initial_def new_rnode_def)
  qed
  ultimately show ?thesis using assms by (auto simp: fresh_world_def represents_def)
qed

lemma fresh_follows:
  assumes "fresh_world mode w" and "ok (w_invariants w) (initial NODE_IDS)"
  shows "follows mode ok w"
  using fresh_represents [OF assms(1)] assms unfolding follows_def fresh_world_def by (blast intro: reachable.starts)

lemma raft_cluster_Done:
  assumes "raft_cluster check strd (blank_world stream sd p writes keys mutate) = Done x w"
  shows "fresh_world mutate w" and "mutate \<in> set MUTATIONS" and "1 \<le> strd"
    and "w_invariants w = \<lparr>checkers = if check then all_checkers else [], inv_seed = sd, stride = strd,
      stop_on_violation = True, violations = [], observations = 0\<rparr>"
proof -
  let ?inv = "\<lparr>checkers = if check then all_checkers else [], inv_seed = sd, stride = strd,
      stop_on_violation = True, violations = [], observations = 0\<rparr>"
  have "\<exists>w1. for_each NODE_IDS add_node w1 = Done x w \<and> queue w1 = empty_queue \<and> now w1 = 0 \<and> arrive_action w1 = Arrive
      \<and> w_mutate w1 = mutate \<and> inboxes w1 = [(CLIENT_ID, ToClient)] \<and> held w1 = [CLIENT_ID \<mapsto> []] \<and> w_nodes w1 = []
      \<and> w_invariants w1 = ?inv \<and> mutate \<in> set MUTATIONS \<and> 1 \<le> strd"
    using assms
    by (cases "1 \<le> strd"; cases "mutate \<in> set MUTATIONS"; cases check;
      clarsimp simp: raft_cluster_def blank_world_def new_invariants_def net_register_def with_rng_Done not_le modify_Done
        raise_Done)
      (rule exI, rule conjI, assumption, simp)+
  then obtain w1 where w1: "queue w1 = empty_queue" "now w1 = 0" "arrive_action w1 = Arrive" "w_mutate w1 = mutate"
      "inboxes w1 = [(CLIENT_ID, ToClient)]" "held w1 = [CLIENT_ID \<mapsto> []]" "w_nodes w1 = []"
    and inv: "w_invariants w1 = ?inv"
    and args: "mutate \<in> set MUTATIONS" "1 \<le> strd" and nodes: "for_each NODE_IDS add_node w1 = Done x w"
    by blast
  have w: "queue w = empty_queue" "now w = 0" "arrive_action w = Arrive" "w_mutate w = mutate"
      "w_invariants w = w_invariants w1" "inboxes w = [(0, ToClient), (1, ToNode 1), (2, ToNode 2), (3, ToNode 3)]"
      "held w = [0 \<mapsto> [], 1 \<mapsto> [], 2 \<mapsto> [], 3 \<mapsto> []]"
      "\<exists>c. w_nodes w = map (\<lambda>n. (n, new_rnode n (peers_of NODE_IDS n), new_sim_storage c)) NODE_IDS"
    using nodes w1 by (auto simp: for_each_def NODE_IDS_def CLIENT_ID_def add_node_def net_register_def peers_of_def)
  show "mutate \<in> set MUTATIONS" "1 \<le> strd" by (rule args)+
  show "w_invariants w = \<lparr>checkers = if check then all_checkers else [], inv_seed = sd, stride = strd,
      stop_on_violation = True, violations = [], observations = 0\<rparr>" using w(5) inv by simp
  from w(8) obtain c where c: "w_nodes w = map (\<lambda>n. (n, new_rnode n (peers_of NODE_IDS n), new_sim_storage c)) NODE_IDS" ..
  show "fresh_world mutate w"
    unfolding fresh_world_def
    by (auto simp: w(1-4,6,7) c core_wf_def NODE_IDS_def split: if_splits)
qed

section \<open>One checker at a time\<close>

definition no_report :: "string \<Rightarrow> invariants \<Rightarrow> bool" where
  "no_report name iv \<longleftrightarrow> (\<forall>v \<in> set (violations iv). v_checker v \<noteq> name)"

definition all_know :: "string \<Rightarrow> (checker \<Rightarrow> cluster \<Rightarrow> bool) \<Rightarrow> invariants \<Rightarrow> cluster \<Rightarrow> bool" where
  "all_know name knows iv s \<longleftrightarrow> no_report name iv
     \<and> (\<forall>ch \<in> set (checkers iv). checker_name ch = name \<longrightarrow> knows ch s)"

lemma run_checker_name: "(\<And>st. checker_name (wrap st) = n) \<Longrightarrow>
    (case run_checker m wrap st of Done r ch \<Rightarrow> checker_name ch = n | Raised e ch \<Rightarrow> checker_name ch = n | Diverges \<Rightarrow> True)"
  by (simp add: run_checker_def split: outcome.split)

lemma checker_keeps_name:
  "case checker_observe v ch of Done r ch' \<Rightarrow> checker_name ch' = checker_name ch
     | Raised e ch' \<Rightarrow> checker_name ch' = checker_name ch | Diverges \<Rightarrow> True"
  by (cases ch) (simp_all add: run_checker_name)

locale watcher =
  fixes mode :: string and name :: string and knows :: "checker \<Rightarrow> cluster \<Rightarrow> bool"
  assumes knows_later: "knows ch s \<Longrightarrow> cstep NODE_IDS (mutated mode) s s' \<Longrightarrow> knows ch s'"
    and silent: "reachable NODE_IDS (mutated mode) s \<Longrightarrow> views s v \<Longrightarrow> checker_name ch = name \<Longrightarrow> knows ch s \<Longrightarrow>
      checker_observe v ch = Done r ch' \<Longrightarrow> r = None \<and> knows ch' s"
begin

lemma observe_one:
  assumes "reachable NODE_IDS (mutated mode) s" and "views s v" and "i < n"
  shows "valid (\<lambda>iv. all_know name knows iv s \<and> length (checkers iv) = n) (observe_at v i)
    (\<lambda>_ iv. all_know name knows iv s \<and> length (checkers iv) = n) (\<lambda>_ iv. no_report name iv)"
  unfolding valid_def
proof (intro allI impI)
  fix iv
  assume iv: "all_know name knows iv s \<and> length (checkers iv) = n"
  let ?ch = "checkers iv ! i"
  have ch: "?ch \<in> set (checkers iv)" using iv assms(3) by simp
  have set: "set ((checkers iv)[i := c]) \<subseteq> insert c (set (checkers iv))" for c by (rule set_update_subset_insert)
  show "case observe_at v i iv of Done _ iv' \<Rightarrow> all_know name knows iv' s \<and> length (checkers iv') = n
      | Raised _ iv' \<Rightarrow> no_report name iv' | Diverges \<Rightarrow> True"
  proof (cases "checker_observe v ?ch")
    case (Done r c)
    have name: "checker_name c = checker_name ?ch" using checker_keeps_name [of ?ch v] Done by simp
    have quiet: "r = None \<and> knows c s" if "checker_name ?ch = name"
      using silent [OF assms(1,2) that _ Done] iv ch that by (auto simp: all_know_def)
    have "checker_name x = name \<longrightarrow> knows x s" if "x \<in> set ((checkers iv)[i := c])" for x
    proof -
      from that set [of c] have "x = c \<or> x \<in> set (checkers iv)" by blast
      then show ?thesis using iv quiet name by (auto simp: all_know_def)
    qed
    then have k: "all_know name knows (iv\<lparr>checkers := (checkers iv)[i := c]\<rparr>) s"
      using iv by (auto simp: all_know_def no_report_def)
    show ?thesis
    proof (cases r)
      case None
      with k iv show ?thesis by (simp add: observe_at_def Done)
    next
      case (Some p)
      with quiet name have "checker_name c \<noteq> name" by auto
      with k iv Some show ?thesis by (auto simp: observe_at_def Done Let_def all_know_def no_report_def)
    qed
  qed (use iv in \<open>simp_all add: observe_at_def all_know_def no_report_def\<close>)
qed

lemma observe_all:
  assumes "reachable NODE_IDS (mutated mode) s" and "views s v"
  shows "valid (\<lambda>iv. all_know name knows iv s) (invariants_observe v) (\<lambda>_ iv. all_know name knows iv s)
    (\<lambda>_ iv. no_report name iv)"
proof -
  have "valid (\<lambda>iv. all_know name knows iv s \<and> length (checkers iv) = n) (for_each [0..<n] (observe_at v))
    (\<lambda>_ iv. all_know name knows iv s \<and> length (checkers iv) = n) (\<lambda>_ iv. no_report name iv)" for n
    by (rule valid_for_each) (simp add: observe_one [OF assms])
  note loop = this
  have "valid (\<lambda>iv. all_know name knows iv s) (\<lambda>iv. for_each [0..<length (checkers iv)] (observe_at v) iv)
    (\<lambda>_ iv. all_know name knows iv s) (\<lambda>_ iv. no_report name iv)"
    unfolding valid_def
  proof (intro allI impI)
    fix iv
    assume "all_know name knows iv s"
    with loop [of "length (checkers iv)", unfolded valid_def, rule_format, of iv]
    show "case for_each [0..<length (checkers iv)] (observe_at v) iv of Done _ iv' \<Rightarrow> all_know name knows iv' s
        | Raised _ iv' \<Rightarrow> no_report name iv' | Diverges \<Rightarrow> True"
      by (simp split: outcome.splits)
  qed
  then show ?thesis
    unfolding invariants_observe_def
    by (intro valid_block_Cons [OF valid_modify] valid_block_Cons [OF valid_whenever] valid_block_Nil)
      (auto simp: all_know_def no_report_def intro: valid_weaken)
qed

end

sublocale watcher \<subseteq> observer mode "all_know name knows" "no_report name"
proof
  show "all_know name knows iv s'" if "all_know name knows iv s" "cstep NODE_IDS (mutated mode) s s'" for iv s s'
    using that knows_later by (auto simp: all_know_def)
  show "case invariants_observe v iv of Done x iv' \<Rightarrow> all_know name knows iv' s | Raised e iv' \<Rightarrow> no_report name iv'
      | Diverges \<Rightarrow> True"
    if "reachable NODE_IDS (mutated mode) s" "all_know name knows iv s" "views s v" for s iv v
    using observe_all [OF that(1,3)] that(2) by (simp add: valid_def)
  show "no_report name iv" if "all_know name knows iv s" for iv s using that by (simp add: all_know_def)
qed

section \<open>Election safety of every run\<close>

text \<open>What the election checker remembers happened.\<close>

fun recalls :: "checker \<Rightarrow> cluster \<Rightarrow> bool" where
  "recalls (ElectionSafety seen) s \<longleftrightarrow>
     (\<forall>t n. seen t = Some n \<longrightarrow> (\<exists>k. (n, k) \<in> past s \<and> role k = LEADER \<and> current_term k = t))"
| "recalls _ s \<longleftrightarrow> True"

lemma past_grows: "cstep ids mut s s' \<Longrightarrow> past s \<subseteq> past s'"
  by (auto elim!: cstep.cases simp: complete_def fail_def crash_def restart_def request_def Let_def)

lemma viewed_leader:
  assumes reach: "reachable NODE_IDS (mutated mode) s" and views: "views s v" and k: "k \<in> set (leaders v)"
  shows "\<exists>l. (node_id k, l) \<in> past s \<and> role l = LEADER \<and> current_term l = current_term k"
proof -
  have inv: "cluster_inv NODE_IDS s" by (rule reachable_inv [OF reach NODE_IDS_ok mutated_ok])
  from k have k: "running k" "role k = LEADER" "k \<in> set (sorted_nodes v)" by (auto simp: leaders_def)
  from k(3) obtain n where n: "n \<in> fst ` set (view_nodes v)" "k = the (map_of (view_nodes v) n)"
    by (auto simp: sorted_nodes_def)
  then have "(n, k) \<in> set (view_nodes v)"
    by (cases "map_of (view_nodes v) n") (auto simp: map_of_eq_None_iff dest: map_of_SomeD)
  with n(1) views have c: "core k = core (node_at s n)" "n \<in> set NODE_IDS"
    unfolding views_def by (auto simp flip: list.set_map)
  with inv have "node_fine NODE_IDS s n" by (simp add: cluster_inv_def)
  with c k have "node_id k = n" "(n, node_at s n) \<in> past s" by (auto simp: node_fine_def Let_def core_eq_iff)
  with c k show ?thesis by (auto simp: core_eq_iff)
qed

lemma election_silent:
  assumes reach: "reachable NODE_IDS (mutated mode) s" and views: "views s v"
    and "recalls (ElectionSafety seen) s" and "observe_election v seen = Done r seen'"
  shows "r = None \<and> recalls (ElectionSafety seen') s"
proof -
  have inv: "cluster_inv NODE_IDS s" by (rule reachable_inv [OF reach NODE_IDS_ok mutated_ok])
  let ?body = "\<lambda>k seen. case seen (current_term k) of
        None \<Rightarrow> Done None (seen(current_term k \<mapsto> node_id k))
      | Some incumbent \<Rightarrow>
          if incumbent \<noteq> node_id k then Done (Some (TwoLeaders (current_term k) incumbent (node_id k))) seen
          else Done None seen"
  have "r = None \<and> recalls (ElectionSafety seen') s"
    if "scan_for ?body ks seen = Done r seen'" "set ks \<subseteq> set (leaders v)" "recalls (ElectionSafety seen) s" for ks
    using that
  proof (induction ks arbitrary: seen)
    case (Cons k ks)
    obtain l where l: "(node_id k, l) \<in> past s" "role l = LEADER" "current_term l = current_term k"
      using viewed_leader [OF reach views] Cons.prems(2) by auto
    have same: "n = node_id k" if "seen (current_term k) = Some n" for n
      using that Cons.prems(3) inv_election_safety [OF inv _ _ l(1,2)] l(3) by fastforce
    show ?case
    proof (cases "seen (current_term k)")
      case None
      have rec: "recalls (ElectionSafety (seen(current_term k \<mapsto> node_id k))) s"
        unfolding recalls.simps
      proof (intro allI impI)
        show "\<exists>l. (n, l) \<in> past s \<and> role l = LEADER \<and> current_term l = t"
          if "(seen(current_term k \<mapsto> node_id k)) t = Some n" for t n
          using that Cons.prems(3) l by (cases "t = current_term k") auto
      qed
      have "scan_for ?body ks (seen(current_term k \<mapsto> node_id k)) = Done r seen'"
        using Cons.prems(1) None by (simp add: bind_def)
      from Cons.IH [OF this _ rec] Cons.prems(2) show ?thesis by simp
    next
      case (Some n)
      then have "scan_for ?body ks seen = Done r seen'" using Cons.prems(1) same by (simp add: bind_def)
      from Cons.IH [OF this _ Cons.prems(3)] Cons.prems(2) show ?thesis by simp
    qed
  qed (simp add: ret_def)
  with assms(3,4) show ?thesis unfolding observe_election_def by blast
qed

interpretation election: watcher mode "''election_safety''" recalls for mode
proof
  show "recalls ch s'" if "recalls ch s" "cstep NODE_IDS (mutated mode) s s'" for ch s s'
    using that(1) past_grows [OF that(2)] by (cases ch) (simp_all, blast)
  show "r = None \<and> recalls ch' s"
    if "reachable NODE_IDS (mutated mode) s" "views s v" "checker_name ch = ''election_safety''" "recalls ch s"
      "checker_observe v ch = Done r ch'" for s v ch r ch'
  proof -
    from that(3) obtain seen where ch: "ch = ElectionSafety seen" by (cases ch) auto
    with that(5) obtain seen' where "observe_election v seen = Done r seen'" "ch' = ElectionSafety seen'"
      by (auto simp: run_checker_def split: outcome.splits)
    with election_silent [OF that(1,2)] that(4) ch show ?thesis by simp
  qed
qed

section \<open>Properties\<close>

text \<open>The definitions that evaluate what a run does before its first event.\<close>

lemmas eval_defs = block.simps bind_def ret_def modify_def whenever_def ite_def of_sum_def raise_def on_part_def upd_def
  Let_def netsim.defs node_ctx.defs with_rng_def with_queue_def trace_write_def chance_def between_def below_zero_stream
  below_one clock_after_def schedule_def heappush_def heap_key_def for_each_def node_record_def

lemmas cluster_defs = raft_cluster_def blank_world_def MUTATIONS_def NO_ELECTION_RESTRICTION_def new_invariants_def
  net_register_def generate_schedule_def perfect_profile_def quiet_profile_def NODE_IDS_def CLIENT_ID_def add_node_def
  quiet_by_def client_window_def new_client_def SETTLE_def CLIENT_RETRY_def REQUEST_GAP_def SECOND_def MILLISECOND_def
  MICROSECOND_def peers_of_def new_rnode_def empty_queue_def new_sim_storage_def default_disk_faults_def

lemmas node_defs = on_node_def node_view_def node_back_def node_start_def arm_election_timer_def cancel_timers_def
  cancel_election_timer_def cancel_heartbeat_def ELECTION_TIMEOUT_def node_crash_def reset_memory_def sim_node_crash_def
  on_disk_def sim_crash_def crash_after_def set_disk_def draw_def net_state_def net_set_state_def the_node_def

lemma cluster_watched:
  assumes "raft_cluster check strd (blank_world stream sd p writes keys mutate) = Done x w"
    and "\<And>ch. ch \<in> set all_checkers \<Longrightarrow> checker_name ch = name \<Longrightarrow> knows ch (initial NODE_IDS)"
  shows "follows mutate (all_know name knows) w"
proof (rule fresh_follows)
  note C = raft_cluster_Done [OF assms(1)]
  show "fresh_world mutate w" by (rule C(1))
  show "all_know name knows (w_invariants w) (initial NODE_IDS)"
    unfolding C(4) all_know_def no_report_def using assms(2) by simp
qed

text \<open>A client with nothing to write and no time to write it: the nodes start and the run is over.\<close>

lemma small_run:
  obtains res w where "run_raft (\<lambda>_. 0) 0 perfect_profile (- 12) 1 True 1 ''none'' = Done res w"
  by (simp add: run_raft_def raft_run_def raft_start_def client_issue_def injector_arm_def sim_run_def run_loop_def
      sim_loop_unfold sim_turn_def peek_tick_def drop_cancelled_head_def raft_verdict_def leader_ids_def
      eval_defs cluster_defs node_defs del: py_done)

text \<open>
  C1. Election safety of every run: whatever the seed, the fault profile, the stride and the mutation,
  a run that returns reports no violation of election safety. Election safety is the one property the
  mutation, which takes the log out of the vote, must not break.
\<close>

theorem run_election_safe:
  assumes "run_raft stream sd p writes keys check strd mutate = Done res w"
  shows "\<forall>v \<in> set (res_violations res). v_checker v \<noteq> ''election_safety''"
proof -
  from assms obtain w1 where 1: "raft_cluster check strd (blank_world stream sd p writes keys mutate) = Done () w1"
    and 2: "raft_run w1 = Done res w" by (auto simp: run_raft_def)
  have "follows mutate (all_know ''election_safety'' recalls) w1"
    by (rule cluster_watched [OF 1]) (auto simp: all_checkers_def)
  from election.run_fine [OF this 2] show ?thesis by (auto simp: no_report_def)
qed

theorem run_election_safe_witness:
  "\<exists>res w. run_raft (\<lambda>_. 0) 0 perfect_profile (- 12) 1 True 1 ''none'' = Done res w
     \<and> (\<forall>v \<in> set (res_violations res). v_checker v \<noteq> ''election_safety'')"
proof -
  obtain res w where "run_raft (\<lambda>_. 0) 0 perfect_profile (- 12) 1 True 1 ''none'' = Done res w" by (rule small_run)
  with run_election_safe [OF this] show ?thesis by blast
qed

text \<open>
  C4. The simulated world refines the cluster: whatever event the simulator fires in a world that
  represents a reachable cluster state, the world it leaves represents a state the cluster reaches from
  there in some steps, and neither the mutation nor the checkers are touched.
\<close>

theorem event_is_cluster_steps:
  assumes "reachable NODE_IDS (mutated (w_mutate w)) s" and "represents w s"
    and "\<forall>f t m. a = Arrive f t m \<longrightarrow> (f, t, m) \<in> sent s \<union> client_msgs"
    and "world_act a w = Done x w'"
  shows "\<exists>s'. (cstep NODE_IDS (mutated (w_mutate w)))\<^sup>*\<^sup>* s s' \<and> represents w' s'
    \<and> w_mutate w' = w_mutate w \<and> w_invariants w' = w_invariants w"
  using world_act_step [OF assms(1,2) refl _ assms(4)] assms(3) keeps_Done [OF keeps_world_act assms(4)]
  by (simp add: watch_fields)

text \<open>The injector crashes a node of a new cluster.\<close>

theorem event_is_cluster_steps_witness:
  "\<exists>w s w' s'. represents w s \<and> world_act (BeginOutage (OutageEpisode 5 3 1 CRASH)) w = Done () w'
     \<and> (cstep NODE_IDS (mutated (w_mutate w)))\<^sup>*\<^sup>* s s' \<and> represents w' s' \<and> \<not> running (node_at s' 1)"
proof -
  let ?a = "BeginOutage (OutageEpisode 5 3 1 CRASH)" and ?s = "initial NODE_IDS"
  have "\<exists>w w' m d. raft_cluster True 1 (blank_world (\<lambda>_. 0) 0 perfect_profile 5 1 ''none'') = Done () w
    \<and> world_act ?a w = Done () w' \<and> map_of (w_nodes w') 1 = Some (m, d) \<and> \<not> running m"
    by (simp add: begin_outage_def note_fired_def eval_defs cluster_defs node_defs del: py_done)
  then obtain w w' m d where w: "raft_cluster True 1 (blank_world (\<lambda>_. 0) 0 perfect_profile 5 1 ''none'') = Done () w"
    and run: "world_act ?a w = Done () w'" and m: "map_of (w_nodes w') 1 = Some (m, d)" "\<not> running m"
    by blast
  have f: "fresh_world ''none'' w" by (rule raft_cluster_Done [OF w])
  have rep: "represents w ?s" by (rule fresh_represents [OF f])
  obtain s' where s': "(cstep NODE_IDS (mutated (w_mutate w)))\<^sup>*\<^sup>* ?s s'" "represents w' s'"
    using event_is_cluster_steps [OF reachable.starts rep _ run] by auto
  have "running m = running (node_at s' 1)"
    using node_facts(4) [OF reachable_steps [OF s'(1) reachable.starts] s'(2) m(1)] .
  with rep run s' m(2) show ?thesis by blast
qed

end
