(* ===== verification/Log_Agreement.thy ===== *)
theory Log_Agreement
  imports Node_Props "HOL-Library.Sublist"
begin

text \<open>
  Logs as lists, before any cluster: when two logs agree up to a position, when two logs match wherever they
  hold entries of the same term, and what merging a suffix of a matching log comes to. \<open>merge_log\<close> is the
  effect of \<^verbatim>\<open>on_append_entries\<close>; on matching logs it keeps the log or takes over the other one.
\<close>

declare block.simps [simp del]

section \<open>Agreement up to a position\<close>

definition same_upto :: "nat \<Rightarrow> raft_log \<Rightarrow> raft_log \<Rightarrow> bool" where
  "same_upto i a b \<longleftrightarrow> i \<le> length a \<and> i \<le> length b \<and> take i a = take i b"

lemma same_upto_refl: "i \<le> length a \<Longrightarrow> same_upto i a a"
  by (simp add: same_upto_def)

lemma same_upto_0 [simp]: "same_upto 0 a b"
  by (simp add: same_upto_def)

lemma same_upto_sym: "same_upto i a b \<Longrightarrow> same_upto i b a"
  by (simp add: same_upto_def)

lemma same_upto_trans: "same_upto i a b \<Longrightarrow> same_upto i b c \<Longrightarrow> same_upto i a c"
  by (simp add: same_upto_def)

lemma same_upto_mono: "same_upto i a b \<Longrightarrow> j \<le> i \<Longrightarrow> same_upto j a b"
  unfolding same_upto_def by (metis min.absorb1 order_trans take_take)

lemma same_upto_prefix: "same_upto i a b \<Longrightarrow> prefix b c \<Longrightarrow> same_upto i a c"
  by (auto simp: same_upto_def prefix_def)

lemma prefix_same_upto: "prefix a b \<Longrightarrow> i \<le> length a \<Longrightarrow> same_upto i a b"
  by (auto simp: same_upto_def prefix_def)

lemma same_upto_whole: "same_upto (length a) a b \<longleftrightarrow> prefix a b"
  by (auto simp: same_upto_def prefix_def) (metis append_take_drop_id)

lemma same_upto_nth: "same_upto i a b \<Longrightarrow> p < i \<Longrightarrow> a ! p = b ! p"
  unfolding same_upto_def by (metis nth_take)

lemma same_uptoI: "i \<le> length a \<Longrightarrow> i \<le> length b \<Longrightarrow> (\<And>p. p < i \<Longrightarrow> a ! p = b ! p) \<Longrightarrow> same_upto i a b"
  using nth_take_lemma [of i a b] by (simp add: same_upto_def)

lemma same_upto_take: "same_upto i a b \<Longrightarrow> i \<le> j \<Longrightarrow> same_upto i (take j a) b"
  by (simp add: same_upto_def min_def)

definition comparable :: "raft_log \<Rightarrow> raft_log \<Rightarrow> bool" where
  "comparable a b \<longleftrightarrow> prefix a b \<or> prefix b a"

lemma comparable_same: "comparable a b \<Longrightarrow> i \<le> length a \<Longrightarrow> i \<le> length b \<Longrightarrow> same_upto i a b"
  unfolding comparable_def using prefix_same_upto same_upto_sym by blast

lemma comparable_sym: "comparable a b \<Longrightarrow> comparable b a"
  by (auto simp: comparable_def)

section \<open>Matching logs\<close>

definition matching_logs :: "raft_log \<Rightarrow> raft_log \<Rightarrow> bool" where
  "matching_logs a b \<longleftrightarrow> (\<forall>p. p < length a \<longrightarrow> p < length b \<longrightarrow> le_term (a ! p) = le_term (b ! p) \<longrightarrow> same_upto (Suc p) a b)"

lemma trm_nth: "p < length l \<Longrightarrow> trm l (int p + 1) = le_term (l ! p)"
  by (simp add: trm_def)

lemma trm_Suc: "trm l (int (Suc p)) = le_term (l ! p)"
  by (simp add: trm_def)

text \<open>The prefix that a leader's message presupposes, and the run of entries that are there already.\<close>

lemma matching_prev:
  assumes "matching_logs l b" and "n \<le> length l" "n \<le> length b" and "trm l (int n) = trm b (int n)"
  shows "same_upto n l b"
proof (cases n)
  case 0
  then show ?thesis by simp
next
  case (Suc p)
  with assms show ?thesis by (simp add: matching_logs_def trm_def nat_add_distrib)
qed

lemma matching_run:
  assumes m: "matching_logs l b" and prev: "same_upto n l b"
  defines "r \<equiv> matching (int n + 1) (drop n b) l"
  shows "same_upto (n + r) l b" and "r < length b - n \<Longrightarrow> n + r < length l \<Longrightarrow> le_term (l ! (n + r)) \<noteq> le_term (b ! (n + r))"
proof -
  have run: "int n + 1 + int p \<le> int (length l) \<and> trm l (int n + 1 + int p) = le_term (drop n b ! p)" if "p < r" for p
    using matching_agrees that by (simp add: r_def)
  have len: "r \<le> length b - n" using matching_le [of "int n + 1" "drop n b" l] by (simp add: r_def)
  show "same_upto (n + r) l b"
  proof (cases r)
    case 0
    with prev show ?thesis by simp
  next
    case (Suc p)
    with run [of p] len have "n + p < length l" "n + p < length b" "le_term (l ! (n + p)) = le_term (b ! (n + p))"
      by (auto simp: trm_def nat_add_distrib)
    with m Suc show ?thesis by (simp add: matching_logs_def)
  qed
  have stop: "\<not> (i + int (matching i es l) \<le> int (length l) \<and> trm l (i + int (matching i es l)) = le_term (es ! matching i es l))"
    if "matching i es l < length es" for i es
    using that by (induction i es l rule: matching.induct) (auto simp: algebra_simps split: if_splits)
  show "le_term (l ! (n + r)) \<noteq> le_term (b ! (n + r))" if "r < length b - n" "n + r < length l"
    using stop [of "int n + 1" "drop n b"] that by (auto simp: r_def [symmetric] trm_def nat_add_distrib)
qed

text \<open>What is on the disk, all of it or only the first of it: the log itself, or a beginning of the leader's that
  goes beyond what the two have in common.\<close>

definition common :: "nat \<Rightarrow> raft_log \<Rightarrow> raft_log \<Rightarrow> bool" where
  "common q l b \<longleftrightarrow> same_upto q l b \<and> (q < length l \<longrightarrow> q < length b \<longrightarrow> le_term (l ! q) \<noteq> le_term (b ! q))"

definition between :: "raft_log \<Rightarrow> raft_log \<Rightarrow> raft_log \<Rightarrow> bool" where
  "between l b x \<longleftrightarrow> x = l \<or> (\<exists>q j. common q l b \<and> q < length b \<and> q \<le> j \<and> x = take j b)"

lemma merge_log_matching:
  assumes "matching_logs l b" and "same_upto n l b"
  shows "merge_log (int n + 1) (drop n b) l = l \<and> prefix b l \<or> merge_log (int n + 1) (drop n b) l = b \<and> between l b b"
proof -
  let ?r = "matching (int n + 1) (drop n b) l"
  note run = matching_run [OF assms]
  have n: "n \<le> length b" using assms(2) by (simp add: same_upto_def)
  show ?thesis
  proof (cases "?r = length (drop n b)")
    case True
    then have "same_upto (length b) l b" using run(1) n by simp
    then have "prefix b l" using same_upto_whole same_upto_sym by blast
    with True show ?thesis by (simp add: merge_log_def)
  next
    case False
    then have lt: "?r < length b - n" using matching_le [of "int n + 1" "drop n b" l] by simp
    have "take (n + ?r) l @ drop ?r (drop n b) = b"
      using run(1) by (simp add: same_upto_def add.commute)
    then have "merge_log (int n + 1) (drop n b) l = b" using False by (simp add: merge_log_def Let_def)
    moreover have "common (n + ?r) l b" using run lt by (auto simp: common_def)
    then have "between l b b"
      unfolding between_def using lt by (intro disjI2 exI [of _ "n + ?r"] exI [of _ "length b"]) auto
    ultimately show ?thesis by blast
  qed
qed

lemma between_keeps:
  assumes "between l b x" and "same_upto i l y" and "\<And>p. p < i \<Longrightarrow> p < length b \<Longrightarrow> b ! p = y ! p"
  shows "same_upto i x y"
proof -
  from assms(1) consider "x = l" | q j where "common q l b" "q < length b" "q \<le> j" "x = take j b"
    by (auto simp: between_def)
  then show ?thesis
  proof cases
    case 1
    with assms(2) show ?thesis by simp
  next
    case 2
    have "i \<le> q"
    proof (rule ccontr)
      assume "\<not> i \<le> q"
      then have "l ! q = y ! q" "b ! q = y ! q" "q < length l"
        using assms(2,3) 2(2) same_upto_nth by (auto simp: same_upto_def)
      with 2(1,2) show False by (simp add: common_def)
    qed
    from 2(1) have "same_upto i b l"
      using same_upto_sym [OF same_upto_mono [OF _ \<open>i \<le> q\<close>]] by (simp add: common_def)
    from same_upto_trans [OF this assms(2)] have "same_upto i b y" .
    with 2 \<open>i \<le> q\<close> show ?thesis by (simp add: same_upto_take)
  qed
qed

end
