(* ===== verification/Node_Effects.thy ===== *)
theory Node_Effects
  imports Cluster Log_Agreement
begin

text \<open>
  The handlers of \<open>Node_Spec\<close> by what they do to the log, the role and the commit index: an event makes a node a
  candidate, makes a candidate the leader, appends a client's entry, merges a leader's entries, counts an
  acknowledgement, or leaves log and commit index alone (\<open>effect\<close>). The proofs on logs and commitment go by these
  six cases. Besides, what stands behind a vote and behind each message sent.
\<close>

declare block.simps [simp del]

section \<open>Six effects\<close>

definition fresh_leader :: "rnode \<Rightarrow> bool" where
  "fresh_leader k \<longleftrightarrow> (\<forall>p. next_for k p = last_index (rlog k) + 1 \<and> match_for k p = 0)"

definition commit_rule_ok :: "rnode \<Rightarrow> rnode \<Rightarrow> bool" where
  "commit_rule_ok k k' \<longleftrightarrow> commit_index k' = commit_index k
     \<or> commit_index k < commit_index k' \<and> commit_index k' \<le> last_index (rlog k') \<and> committable k' (commit_index k')"

inductive effect :: "stimulus \<Rightarrow> rnode \<Rightarrow> rnode \<Rightarrow> bool" where
  times_out: "current_term k' = current_term k + 1 \<Longrightarrow> voted_for k' = Some (node_id k) \<Longrightarrow> rlog k' = rlog k \<Longrightarrow>
     commit_index k' = commit_index k \<Longrightarrow> role k' = CANDIDATE \<or> role k' = LEADER \<and> fresh_leader k' \<Longrightarrow>
     effect ElectionTimer k k'"
| wins: "role k = CANDIDATE \<Longrightarrow> role k' = LEADER \<Longrightarrow> hard k' = hard k \<Longrightarrow> rlog k' = rlog k \<Longrightarrow>
     commit_index k' = commit_index k \<Longrightarrow> fresh_leader k' \<Longrightarrow> effect (Receives frm (MRequestVoteReply r)) k k'"
| appends: "role k = LEADER \<Longrightarrow> role k' = LEADER \<Longrightarrow> hard k' = hard k \<Longrightarrow> rlog k' = rlog k @ [e] \<Longrightarrow>
     le_term e = current_term k \<Longrightarrow> next_index k' = next_index k \<Longrightarrow> match_index k' = match_index k \<Longrightarrow>
     commit_rule_ok k k' \<Longrightarrow> effect (Receives frm (MClientRequest r)) k k'"
| merges: "current_term k \<le> ae_term ae \<Longrightarrow> role k' = FOLLOWER \<Longrightarrow> hard k' = hard (follow (ae_term ae) None k) \<Longrightarrow>
     has_entry (rlog k) (ae_prev_log_index ae) \<Longrightarrow> trm (rlog k) (ae_prev_log_index ae) = ae_prev_log_term ae \<Longrightarrow>
     rlog k' = merge_log (ae_prev_log_index ae + 1) (ae_entries ae) (rlog k) \<Longrightarrow>
     commit_index k' = (if ae_leader_commit ae > commit_index k
       then min (ae_leader_commit ae) (ae_prev_log_index ae + int (length (ae_entries ae))) else commit_index k) \<Longrightarrow>
     effect (Receives frm (MAppendEntries ae)) k k'"
| counts: "role k = LEADER \<Longrightarrow> role k' = LEADER \<Longrightarrow> hard k' = hard k \<Longrightarrow> rlog k' = rlog k \<Longrightarrow>
     aer_term r = current_term k \<Longrightarrow> aer_success r \<Longrightarrow> i = max (match_for k frm) (aer_match_index r) \<Longrightarrow>
     match_index k' = (match_index k)(frm \<mapsto> i) \<Longrightarrow> next_index k' = (next_index k)(frm \<mapsto> i + 1) \<Longrightarrow>
     commit_rule_ok k k' \<Longrightarrow> effect (Receives frm (MAppendEntriesReply r)) k k'"
| else_quiet: "rlog k' = rlog k \<Longrightarrow> commit_index k' = commit_index k \<Longrightarrow>
     role k' = FOLLOWER \<or> role k' = role k \<and> current_term k' = current_term k \<and> match_index k' = match_index k
       \<and> (\<forall>p. next_for k' p = next_for k p \<or> next_for k' p = max 1 (next_for k p - 1)) \<Longrightarrow>
     effect x k k'"

inductive_cases effect_cases: "effect x k k'"

lemma next_for_cong: "next_index k' = next_index k \<Longrightarrow> rlog k' = rlog k \<Longrightarrow> next_for k' = next_for k"
  by (simp add: next_for_def fun_eq_iff split: option.split)

lemma fresh_lead: "fresh_leader (lead k)"
  by (simp add: fresh_leader_def next_for_def match_for_def lead_def)

lemma commit_rule_same: "same_protocol k' k \<Longrightarrow> committable k' i = committable k i"
  by (simp add: committable_def same_protocol_def majority_def cluster_size_def replicas_def match_for_def)

lemma advance_commit_ok:
  assumes "role k = LEADER" and "commit_index k0 = commit_index k"
  shows "commit_rule_ok k0 (fst (advance_commit_spec k))"
proof -
  have same: "same_protocol (fst (advance_commit_spec k)) k" by (rule advance_commit_same)
  then have "rlog (fst (advance_commit_spec k)) = rlog k" by (simp add: same_protocol_def)
  with advance_commit_rule [OF assms(1)] commit_rule_same [OF same] assms(2) show ?thesis
    by (auto simp: commit_rule_ok_def)
qed

lemma effect_request_vote: "effect x k (new_state (request_vote_spec frm rv k))"
proof -
  let ?k1 = "if rv_term rv > current_term k then follow (rv_term rv) None k else k"
  have "new_state (request_vote_spec frm rv k) \<in> {?k1, ?k1\<lparr>voted_for := Some (rv_candidate_id rv)\<rparr>}"
    by (simp add: request_vote_spec_def reply_vote_spec_def Let_def)
  moreover have "next_for (k\<lparr>voted_for := v\<rparr>) = next_for k" for v by (simp add: fun_eq_iff next_for_def split: option.split)
  ultimately show ?thesis by (intro effect.else_quiet) (auto simp: follow_def)
qed

lemma effect_vote_reply: "effect (Receives frm (MRequestVoteReply r)) k (new_state (request_vote_reply_spec frm r k))"
proof -
  let ?k1 = "k\<lparr>votes_granted := set_add frm (votes_granted k)\<rparr>"
  let ?k' = "new_state (request_vote_reply_spec frm r k)"
  have eq: "?k' = (if rvr_term r > current_term k then follow (rvr_term r) None k
      else if role k \<noteq> CANDIDATE \<or> rvr_term r \<noteq> current_term k \<or> \<not> rvr_vote_granted r then k
      else if int (length (votes_granted ?k1)) \<ge> majority ?k1 then lead ?k1 else ?k1)"
    by (simp add: request_vote_reply_spec_def Let_def)
  show ?thesis
  proof (cases "\<not> current_term k < rvr_term r \<and> role k = CANDIDATE \<and> rvr_term r = current_term k
      \<and> rvr_vote_granted r \<and> int (length (votes_granted ?k1)) \<ge> majority ?k1")
    case True
    then have "?k' = lead ?k1" using eq by simp
    moreover have "fresh_leader (lead ?k1)" by (rule fresh_lead)
    ultimately show ?thesis using True by (intro effect.wins) (simp_all add: lead_def hard_def)
  next
    case False
    then have "?k' = follow (rvr_term r) None k \<or> ?k' = k \<or> ?k' = ?k1" unfolding eq by argo
    then show ?thesis by (elim disjE; intro effect.else_quiet) (simp_all add: follow_def next_for_def split: option.split)
  qed
qed

lemma effect_append_entries:
  assumes wf: "log_wf (rlog k)" "log_wf (rlog (new_state (append_entries_spec frm ae k)))"
  shows "effect (Receives frm (MAppendEntries ae)) k (new_state (append_entries_spec frm ae k))"
proof (cases "current_term k \<le> ae_term ae \<and> has_entry (rlog k) (ae_prev_log_index ae)
    \<and> trm (rlog k) (ae_prev_log_index ae) = ae_prev_log_term ae")
  case False
  then have "new_state (append_entries_spec frm ae k) \<in> {k, follow (ae_term ae) (Some (ae_leader_id ae)) k}"
    by (auto simp: append_entries_spec_def Let_def not_le)
  then show ?thesis by (intro effect.else_quiet) (auto simp: follow_def)
next
  case True
  let ?k' = "new_state (append_entries_spec frm ae k)" and ?i = "ae_prev_log_index ae + 1"
  obtain l ws app where t: "take_spec ?i (ae_entries ae) (rlog k) = (l, ws, app)" by (cases "take_spec ?i (ae_entries ae) (rlog k)")
  have l: "rlog ?k' = l" using True t apply_committed_same(1)
    by (auto simp: append_entries_spec_def Let_def case_prod_beta same_protocol_def)
  have b: "1 \<le> ?i" "?i \<le> int (length (rlog k)) + 1" using True wf(1) by (simp_all add: has_entry_wf)
  have "l = merge_log ?i (ae_entries ae) (rlog k)"
    by (rule take_spec_merge(1) [OF b wf(1) _ t]) (use wf(2) l in simp)
  moreover have "hard ?k' = hard (follow (ae_term ae) None k)"
    using append_entries_hard [of k ae frm] True by (simp add: hard_def follow_def)
  moreover have "role ?k' = FOLLOWER" "commit_index ?k' = (if ae_leader_commit ae > commit_index k
       then min (ae_leader_commit ae) (ae_prev_log_index ae + int (length (ae_entries ae))) else commit_index k)"
    using True t apply_committed_same(1,3)
    by (auto simp: append_entries_spec_def Let_def case_prod_beta same_protocol_def)
  ultimately show ?thesis using True l by (intro effect.merges) simp_all
qed

lemma effect_append_reply: "effect (Receives frm (MAppendEntriesReply r)) k (new_state (append_entries_reply_spec frm r k))"
proof -
  let ?i = "max (match_for k frm) (aer_match_index r)"
  let ?k1 = "k\<lparr>match_index := (match_index k)(frm \<mapsto> ?i), next_index := (next_index k)(frm \<mapsto> ?i + 1)\<rparr>"
  let ?k' = "new_state (append_entries_reply_spec frm r k)"
  have eq: "?k' = (if aer_term r > current_term k then follow (aer_term r) None k
      else if role k \<noteq> LEADER \<or> aer_term r \<noteq> current_term k then k
      else if aer_success r then fst (advance_commit_spec ?k1)
      else k\<lparr>next_index := (next_index k)(frm \<mapsto> max 1 (next_for k frm - 1))\<rparr>)"
    by (simp add: append_entries_reply_spec_def Let_def case_prod_beta)
  show ?thesis
  proof (cases "role k = LEADER \<and> aer_term r = current_term k \<and> aer_success r")
    case True
    with eq have k': "?k' = fst (advance_commit_spec ?k1)" by simp
    then have "same_protocol ?k' ?k1" using advance_commit_same(1) by simp
    moreover have "commit_rule_ok k ?k'" using advance_commit_ok [of ?k1 k] True k' by simp
    ultimately show ?thesis using True
      by (intro effect.counts [where i = ?i]) (simp_all add: same_protocol_def hard_def)
  next
    case False
    then have "?k' = follow (aer_term r) None k \<or> ?k' = k
        \<or> ?k' = k\<lparr>next_index := (next_index k)(frm \<mapsto> max 1 (next_for k frm - 1))\<rparr>" using eq by presburger
    then show ?thesis
    proof (elim disjE)
      let ?k2 = "k\<lparr>next_index := (next_index k)(frm \<mapsto> max 1 (next_for k frm - 1))\<rparr>"
      assume k2: "?k' = ?k2"
      have "next_for ?k2 p = next_for k p \<or> next_for ?k2 p = max 1 (next_for k p - 1)" for p
        by (simp add: next_for_def split: option.split)
      then show ?thesis unfolding k2 by (intro effect.else_quiet) simp_all
    qed (simp_all add: effect.else_quiet)
  qed
qed

lemma effect_client_request: "effect (Receives frm (MClientRequest r)) k (new_state (client_request_spec frm r k))"
proof (cases "role k = LEADER")
  case False
  then show ?thesis by (intro effect.else_quiet) (auto simp: client_request_spec_def)
next
  case True
  let ?e = "log_create (rlog k) (current_term k) (creq_command r)"
  let ?k1 = "k\<lparr>rlog := rlog k @ [?e], pending_clients := (pending_clients k)(le_index ?e \<mapsto> (frm, creq_request_id r))\<rparr>"
  have k': "new_state (client_request_spec frm r k) = fst (advance_commit_spec ?k1)"
    using True by (simp add: client_request_spec_def Let_def case_prod_beta)
  have "same_protocol (fst (advance_commit_spec ?k1)) ?k1" by (rule advance_commit_same)
  moreover have "commit_rule_ok k (fst (advance_commit_spec ?k1))" using advance_commit_ok [of ?k1 k] True by simp
  ultimately show ?thesis
    unfolding k' using True by (intro effect.appends [where e = ?e]) (simp_all add: same_protocol_def hard_def log_create_def)
qed

lemma effect_timeout: "effect ElectionTimer k (new_state (election_timeout_spec k))"
proof -
  let ?k' = "new_state (election_timeout_spec k)"
  have "role ?k' = CANDIDATE \<or> role ?k' = LEADER \<and> fresh_leader ?k'"
    using fresh_lead by (auto simp: election_timeout_spec_def Let_def)
  then show ?thesis
    by (intro effect.times_out) (auto simp: election_timeout_spec_def Let_def lead_def)
qed

theorem handle_effect:
  assumes "log_wf (rlog k)" and "log_wf (rlog (new_state (handle x k)))"
  shows "effect x k (new_state (handle x k))"
proof (cases x)
  case (Receives frm msg)
  show ?thesis
  proof (cases msg)
    case (MAppendEntries ae)
    then show ?thesis using effect_append_entries [of k frm ae] assms Receives by simp
  next
    case (MClientReply r)
    then show ?thesis using Receives by (intro effect.else_quiet) simp_all
  qed (simp_all add: Receives effect_request_vote effect_vote_reply effect_append_reply effect_client_request)
next
  case ElectionTimer
  then show ?thesis by (simp add: effect_timeout)
next
  case HeartbeatTimer
  then show ?thesis by (intro effect.else_quiet) (simp_all add: heartbeat_spec_def)
qed

section \<open>Votes, messages and the disk\<close>

lemma vote_source:
  assumes "voted_for (new_state (handle x k)) = Some c"
  shows "voted_for k = Some c \<and> current_term (new_state (handle x k)) = current_term k
    \<or> x = ElectionTimer \<and> c = node_id k
    \<or> (\<exists>frm rv. x = Receives frm (MRequestVote rv) \<and> c = rv_candidate_id rv
        \<and> current_term (new_state (handle x k)) = rv_term rv \<and> up_to_date rv k)"
proof (cases x)
  case (Receives frm msg)
  have hard: "hard k' = hard (follow t l k) \<Longrightarrow> voted_for k' = Some c \<Longrightarrow> voted_for k = Some c \<and> current_term k' = current_term k"
    for k' t l by (auto simp: hard_def follow_def split: if_splits)
  show ?thesis
  proof (cases msg)
    case (MRequestVote rv)
    with assms Receives show ?thesis
      by (auto simp: request_vote_spec_def reply_vote_spec_def Let_def up_to_date_def follow_def split: if_splits)
  next
    case (MRequestVoteReply r)
    with assms Receives show ?thesis
      by (auto simp: request_vote_reply_spec_def Let_def follow_def lead_def split: if_splits)
  next
    case (MAppendEntries ae)
    show ?thesis
    proof (cases "ae_term ae < current_term k")
      case True
      with assms Receives MAppendEntries append_entries_stale [OF True, of frm] show ?thesis by simp
    next
      case False
      then have "hard (new_state (handle x k)) = hard (follow (ae_term ae) (Some (ae_leader_id ae)) k)"
        using append_entries_hard [of k ae frm] Receives MAppendEntries by simp
      from hard [OF this assms] show ?thesis by blast
    qed
  next
    case (MAppendEntriesReply r)
    show ?thesis
    proof (cases "current_term k < aer_term r")
      case True
      then have "hard (new_state (handle x k)) = hard (follow (aer_term r) None k)"
        using append_entries_reply_hard [of frm r k] Receives MAppendEntriesReply by simp
      from hard [OF this assms] show ?thesis by blast
    next
      case False
      with assms append_entries_reply_hard [of frm r k] Receives MAppendEntriesReply show ?thesis by (simp add: hard_def)
    qed
  next
    case (MClientRequest r)
    with assms Receives client_request_hard [of frm r k] show ?thesis by (simp add: hard_def)
  qed (use assms Receives in simp)
next
  case ElectionTimer
  with assms show ?thesis by (simp add: timeout_hard)
next
  case HeartbeatTimer
  with assms show ?thesis by (simp add: heartbeat_spec_def)
qed

text \<open>What a leader's message says of the log of the leader that sends it.\<close>

definition carries :: "rnode \<Rightarrow> NodeId \<Rightarrow> append_entries \<Rightarrow> bool" where
  "carries k p ae \<longleftrightarrow> role k = LEADER \<and> ae_term ae = current_term k \<and> ae_prev_log_index ae = next_for k p - 1
     \<and> ae_prev_log_term ae = trm (rlog k) (ae_prev_log_index ae)
     \<and> ae_entries ae = drop (nat (ae_prev_log_index ae)) (rlog k) \<and> ae_leader_commit ae \<le> commit_index k"

lemma replicate_carries:
  "MAppendEntries ae = replicate_msg k p \<Longrightarrow> role k = LEADER \<Longrightarrow> carries k p ae"
  "(to, MAppendEntries ae) \<in> set (replicate_all k) \<Longrightarrow> role k = LEADER \<Longrightarrow> carries k to ae"
  by (auto simp: carries_def replicate_all_def replicate_msg_def Let_def)

lemma carries_same:
  assumes "carries k p ae" and "same_protocol k' k" and "commit_index k \<le> commit_index k'"
  shows "carries k' p ae"
proof -
  have "next_for k' = next_for k" by (rule next_for_cong) (use assms(2) in \<open>simp_all add: same_protocol_def\<close>)
  with assms show ?thesis by (simp add: carries_def same_protocol_def)
qed

lemma only_replies_no: "only_replies ms \<Longrightarrow> (to, MAppendEntries ae) \<notin> set ms \<and> (to, MAppendEntriesReply r) \<notin> set ms
    \<and> (to, MRequestVote rv) \<notin> set ms"
  by (auto simp: only_replies_def)

lemma commit_grows: "role k = LEADER \<Longrightarrow> commit_index k \<le> commit_index (fst (advance_commit_spec k))"
  using advance_commit_rule [of k] by auto

lemma sent_entries:
  assumes "(to, MAppendEntries ae) \<in> set (sent_by (handle x k))" and "x = HeartbeatTimer \<Longrightarrow> role k = LEADER"
  shows "carries (new_state (handle x k)) to ae"
proof (cases x)
  case (Receives frm msg)
  show ?thesis
  proof (cases msg)
    case (MRequestVoteReply r)
    have "role (lead k0) = LEADER" for k0 by (simp add: lead_def)
    with assms(1) Receives MRequestVoteReply show ?thesis
      by (auto simp: request_vote_reply_spec_def Let_def split: if_splits dest!: replicate_carries(2))
  next
    case (MAppendEntries a)
    with assms(1) Receives apply_committed_same(2) only_replies_no show ?thesis
      by (auto simp: append_entries_spec_def Let_def case_prod_beta split: if_splits)
  next
    case (MAppendEntriesReply r)
    with assms(1) Receives advance_commit_same(2) only_replies_no show ?thesis
      by (auto simp: append_entries_reply_spec_def Let_def case_prod_beta split: if_splits intro: replicate_carries(1))
  next
    case (MClientRequest r)
    let ?e = "log_create (rlog k) (current_term k) (creq_command r)"
    let ?k1 = "k\<lparr>rlog := rlog k @ [?e], pending_clients := (pending_clients k)(le_index ?e \<mapsto> (frm, creq_request_id r))\<rparr>"
    from assms(1) Receives MClientRequest have r: "role k = LEADER"
      by (auto simp: client_request_spec_def split: if_splits)
    with assms(1) Receives MClientRequest advance_commit_same(2) only_replies_no
    have "(to, MAppendEntries ae) \<in> set (replicate_all ?k1)"
      by (auto simp: client_request_spec_def Let_def case_prod_beta)
    with r have "carries ?k1 to ae" by (intro replicate_carries(2)) simp_all
    from carries_same [OF this advance_commit_same(1) commit_grows] r Receives MClientRequest show ?thesis
      by (simp add: client_request_spec_def Let_def case_prod_beta)
  qed (use assms(1) Receives in \<open>auto simp: request_vote_spec_def reply_vote_spec_def Let_def split: if_splits\<close>)
next
  case ElectionTimer
  have "role (lead k0) = LEADER" for k0 by (simp add: lead_def)
  with assms(1) ElectionTimer show ?thesis
    by (auto simp: election_timeout_spec_def Let_def split: if_splits dest!: replicate_carries(2))
next
  case HeartbeatTimer
  with assms show ?thesis by (auto simp: heartbeat_spec_def intro: replicate_carries(2))
qed

lemma sent_request:
  assumes "(to, MRequestVote rv) \<in> set (sent_by (handle x k))"
  shows "let k' = new_state (handle x k) in role k' = CANDIDATE \<and> rv_term rv = current_term k'
    \<and> rv_last_log_index rv = last_index (rlog k') \<and> rv_last_log_term rv = last_term (rlog k')"
proof -
  have x: "x = ElectionTimer" using handle_sends [OF assms] by auto
  with assms show ?thesis by (auto simp: election_timeout_spec_def Let_def replicate_all_def replicate_msg_def split: if_splits)
qed

definition accepts :: "rnode \<Rightarrow> append_entries \<Rightarrow> bool" where
  "accepts k ae \<longleftrightarrow> current_term k \<le> ae_term ae \<and> has_entry (rlog k) (ae_prev_log_index ae)
     \<and> trm (rlog k) (ae_prev_log_index ae) = ae_prev_log_term ae"

lemma sent_success:
  assumes "(to, MAppendEntriesReply r) \<in> set (sent_by (handle x k))" and "aer_success r"
    and "log_wf (rlog k)" "log_wf (rlog (new_state (handle x k)))"
  obtains ae where "x = Receives to (MAppendEntries ae)" "accepts k ae" "aer_term r = ae_term ae"
    "current_term (new_state (handle x k)) = ae_term ae"
    "aer_match_index r = ae_prev_log_index ae + int (length (ae_entries ae))"
    "rlog (new_state (handle x k)) = merge_log (ae_prev_log_index ae + 1) (ae_entries ae) (rlog k)"
proof -
  from assms(1) obtain frm ae where x: "x = Receives frm (MAppendEntries ae)"
  proof (cases x)
    case (Receives frm msg)
    with assms(1) handle_sends [OF assms(1)] advance_commit_same(2) only_replies_no that show ?thesis
      by (cases msg) (auto simp: append_entries_reply_spec_def client_request_spec_def request_vote_spec_def reply_vote_spec_def
        request_vote_reply_spec_def replicate_all_def replicate_msg_def Let_def case_prod_beta split: if_splits)
  qed (auto simp: election_timeout_spec_def heartbeat_spec_def replicate_all_def replicate_msg_def Let_def split: if_splits)
  have a: "to = frm \<and> accepts k ae \<and> aer_term r = max (ae_term ae) (current_term k) \<and>
      aer_match_index r = ae_prev_log_index ae + int (length (ae_entries ae))"
    using assms(1,2) x apply_committed_same(2) only_replies_no
    by (auto simp: append_entries_spec_def accepts_def Let_def case_prod_beta follow_def split: if_splits)
  then have le: "current_term k \<le> ae_term ae" by (simp add: accepts_def)
  have "current_term (new_state (handle x k)) = ae_term ae"
    using append_entries_hard [OF le, of frm] le x by (simp add: hard_def follow_def split: if_splits)
  moreover have "rlog (new_state (handle x k)) = merge_log (ae_prev_log_index ae + 1) (ae_entries ae) (rlog k)"
    using append_entries_writes(1) [of k frm ae] assms(3,4) a x by (simp add: accepts_def)
  ultimately show thesis using a le x that by (simp add: max_def)
qed

section \<open>Well-formed logs\<close>

definition entries_wf :: "append_entries \<Rightarrow> bool" where
  "entries_wf ae \<longleftrightarrow> (\<forall>p < length (ae_entries ae). le_index (ae_entries ae ! p) = ae_prev_log_index ae + 1 + int p)"

lemma take_spec_wf:
  assumes "log_wf l" and "1 \<le> i" and "i \<le> int (length l) + 1" and "\<forall>p < length es. le_index (es ! p) = i + int p"
  shows "log_wf (fst (take_spec i es l))"
  using assms
proof (induction es arbitrary: i l)
  case Nil
  then show ?case by simp
next
  case (Cons e es)
  have e: "le_index e = i" and es: "\<forall>p < length es. le_index (es ! p) = i + 1 + int p"
    using Cons.prems(4) by (auto simp: All_less_Suc2)
  let ?l = "(if i \<le> last_index l then take (nat (i - 1)) l else l) @ [e]"
  have len: "int (length ?l) = i" using Cons.prems(1-3) by (auto simp: last_index_wf)
  moreover have "log_wf ?l" using len e Cons.prems(1) log_wf_take by (auto simp: log_wf_append_one split: if_splits)
  ultimately have "log_wf (fst (take_spec (i + 1) es ?l))" using Cons.prems(2) es by (intro Cons.IH) simp_all
  moreover have "log_wf (fst (take_spec (i + 1) es l))" if "i \<le> last_index l"
    using that Cons.prems(1,2) es by (intro Cons.IH) (simp_all add: last_index_wf)
  ultimately show ?case by (auto simp: take_spec.simps(2) case_prod_beta)
qed

lemma handle_log_wf:
  assumes wf: "log_wf (rlog k)" and ae: "\<And>frm ae. x = Receives frm (MAppendEntries ae) \<Longrightarrow> entries_wf ae"
  shows "log_wf (rlog (new_state (handle x k)))"
proof (cases x)
  case (Receives frm msg)
  show ?thesis
  proof (cases msg)
    case (MRequestVote rv)
    with wf Receives show ?thesis by (simp add: request_vote_spec_def reply_vote_spec_def Let_def)
  next
    case (MRequestVoteReply r)
    with wf Receives show ?thesis by (simp add: request_vote_reply_spec_def Let_def lead_def)
  next
    case (MAppendEntries a)
    show ?thesis
    proof (cases "accepts k a")
      case False
      then have "rlog (new_state (append_entries_spec frm a k)) = rlog k"
        by (auto simp: append_entries_spec_def accepts_def Let_def not_le)
      with wf Receives MAppendEntries show ?thesis by simp
    next
      case True
      have "rlog (new_state (append_entries_spec frm a k)) = fst (take_spec (ae_prev_log_index a + 1) (ae_entries a) (rlog k))"
        using True apply_committed_same(1)
        by (auto simp: append_entries_spec_def accepts_def Let_def case_prod_beta same_protocol_def)
      moreover have "log_wf (fst (take_spec (ae_prev_log_index a + 1) (ae_entries a) (rlog k)))"
        using ae [of frm a] True wf Receives MAppendEntries
        by (intro take_spec_wf) (auto simp: accepts_def has_entry_wf entries_wf_def)
      ultimately show ?thesis using Receives MAppendEntries by simp
    qed
  next
    case (MAppendEntriesReply r)
    have "same_protocol (fst (advance_commit_spec k0)) k0" for k0 by (rule advance_commit_same)
    then have "rlog (fst (advance_commit_spec k0)) = rlog k0" for k0 by (simp add: same_protocol_def)
    with wf Receives MAppendEntriesReply show ?thesis
      by (simp add: append_entries_reply_spec_def Let_def case_prod_beta)
  next
    case (MClientRequest r)
    have "same_protocol (fst (advance_commit_spec k0)) k0" for k0 by (rule advance_commit_same)
    then have "rlog (fst (advance_commit_spec k0)) = rlog k0" for k0 by (simp add: same_protocol_def)
    with wf Receives MClientRequest show ?thesis
      by (simp add: client_request_spec_def Let_def case_prod_beta log_wf_append_one log_create_def last_index_wf)
  qed (use wf Receives in simp)
next
  case ElectionTimer
  with wf show ?thesis by (simp add: election_timeout_spec_def Let_def lead_def)
next
  case HeartbeatTimer
  with wf show ?thesis by (simp add: heartbeat_spec_def)
qed

section \<open>The log on the platter\<close>

lemma wal_run_states: "(\<And>w. w \<in> set ws \<Longrightarrow> \<exists>st. w = WState st) \<Longrightarrow> rec_entries (wal_run ws r) = rec_entries r"
proof (induction ws arbitrary: r)
  case (Cons w ws)
  from Cons.prems obtain st where "w = WState st" by force
  with Cons show ?case by simp
qed simp

lemma platter_merging:
  fixes es :: "log_entry list" and st :: hard_state
  assumes l: "rec_entries r = l" and i: "1 \<le> i"
  defines "m \<equiv> matching i es l"
  defines "ws \<equiv> (if m < length es \<and> i + int m \<le> int (length l) then [WTruncate (i + int m)] else [])
      @ map WEntry (drop m es) @ [WState st]"
  shows "rec_entries (wal_run (take c ws) r) = l
    \<or> m < length es \<and> (\<exists>j. rec_entries (wal_run (take c ws) r) = take (nat (i - 1) + m) l @ take j (drop m es))"
proof -
  have state: "rec_entries (wal_run (take c' [WState st]) r') = rec_entries r'" for c' r' by (cases c') auto
  have run: "rec_entries (wal_run (take c' (map WEntry (drop m es) @ [WState st])) r')
      = rec_entries r' @ take c' (drop m es)" for c' r'
    by (simp add: take_map wal_run_entries state)
  show ?thesis
  proof (cases "m < length es \<and> i + int m \<le> int (length l)")
    case True
    have q: "nat (i + int m - 1) = nat (i - 1) + m" using i by (simp add: nat_diff_distrib nat_add_distrib)
    show ?thesis
    proof (cases c)
      case 0
      then show ?thesis using l by simp
    next
      case (Suc c')
      then have "rec_entries (wal_run (take c ws) r) = take (nat (i - 1) + m) l @ take c' (drop m es)"
        using True l i q run by (simp add: ws_def)
      with True show ?thesis by blast
    qed
  next
    case False
    then have r: "rec_entries (wal_run (take c ws) r) = l @ take c (drop m es)" using l run by (auto simp: ws_def)
    show ?thesis
    proof (cases "m < length es")
      case True
      then have "take (nat (i - 1) + m) l = l" using False i by auto
      with r True show ?thesis by auto
    next
      case False
      with r show ?thesis by simp
    qed
  qed
qed

lemma handle_platter_log:
  fixes c :: nat
  assumes d: "durable_as D k" and wf: "log_wf (rlog k)" "log_wf (rlog (new_state (handle x k)))"
  defines "r \<equiv> wal_run (D @ take c (written (handle x k))) init_recovered"
  shows "rec_entries r = rlog k
    \<or> rec_entries r = rlog (new_state (handle x k)) \<and> role (new_state (handle x k)) = LEADER \<and> hard (new_state (handle x k)) = hard k
    \<or> (\<exists>frm ae j. x = Receives frm (MAppendEntries ae) \<and> accepts k ae
        \<and> (let m = matching (ae_prev_log_index ae + 1) (ae_entries ae) (rlog k) in m < length (ae_entries ae)
            \<and> rec_entries r = take (nat (ae_prev_log_index ae) + m) (rlog k) @ take j (drop m (ae_entries ae))))"
proof -
  have r0: "rec_entries (wal_run D init_recovered) = rlog k" using d by (simp add: durable_as_def)
  have r: "r = wal_run (take c (written (handle x k))) (wal_run D init_recovered)" by (simp add: r_def)
  have states: ?thesis if "\<And>w. w \<in> set (written (handle x k)) \<Longrightarrow> \<exists>st. w = WState st"
    using wal_run_states [of "take c (written (handle x k))"] that r r0 in_set_takeD by metis
  show ?thesis
  proof (cases x)
    case (Receives frm msg)
    show ?thesis
    proof (cases msg)
      case (MRequestVote rv)
      show ?thesis by (rule states)
        (use Receives MRequestVote in \<open>auto simp: request_vote_spec_def reply_vote_spec_def Let_def split: if_splits\<close>)
    next
      case (MRequestVoteReply a)
      show ?thesis by (rule states)
        (use Receives MRequestVoteReply in \<open>auto simp: request_vote_reply_spec_def Let_def split: if_splits\<close>)
    next
      case (MAppendEntriesReply a)
      show ?thesis by (rule states)
        (use Receives MAppendEntriesReply in \<open>auto simp: append_entries_reply_spec_def Let_def case_prod_beta split: if_splits\<close>)
    next
      case (MAppendEntries ae)
      show ?thesis
      proof (cases "accepts k ae")
        case False
        show ?thesis by (rule states)
          (use False Receives MAppendEntries in \<open>auto simp: append_entries_spec_def accepts_def Let_def split: if_splits\<close>)
      next
        case True
        then have a: "ae_term ae \<ge> current_term k" "has_entry (rlog k) (ae_prev_log_index ae)"
          "trm (rlog k) (ae_prev_log_index ae) = ae_prev_log_term ae" and i: "1 \<le> ae_prev_log_index ae + 1"
          using wf(1) by (auto simp: accepts_def has_entry_wf)
        have "log_wf (rlog (new_state (append_entries_spec frm ae k)))" using wf(2) Receives MAppendEntries by simp
        note W = append_entries_writes(2) [OF wf(1) this a]
        have rw: "r = wal_run (take c (written (append_entries_spec frm ae k))) (wal_run D init_recovered)"
          unfolding r using Receives MAppendEntries by simp
        from platter_merging [OF r0 i, where es = "ae_entries ae" and c = c
            and st = "hard (follow (ae_term ae) (Some (ae_leader_id ae)) k)", folded W, folded rw]
        show ?thesis
        proof (elim disjE exE conjE)
          fix j
          assume m: "matching (ae_prev_log_index ae + 1) (ae_entries ae) (rlog k) < length (ae_entries ae)"
            and e: "rec_entries r = take (nat (ae_prev_log_index ae + 1 - 1) + matching (ae_prev_log_index ae + 1) (ae_entries ae) (rlog k))
              (rlog k) @ take j (drop (matching (ae_prev_log_index ae + 1) (ae_entries ae) (rlog k)) (ae_entries ae))"
          show ?thesis
            by (intro disjI2 exI [of _ frm] exI [of _ ae] exI [of _ j])
              (use True m e Receives MAppendEntries in \<open>simp add: Let_def\<close>)
        qed simp
      qed
    next
      case (MClientRequest q)
      show ?thesis
      proof (cases "role k = LEADER")
        case False
        then have "written (handle x k) = []" using Receives MClientRequest by (simp add: client_request_spec_def)
        then show ?thesis by (intro states) simp
      next
        case True
        let ?e = "log_create (rlog k) (current_term k) (creq_command q)"
        let ?k1 = "k\<lparr>rlog := rlog k @ [?e], pending_clients := (pending_clients k)(le_index ?e \<mapsto> (frm, creq_request_id q))\<rparr>"
        have "same_protocol (fst (advance_commit_spec ?k1)) ?k1" by (rule advance_commit_same)
        then have "rlog (new_state (handle x k)) = rlog k @ [?e]" "written (handle x k) = [WEntry ?e]"
          "role (new_state (handle x k)) = LEADER" "hard (new_state (handle x k)) = hard k"
          using True Receives MClientRequest
          by (simp_all add: client_request_spec_def Let_def case_prod_beta same_protocol_def hard_def)
        then show ?thesis unfolding r using r0 by (cases c) auto
      qed
    qed (use Receives in \<open>intro states, simp\<close>)
  next
    case ElectionTimer
    show ?thesis by (rule states) (use ElectionTimer in \<open>auto simp: election_timeout_spec_def Let_def split: if_splits\<close>)
  next
    case HeartbeatTimer
    show ?thesis by (rule states) (use HeartbeatTimer in \<open>simp add: heartbeat_spec_def\<close>)
  qed
qed

end
