(* ===== verification/Cluster_Logs.thy ===== *)
theory Cluster_Logs
  imports Node_Effects
begin

text \<open>
  The logs of a reachable cluster: an entry of term \<open>t\<close> anywhere was put there by the one leader of \<open>t\<close>, with the
  log in front of it (\<open>justified\<close>), so logs that hold an entry of the same term at an index agree up to it. The
  invariant says besides what messages quote, what a leader may believe of its followers, and that a candidate
  whose log runs ahead of its term cannot win. It holds for crashes in the middle of writing, and for tampered
  vote requests.
\<close>

declare block.simps [simp del]

section \<open>Leaders' logs\<close>

type_synonym states = "(NodeId \<times> rnode) set"

definition leads :: "states \<Rightarrow> Term \<Rightarrow> raft_log \<Rightarrow> bool" where
  "leads S t l \<longleftrightarrow> (\<exists>(n, k) \<in> S. role k = LEADER \<and> current_term k = t \<and> rlog k = l)"

definition justified :: "states \<Rightarrow> raft_log \<Rightarrow> bool" where
  "justified S l \<longleftrightarrow> (\<forall>p < length l. \<exists>l'. leads S (le_term (l ! p)) l' \<and> same_upto (Suc p) l l')"

definition chained :: "states \<Rightarrow> bool" where
  "chained S \<longleftrightarrow> (\<forall>t a b. leads S t a \<longrightarrow> leads S t b \<longrightarrow> comparable a b)"

definition ordered :: "states \<Rightarrow> bool" where
  "ordered S \<longleftrightarrow> (\<forall>t l. leads S t l \<longrightarrow> sorted (map le_term l) \<and> (\<forall>e \<in> set l. le_term e \<le> t))"

lemma leadsI: "(n, k) \<in> S \<Longrightarrow> role k = LEADER \<Longrightarrow> leads S (current_term k) (rlog k)"
  by (auto simp: leads_def)

lemma leads_mono: "leads S t l \<Longrightarrow> S \<subseteq> S' \<Longrightarrow> leads S' t l"
  by (auto simp: leads_def)

lemma leads_insert: "leads (insert (n, k) S) t l \<longleftrightarrow> leads S t l \<or> role k = LEADER \<and> current_term k = t \<and> rlog k = l"
  by (auto simp: leads_def)

lemma justified_mono: "justified S l \<Longrightarrow> S \<subseteq> S' \<Longrightarrow> justified S' l"
  unfolding justified_def using leads_mono by blast

lemma justified_Nil [simp]: "justified S []"
  by (simp add: justified_def)

lemma justified_prefix:
  assumes "justified S l" and "prefix l' l"
  shows "justified S l'"
  unfolding justified_def
proof (intro allI impI)
  fix p assume p: "p < length l'"
  have same: "same_upto (Suc p) l' l" using prefix_same_upto [OF assms(2)] p by simp
  then have "p < length l" "l' ! p = l ! p" using same_upto_nth [OF same] by (auto simp: same_upto_def)
  with assms(1) same same_upto_trans show "\<exists>x. leads S (le_term (l' ! p)) x \<and> same_upto (Suc p) l' x"
    unfolding justified_def by metis
qed

lemma justified_snoc: "justified S l \<Longrightarrow> leads S (le_term e) (l @ [e]) \<Longrightarrow> justified S (l @ [e])"
  unfolding justified_def
proof (intro allI impI)
  fix p assume j: "\<forall>p < length l. \<exists>l'. leads S (le_term (l ! p)) l' \<and> same_upto (Suc p) l l'"
    and e: "leads S (le_term e) (l @ [e])" and p: "p < length (l @ [e])"
  show "\<exists>l'. leads S (le_term ((l @ [e]) ! p)) l' \<and> same_upto (Suc p) (l @ [e]) l'"
  proof (cases "p < length l")
    case True
    with j obtain l' where "leads S (le_term (l ! p)) l'" "same_upto (Suc p) l l'" by blast
    with True show ?thesis by (auto simp: nth_append same_upto_def)
  next
    case False
    with p have "p = length l" by simp
    with e show ?thesis using same_upto_refl [of "Suc p" "l @ [e]"] by auto
  qed
qed

lemma justified_matching:
  assumes "chained S" and "justified S a" and "justified S b"
  shows "matching_logs a b"
  unfolding matching_logs_def
proof (intro allI impI)
  fix p assume p: "p < length a" "p < length b" "le_term (a ! p) = le_term (b ! p)"
  with assms(2,3) obtain x y where "leads S (le_term (a ! p)) x" "same_upto (Suc p) a x"
    "leads S (le_term (a ! p)) y" "same_upto (Suc p) b y" unfolding justified_def by metis
  moreover from this assms(1) have "comparable x y" by (auto simp: chained_def)
  ultimately show "same_upto (Suc p) a b"
    using comparable_same [of x y "Suc p"] same_upto_sym same_upto_trans by (metis same_upto_def)
qed

lemma justified_last:
  assumes "justified S l" and "l \<noteq> []"
  obtains x where "leads S (le_term (last l)) x" "prefix l x"
proof -
  from assms obtain x where "leads S (le_term (l ! (length l - 1))) x" "same_upto (Suc (length l - 1)) l x"
    unfolding justified_def by (metis diff_less length_greater_0_conv zero_less_one)
  with assms(2) same_upto_whole show thesis by (intro that [of x]) (simp_all add: last_conv_nth)
qed

lemma justified_sorted:
  assumes "ordered S" and "justified S l"
  shows "sorted (map le_term l)"
proof (cases "l = []")
  case False
  obtain x where "leads S (le_term (last l)) x" "prefix l x" by (rule justified_last [OF assms(2) False])
  with assms(1) have "sorted (map le_term x)" by (simp add: ordered_def)
  with \<open>prefix l x\<close> show ?thesis by (auto simp: prefix_def sorted_append)
qed simp

lemma chained_insert:
  "chained S \<Longrightarrow> (\<And>b. role k = LEADER \<Longrightarrow> leads S (current_term k) b \<Longrightarrow> comparable b (rlog k)) \<Longrightarrow> chained (insert (n, k) S)"
  unfolding chained_def leads_insert using comparable_sym by (auto simp: comparable_def)

lemma ordered_insert:
  "ordered S \<Longrightarrow> (role k = LEADER \<Longrightarrow> sorted (map le_term (rlog k)) \<and> (\<forall>e \<in> set (rlog k). le_term e \<le> current_term k)) \<Longrightarrow>
     ordered (insert (n, k) S)"
  unfolding ordered_def leads_insert by blast

section \<open>The invariant\<close>

definition seen :: "cluster \<Rightarrow> states" where
  "seen s = past s \<union> tried s"

definition logs_just :: "NodeId list \<Rightarrow> cluster \<Rightarrow> bool" where
  "logs_just ids s \<longleftrightarrow>
     (\<forall>(n, k) \<in> seen s. n \<in> set ids \<and> node_id k = n \<and> log_wf (rlog k) \<and> justified (seen s) (rlog k))
   \<and> (\<forall>n \<in> set ids. \<forall>i. justified (seen s) (rec_entries (platter s n i)))"

text \<open>A running candidate or leader has the longest log it has had in the role, and a leader does not go back.\<close>

definition standing :: "NodeId list \<Rightarrow> cluster \<Rightarrow> bool" where
  "standing ids s \<longleftrightarrow> (\<forall>n \<in> set ids. \<forall>j. running (node_at s n) \<longrightarrow> role (node_at s n) \<noteq> FOLLOWER \<longrightarrow>
     (n, j) \<in> seen s \<longrightarrow> role j \<noteq> FOLLOWER \<longrightarrow> current_term j = current_term (node_at s n) \<longrightarrow>
       prefix (rlog j) (rlog (node_at s n)) \<and> (role j = LEADER \<longrightarrow> role (node_at s n) = LEADER))"

definition bids :: "cluster \<Rightarrow> bool" where
  "bids s \<longleftrightarrow> (\<forall>c j1 j2. (c, j1) \<in> seen s \<longrightarrow> (c, j2) \<in> seen s \<longrightarrow> role j1 = CANDIDATE \<longrightarrow> role j2 \<noteq> FOLLOWER \<longrightarrow>
     current_term j1 = current_term j2 \<longrightarrow> prefix (rlog j1) (rlog j2))"

text \<open>A majority that will not vote for \<open>c\<close> in \<open>t\<close> any more.\<close>

definition blocked :: "NodeId list \<Rightarrow> cluster \<Rightarrow> Term \<Rightarrow> NodeId \<Rightarrow> bool" where
  "blocked ids s t c \<longleftrightarrow> (\<exists>R. majority_of ids R \<and> (\<forall>f \<in> R. \<not> cast s f t c
     \<and> (\<exists>k. (f, k) \<in> past s \<and> (t < current_term k \<or> current_term k = t \<and> voted_for k \<noteq> None))))"

definition behind :: "NodeId list \<Rightarrow> cluster \<Rightarrow> rnode \<Rightarrow> bool" where
  "behind ids s k \<longleftrightarrow> (\<forall>e \<in> set (rlog k). le_term e < current_term k \<or> blocked ids s (current_term k) (node_id k))"

definition all_behind :: "NodeId list \<Rightarrow> cluster \<Rightarrow> bool" where
  "all_behind ids s \<longleftrightarrow> (\<forall>(c, k) \<in> past s. role k = CANDIDATE \<longrightarrow> behind ids s k)"

definition backed :: "NodeId list \<Rightarrow> cluster \<Rightarrow> bool" where
  "backed ids s \<longleftrightarrow> (\<forall>f t c. cast s f t c \<longrightarrow> cast s c t c)
     \<and> (\<forall>n \<in> set ids. \<forall>i c. hs_voted_for (rec_state (platter s n i)) = Some c \<longrightarrow>
          c = n \<or> cast s c (hs_current_term (rec_state (platter s n i))) c)"

definition quotes :: "rnode \<Rightarrow> append_entries \<Rightarrow> bool" where
  "quotes k ae \<longleftrightarrow> role k = LEADER \<and> ae_term ae = current_term k \<and> 0 \<le> ae_prev_log_index ae
     \<and> ae_prev_log_index ae \<le> int (length (rlog k)) \<and> ae_prev_log_term ae = trm (rlog k) (ae_prev_log_index ae)
     \<and> ae_entries ae = drop (nat (ae_prev_log_index ae)) (rlog k) \<and> ae_leader_commit ae \<le> commit_index k"

definition asks :: "rnode \<Rightarrow> request_vote \<Rightarrow> bool" where
  "asks k rv \<longleftrightarrow> role k = CANDIDATE \<and> rv_term rv = current_term k \<and> rv_last_log_index rv = last_index (rlog k)
     \<and> rv_last_log_term rv = last_term (rlog k)"

definition holds_upto :: "cluster \<Rightarrow> NodeId \<Rightarrow> Term \<Rightarrow> int \<Rightarrow> raft_log \<Rightarrow> bool" where
  "holds_upto s f t i l \<longleftrightarrow> 0 \<le> i \<and> (\<exists>k. (f, k) \<in> past s \<and> current_term k = t \<and> same_upto (nat i) (rlog k) l)"

definition truthful :: "cluster \<Rightarrow> NodeId \<Rightarrow> message \<Rightarrow> bool" where
  "truthful s f m \<longleftrightarrow> (case m of
      MAppendEntries ae \<Rightarrow> \<exists>k. (f, k) \<in> past s \<and> quotes k ae
    | MRequestVote rv \<Rightarrow> \<exists>k. (f, k) \<in> past s \<and> asks k rv
    | MAppendEntriesReply r \<Rightarrow> aer_success r \<longrightarrow>
        (\<exists>l. leads (seen s) (aer_term r) l \<and> holds_upto s f (aer_term r) (aer_match_index r) l)
    | _ \<Rightarrow> True)"

definition told :: "cluster \<Rightarrow> bool" where
  "told s \<longleftrightarrow> (\<forall>(f, to, m) \<in> sent s. truthful s f m)"

definition book_ok :: "cluster \<Rightarrow> rnode \<Rightarrow> bool" where
  "book_ok s k \<longleftrightarrow> (\<forall>p. 1 \<le> next_for k p \<and> next_for k p \<le> int (length (rlog k)) + 1
     \<and> (match_for k p = 0 \<or> holds_upto s p (current_term k) (match_for k p) (rlog k)))"

definition books :: "cluster \<Rightarrow> bool" where
  "books s \<longleftrightarrow> (\<forall>(n, k) \<in> past s. role k = LEADER \<longrightarrow> book_ok s k)"

definition attempts :: "NodeId list \<Rightarrow> cluster \<Rightarrow> bool" where
  "attempts ids s \<longleftrightarrow> (\<forall>(n, k) \<in> tried s. role k = LEADER \<and> role_fine ids (cast s) k
     \<and> (\<exists>j. (n, j) \<in> past s \<and> hard j = hard k))"

definition clocks :: "NodeId list \<Rightarrow> cluster \<Rightarrow> bool" where
  "clocks ids s \<longleftrightarrow> (\<forall>n \<in> set ids. \<exists>k. (n, k) \<in> past s)
     \<and> (\<forall>(n, k) \<in> past s. 0 \<le> current_term k \<and> (role k \<noteq> FOLLOWER \<longrightarrow> 1 \<le> current_term k))"

definition logs_inv :: "NodeId list \<Rightarrow> cluster \<Rightarrow> bool" where
  "logs_inv ids s \<longleftrightarrow> logs_just ids s \<and> chained (seen s) \<and> ordered (seen s) \<and> standing ids s \<and> bids s \<and> all_behind ids s
     \<and> backed ids s \<and> told s \<and> books s \<and> attempts ids s \<and> clocks ids s"

section \<open>What it gives\<close>

lemma node_now:
  assumes "cluster_inv ids s" and "n \<in> set ids" and "running (node_at s n)"
  shows "node_id (node_at s n) = n" "log_wf (rlog (node_at s n))" "unsynced s n = []" "durable_as (wal s n) (node_at s n)"
    "(n, node_at s n) \<in> past s" "platter s n i = \<lparr>rec_state = hard (node_at s n), rec_entries = rlog (node_at s n)\<rparr>"
    "(n, p) \<in> past s \<Longrightarrow> vote_kept (hard p) (hard (node_at s n))" "peers (node_at s n) = peers_of ids n"
proof -
  have nf: "node_fine ids s n" using assms by (simp add: cluster_inv_def)
  with assms(3) show "node_id (node_at s n) = n" "log_wf (rlog (node_at s n))" "unsynced s n = []"
    "durable_as (wal s n) (node_at s n)" "(n, node_at s n) \<in> past s" "peers (node_at s n) = peers_of ids n"
    by (simp_all add: node_fine_def Let_def)
  then show pl: "platter s n i = \<lparr>rec_state = hard (node_at s n), rec_entries = rlog (node_at s n)\<rparr>" for i
    by (simp add: platter_def durable_as_def)
  show "(n, p) \<in> past s \<Longrightarrow> vote_kept (hard p) (hard (node_at s n))"
    using nf pl [of 0] by (auto simp: node_fine_def Let_def dest!: spec [of _ 0])
qed

lemma past_kept: "cluster_inv ids s \<Longrightarrow> n \<in> set ids \<Longrightarrow> (n, p) \<in> past s \<Longrightarrow> vote_kept (hard p) (rec_state (platter s n i))"
  by (simp add: cluster_inv_def node_fine_def Let_def)

lemma seen_role_fine:
  assumes "cluster_inv ids s" and "attempts ids s" and "(n, k) \<in> seen s"
  shows "role_fine ids (cast s) k"
  using assms by (auto simp: seen_def cluster_inv_def past_fine_def attempts_def)

lemma leader_unique:
  assumes inv: "cluster_inv ids s" "attempts ids s" "logs_just ids s"
    and "(a, k) \<in> seen s" "role k = LEADER" "(b, l) \<in> seen s" "role l = LEADER" "current_term k = current_term l"
  shows "a = b"
proof -
  have "node_id k = a" "node_id l = b" using inv(3) assms(4,6) by (auto simp: logs_just_def)
  then obtain Q R where Q: "majority_of ids Q" "\<forall>p \<in> Q. cast s p (current_term k) a"
    and R: "majority_of ids R" "\<forall>p \<in> R. cast s p (current_term k) b"
    using seen_role_fine [OF inv(1,2) assms(4)] seen_role_fine [OF inv(1,2) assms(6)] assms(5,7,8)
    unfolding role_fine_def by auto
  obtain p where "p \<in> Q" "p \<in> R" by (rule majorities.witness [OF Q(1) R(1)])
  with Q R inv(1) show ?thesis by (auto simp: cluster_inv_def one_vote_def)
qed

lemma seen_term:
  assumes "cluster_inv ids s" and "attempts ids s" and "n \<in> set ids" and "(n, j) \<in> seen s"
  shows "current_term j \<le> hs_current_term (rec_state (platter s n i))"
proof -
  from assms(2,4) obtain j' where "(n, j') \<in> past s" "hard j' = hard j" by (fastforce simp: seen_def attempts_def)
  with past_kept [OF assms(1,3)] show ?thesis by (fastforce simp: vote_kept_def hard_def)
qed

lemma blocked_loses:
  assumes "blocked ids s t c" and "majority_of ids Q" and "\<forall>p \<in> Q. cast s p t c"
  shows False
proof -
  from assms(1) obtain R where R: "majority_of ids R" "\<forall>f \<in> R. \<not> cast s f t c" by (auto simp: blocked_def)
  obtain p where "p \<in> Q" "p \<in> R" by (rule majorities.witness [OF assms(2) R(1)])
  with R assms(3) show False by blast
qed

end
