(* ===== verification/Logs_Kept.thy ===== *)
theory Logs_Kept
  imports Cluster_Logs
begin

text \<open>
  The invariant of \<open>Cluster_Logs\<close> is kept by every step of the cluster. First what an event makes of one node,
  by the effects of \<open>Node_Effects\<close>, then the four steps: completing an event, failing in it, restarting from what
  is on the platter, and the steps that leave logs alone.
\<close>

declare block.simps [simp del]

section \<open>One node's event\<close>

definition event :: "NodeId list \<Rightarrow> (message \<Rightarrow> message) \<Rightarrow> cluster \<Rightarrow> NodeId \<Rightarrow> stimulus \<Rightarrow> bool" where
  "event ids mut s n x \<longleftrightarrow> cluster_inv ids s \<and> logs_inv ids s \<and> ids_ok ids \<and> mut_ok mut \<and> n \<in> set ids
     \<and> running (node_at s n) \<and> due mut s n x"

lemma eventD:
  assumes "event ids mut s n x"
  shows "cluster_inv ids s" "logs_inv ids s" "ids_ok ids" "mut_ok mut" "n \<in> set ids" "running (node_at s n)" "due mut s n x"
    "logs_just ids s" "chained (seen s)" "ordered (seen s)" "standing ids s" "bids s" "all_behind ids s" "backed ids s"
    "told s" "books s" "attempts ids s" "clocks ids s"
    "(n, node_at s n) \<in> past s" "(n, node_at s n) \<in> seen s" "log_wf (rlog (node_at s n))"
    "justified (seen s) (rlog (node_at s n))" "node_id (node_at s n) = n"
proof -
  show *: "cluster_inv ids s" "logs_inv ids s" "ids_ok ids" "mut_ok mut" "n \<in> set ids" "running (node_at s n)" "due mut s n x"
    "logs_just ids s" "chained (seen s)" "ordered (seen s)" "standing ids s" "bids s" "all_behind ids s" "backed ids s"
    "told s" "books s" "attempts ids s" "clocks ids s"
    using assms by (auto simp: event_def logs_inv_def)
  show "(n, node_at s n) \<in> past s" "log_wf (rlog (node_at s n))" "node_id (node_at s n) = n"
    using node_now [OF *(1,5,6)] by blast+
  then show "(n, node_at s n) \<in> seen s" by (simp add: seen_def)
  with *(8) show "justified (seen s) (rlog (node_at s n))" unfolding logs_just_def by blast
qed

lemma past_seen: "(n, k) \<in> past s \<Longrightarrow> (n, k) \<in> seen s"
  by (simp add: seen_def)

lemma due_truthful:
  assumes "told s" and "mut_ok mut" and "due mut s n (Receives frm msg)" and "\<And>rv. msg \<noteq> MRequestVote rv"
  shows "truthful s frm msg"
proof -
  from assms(3) obtain m where m: "(frm, n, m) \<in> sent s" "msg = mut m" by auto
  have "mut m = m"
    using assms(2,4) m(2) unfolding mut_ok_def by metis
  with m assms(1) show ?thesis by (auto simp: told_def)
qed

lemma due_asked:
  assumes "told s" and "mut_ok mut" and "due mut s n (Receives frm (MRequestVote rv))"
  obtains k where "(frm, k) \<in> past s" "role k = CANDIDATE" "current_term k = rv_term rv"
proof -
  from assms(3) obtain m where m: "(frm, n, m) \<in> sent s" "MRequestVote rv = mut m" by auto
  from assms(2) have "mut m = m \<or> (\<exists>rv' i t. m = MRequestVote rv' \<and> mut m = MRequestVote (RequestVote (rv_term rv') (rv_candidate_id rv') i t))"
    by (simp add: mut_ok_def)
  then obtain rv' where "m = MRequestVote rv'" "rv_term rv' = rv_term rv" using m(2) by (cases m) auto
  with m(1) assms(1) that show thesis by (fastforce simp: told_def truthful_def asks_def)
qed

text \<open>The entries a leader's message brings, against the log they meet.\<close>

lemma event_quote:
  assumes "event ids mut s n (Receives frm (MAppendEntries ae))"
  obtains k0 where "(frm, k0) \<in> past s" "quotes k0 ae" "leads (seen s) (ae_term ae) (rlog k0)"
    "log_wf (rlog k0)" "justified (seen s) (rlog k0)" "matching_logs (rlog (node_at s n)) (rlog k0)"
proof -
  note E = eventD [OF assms]
  from due_truthful [OF E(15,4,7)] obtain k0 where k0: "(frm, k0) \<in> past s" "quotes k0 ae"
    by (auto simp: truthful_def)
  then have "leads (seen s) (ae_term ae) (rlog k0)" using leadsI [OF past_seen] by (fastforce simp: quotes_def)
  moreover have "log_wf (rlog k0)" "justified (seen s) (rlog k0)"
    using E(8) past_seen [OF k0(1)] by (auto simp: logs_just_def)
  ultimately show thesis using that k0 justified_matching [OF E(9,22)] by blast
qed

lemma quote_prev:
  assumes "quotes k0 ae" and "accepts k ae" and "log_wf (rlog k)" and "matching_logs (rlog k) (rlog k0)"
  shows "same_upto (nat (ae_prev_log_index ae)) (rlog k) (rlog k0)"
  by (rule matching_prev [OF assms(4)]) (use assms(1-3) in \<open>auto simp: quotes_def accepts_def has_entry_wf\<close>)

lemma quote_merge:
  assumes "quotes k0 ae" and "accepts k ae" and "log_wf (rlog k)" and "matching_logs (rlog k) (rlog k0)"
  defines "l \<equiv> merge_log (ae_prev_log_index ae + 1) (ae_entries ae) (rlog k)"
  shows "between (rlog k) (rlog k0) l" and "prefix (rlog k0) l"
proof -
  have "ae_prev_log_index ae = int (nat (ae_prev_log_index ae))" using assms(1) by (simp add: quotes_def)
  then have l: "l = merge_log (int (nat (ae_prev_log_index ae)) + 1) (drop (nat (ae_prev_log_index ae)) (rlog k0)) (rlog k)"
    using assms(1) by (simp add: l_def quotes_def)
  from merge_log_matching [OF assms(4) quote_prev [OF assms(1-4)]]
  show "between (rlog k) (rlog k0) l" "prefix (rlog k0) l" by (auto simp: l between_def)
qed

lemma quote_partial:
  assumes "quotes k0 ae" and "accepts k ae" and "log_wf (rlog k)" and "matching_logs (rlog k) (rlog k0)"
  defines "m \<equiv> matching (ae_prev_log_index ae + 1) (ae_entries ae) (rlog k)"
  assumes "m < length (ae_entries ae)"
  shows "between (rlog k) (rlog k0) (take (nat (ae_prev_log_index ae) + m) (rlog k) @ take j (drop m (ae_entries ae)))"
proof -
  let ?n = "nat (ae_prev_log_index ae)"
  have e: "ae_entries ae = drop ?n (rlog k0)" "ae_prev_log_index ae = int ?n" using assms(1) by (simp_all add: quotes_def)
  have m: "m = matching (int ?n + 1) (drop ?n (rlog k0)) (rlog k)" unfolding m_def e(1) using e(2) by simp
  note prev = quote_prev [OF assms(1-4)]
  have run: "same_upto (?n + m) (rlog k) (rlog k0)"
      "m < length (rlog k0) - ?n \<Longrightarrow> ?n + m < length (rlog k) \<Longrightarrow> le_term (rlog k ! (?n + m)) \<noteq> le_term (rlog k0 ! (?n + m))"
    unfolding m using matching_run [OF assms(4) prev] by blast+
  have lt: "m < length (rlog k0) - ?n" using assms(6) e by simp
  have "take (?n + m) (rlog k) @ take j (drop m (ae_entries ae)) = take (?n + m + j) (rlog k0)"
    using run(1) unfolding e(1) same_upto_def take_add [of "?n + m" j] drop_drop by (simp add: add.commute)
  moreover have "common (?n + m) (rlog k) (rlog k0)" using run lt by (simp add: common_def)
  ultimately show ?thesis using lt unfolding between_def
    by (intro disjI2 exI [of _ "?n + m"] exI [of _ "?n + m + j"]) simp
qed

lemma between_justified: "between l b x \<Longrightarrow> justified S l \<Longrightarrow> justified S b \<Longrightarrow> justified S x"
  using justified_prefix take_is_prefix unfolding between_def by blast

lemma event_wf:
  assumes "event ids mut s n x"
  shows "log_wf (rlog (new_state (handle x (node_at s n))))"
proof (rule handle_log_wf [OF eventD(21) [OF assms]])
  fix frm ae assume x: "x = Receives frm (MAppendEntries ae)"
  obtain k0 where "quotes k0 ae" "log_wf (rlog k0)" by (rule event_quote [OF assms [unfolded x]])
  then show "entries_wf ae" by (auto simp: entries_wf_def quotes_def log_wf_def)
qed

lemma event_effect:
  assumes "event ids mut s n x"
  shows "effect x (node_at s n) (new_state (handle x (node_at s n)))"
  by (rule handle_effect [OF eventD(21) [OF assms] event_wf [OF assms]])

lemma seen_before:
  assumes "event ids mut s n x" and "(n, j) \<in> seen s"
  shows "current_term j \<le> current_term (node_at s n)"
proof -
  note E = eventD [OF assms(1)]
  have "platter s n 0 = \<lparr>rec_state = hard (node_at s n), rec_entries = rlog (node_at s n)\<rparr>" by (rule node_now(6) [OF E(1,5,6)])
  with seen_term [OF E(1,17,5) assms(2), of 0] show ?thesis by (simp add: hard_def)
qed

text \<open>A node that times out into a term its log is ahead of cannot win it.\<close>

lemma timeout_behind:
  assumes e: "event ids mut s n ElectionTimer" and t: "t = current_term (node_at s n) + 1"
    and x: "x \<in> set (rlog (node_at s n))"
  shows "le_term x < t \<or> blocked ids s t n"
proof (rule disjCI)
  assume nb: "\<not> blocked ids s t n"
  note E = eventD [OF e]
  show "le_term x < t"
  proof (rule ccontr)
    assume "\<not> le_term x < t"
    then have ge: "t \<le> le_term x" by simp
    from x obtain p where "p < length (rlog (node_at s n))" "rlog (node_at s n) ! p = x" by (auto simp: in_set_conv_nth)
    with E(22) obtain l where "leads (seen s) (le_term x) l" by (auto simp: justified_def)
    then obtain m k where k: "(m, k) \<in> seen s" "role k = LEADER" "current_term k = le_term x" by (auto simp: leads_def)
    then have m: "node_id k = m" "m \<noteq> n" using E(8) seen_before [OF e, of k] ge t by (auto simp: logs_just_def)
    with seen_role_fine [OF E(1,17) k(1)] k obtain R where R: "majority_of ids R" "\<forall>f \<in> R. cast s f (le_term x) m"
      by (auto simp: role_fine_def)
    have no: "\<not> cast s f t n" for f
    proof
      assume "cast s f t n"
      then have "cast s n t n" using E(14) by (simp add: backed_def)
      then obtain j where "(n, j) \<in> past s" "current_term j = t" by (auto simp: cast_def)
      with seen_before [OF e, of j] t show False by (simp add: seen_def)
    qed
    have "\<exists>j. (f, j) \<in> past s \<and> (t < current_term j \<or> current_term j = t \<and> voted_for j \<noteq> None)" if "f \<in> R" for f
      using R(2) that ge by (fastforce simp: cast_def)
    with R(1) no have "blocked ids s t n" by (auto simp: blocked_def)
    with nb show False by simp
  qed
qed

lemma event_behind:
  assumes e: "event ids mut s n x"
  defines "k' \<equiv> new_state (handle x (node_at s n))"
  assumes "role k' = CANDIDATE"
  shows "behind ids s k'"
proof -
  note E = eventD [OF e]
  have id: "node_id k' = n" using handle_ids E(23) by (simp add: k'_def)
  from event_effect [OF e] assms(3) show ?thesis
    unfolding k'_def [symmetric]
  proof (cases rule: effect.cases)
    case times_out
    with timeout_behind [of ids mut s n] e id show ?thesis by (auto simp: behind_def)
  next
    case else_quiet
    with E(13,19) assms(3) have "behind ids s (node_at s n)" by (auto simp: all_behind_def)
    with else_quiet assms(3) id E(23) show ?thesis by (auto simp: behind_def)
  qed simp_all
qed

lemma event_standing:
  assumes e: "event ids mut s n x"
  defines "k' \<equiv> new_state (handle x (node_at s n))"
  assumes "role k' \<noteq> FOLLOWER" and j: "(n, j) \<in> seen s" "role j \<noteq> FOLLOWER" "current_term j = current_term k'"
  shows "prefix (rlog j) (rlog k') \<and> (role j = LEADER \<longrightarrow> role k' = LEADER)"
proof -
  note E = eventD [OF e]
  let ?k = "node_at s n"
  have st: "prefix (rlog j) (rlog ?k) \<and> (role j = LEADER \<longrightarrow> role ?k = LEADER)"
    if "role ?k \<noteq> FOLLOWER" "current_term ?k = current_term k'"
    using E(5,6,11) that j by (auto simp: standing_def)
  from event_effect [OF e] assms(3) show ?thesis
    unfolding k'_def [symmetric]
  proof (cases rule: effect.cases)
    case times_out
    with seen_before [OF e j(1)] j(3) show ?thesis by simp
  next
    case (else_quiet)
    with st assms(3) show ?thesis by auto
  qed (use st in \<open>auto simp: hard_def\<close>)
qed

lemma event_leads:
  assumes e: "event ids mut s n x"
  defines "k' \<equiv> new_state (handle x (node_at s n))"
  assumes "role k' = LEADER" and l: "leads (seen s) (current_term k') b"
    and u: "\<And>m j. (m, j) \<in> seen s \<Longrightarrow> role j = LEADER \<Longrightarrow> current_term j = current_term k' \<Longrightarrow> m = n"
  shows "prefix b (rlog k')"
proof -
  from l obtain m j where j: "(m, j) \<in> seen s" "role j = LEADER" "current_term j = current_term k'" "rlog j = b"
    by (auto simp: leads_def)
  with u have "(n, j) \<in> seen s" by blast
  from event_standing [OF e _ this] j assms(3) show ?thesis by (auto simp: k'_def)
qed

lemma event_ordered:
  assumes e: "event ids mut s n x"
  defines "k' \<equiv> new_state (handle x (node_at s n))"
  assumes lead: "role k' = LEADER" and nb: "\<not> blocked ids s (current_term k') n"
  shows "sorted (map le_term (rlog k')) \<and> (\<forall>e \<in> set (rlog k'). le_term e \<le> current_term k')"
proof -
  note E = eventD [OF e]
  let ?k = "node_at s n"
  have srt: "sorted (map le_term (rlog ?k))" by (rule justified_sorted [OF E(10,22)])
  have old: "\<forall>e \<in> set (rlog ?k). le_term e \<le> current_term ?k" if "role ?k = LEADER"
    using E(10) leadsI [OF E(20) that] by (auto simp: ordered_def)
  from event_effect [OF e] show ?thesis
    unfolding k'_def [symmetric]
  proof (cases rule: effect.cases)
    case times_out
    with timeout_behind [of ids mut s n "current_term k'"] e nb srt show ?thesis by fastforce
  next
    case wins
    then have "behind ids s ?k" using E(13,19) by (auto simp: all_behind_def)
    with wins nb srt E(23) show ?thesis by (fastforce simp: behind_def hard_def)
  next
    case appends
    with srt old show ?thesis by (auto simp: sorted_append hard_def)
  next
    case merges
    with lead show ?thesis by simp
  next
    case counts
    with srt old show ?thesis by (auto simp: hard_def)
  next
    case else_quiet
    with srt old lead show ?thesis by auto
  qed
qed

lemma event_justified:
  assumes e: "event ids mut s n x"
  defines "k' \<equiv> new_state (handle x (node_at s n))"
  shows "justified (insert (n, k') (seen s)) (rlog k')"
proof -
  note E = eventD [OF e]
  have mono: "justified (seen s) l \<Longrightarrow> justified (insert (n, k') (seen s)) l" for l
    by (rule justified_mono) auto
  from event_effect [OF e] show ?thesis
    unfolding k'_def [symmetric]
  proof (cases rule: effect.cases)
    case (appends e frm r)
    have "leads (insert (n, k') (seen s)) (le_term e) (rlog (node_at s n) @ [e])"
      using appends by (simp add: leads_insert hard_def)
    from justified_snoc [OF mono [OF E(22)] this] appends show ?thesis by simp
  next
    case (merges ae frm)
    obtain k0 where k0: "quotes k0 ae" "justified (seen s) (rlog k0)" "matching_logs (rlog (node_at s n)) (rlog k0)"
      by (rule event_quote [OF e [unfolded merges(1)]])
    have "accepts (node_at s n) ae" using merges by (simp add: accepts_def)
    from quote_merge(1) [OF k0(1) this E(21) k0(3)] merges have "between (rlog (node_at s n)) (rlog k0) (rlog k')" by simp
    from between_justified [OF this E(22) k0(2)] show ?thesis by (rule mono)
  qed (use mono E(22) in simp_all)
qed

text \<open>What the node may have on its platter when it fails.\<close>

lemma event_platter:
  fixes c :: nat
  assumes e: "event ids mut s n x"
  defines "k' \<equiv> new_state (handle x (node_at s n))"
    and "r \<equiv> wal_run (wal s n @ take c (written (handle x (node_at s n)))) init_recovered"
  shows "(\<exists>frm k0. (frm, k0) \<in> past s \<and> role k0 = LEADER \<and> current_term (node_at s n) \<le> current_term k0
        \<and> between (rlog (node_at s n)) (rlog k0) (rec_entries r))
    \<or> rec_entries r = rlog (node_at s n)
    \<or> rec_entries r = rlog k' \<and> role k' = LEADER \<and> hard k' = hard (node_at s n)"
proof -
  note E = eventD [OF e]
  have d: "durable_as (wal s n) (node_at s n)" by (rule node_now(4) [OF E(1,5,6)])
  from handle_platter_log [OF d E(21) event_wf [OF e], where c = c] show ?thesis
    unfolding r_def [symmetric] k'_def [symmetric]
  proof (elim disjE exE conjE)
    fix frm ae j
    assume x: "x = Receives frm (MAppendEntries ae)" and a: "accepts (node_at s n) ae"
      and m: "let m = matching (ae_prev_log_index ae + 1) (ae_entries ae) (rlog (node_at s n)) in m < length (ae_entries ae)
        \<and> rec_entries r = take (nat (ae_prev_log_index ae) + m) (rlog (node_at s n)) @ take j (drop m (ae_entries ae))"
    obtain k0 where k0: "(frm, k0) \<in> past s" "quotes k0 ae" "matching_logs (rlog (node_at s n)) (rlog k0)"
      by (rule event_quote [OF e [unfolded x]])
    from m quote_partial [OF k0(2) a E(21) k0(3), of j] have "between (rlog (node_at s n)) (rlog k0) (rec_entries r)"
      by (simp add: Let_def)
    with k0(1,2) a show ?thesis by (auto simp: quotes_def accepts_def)
  qed simp_all
qed

section \<open>What it tells others\<close>

lemma holds_upto_mono: "holds_upto s f t i l \<Longrightarrow> past s \<subseteq> past s' \<Longrightarrow> holds_upto s' f t i l"
  by (auto simp: holds_upto_def)

lemma holds_upto_prefix: "holds_upto s f t i l \<Longrightarrow> prefix l l' \<Longrightarrow> holds_upto s f t i l'"
  unfolding holds_upto_def using same_upto_prefix by blast

lemma holds_upto_length: "holds_upto s f t i l \<Longrightarrow> i \<le> int (length l)"
  by (auto simp: holds_upto_def same_upto_def)

lemma book_ok_mono: "book_ok s k \<Longrightarrow> past s \<subseteq> past s' \<Longrightarrow> book_ok s' k"
  unfolding book_ok_def using holds_upto_mono by blast

lemma truthful_mono:
  assumes "truthful s f m" and past: "past s \<subseteq> past s'" and seen: "seen s \<subseteq> seen s'"
  shows "truthful s' f m"
proof (cases m)
  case (MAppendEntriesReply r)
  show ?thesis
  proof (cases "aer_success r")
    case True
    with assms(1) MAppendEntriesReply obtain l where
      "leads (seen s) (aer_term r) l" "holds_upto s f (aer_term r) (aer_match_index r) l" by (auto simp: truthful_def)
    from leads_mono [OF this(1) seen] holds_upto_mono [OF this(2) past] MAppendEntriesReply show ?thesis
      by (auto simp: truthful_def)
  qed (use MAppendEntriesReply in \<open>simp add: truthful_def\<close>)
qed (use assms(1) past in \<open>auto simp: truthful_def\<close>)

lemma book_okD:
  assumes "book_ok s k"
  shows "1 \<le> next_for k p" "next_for k p \<le> int (length (rlog k)) + 1"
    "match_for k p = 0 \<or> holds_upto s p (current_term k) (match_for k p) (rlog k)"
  using assms by (simp_all add: book_ok_def)

lemma fresh_book: "fresh_leader k \<Longrightarrow> log_wf (rlog k) \<Longrightarrow> book_ok s k"
  by (simp add: book_ok_def fresh_leader_def last_index_wf)

lemma event_book:
  assumes e: "event ids mut s n x"
  defines "k' \<equiv> new_state (handle x (node_at s n))"
  assumes lead: "role k' = LEADER"
  shows "book_ok s k'"
proof -
  note E = eventD [OF e]
  let ?k = "node_at s n"
  have wf: "log_wf (rlog k')" unfolding k'_def by (rule event_wf [OF e])
  have old: "book_ok s ?k" if "role ?k = LEADER" using E(16,19) that by (auto simp: books_def)
  from event_effect [OF e] show ?thesis
    unfolding k'_def [symmetric]
  proof (cases rule: effect.cases)
    case times_out
    with lead wf show ?thesis by (auto intro: fresh_book)
  next
    case wins
    with wf show ?thesis by (auto intro: fresh_book)
  next
    case (appends e frm r)
    have next_k': "next_for k' p = (if next_index ?k p = None then next_for ?k p + 1 else next_for ?k p)" for p
      using appends E(21) wf by (simp add: next_for_def last_index_wf log_wf_append_one split: option.split)
    have match_k': "match_for k' p = match_for ?k p" for p using appends by (simp add: match_for_def)
    have "prefix (rlog ?k) (rlog k')" using appends by simp
    then have "match_for ?k p = 0 \<or> holds_upto s p (current_term k') (match_for ?k p) (rlog k')" for p
      using book_okD(3) [OF old [OF appends(2)], of p] holds_upto_prefix appends(4) by (auto simp: hard_def)
    moreover have "1 \<le> next_for k' p \<and> next_for k' p \<le> int (length (rlog k')) + 1" for p
      using book_okD(1,2) [OF old [OF appends(2)], of p] appends(5) by (simp add: next_k')
    ultimately show ?thesis by (simp add: book_ok_def match_k')
  next
    case merges
    with lead show ?thesis by simp
  next
    case (counts r i frm)
    have "truthful s frm (MAppendEntriesReply r)"
      by (rule due_truthful [OF E(15,4) E(7) [unfolded counts(1)]]) simp
    with counts(6,7) obtain l where l: "leads (seen s) (current_term ?k) l"
      "holds_upto s frm (current_term ?k) (aer_match_index r) l" by (auto simp: truthful_def)
    then obtain m j where j: "(m, j) \<in> seen s" "role j = LEADER" "current_term j = current_term ?k" "rlog j = l"
      by (auto simp: leads_def)
    have "m = n" using leader_unique [OF E(1,17,8) j(1,2) E(20) counts(2) j(3)] .
    with j E(5,6,11) counts(2) have "prefix l (rlog ?k)" by (auto simp: standing_def)
    from holds_upto_prefix [OF l(2) this] have new: "holds_upto s frm (current_term ?k) (aer_match_index r) (rlog ?k)" .
    have b: "book_ok s ?k" using old counts by simp
    have i: "i = 0 \<or> holds_upto s frm (current_term ?k) i (rlog ?k)"
      using b new counts(8) unfolding book_ok_def by (metis max_def)
    then have "0 \<le> i" by (auto simp: holds_upto_def)
    moreover from i have "i \<le> int (length (rlog ?k))" by (elim disjE holds_upto_length) simp
    moreover have "next_for k' p = (if p = frm then i + 1 else next_for ?k p)"
      "match_for k' p = (if p = frm then i else match_for ?k p)" for p
      using counts by (simp_all add: next_for_def match_for_def split: option.split)
    ultimately show ?thesis using b i counts by (auto simp: book_ok_def hard_def)
  next
    case else_quiet
    then have q: "role ?k = LEADER" "current_term k' = current_term ?k" "match_index k' = match_index ?k"
      "\<forall>p. next_for k' p = next_for ?k p \<or> next_for k' p = max 1 (next_for ?k p - 1)" using lead by auto
    then have "match_for k' = match_for ?k" by (simp add: fun_eq_iff match_for_def)
    moreover have "1 \<le> next_for k' p \<and> next_for k' p \<le> int (length (rlog ?k)) + 1" for p
      using book_okD(1,2) [OF old [OF q(1)], of p] q(4) [rule_format, of p] by auto
    ultimately show ?thesis using old [OF q(1)] q else_quiet by (auto simp: book_ok_def)
  qed
qed

lemma carries_quotes:
  assumes "carries k p ae" and "book_ok s k"
  shows "quotes k ae"
proof -
  have "0 \<le> next_for k p - 1" "next_for k p - 1 \<le> int (length (rlog k))"
    using book_okD(1,2) [OF assms(2), of p] by simp_all
  with assms(1) show ?thesis by (simp add: carries_def quotes_def)
qed

lemma event_told:
  assumes e: "event ids mut s n x"
  defines "k' \<equiv> new_state (handle x (node_at s n))"
  assumes m: "(to, m) \<in> set (sent_by (handle x (node_at s n)))"
    and s': "past s \<subseteq> past s'" "seen s \<subseteq> seen s'" "(n, k') \<in> past s'"
  shows "truthful s' n m"
proof (cases m)
  case (MRequestVote rv)
  with sent_request m s'(3) show ?thesis by (fastforce simp: truthful_def asks_def Let_def k'_def)
next
  case (MAppendEntries ae)
  have hb: "x = HeartbeatTimer \<Longrightarrow> role (node_at s n) = LEADER" using eventD(7) [OF e] by auto
  have c: "carries k' to ae" unfolding k'_def by (rule sent_entries [OF m [unfolded MAppendEntries] hb])
  then have "role k' = LEADER" by (simp add: carries_def)
  from carries_quotes [OF c] event_book [OF e] this have "quotes k' ae" by (simp add: k'_def)
  with s'(3) MAppendEntries show ?thesis by (auto simp: truthful_def)
next
  case (MAppendEntriesReply r)
  show ?thesis
  proof (cases "aer_success r")
    case True
    note E = eventD [OF e]
    obtain ae where a: "x = Receives to (MAppendEntries ae)" "accepts (node_at s n) ae" "aer_term r = ae_term ae"
      "current_term k' = ae_term ae" "aer_match_index r = ae_prev_log_index ae + int (length (ae_entries ae))"
      "rlog k' = merge_log (ae_prev_log_index ae + 1) (ae_entries ae) (rlog (node_at s n))"
      unfolding k'_def by (rule sent_success [OF m [unfolded MAppendEntriesReply] True E(21) event_wf [OF e]])
    obtain k0 where k0: "quotes k0 ae" "leads (seen s) (ae_term ae) (rlog k0)" "matching_logs (rlog (node_at s n)) (rlog k0)"
      by (rule event_quote [OF e [unfolded a(1)]])
    have "prefix (rlog k0) (rlog k')" using quote_merge(2) [OF k0(1) a(2) E(21) k0(3)] a(6) by simp
    moreover have "aer_match_index r = int (length (rlog k0))" using k0(1) a(5) by (auto simp: quotes_def)
    ultimately have "holds_upto s' n (aer_term r) (aer_match_index r) (rlog k0)"
      using s'(3) a(3,4) same_upto_sym [OF same_upto_whole [THEN iffD2]] by (auto simp: holds_upto_def)
    moreover have "leads (seen s') (aer_term r) (rlog k0)" using leads_mono [OF k0(2) s'(2)] a(3) by simp
    ultimately show ?thesis using MAppendEntriesReply by (auto simp: truthful_def)
  qed (use MAppendEntriesReply in \<open>simp add: truthful_def\<close>)
qed (simp_all add: truthful_def)

lemma event_backed:
  assumes e: "event ids mut s n x"
  defines "k' \<equiv> new_state (handle x (node_at s n))"
  assumes v: "voted_for k' = Some c"
  shows "c = n \<or> cast s c (current_term k') c"
proof -
  note E = eventD [OF e]
  from vote_source [OF v [unfolded k'_def]] show ?thesis
    unfolding k'_def [symmetric]
  proof (elim disjE exE conjE)
    assume "voted_for (node_at s n) = Some c" "current_term k' = current_term (node_at s n)"
    then have "cast s n (current_term k') c" using E(19) by (auto simp: cast_def)
    then show ?thesis using E(14) by (simp add: backed_def)
  next
    fix frm rv assume x: "x = Receives frm (MRequestVote rv)" and c: "c = rv_candidate_id rv" "current_term k' = rv_term rv"
    obtain k where k: "(frm, k) \<in> past s" "role k = CANDIDATE" "current_term k = rv_term rv"
      by (rule due_asked [OF E(15,4) E(7) [unfolded x]])
    have "msg_fine ids (cast s) frm n (MRequestVote rv)"
      using due_fine [of ids s mut n] E(1,4,7) x by (auto simp: cluster_inv_def)
    then have "frm = c" using c by (simp add: msg_fine_def)
    moreover have "role_fine ids (cast s) k" "node_id k = frm" using k(1) E(1) by (auto simp: cluster_inv_def past_fine_def)
    then have "voted_for k = Some frm" using k(2) by (simp add: role_fine_def)
    ultimately have "cast s c (current_term k') c" using k c by (auto simp: cast_def)
    then show ?thesis by blast
  qed (use E(23) in simp)
qed

end
