(* ===== verification/Logs_Steps.thy ===== *)
theory Logs_Steps
  imports Logs_Kept
begin

text \<open>
  The steps of the cluster keep the invariant of \<open>Cluster_Logs\<close>, and what it says of a reachable cluster: logs
  match, and of two leaders' logs of one term one continues the other.
\<close>

declare block.simps [simp del]

section \<open>A state is added\<close>

lemma blocked_step:
  assumes "blocked ids s t c" and past: "past s' = insert (n, k) (past s)"
    and kept: "\<And>p. (n, p) \<in> past s \<Longrightarrow> vote_kept (hard p) (hard k)"
  shows "blocked ids s' t c"
proof -
  from assms(1) obtain R where R: "majority_of ids R"
    and f: "\<And>f. f \<in> R \<Longrightarrow> \<not> cast s f t c \<and> (\<exists>j. (f, j) \<in> past s \<and> (t < current_term j \<or> current_term j = t \<and> voted_for j \<noteq> None))"
    by (auto simp: blocked_def)
  have "\<not> cast s' f t c \<and> (\<exists>j. (f, j) \<in> past s' \<and> (t < current_term j \<or> current_term j = t \<and> voted_for j \<noteq> None))" if "f \<in> R" for f
  proof -
    from f [OF that] obtain j where j: "\<not> cast s f t c" "(f, j) \<in> past s" "t < current_term j \<or> current_term j = t \<and> voted_for j \<noteq> None"
      by blast
    have "\<not> (f = n \<and> current_term k = t \<and> voted_for k = Some c)"
    proof
      assume new: "f = n \<and> current_term k = t \<and> voted_for k = Some c"
      with kept j(2) have "vote_kept (hard j) (hard k)" by simp
      with j new show False by (auto simp: vote_kept_def hard_def cast_def)
    qed
    with j past show ?thesis by (auto simp: cast_def)
  qed
  with R show ?thesis unfolding blocked_def by blast
qed

lemma behind_step:
  "behind ids s j \<Longrightarrow> past s' = insert (n, k) (past s) \<Longrightarrow> (\<And>p. (n, p) \<in> past s \<Longrightarrow> vote_kept (hard p) (hard k)) \<Longrightarrow>
     behind ids s' j"
  unfolding behind_def using blocked_step by blast

lemma cast_grows: "past s \<subseteq> past s' \<Longrightarrow> cast s f t c \<Longrightarrow> cast s' f t c"
  by (auto simp: cast_def)

lemma attempts_grow: "attempts ids s \<Longrightarrow> past s \<subseteq> past s' \<Longrightarrow> tried s' = tried s \<Longrightarrow> attempts ids s'"
  unfolding attempts_def using role_fine_mono cast_grows by (fastforce split: prod.splits)

lemma books_insert:
  assumes "books s" and "past s' = insert (n, k) (past s)" and "role k = LEADER \<Longrightarrow> book_ok s k"
  shows "books s'"
proof -
  have "book_ok s j \<Longrightarrow> book_ok s' j" for j by (rule book_ok_mono) (auto simp: assms(2))
  with assms show ?thesis by (auto simp: books_def)
qed

lemma told_insert:
  assumes "told s" and "past s \<subseteq> past s'" and "seen s \<subseteq> seen s'"
    and "\<And>f to m. (f, to, m) \<in> sent s' \<Longrightarrow> (f, to, m) \<in> sent s \<or> truthful s' f m"
  shows "told s'"
  unfolding told_def
proof clarify
  fix f to m assume "(f, to, m) \<in> sent s'"
  with assms(4) have "(f, to, m) \<in> sent s \<or> truthful s' f m" by blast
  then show "truthful s' f m"
    using assms(1) truthful_mono [OF _ assms(2,3)] by (auto simp: told_def)
qed

lemma logs_just_insert:
  assumes "logs_just ids s" and seen: "seen s' = insert (n, k) (seen s)"
    and "n \<in> set ids" "node_id k = n" "log_wf (rlog k)" "justified (insert (n, k) (seen s)) (rlog k)"
    and "\<And>m i. m \<in> set ids \<Longrightarrow> m \<noteq> n \<Longrightarrow> platter s' m i = platter s m i"
    and "\<And>i. justified (insert (n, k) (seen s)) (rec_entries (platter s' n i))"
  shows "logs_just ids s'"
proof -
  have mono: "justified (seen s) l \<Longrightarrow> justified (seen s') l" for l
    by (rule justified_mono) (auto simp: seen)
  have "justified (seen s') (rec_entries (platter s' m i))" if "m \<in> set ids" for m i
    using assms(1,7,8) that mono seen by (cases "m = n") (auto simp: logs_just_def)
  moreover have "m \<in> set ids \<and> node_id j = m \<and> log_wf (rlog j) \<and> justified (seen s') (rlog j)" if "(m, j) \<in> seen s'" for m j
    using assms(1,3-6) that mono seen by (auto simp: logs_just_def)
  ultimately show ?thesis by (auto simp: logs_just_def)
qed

section \<open>Completing an event\<close>

lemma complete_fields [simp]:
  "past (complete n h s) = insert (n, new_state h) (past s)" "tried (complete n h s) = tried s"
  "node_at (complete n h s) = (node_at s)(n := new_state h)" "unsynced (complete n h s) = unsynced s"
  "seen (complete n h s) = insert (n, new_state h) (seen s)"
  by (simp_all add: complete_def seen_def)

lemma logs_complete:
  assumes e: "event ids mut s n x"
  defines "s' \<equiv> complete n (handle x (node_at s n)) s"
  shows "logs_inv ids s'"
proof -
  note E = eventD [OF e]
  let ?k = "node_at s n"
  define k' where "k' = new_state (handle x ?k)"
  have past': "past s' = insert (n, k') (past s)" and seen': "seen s' = insert (n, k') (seen s)"
    and node': "node_at s' = (node_at s)(n := k')" by (simp_all add: s'_def k'_def)
  have inv': "cluster_inv ids s'"
    unfolding s'_def by (rule inv_complete [OF E(1,3-7) event_wf [OF e]])
  have run': "running k'" "node_id k' = n" using handle_ids [of x ?k] E(6,23) by (simp_all add: k'_def)
  then have now': "platter s' n i = \<lparr>rec_state = hard k', rec_entries = rlog k'\<rparr>" for i
    using node_now(6) [OF inv' E(5)] node' by simp
  have plat: "platter s' m i = platter s m i" if "m \<noteq> n" for m i using that by (simp add: platter_def s'_def complete_def)
  have kept: "vote_kept (hard p) (hard k')" if "(n, p) \<in> past s" for p
    using vote_kept_trans [OF node_now(7) [OF E(1,5,6) that] handle_vote_kept] by (simp add: k'_def)
  have wf': "log_wf (rlog k')" unfolding k'_def by (rule event_wf [OF e])
  have just': "justified (insert (n, k') (seen s)) (rlog k')" unfolding k'_def by (rule event_justified [OF e])
  have lj: "logs_just ids s'"
    by (rule logs_just_insert [OF E(8) seen' E(5) run'(2) wf' just' plat]) (simp_all add: now' just')
  have at': "attempts ids s'" by (rule attempts_grow [OF E(17)]) (auto simp: s'_def)
  have "(n, k') \<in> seen s'" by (simp add: seen')
  then have rf: "role_fine ids (cast s') k'" by (rule seen_role_fine [OF inv' at'])
  have unique: "m = n" if "(m, j) \<in> seen s" "role j = LEADER" "current_term j = current_term k'" "role k' = LEADER" for m j
    by (rule leader_unique [OF inv' at' lj _ that(2) \<open>(n, k') \<in> seen s'\<close> that(4,3)]) (simp add: seen' that(1))
  have free: "\<not> blocked ids s (current_term k') n" if "role k' = LEADER"
  proof
    assume "blocked ids s (current_term k') n"
    then have "blocked ids s' (current_term k') n" by (rule blocked_step [OF _ past' kept])
    with rf that run'(2) show False by (auto simp: role_fine_def dest: blocked_loses)
  qed
  have "comparable b (rlog k')" if "role k' = LEADER" "leads (seen s) (current_term k') b" for b
    using event_leads [OF e, folded k'_def, OF that unique [OF _ _ _ that(1)]] by (simp add: comparable_def)
  then have "chained (seen s')" unfolding seen' by (rule chained_insert [OF E(9)])
  moreover have "ordered (seen s')"
    unfolding seen' by (rule ordered_insert [OF E(10) event_ordered [OF e, folded k'_def, OF _ free]])
  moreover have "standing ids s'"
    using E(11) event_standing [OF e] unfolding standing_def seen' node' k'_def [symmetric] by auto
  moreover have "bids s'"
    unfolding bids_def
  proof (intro allI impI)
    fix c j1 j2 assume j: "(c, j1) \<in> seen s'" "(c, j2) \<in> seen s'" "role j1 = CANDIDATE" "role j2 \<noteq> FOLLOWER" "current_term j1 = current_term j2"
    show "prefix (rlog j1) (rlog j2)"
    proof (cases "(c, j1) \<in> seen s \<and> (c, j2) \<in> seen s")
      case True
      with j E(12) show ?thesis by (auto simp: bids_def)
    next
      case False
      with j(1,2) seen' consider "(c, j2) = (n, k')" "(c, j1) \<in> seen s" | "(c, j1) = (n, k')" "(c, j2) \<in> seen s" | "j1 = j2" by auto
      then show ?thesis
      proof cases
        case 1
        with j event_standing [OF e, of j1] show ?thesis by (auto simp: k'_def)
      next
        case 2
        with j(3) have cand: "role k' = CANDIDATE" by simp
        from event_effect [OF e] show ?thesis unfolding k'_def [symmetric]
        proof (cases rule: effect.cases)
          case times_out
          with 2 j(5) seen_before [OF e, of j2] show ?thesis by simp
        next
          case else_quiet
          with cand have "role ?k = CANDIDATE" "current_term k' = current_term ?k" "rlog k' = rlog ?k" by auto
          with 2 j E(12,20) show ?thesis by (auto simp: bids_def)
        qed (use cand in simp_all)
      qed simp
    qed
  qed
  moreover have "all_behind ids s'"
  proof -
    have "behind ids s' k'" if "role k' = CANDIDATE"
      using behind_step [OF event_behind [OF e] past' kept] that by (simp add: k'_def)
    moreover have "behind ids s' j" if "(c, j) \<in> past s" "role j = CANDIDATE" for c j
      using behind_step [OF _ past' kept] E(13) that by (auto simp: all_behind_def)
    ultimately show ?thesis by (auto simp: all_behind_def past')
  qed
  moreover have "backed ids s'"
  proof -
    have mono: "cast s f t c \<Longrightarrow> cast s' f t c" for f t c by (rule cast_grows) (auto simp: past')
    have own: "c = n \<or> cast s c (current_term k') c" if "voted_for k' = Some c" for c
      using event_backed [OF e] that by (simp add: k'_def)
    have "cast s' c t c" if "cast s' f t c" for f t c
    proof -
      from that have "cast s f t c \<or> current_term k' = t \<and> voted_for k' = Some c" by (auto simp: cast_def past')
      then show ?thesis
      proof
        assume "cast s f t c"
        then have "cast s c t c" using E(14) by (simp add: backed_def)
        then show ?thesis by (rule mono)
      next
        assume v: "current_term k' = t \<and> voted_for k' = Some c"
        then have "cast s' n t c" by (auto simp: cast_def past')
        with v own [of c] mono show ?thesis by auto
      qed
    qed
    moreover have "c = m \<or> cast s' c (hs_current_term (rec_state (platter s' m i))) c"
      if "m \<in> set ids" "hs_voted_for (rec_state (platter s' m i)) = Some c" for m i c
    proof (cases "m = n")
      case True
      with that own [of c] mono show ?thesis by (auto simp: now' hard_def)
    next
      case False
      with that plat E(14) mono show ?thesis unfolding backed_def by metis
    qed
    ultimately show ?thesis by (auto simp: backed_def)
  qed
  moreover have "told s'"
  proof (rule told_insert [OF E(15)])
    fix f to m assume "(f, to, m) \<in> sent s'"
    then have "(f, to, m) \<in> sent s \<or> f = n \<and> (to, m) \<in> set (sent_by (handle x ?k))" by (auto simp: s'_def complete_def sends_def)
    moreover have "truthful s' n m" if "(to, m) \<in> set (sent_by (handle x ?k))"
      by (rule event_told [OF e that]) (auto simp: past' seen' k'_def)
    ultimately show "(f, to, m) \<in> sent s \<or> truthful s' f m" by blast
  qed (auto simp: past' seen')
  moreover have "books s'"
    by (rule books_insert [OF E(16) past']) (use event_book [OF e] in \<open>simp add: k'_def\<close>)
  moreover have "clocks ids s'"
  proof -
    have "0 \<le> current_term ?k" using E(18,19) by (auto simp: clocks_def)
    moreover have "role ?k \<noteq> FOLLOWER \<Longrightarrow> 1 \<le> current_term ?k" using E(18,19) by (auto simp: clocks_def)
    moreover have "current_term ?k \<le> current_term k'" using kept [OF E(19)] by (simp add: vote_kept_def hard_def)
    moreover have "1 \<le> current_term k'" if "role k' \<noteq> FOLLOWER"
      using event_effect [OF e] calculation that unfolding k'_def [symmetric] by cases (auto simp: hard_def)
    ultimately show ?thesis using E(18) by (auto simp: clocks_def past')
  qed
  ultimately show ?thesis using lj at' by (simp add: logs_inv_def)
qed

section \<open>Failing in the middle of an event\<close>

lemma same_past:
  assumes "past s' = past s"
  shows "cast s' = cast s" "blocked ids s' = blocked ids s" "behind ids s' = behind ids s" "book_ok s' = book_ok s"
    "books s' = books s" "all_behind ids s' = all_behind ids s" "clocks ids s' = clocks ids s"
proof -
  show c: "cast s' = cast s" by (simp add: fun_eq_iff cast_def assms)
  then show b: "blocked ids s' = blocked ids s" by (simp add: fun_eq_iff blocked_def assms)
  then show h: "behind ids s' = behind ids s" by (simp add: fun_eq_iff behind_def)
  show k: "book_ok s' = book_ok s" by (simp add: fun_eq_iff book_ok_def holds_upto_def assms)
  show "books s' = books s" "all_behind ids s' = all_behind ids s" "clocks ids s' = clocks ids s"
    by (simp_all add: books_def all_behind_def clocks_def k h assms)
qed

lemma attempt_role_fine:
  assumes e: "event ids mut s n x"
  defines "k' \<equiv> new_state (handle x (node_at s n))"
  assumes "hard k' = hard (node_at s n)"
  shows "role_fine ids (cast s) k'"
  unfolding k'_def
proof (rule handle_role_fine [where V = "cast s"])
  note E = eventD [OF e]
  show "distinct ids" "node_id (node_at s n) \<in> set ids" "peers (node_at s n) = peers_of ids (node_id (node_at s n))"
    using E(3,5,23) node_now(8) [OF E(1,5,6)] by (simp_all add: ids_ok_def)
  show "role_fine ids (cast s) (node_at s n)" by (rule seen_role_fine [OF E(1,17,20)])
  show "msg_fine ids (cast s) frm (node_id (node_at s n)) msg" if "x = Receives frm msg" for frm msg
    using due_fine [of ids s mut n frm msg] E(1,4,7,23) that by (auto simp: cluster_inv_def)
  show "cast s (node_id (node_at s n)) (current_term (new_state (handle x (node_at s n)))) c"
    if "voted_for (new_state (handle x (node_at s n))) = Some c" for c
    using that assms(3) E(19,23) by (auto simp: k'_def cast_def hard_def)
qed

lemma fail_fields [simp]:
  "past (fail n h s) = past s" "sent (fail n h s) = sent s" "wal (fail n h s) = wal s"
  "node_at (fail n h s) = (node_at s)(n := down (node_at s n))" "unsynced (fail n h s) = (unsynced s)(n := written h)"
  by (simp_all add: fail_def)

lemma logs_fail:
  assumes e: "event ids mut s n x"
  defines "s' \<equiv> fail n (handle x (node_at s n)) s"
  shows "logs_inv ids s'"
proof -
  note E = eventD [OF e]
  let ?k = "node_at s n"
  define k' where "k' = new_state (handle x ?k)"
  define T where "T \<longleftrightarrow> role k' = LEADER \<and> hard k' = hard ?k"
  define j where "j = (if T then k' else ?k)"
  have past': "past s' = past s" and sent': "sent s' = sent s" by (simp_all add: s'_def)
  note P = same_past [OF past']
  have seen': "seen s' = insert (n, j) (seen s)"
    using E(20) by (auto simp: s'_def seen_def fail_def j_def T_def k'_def)
  then have sub: "seen s \<subseteq> seen s'" by blast
  have inv': "cluster_inv ids s'" unfolding s'_def by (rule inv_fail [OF E(1,3-7)])
  have mono: "justified (seen s) l \<Longrightarrow> justified (insert (n, j) (seen s)) l" for l by (rule justified_mono) auto
  have jj: "justified (insert (n, j) (seen s)) (rlog j)"
    using mono [OF E(22)] event_justified [OF e] by (auto simp: j_def k'_def)
  have j_id: "node_id j = n" "log_wf (rlog j)"
    using E(21,23) handle_ids event_wf [OF e] by (simp_all add: j_def k'_def)
  have plat: "platter s' m i = platter s m i" if "m \<noteq> n" for m i using that by (simp add: platter_def s'_def)
  have plat_n: "platter s' n i = wal_run (wal s n @ take i (written (handle x ?k))) init_recovered" for i
    by (simp add: platter_def s'_def)
  have "justified (insert (n, j) (seen s)) (rec_entries (platter s' n i))" for i
    using event_platter [OF e, of i, folded k'_def] unfolding plat_n
  proof (elim disjE exE conjE)
    fix frm k0 assume k0: "(frm, k0) \<in> past s"
      and b: "between (rlog ?k) (rlog k0) (rec_entries (wal_run (wal s n @ take i (written (handle x ?k))) init_recovered))"
    have "justified (seen s) (rlog k0)" using E(8) past_seen [OF k0] by (auto simp: logs_just_def)
    from between_justified [OF b E(22) this]
    show "justified (insert (n, j) (seen s)) (rec_entries (wal_run (wal s n @ take i (written (handle x ?k))) init_recovered))"
      by (rule mono)
  next
    assume l: "rec_entries (wal_run (wal s n @ take i (written (handle x ?k))) init_recovered) = rlog k'"
      and "role k' = LEADER" "hard k' = hard ?k"
    then have "j = k'" by (simp add: j_def T_def)
    with jj l show "justified (insert (n, j) (seen s)) (rec_entries (wal_run (wal s n @ take i (written (handle x ?k))) init_recovered))"
      by simp
  qed (simp add: mono E(22))
  with plat have lj: "logs_just ids s'" by (intro logs_just_insert [OF E(8) seen' E(5) j_id jj]) simp_all
  have new: "role_fine ids (cast s) k'" if T
    using attempt_role_fine [OF e] that by (simp add: T_def k'_def)
  have at': "attempts ids s'"
  proof -
    have "tried s' = (if T then insert (n, k') (tried s) else tried s)" by (simp add: s'_def fail_def T_def k'_def)
    moreover have "(n, ?k) \<in> past s" by (rule E(19))
    ultimately show ?thesis using E(17) new unfolding attempts_def P(1) past' by (auto simp: T_def split: if_splits)
  qed
  have unique: "m = n" if "(m, i) \<in> seen s" "role i = LEADER" "current_term i = current_term k'" T for m i
    by (rule leader_unique [OF inv' at' lj _ that(2) _ _ that(3)]) (use that in \<open>auto simp: seen' j_def T_def\<close>)
  have free: "\<not> blocked ids s (current_term k') n" if T
  proof
    assume "blocked ids s (current_term k') n"
    moreover have "node_id k' = n" using handle_ids E(23) by (simp add: k'_def)
    ultimately show False using new that by (auto simp: role_fine_def T_def dest: blocked_loses)
  qed
  have unless: "X (seen s')" if "X (seen s)" "T \<Longrightarrow> X (insert (n, k') (seen s))" for X
    using that E(20) by (cases T) (simp_all add: seen' j_def insert_absorb)
  have ch: "chained (seen s')"
  proof (rule unless [where X = chained, OF E(9)])
    assume T
    then have r: "role k' = LEADER" by (simp add: T_def)
    have "comparable b (rlog k')" if "leads (seen s) (current_term k') b" for b
      using event_leads [OF e, folded k'_def, OF r that unique [OF _ _ _ \<open>T\<close>]] by (simp add: comparable_def)
    then show "chained (insert (n, k') (seen s))" by (rule chained_insert [OF E(9)])
  qed
  have ord: "ordered (seen s')"
    by (rule unless [where X = ordered, OF E(10)], rule ordered_insert [OF E(10) event_ordered [OF e, folded k'_def]])
      (use free in simp_all)
  have "standing ids s'"
    using E(6,11) unfolding standing_def seen' by (auto simp: s'_def)
  moreover have "bids s'"
    unfolding bids_def
  proof (intro allI impI)
    fix c j1 j2 assume i: "(c, j1) \<in> seen s'" "(c, j2) \<in> seen s'" "role j1 = CANDIDATE" "role j2 \<noteq> FOLLOWER" "current_term j1 = current_term j2"
    have 1: "(c, j1) \<in> seen s" using i(1,3) E(20) by (auto simp: seen' j_def T_def split: if_splits)
    show "prefix (rlog j1) (rlog j2)"
    proof (cases "(c, j2) \<in> seen s")
      case True
      with 1 i E(12) show ?thesis by (auto simp: bids_def)
    next
      case False
      with i(2) E(20) have 2: "c = n" "j2 = k'" by (auto simp: seen' j_def split: if_splits)
      from event_standing [OF e, folded k'_def, of j1] 1 2 i show ?thesis by simp
    qed
  qed
  moreover have "backed ids s'"
  proof -
    have own: "c = n \<or> cast s c (current_term i) c" if "voted_for i = Some c" "i = ?k \<or> i = k'" for c i
    proof (cases "i = k'")
      case True
      with event_backed [OF e] that show ?thesis by (simp add: k'_def)
    next
      case False
      with that E(19) have "cast s n (current_term i) c" by (auto simp: cast_def)
      with E(14) show ?thesis by (auto simp: backed_def)
    qed
    have "c = m \<or> cast s c (hs_current_term (rec_state (platter s' m i))) c"
      if "m \<in> set ids" "hs_voted_for (rec_state (platter s' m i)) = Some c" for m i c
    proof (cases "m = n")
      case True
      have "rec_state (platter s' n i) = hard ?k \<or> rec_state (platter s' n i) = hard k'"
        using handle_platter_hard [OF node_now(4) [OF E(1,5,6)]] by (simp add: plat_n k'_def)
      with own [of ?k c] own [of k' c] that True show ?thesis by (auto simp: hard_def)
    next
      case False
      with that plat E(14) show ?thesis unfolding backed_def by metis
    qed
    with E(14) show ?thesis by (simp add: backed_def P(1))
  qed
  moreover have "told s'"
    by (rule told_insert [OF E(15)]) (use past' sent' sub in auto)
  ultimately show ?thesis using lj at' ch ord E(13,16,18) by (simp add: logs_inv_def P)
qed

section \<open>Restarting, and the rest\<close>

lemma restart_running:
  assumes "cluster_inv ids s" and "n \<in> set ids" and "running (node_at s n)"
  shows "restart n i s = s"
proof -
  note N = node_now [OF assms]
  have "recovered_node (platter s n i) (node_at s n) = node_at s n"
    unfolding N(6) by (rule recovered_same [OF assms(3)])
  then show ?thesis using N(3,5) by (simp add: restart_def Let_def fun_upd_idem insert_absorb)
qed

lemma logs_restart:
  assumes inv: "cluster_inv ids s" "logs_inv ids s" and n: "n \<in> set ids" and wf: "log_wf (rec_entries (platter s n i))"
  shows "logs_inv ids (restart n i s)"
proof (cases "running (node_at s n)")
  case True
  have "restart n i s = s" by (rule restart_running [OF inv(1) n True])
  with inv(2) show ?thesis by simp
next
  case False
  let ?r = "platter s n i" and ?s' = "restart n i s"
  let ?k' = "recovered_node ?r (node_at s n)"
  have I: "logs_just ids s" "chained (seen s)" "ordered (seen s)" "standing ids s" "bids s" "all_behind ids s" "backed ids s"
    "told s" "books s" "attempts ids s" "clocks ids s" using inv(2) by (simp_all add: logs_inv_def)
  have k': "role ?k' = FOLLOWER" "node_id ?k' = n"
    using inv(1) n False by (simp_all add: cluster_inv_def node_fine_def Let_def)
  have past': "past ?s' = insert (n, ?k') (past s)" and seen': "seen ?s' = insert (n, ?k') (seen s)"
    and node': "node_at ?s' = (node_at s)(n := ?k')" and sent': "sent ?s' = sent s" and tried': "tried ?s' = tried s"
    by (simp_all add: restart_def Let_def seen_def)
  have plat: "platter ?s' m j = platter s m j" if "m \<noteq> n" for m j using that by (simp add: platter_def restart_def Let_def)
  have plat_n: "platter ?s' n j = ?r" for j by (simp add: platter_def restart_def Let_def)
  have kept: "vote_kept (hard p) (hard ?k')" if "(n, p) \<in> past s" for p using past_kept [OF inv(1) n that] by simp
  have just: "justified (insert (n, ?k') (seen s)) (rec_entries ?r)"
    by (rule justified_mono [of "seen s"]) (use I(1) n in \<open>auto simp: logs_just_def\<close>)
  have "logs_just ids ?s'"
    by (rule logs_just_insert [OF I(1) seen' n k'(2) _ _ plat]) (simp_all add: wf just plat_n)
  moreover have "chained (seen ?s')" "ordered (seen ?s')"
    unfolding seen' using k'(1) I(2,3) by (auto intro!: chained_insert ordered_insert)
  moreover have "standing ids ?s'" using I(4) k'(1) unfolding standing_def seen' node' by auto
  moreover have "bids ?s'" using I(5) k'(1) unfolding bids_def seen' by auto
  moreover have "all_behind ids ?s'"
    using I(6) k'(1) behind_step [OF _ past' kept] by (auto simp: all_behind_def past')
  moreover have "backed ids ?s'"
  proof -
    have mono: "cast s f t c \<Longrightarrow> cast ?s' f t c" for f t c by (rule cast_grows) (auto simp: past')
    have own: "c = n \<or> cast s c (hs_current_term (rec_state ?r)) c" if "hs_voted_for (rec_state ?r) = Some c" for c
      using I(7) n that by (simp add: backed_def)
    have "cast ?s' c t c" if "cast ?s' f t c" for f t c
    proof -
      from that have "cast s f t c \<or> current_term ?k' = t \<and> voted_for ?k' = Some c" by (auto simp: cast_def past')
      then show ?thesis
      proof
        assume "cast s f t c"
        then have "cast s c t c" using I(7) by (simp add: backed_def)
        then show ?thesis by (rule mono)
      next
        assume v: "current_term ?k' = t \<and> voted_for ?k' = Some c"
        then have "cast ?s' n t c" by (auto simp: cast_def past')
        with v own [of c] mono show ?thesis by (auto simp: recovered_node_def)
      qed
    qed
    moreover have "c = m \<or> cast ?s' c (hs_current_term (rec_state (platter ?s' m j))) c"
      if "m \<in> set ids" "hs_voted_for (rec_state (platter ?s' m j)) = Some c" for m j c
    proof (cases "m = n")
      case True
      with that own [of c] mono show ?thesis by (auto simp: plat_n)
    next
      case False
      with that plat I(7) mono show ?thesis unfolding backed_def by metis
    qed
    ultimately show ?thesis by (auto simp: backed_def)
  qed
  moreover have "told ?s'" by (rule told_insert [OF I(8)]) (use past' seen' sent' in auto)
  moreover have "books ?s'" by (rule books_insert [OF I(9) past']) (use k'(1) in simp)
  moreover have "attempts ids ?s'" by (rule attempts_grow [OF I(10) _ tried']) (use past' in auto)
  moreover have "clocks ids ?s'"
  proof -
    obtain p where p: "(n, p) \<in> past s" using I(11) n by (auto simp: clocks_def)
    then have "0 \<le> current_term p" using I(11) by (auto simp: clocks_def)
    also have "\<dots> \<le> current_term ?k'" using kept [OF p] by (simp add: vote_kept_def hard_def)
    finally have "0 \<le> current_term ?k'" .
    with I(11) k'(1) show ?thesis by (auto simp: clocks_def past')
  qed
  ultimately show ?thesis by (simp add: logs_inv_def)
qed

lemma logs_crash:
  assumes inv: "cluster_inv ids s" "logs_inv ids s"
  shows "logs_inv ids (crash n s)"
proof -
  have past': "past (crash n s) = past s" and seen': "seen (crash n s) = seen s" by (simp_all add: crash_def seen_def)
  have pl: "platter (crash n s) = platter s" by (simp add: fun_eq_iff platter_def crash_def)
  note P = same_past [OF past']
  have down: "\<not> running (down k)" for k by (cases "running k") simp_all
  have "told (crash n s) = told s"
    unfolding told_def truthful_def holds_upto_def past' seen' by (simp add: crash_def)
  moreover have "attempts ids (crash n s) = attempts ids s" unfolding attempts_def past' P(1) by (simp add: crash_def)
  moreover have "standing ids s \<Longrightarrow> standing ids (crash n s)"
    unfolding standing_def seen' by (auto simp: crash_def down split: if_splits)
  ultimately show ?thesis
    using inv(2) unfolding logs_inv_def logs_just_def bids_def backed_def P seen' pl by blast
qed

lemma logs_request:
  assumes "logs_inv ids s"
  shows "logs_inv ids (request c n r s)"
proof -
  let ?s' = "request c n r s"
  have past': "past ?s' = past s" and seen': "seen ?s' = seen s" by (simp_all add: request_def seen_def)
  have pl: "platter ?s' = platter s" by (simp add: fun_eq_iff platter_def request_def)
  note P = same_past [OF past']
  have "told s \<Longrightarrow> told ?s'"
    unfolding told_def truthful_def holds_upto_def past' seen' by (auto simp: request_def)
  moreover have "attempts ids ?s' = attempts ids s" unfolding attempts_def past' P(1) by (simp add: request_def)
  moreover have "standing ids ?s' = standing ids s" unfolding standing_def seen' by (simp add: request_def)
  ultimately show ?thesis
    using assms unfolding logs_inv_def logs_just_def bids_def backed_def P seen' pl by blast
qed

lemma logs_initial:
  assumes "ids_ok ids"
  shows "logs_inv ids (initial ids)"
proof -
  let ?s = "initial ids"
  have p: "past ?s = (\<lambda>n. (n, new_rnode n (peers_of ids n))) ` set ids" "seen ?s = past ?s" "tried ?s = {}" "sent ?s = {}"
    by (simp_all add: initial_def seen_def)
  have new: "role (new_rnode n ps) = FOLLOWER" "node_id (new_rnode n ps) = n" "rlog (new_rnode n ps) = []"
    "voted_for (new_rnode n ps) = None" "current_term (new_rnode n ps) = 0" for n ps by (simp_all add: new_rnode_def)
  have pl: "platter ?s n i = init_recovered" for n i by (simp add: platter_def initial_def)
  have no: "\<not> leads (seen ?s) t l" for t l by (auto simp: leads_def p new)
  have "role (node_at ?s n) = FOLLOWER" for n by (simp add: initial_def new)
  then have "standing ids ?s" by (simp add: standing_def)
  moreover have "\<not> cast ?s f t c" for f t c by (auto simp: cast_def p new)
  then have "backed ids ?s" by (simp add: backed_def pl init_recovered_def init_hard_state_def)
  moreover have "logs_just ids ?s" by (auto simp: logs_just_def p new pl init_recovered_def)
  moreover have "chained (seen ?s)" "ordered (seen ?s)" using no by (simp_all add: chained_def ordered_def)
  ultimately show ?thesis
    by (auto simp: logs_inv_def bids_def all_behind_def told_def books_def attempts_def clocks_def p new)
qed

theorem reachable_logs:
  assumes "reachable ids mut s" and ids: "ids_ok ids" and mut: "mut_ok mut"
  shows "logs_inv ids s"
  using assms(1)
proof induction
  case starts
  show ?case by (rule logs_initial [OF ids])
next
  case (moves s s')
  have inv: "cluster_inv ids s" by (rule reachable_inv [OF moves(1) ids mut])
  from moves(2) show ?case
  proof cases
    case (completes n x)
    with inv moves(3) ids mut have "event ids mut s n x" by (simp add: event_def)
    from logs_complete [OF this] completes show ?thesis by simp
  next
    case (fails n x)
    with inv moves(3) ids mut have "event ids mut s n x" by (simp add: event_def)
    from logs_fail [OF this] fails show ?thesis by simp
  qed (use inv moves(3) in \<open>simp_all add: logs_restart logs_crash logs_request\<close>)
qed

end
