(* ===== verification/Cluster_Commit.thy ===== *)
theory Cluster_Commit
  imports Logs_Steps
begin

text \<open>
  Commitment. An entry of term \<open>t\<close> is \<open>chosen\<close> when a majority has held it, each in term \<open>t\<close>; then every leader of a
  later term has it (\<open>chosen_lasts\<close>). A node keeps what it stored, and votes only for candidates that have it, as long
  as every later leader so far has it too (\<open>held\<close>, \<open>wise\<close>); that condition is discharged along the run, election by
  election. Crashes may leave entries of a term the node has not recorded, so the argument goes by the order of the
  elections and not by their terms.
\<close>

declare block.simps [simp del]

section \<open>What is stored and what is chosen\<close>

definition mark :: "raft_log \<Rightarrow> nat \<Rightarrow> Term \<Rightarrow> bool" where
  "mark x i t \<longleftrightarrow> 0 < i \<and> i \<le> length x \<and> le_term (x ! (i - 1)) = t"

definition stored :: "states \<Rightarrow> NodeId \<Rightarrow> Term \<Rightarrow> nat \<Rightarrow> raft_log \<Rightarrow> bool" where
  "stored P f t i x \<longleftrightarrow> (\<exists>k. (f, k) \<in> P \<and> current_term k = t \<and> same_upto i (rlog k) x)"

definition lasting :: "cluster \<Rightarrow> Term \<Rightarrow> nat \<Rightarrow> raft_log \<Rightarrow> bool" where
  "lasting s t i x \<longleftrightarrow> (\<forall>t' l. t < t' \<longrightarrow> leads (seen s) t' l \<longrightarrow> same_upto i l x)"

definition chosen :: "NodeId list \<Rightarrow> states \<Rightarrow> Term \<Rightarrow> nat \<Rightarrow> raft_log \<Rightarrow> bool" where
  "chosen ids P t i x \<longleftrightarrow> mark x i t \<and> (\<exists>Q. majority_of ids Q \<and> (\<forall>f \<in> Q. stored P f t i x))"

text \<open>A vote that was cast, or is on the platter of a node that failed casting it.\<close>

definition pledged :: "NodeId list \<Rightarrow> cluster \<Rightarrow> NodeId \<Rightarrow> Term \<Rightarrow> NodeId \<Rightarrow> bool" where
  "pledged ids s f t c \<longleftrightarrow> cast s f t c \<or> f \<in> set ids \<and> (\<exists>j. rec_state (platter s f j) = HardState t (Some c))"

definition held :: "NodeId list \<Rightarrow> cluster \<Rightarrow> bool" where
  "held ids s \<longleftrightarrow> (\<forall>n \<in> set ids. \<forall>t i x j. stored (past s) n t i x \<longrightarrow> mark x i t \<longrightarrow> lasting s t i x \<longrightarrow>
     same_upto i (rec_entries (platter s n j)) x)"

definition wise :: "NodeId list \<Rightarrow> cluster \<Rightarrow> bool" where
  "wise ids s \<longleftrightarrow> (\<forall>f t i x t' c k. stored (past s) f t i x \<longrightarrow> mark x i t \<longrightarrow> lasting s t i x \<longrightarrow> t < t' \<longrightarrow>
     pledged ids s f t' c \<longrightarrow> (c, k) \<in> seen s \<longrightarrow> role k \<noteq> FOLLOWER \<longrightarrow> current_term k = t' \<longrightarrow> same_upto i (rlog k) x)"

lemma lasting_shrinks: "lasting s' t i x \<Longrightarrow> seen s \<subseteq> seen s' \<Longrightarrow> lasting s t i x"
  unfolding lasting_def using leads_mono by blast

lemma stored_mono: "stored P f t i x \<Longrightarrow> P \<subseteq> P' \<Longrightarrow> stored P' f t i x"
  unfolding stored_def by blast

lemma chosen_mono: "chosen ids P t i x \<Longrightarrow> P \<subseteq> P' \<Longrightarrow> chosen ids P' t i x"
  unfolding chosen_def using stored_mono by blast

lemma stored_insert: "stored (insert (n, k) P) f t i x \<longleftrightarrow> stored P f t i x \<or> f = n \<and> current_term k = t \<and> same_upto i (rlog k) x"
  by (auto simp: stored_def)

text \<open>A stored entry was its leader's.\<close>

lemma stored_leads:
  assumes "logs_just ids s" and "stored (past s) f t i x" and "mark x i t"
  obtains l where "leads (seen s) t l" "same_upto i l x"
proof -
  from assms(2) obtain k where k: "(f, k) \<in> past s" "same_upto i (rlog k) x" by (auto simp: stored_def)
  have j: "justified (seen s) (rlog k)" using assms(1) past_seen [OF k(1)] by (auto simp: logs_just_def)
  have i: "i - 1 < i" "Suc (i - 1) = i" using assms(3) by (simp_all add: mark_def)
  have "i - 1 < length (rlog k)" "rlog k ! (i - 1) = x ! (i - 1)"
    using k(2) i same_upto_nth [OF k(2) i(1)] by (auto simp: same_upto_def)
  with j i(2) assms(3) obtain l where "leads (seen s) t l" "same_upto i (rlog k) l"
    unfolding justified_def mark_def by metis
  with k(2) that same_upto_sym same_upto_trans show thesis by blast
qed

lemma leader_agrees:
  assumes "logs_just ids s" "chained (seen s)" and "stored (past s) f t i x" "mark x i t" "lasting s t i x"
    and "leads (seen s) t' b" "t \<le> t'" "p < i" "p < length b"
  shows "b ! p = x ! p"
proof (cases "t = t'")
  case True
  obtain l where l: "leads (seen s) t l" "same_upto i l x" by (rule stored_leads [OF assms(1,3,4)])
  with assms(2,6) True have "comparable l b" by (auto simp: chained_def)
  moreover have "Suc p \<le> length l" using l(2) assms(8) by (simp add: same_upto_def)
  ultimately have "same_upto (Suc p) l b" using assms(9) by (intro comparable_same) simp_all
  with same_upto_nth [OF this, of p] same_upto_nth [OF l(2) assms(8)] show ?thesis by simp
next
  case False
  with assms(7) have "t < t'" by simp
  with assms(5,6) have "same_upto i b x" unfolding lasting_def by blast
  from same_upto_nth [OF this assms(8)] show ?thesis .
qed

text \<open>The vote goes to a log at least as far on, so the entry is in it.\<close>

lemma up_to_date_has:
  assumes S: "chained S" "ordered S" and a: "justified S a" "log_wf a" and b: "justified S b" "log_wf b"
    and x: "same_upto i a x" "mark x i t" "0 \<le> t" and later: "\<And>t' l. t < t' \<Longrightarrow> leads S t' l \<Longrightarrow> same_upto i l x"
    and le: "(last_term a, last_index a) \<le> (last_term b, last_index b)"
  shows "same_upto i b x"
proof -
  have i: "0 < i" "i \<le> length a" "a ! (i - 1) = x ! (i - 1)" "a \<noteq> []"
    using x(1,2) same_upto_nth [OF x(1), of "i - 1"] by (auto simp: mark_def same_upto_def)
  have srt: "sorted (map le_term a)" by (rule justified_sorted [OF S(2) a(1)])
  have mono: "le_term (a ! p) \<le> le_term (a ! q)" if "p \<le> q" "q < length a" for p q
    using sorted_nth_mono [OF srt, of p q] that by simp
  have t: "le_term (a ! (i - 1)) = t" using i(3) x(2) by (simp add: mark_def)
  then have ta: "t \<le> last_term a" using mono [of "i - 1" "length a - 1"] i by (simp add: last_term_def last_conv_nth)
  have "last_term a < last_term b \<or> last_term a = last_term b \<and> length a \<le> length b"
    using le a(2) b(2) by (auto simp: last_index_wf less_eq_prod_def)
  then show ?thesis
  proof
    assume lt: "last_term a < last_term b"
    then have ne: "b \<noteq> []" using ta x(3) by auto
    obtain l where l: "leads S (le_term (last b)) l" "prefix b l" by (rule justified_last [OF b(1) ne])
    have tb: "last_term b = le_term (last b)" using ne by (simp add: last_term_def)
    have lx: "same_upto i l x" using later [OF _ l(1)] lt ta tb by simp
    show ?thesis
    proof (cases "i \<le> length b")
      case True
      from same_upto_trans [OF prefix_same_upto [OF l(2) True] lx] show ?thesis .
    next
      case False
      let ?p = "length b - 1"
      have p: "?p < i" "?p < length b" using False ne by auto
      have "b ! ?p = l ! ?p" using same_upto_nth [OF prefix_same_upto [OF l(2) order_refl]] p(2) by blast
      also have "\<dots> = x ! ?p" by (rule same_upto_nth [OF lx p(1)])
      also have "\<dots> = a ! ?p" using same_upto_nth [OF x(1) p(1)] by simp
      finally have "le_term (last b) \<le> t"
        using mono [of ?p "i - 1"] p(1) i(2) t ne by (simp add: last_conv_nth)
      with lt ta tb show ?thesis by simp
    qed
  next
    assume eq: "last_term a = last_term b \<and> length a \<le> length b"
    then have ne: "b \<noteq> []" using i(4) by auto
    obtain la where la: "leads S (le_term (last a)) la" "prefix a la" by (rule justified_last [OF a(1) i(4)])
    obtain lb where lb: "leads S (le_term (last b)) lb" "prefix b lb" by (rule justified_last [OF b(1) ne])
    have "le_term (last a) = le_term (last b)" using eq i(4) ne by (simp add: last_term_def)
    with la(1) lb(1) S(1) have c: "comparable la lb" by (auto simp: chained_def)
    have A: "same_upto (length a) a la" by (rule prefix_same_upto [OF la(2) order_refl])
    have B: "same_upto (length a) b lb" using prefix_same_upto [OF lb(2)] eq by blast
    have "same_upto (length a) la lb" by (rule comparable_same [OF c]) (use A B in \<open>simp_all add: same_upto_def\<close>)
    from same_upto_trans [OF A this] B have "same_upto (length a) a b"
      using same_upto_sym same_upto_trans by blast
    from same_upto_mono [OF this i(2)] have "same_upto i b a" by (rule same_upto_sym)
    from same_upto_trans [OF this x(1)] show ?thesis .
  qed
qed

section \<open>One node's event\<close>

lemma leader_extends:
  assumes e: "event ids mut s n x"
  defines "k' \<equiv> new_state (handle x (node_at s n))"
  assumes "role k' \<noteq> FOLLOWER" and "current_term k' = current_term (node_at s n)"
  shows "role (node_at s n) \<noteq> FOLLOWER \<and> prefix (rlog (node_at s n)) (rlog k')"
  using event_effect [OF e, folded k'_def] assms(3,4) by cases auto

lemma now_term: "event ids mut s n x \<Longrightarrow> stored (past s) n t i y \<Longrightarrow> t \<le> current_term (node_at s n)"
  using seen_before past_seen unfolding stored_def by blast

lemma new_term: "event ids mut s n x \<Longrightarrow> current_term (node_at s n) \<le> current_term (new_state (handle x (node_at s n)))"
  using handle_vote_kept [of "node_at s n" x] by (simp add: vote_kept_def hard_def)

text \<open>What was kept so far survives the event, on the disk as well, wherever it is cut.\<close>

lemma event_keeps:
  assumes e: "event ids mut s n x" and held: "held ids s"
    and x: "stored (past s) n t i y" "mark y i t" "lasting s t i y"
  defines "k' \<equiv> new_state (handle x (node_at s n))"
  shows "same_upto i (rlog (node_at s n)) y" and "same_upto i (rlog k') y"
    and "same_upto i (rec_entries (wal_run (wal s n @ take c (written (handle x (node_at s n)))) init_recovered)) y"
proof -
  note E = eventD [OF e]
  have "platter s n 0 = \<lparr>rec_state = hard (node_at s n), rec_entries = rlog (node_at s n)\<rparr>" by (rule node_now(6) [OF E(1,5,6)])
  with held x E(5) show now: "same_upto i (rlog (node_at s n)) y" unfolding held_def by (metis recovered.select_convs(2))
  have ext: "same_upto i l y" if "prefix (rlog (node_at s n)) l" for l
    using same_upto_prefix [OF same_upto_sym [OF now] that] by (rule same_upto_sym)
  have b: "same_upto i l y" if "leads (seen s) t' b" "current_term (node_at s n) \<le> t'" "between (rlog (node_at s n)) b l" for t' b l
    by (rule between_keeps [OF that(3) now], rule leader_agrees [OF E(8,9) x that(1)])
      (use now_term [OF e x(1)] that(2) in simp_all)
  show new: "same_upto i (rlog k') y"
    using event_effect [OF e, folded k'_def]
  proof cases
    case (merges ae frm)
    obtain k0 where k0: "quotes k0 ae" "leads (seen s) (ae_term ae) (rlog k0)" "matching_logs (rlog (node_at s n)) (rlog k0)"
      by (rule event_quote [OF e [unfolded merges(1)]])
    have "accepts (node_at s n) ae" using merges by (simp add: accepts_def)
    from quote_merge(1) [OF k0(1) this E(21) k0(3)] merges have "between (rlog (node_at s n)) (rlog k0) (rlog k')" by simp
    from b [OF k0(2) merges(2) this] show ?thesis .
  qed (use ext in simp_all)
  show "same_upto i (rec_entries (wal_run (wal s n @ take c (written (handle x (node_at s n)))) init_recovered)) y"
    using event_platter [OF e, of c, folded k'_def]
  proof (elim disjE exE conjE)
    fix frm k0 assume "(frm, k0) \<in> past s" "role k0 = LEADER"
    then have "leads (seen s) (current_term k0) (rlog k0)" using leadsI [OF past_seen] by blast
    then show "current_term (node_at s n) \<le> current_term k0 \<Longrightarrow>
        between (rlog (node_at s n)) (rlog k0) (rec_entries (wal_run (wal s n @ take c (written (handle x (node_at s n)))) init_recovered)) \<Longrightarrow>
        same_upto i (rec_entries (wal_run (wal s n @ take c (written (handle x (node_at s n)))) init_recovered)) y"
      by (rule b)
  qed (use now new in simp_all)
qed

text \<open>A vote given in the event, whether it is completed or fails.\<close>

lemma new_vote:
  assumes e: "event ids mut s n x" and mut: "\<And>m. mut m = m" and held: "held ids s" and wise: "wise ids s"
    and x: "stored (past s) n t i y" "mark y i t" "lasting s t i y"
  defines "k' \<equiv> new_state (handle x (node_at s n))"
  assumes v: "voted_for k' = Some c" "t < current_term k'"
    and k: "(c, k) \<in> seen s" "role k \<noteq> FOLLOWER" "current_term k = current_term k'"
  shows "same_upto i (rlog k) y"
proof -
  note E = eventD [OF e]
  from vote_source [OF v(1) [unfolded k'_def]] show ?thesis
    unfolding k'_def [symmetric]
  proof (elim disjE exE conjE)
    assume kept: "voted_for (node_at s n) = Some c" "current_term k' = current_term (node_at s n)"
    then have "pledged ids s n (current_term k') c" using E(19) by (auto simp: pledged_def cast_def)
    with wise x v(2) k show ?thesis unfolding wise_def by blast
  next
    assume "x = ElectionTimer" "c = node_id (node_at s n)"
    then have "(n, k) \<in> seen s" "current_term k' = current_term (node_at s n) + 1"
      using k(1) E(23) by (simp_all add: k'_def timeout_hard)
    with seen_before [OF e] k(3) show ?thesis by fastforce
  next
    fix frm rv assume r: "x = Receives frm (MRequestVote rv)" "c = rv_candidate_id rv" "current_term k' = rv_term rv"
      and up: "up_to_date rv (node_at s n)"
    have sent: "(frm, n, MRequestVote rv) \<in> sent s" using E(7) r(1) mut by auto
    then obtain k0 where k0: "(frm, k0) \<in> past s" "asks k0 rv" using E(15) by (fastforce simp: told_def truthful_def)
    have "msg_fine ids (cast s) frm n (MRequestVote rv)" using sent E(1) by (auto simp: cluster_inv_def sent_fine_def)
    then have "frm = c" using r(2) by (simp add: msg_fine_def)
    with k0 have s0: "(c, k0) \<in> seen s" using past_seen by blast
    with E(12) k k0(2) r(3) have "prefix (rlog k0) (rlog k)" by (auto simp: bids_def asks_def)
    moreover have "same_upto i (rlog k0) y"
    proof (rule up_to_date_has [OF E(9,10) E(22,21)])
      show "justified (seen s) (rlog k0)" "log_wf (rlog k0)" using E(8) s0 by (auto simp: logs_just_def)
      show "same_upto i (rlog (node_at s n)) y" by (rule event_keeps(1) [OF e held x])
      show "mark y i t" by (rule x(2))
      show "0 \<le> t" using x(1) E(18) by (auto simp: stored_def clocks_def)
      show "same_upto i l y" if "t < t'" "leads (seen s) t' l" for t' l using x(3) that by (simp add: lasting_def)
      show "(last_term (rlog (node_at s n)), last_index (rlog (node_at s n))) \<le> (last_term (rlog k0), last_index (rlog k0))"
        using up k0(2) by (simp add: up_to_date_def asks_def)
    qed
    ultimately show ?thesis using same_upto_prefix same_upto_sym by blast
  qed
qed

section \<open>The steps\<close>

lemma stored_last:
  assumes "stored (insert (n, k) (past s)) n t i y" and "t < t'" and "t' \<le> current_term k"
  shows "current_term k = t \<Longrightarrow> False" and "stored (past s) n t i y"
  using assms by (auto simp: stored_insert)

lemma held_complete:
  assumes e: "event ids mut s n x" and held: "held ids s"
  defines "s' \<equiv> complete n (handle x (node_at s n)) s"
  shows "held ids s'"
proof -
  note E = eventD [OF e]
  define k' where "k' = new_state (handle x (node_at s n))"
  have s': "past s' = insert (n, k') (past s)" "seen s \<subseteq> seen s'" by (auto simp: s'_def k'_def)
  have inv': "cluster_inv ids s'" unfolding s'_def by (rule inv_complete [OF E(1,3-7) event_wf [OF e]])
  have "running (node_at s' n)" using handle_ids E(6) by (simp add: s'_def)
  from node_now(6) [OF inv' E(5) this] have now': "rec_entries (platter s' n j) = rlog k'" for j
    by (simp add: s'_def k'_def)
  have plat: "platter s' m j = platter s m j" if "m \<noteq> n" for m j using that by (simp add: platter_def s'_def complete_def)
  show ?thesis
    unfolding held_def
  proof (intro ballI allI impI)
    fix m t i y j assume m: "m \<in> set ids" and y: "stored (past s') m t i y" "mark y i t" "lasting s' t i y"
    have l: "lasting s t i y" by (rule lasting_shrinks [OF y(3) s'(2)])
    show "same_upto i (rec_entries (platter s' m j)) y"
    proof (cases "m = n")
      case True
      with y(1) consider "stored (past s) n t i y" | "same_upto i (rlog k') y" by (auto simp: s'(1) stored_insert)
      then show ?thesis
        using event_keeps(2) [OF e held _ y(2) l] True by cases (simp_all add: now' k'_def)
    next
      case False
      with y(1,2) l held m plat show ?thesis by (auto simp: s'(1) stored_insert held_def)
    qed
  qed
qed

lemma held_fail:
  assumes e: "event ids mut s n x" and held: "held ids s"
  defines "s' \<equiv> fail n (handle x (node_at s n)) s"
  shows "held ids s'"
  unfolding held_def
proof (intro ballI allI impI)
  fix m t i y j assume m: "m \<in> set ids" and y: "stored (past s') m t i y" "mark y i t" "lasting s' t i y"
  have s': "past s' = past s" "seen s \<subseteq> seen s'" by (auto simp: s'_def seen_def fail_def)
  have l: "lasting s t i y" by (rule lasting_shrinks [OF y(3) s'(2)])
  show "same_upto i (rec_entries (platter s' m j)) y"
  proof (cases "m = n")
    case True
    with event_keeps(3) [OF e held _ y(2) l, of j] y(1) s'(1) show ?thesis by (simp add: s'_def platter_def)
  next
    case False
    then have "platter s' m j = platter s m j" by (simp add: s'_def platter_def)
    with y(1,2) l held m s'(1) show ?thesis by (auto simp: held_def)
  qed
qed

lemma platter_restart: "platter (restart n i s) m j = (if m = n then platter s n i else platter s m j)"
  by (simp add: platter_def restart_def Let_def)

lemma past_restart: "past (restart n i s) = insert (n, recovered_node (platter s n i) (node_at s n)) (past s)"
    "seen s \<subseteq> seen (restart n i s)"
  by (auto simp: restart_def Let_def seen_def)

lemma held_restart:
  assumes held: "held ids s" and n: "n \<in> set ids"
  shows "held ids (restart n i s)"
  unfolding held_def
proof (intro ballI allI impI)
  let ?s' = "restart n i s"
  fix m t c y j assume m: "m \<in> set ids" and y: "stored (past ?s') m t c y" "mark y c t" "lasting ?s' t c y"
  have l: "lasting s t c y" by (rule lasting_shrinks [OF y(3) past_restart(2)])
  from y(1) have "stored (past s) m t c y \<or> m = n \<and> same_upto c (rec_entries (platter s n i)) y"
    by (auto simp: past_restart stored_insert)
  with held m n y(2) l show "same_upto c (rec_entries (platter ?s' m j)) y"
    by (auto simp: held_def platter_restart)
qed

lemma wiseD:
  "wise ids s \<Longrightarrow> stored (past s) f t i y \<Longrightarrow> mark y i t \<Longrightarrow> lasting s t i y \<Longrightarrow> t < current_term k \<Longrightarrow>
     pledged ids s f (current_term k) c \<Longrightarrow> (c, k) \<in> seen s \<Longrightarrow> role k \<noteq> FOLLOWER \<Longrightarrow> same_upto i (rlog k) y"
  unfolding wise_def by blast

lemma pledged_running:
  assumes "cluster_inv ids s" and "n \<in> set ids" and "running (node_at s n)"
  shows "pledged ids s n t c \<longleftrightarrow> cast s n t c"
  using node_now(5,6) [OF assms] assms(2) by (auto simp: pledged_def cast_def hard_def)

lemma pledged_self:
  assumes e: "event ids mut s n x" and "pledged ids s f t n"
  shows "t \<le> current_term (node_at s n)"
proof -
  note E = eventD [OF e]
  have "cast s n t n"
  proof (cases "cast s f t n")
    case True
    with E(14) show ?thesis by (simp add: backed_def)
  next
    case False
    with assms(2) obtain j where f: "f \<in> set ids" "rec_state (platter s f j) = HardState t (Some n)" by (auto simp: pledged_def)
    with E(14) have "n = f \<or> cast s n t n" unfolding backed_def by (metis hard_state.sel)
    with assms(2) pledged_running [OF E(1,5,6)] show ?thesis by blast
  qed
  then obtain j where "(n, j) \<in> past s" "current_term j = t" by (auto simp: cast_def)
  with seen_before [OF e past_seen] show ?thesis by blast
qed

text \<open>A leader's or candidate's new state, when it is there before the vote.\<close>

lemma wise_new_state:
  assumes e: "event ids mut s n x" and wise: "wise ids s"
    and y: "stored (past s) f t i y" "mark y i t" "lasting s t i y"
  defines "k' \<equiv> new_state (handle x (node_at s n))"
  assumes k': "role k' \<noteq> FOLLOWER" "t < current_term k'" "pledged ids s f (current_term k') n"
  shows "same_upto i (rlog k') y"
proof -
  note E = eventD [OF e]
  have "current_term k' = current_term (node_at s n)"
    using event_effect [OF e, folded k'_def]
  proof cases
    case times_out
    with pledged_self [OF e k'(3)] show ?thesis by simp
  qed (use k'(1) in \<open>auto simp: hard_def\<close>)
  with leader_extends [OF e, folded k'_def, OF k'(1)] have
    k: "role (node_at s n) \<noteq> FOLLOWER" "prefix (rlog (node_at s n)) (rlog k')" "current_term (node_at s n) = current_term k'" by auto
  have "same_upto i (rlog (node_at s n)) y"
    by (rule wiseD [OF wise y, of "node_at s n" n]) (use k k' E(20) in auto)
  with k(2) show ?thesis using same_upto_prefix same_upto_sym by blast
qed

lemma wise_complete:
  assumes e: "event ids mut s n x" and mut: "\<And>m. mut m = m" and held: "held ids s" and wise: "wise ids s"
  defines "s' \<equiv> complete n (handle x (node_at s n)) s"
  shows "wise ids s'"
  unfolding wise_def
proof (intro allI impI)
  note E = eventD [OF e]
  define k' where "k' = new_state (handle x (node_at s n))"
  have s': "past s' = insert (n, k') (past s)" "seen s' = insert (n, k') (seen s)" by (auto simp: s'_def k'_def)
  have inv': "cluster_inv ids s'" unfolding s'_def by (rule inv_complete [OF E(1,3-7) event_wf [OF e]])
  have run': "running (node_at s' n)" using handle_ids E(6) by (simp add: s'_def)
  have plat: "platter s' m j = platter s m j" if "m \<noteq> n" for m j using that by (simp add: platter_def s'_def complete_def)
  fix f t i y t' c k
  assume y': "stored (past s') f t i y" and y: "mark y i t" "lasting s' t i y" and t: "t < t'"
    and p: "pledged ids s' f t' c" and k: "(c, k) \<in> seen s'" "role k \<noteq> FOLLOWER" "current_term k = t'"
  have l: "lasting s t i y" by (rule lasting_shrinks [OF y(2)]) (auto simp: s')
  have "pledged ids s f t' c \<or> f = n \<and> current_term k' = t' \<and> voted_for k' = Some c"
  proof (cases "f = n")
    case True
    with p pledged_running [OF inv' E(5) run'] have "cast s' n t' c" by simp
    with True show ?thesis by (auto simp: pledged_def cast_def s')
  next
    case False
    with p plat show ?thesis by (auto simp: pledged_def cast_def s')
  qed
  moreover have le: "f = n \<Longrightarrow> t' \<le> current_term k'"
  proof -
    assume "f = n"
    with p pledged_running [OF inv' E(5) run'] have "cast s' n t' c" by simp
    then obtain j where "(n, j) \<in> past s' \<and> current_term j = t'" by (auto simp: cast_def)
    then show ?thesis using seen_before [OF e past_seen, of j] new_term [OF e] by (auto simp: s'(1) k'_def)
  qed
  with y' t have y1: "stored (past s) f t i y" by (auto simp: s'(1) stored_insert)
  ultimately consider (old) "pledged ids s f t' c" "(c, k) \<in> seen s" | (cand) "pledged ids s f t' c" "c = n" "k = k'"
    | (vote) "f = n" "current_term k' = t'" "voted_for k' = Some c" "(c, k) \<in> seen s"
    | (self) "f = n" "current_term k' = t'" "voted_for k' = Some n" "c = n" "k = k'"
    using k(1) by (auto simp: s'(2))
  then show "same_upto i (rlog k) y"
  proof cases
    case old
    with wiseD [OF wise y1 y(1) l] k t show ?thesis by blast
  next
    case cand
    with wise_new_state [OF e wise y1 y(1) l] cand k t show ?thesis by (simp add: k'_def)
  next
    case vote
    with new_vote [OF e mut held wise _ y(1) l] y1 k t show ?thesis by (simp add: k'_def)
  next
    case self
    show ?thesis using event_keeps(2) [OF e held _ y(1) l] y1 self by (simp add: k'_def)
  qed
qed

lemma wise_fail:
  assumes e: "event ids mut s n x" and mut: "\<And>m. mut m = m" and held: "held ids s" and wise: "wise ids s"
  defines "s' \<equiv> fail n (handle x (node_at s n)) s"
  shows "wise ids s'"
  unfolding wise_def
proof (intro allI impI)
  note E = eventD [OF e]
  define k' where "k' = new_state (handle x (node_at s n))"
  have s': "past s' = past s" "seen s \<subseteq> seen s'" by (auto simp: s'_def seen_def fail_def)
  have new: "(c, k) \<in> seen s \<or> c = n \<and> k = k' \<and> current_term k' = current_term (node_at s n)" if "(c, k) \<in> seen s'" for c k
    using that by (auto simp: s'_def seen_def fail_def k'_def hard_def split: if_splits)
  have plat: "platter s' m j = platter s m j" if "m \<noteq> n" for m j using that by (simp add: platter_def s'_def)
  fix f t i y t' c k
  assume y': "stored (past s') f t i y" and y: "mark y i t" "lasting s' t i y" and t: "t < t'"
    and p: "pledged ids s' f t' c" and k: "(c, k) \<in> seen s'" "role k \<noteq> FOLLOWER" "current_term k = t'"
  have l: "lasting s t i y" by (rule lasting_shrinks [OF y(2) s'(2)])
  have y1: "stored (past s) f t i y" using y' s'(1) by simp
  have "pledged ids s f t' c \<or> f = n \<and> current_term k' = t' \<and> voted_for k' = Some c"
  proof (cases "cast s f t' c")
    case False
    with p s'(1) obtain j where f: "f \<in> set ids" "rec_state (platter s' f j) = HardState t' (Some c)"
      by (auto simp: pledged_def cast_def)
    show ?thesis
    proof (cases "f = n")
      case True
      have "rec_state (platter s' n j) = hard (node_at s n) \<or> rec_state (platter s' n j) = hard k'"
        using handle_platter_hard [OF node_now(4) [OF E(1,5,6)]] by (simp add: platter_def s'_def k'_def)
      with f True E(19) show ?thesis by (auto simp: pledged_def cast_def hard_def)
    next
      case False
      with f plat show ?thesis by (auto simp: pledged_def)
    qed
  qed (simp add: pledged_def)
  then show "same_upto i (rlog k) y"
  proof
    assume old: "pledged ids s f t' c"
    from new [OF k(1)] show ?thesis
    proof
      assume "(c, k) \<in> seen s"
      with wiseD [OF wise y1 y(1) l] old k t show ?thesis by blast
    next
      assume "c = n \<and> k = k' \<and> current_term k' = current_term (node_at s n)"
      with wise_new_state [OF e wise y1 y(1) l] old k t show ?thesis by (simp add: k'_def)
    qed
  next
    assume v: "f = n \<and> current_term k' = t' \<and> voted_for k' = Some c"
    from new [OF k(1)] show ?thesis
    proof
      assume "(c, k) \<in> seen s"
      with new_vote [OF e mut held wise _ y(1) l] y1 v k t show ?thesis by (simp add: k'_def)
    next
      assume "c = n \<and> k = k' \<and> current_term k' = current_term (node_at s n)"
      with event_keeps(2) [OF e held _ y(1) l] y1 v show ?thesis by (simp add: k'_def)
    qed
  qed
qed

lemma wise_restart:
  assumes inv: "cluster_inv ids s" "logs_inv ids s" and n: "n \<in> set ids" and down: "\<not> running (node_at s n)" and wise: "wise ids s"
  shows "wise ids (restart n i s)"
  unfolding wise_def
proof (intro allI impI)
  let ?s' = "restart n i s" and ?r = "platter s n i"
  let ?k' = "recovered_node ?r (node_at s n)"
  have role: "role ?k' = FOLLOWER" using inv(1) n down by (simp add: cluster_inv_def node_fine_def Let_def)
  fix f t c y t' v k
  assume y': "stored (past ?s') f t c y" and y: "mark y c t" "lasting ?s' t c y" and t: "t < t'"
    and p: "pledged ids ?s' f t' v" and k: "(v, k) \<in> seen ?s'" "role k \<noteq> FOLLOWER" "current_term k = t'"
  have l: "lasting s t c y" by (rule lasting_shrinks [OF y(2) past_restart(2)])
  have k1: "(v, k) \<in> seen s" using k(1,2) role by (auto simp: seen_def restart_def Let_def)
  have new: "cast ?s' f t' v \<longleftrightarrow> cast s f t' v \<or> f = n \<and> rec_state ?r = HardState t' (Some v)"
    by (cases "rec_state ?r") (auto simp: cast_def past_restart(1) recovered_node_def)
  have p1: "pledged ids s f t' v"
    using p n unfolding pledged_def new platter_restart by (auto split: if_splits)
  have "t' \<le> current_term ?k'" if "f = n"
  proof -
    have "current_term j \<le> current_term ?k'" if "(n, j) \<in> past s" for j
      using past_kept [OF inv(1) n that, of i] by (simp add: vote_kept_def hard_def recovered_node_def)
    moreover have "(\<exists>j. (n, j) \<in> past s \<and> current_term j = t') \<or> rec_state ?r = HardState t' (Some v)"
      using p that n new by (auto simp: pledged_def platter_restart cast_def)
    ultimately show ?thesis by (auto simp: recovered_node_def)
  qed
  with y' t have "stored (past s) f t c y" by (auto simp: past_restart stored_insert)
  from wiseD [OF wise this y(1) l, of k v] p1 k1 k t show "same_upto c (rlog k) y" by blast
qed

lemma same_seen:
  assumes "past s' = past s" and "seen s' = seen s" and "platter s' = platter s"
  shows "held ids s' = held ids s" "wise ids s' = wise ids s"
proof -
  have "lasting s' = lasting s" by (simp add: fun_eq_iff lasting_def assms)
  moreover have "pledged ids s' = pledged ids s" by (simp add: fun_eq_iff pledged_def same_past(1) [OF assms(1)] assms(3))
  ultimately show "held ids s' = held ids s" "wise ids s' = wise ids s" by (simp_all add: held_def wise_def assms)
qed

theorem reachable_held_wise:
  assumes "reachable ids mut s" and ids: "ids_ok ids" and mut: "\<And>m. mut m = m"
  shows "held ids s \<and> wise ids s"
  using assms(1)
proof induction
  case starts
  have p: "(f, k) \<in> seen (initial ids) \<Longrightarrow> role k = FOLLOWER \<and> rlog k = []" for f k
    by (auto simp: seen_def initial_def new_rnode_def)
  then have "\<not> (stored (past (initial ids)) n t i x \<and> mark x i t)" for n t i x
    using p by (fastforce simp: stored_def mark_def same_upto_def seen_def)
  then show ?case by (auto simp: held_def wise_def)
next
  case (moves s s')
  have mok: "mut_ok mut" using mut by (simp add: mut_ok_def)
  have inv: "cluster_inv ids s" "logs_inv ids s"
    by (rule reachable_inv [OF moves(1) ids mok], rule reachable_logs [OF moves(1) ids mok])
  have ev: "event ids mut s n x" if "n \<in> set ids" "running (node_at s n)" "due mut s n x" for n x
    using inv ids mok that by (simp add: event_def)
  from moves(2) show ?case
  proof cases
    case (completes n x)
    with held_complete [OF ev] wise_complete [OF ev mut] moves(3) show ?thesis by simp
  next
    case (fails n x)
    with held_fail [OF ev] wise_fail [OF ev mut] moves(3) show ?thesis by simp
  next
    case (crashes n)
    have "held ids s' = held ids s" "wise ids s' = wise ids s"
      by (rule same_seen; simp add: crashes crash_def seen_def platter_def fun_eq_iff)+
    with moves(3) show ?thesis by simp
  next
    case (restarts n i)
    show ?thesis
    proof (cases "running (node_at s n)")
      case True
      have "restart n i s = s" by (rule restart_running [OF inv(1) restarts(2) True])
      with moves(3) restarts show ?thesis by simp
    next
      case False
      with held_restart wise_restart [OF inv] restarts moves(3) show ?thesis by simp
    qed
  next
    case (requests c n r)
    have "held ids s' = held ids s" "wise ids s' = wise ids s"
      by (rule same_seen; simp add: requests request_def seen_def platter_def fun_eq_iff)+
    with moves(3) show ?thesis by simp
  qed
qed

section \<open>What is chosen lasts\<close>

text \<open>How a step extends the past, and the leaders.\<close>

lemma step_past:
  assumes inv: "cluster_inv ids s" "logs_inv ids s" and ids: "ids_ok ids" "mut_ok mut" and step: "cstep ids mut s s'"
  shows "past s' = past s \<or> (\<exists>n k. past s' = insert (n, k) (past s) \<and> (\<forall>p. (n, p) \<in> past s \<longrightarrow> current_term p \<le> current_term k))"
  using step
proof cases
  case (completes n x)
  with inv ids have e: "event ids mut s n x" by (simp add: event_def)
  then have "current_term p \<le> current_term (new_state (handle x (node_at s n)))" if "(n, p) \<in> past s" for p
    using seen_before [OF e past_seen [OF that]] new_term [OF e] by simp
  with completes show ?thesis by auto
next
  case (restarts n i)
  have "current_term p \<le> current_term (recovered_node (platter s n i) (node_at s n))" if "(n, p) \<in> past s" for p
    using past_kept [OF inv(1) restarts(2) that, of i] by (simp add: vote_kept_def hard_def recovered_node_def)
  with restarts show ?thesis by (auto simp: past_restart)
qed (simp_all add: crash_def request_def)

lemma step_seen:
  assumes inv: "cluster_inv ids s" "logs_inv ids s" and ids: "ids_ok ids" "mut_ok mut" and step: "cstep ids mut s s'"
    and l: "leads (seen s') t l" "\<not> leads (seen s) t l"
  obtains n x where "event ids mut s n x" "role (new_state (handle x (node_at s n))) = LEADER"
    "current_term (new_state (handle x (node_at s n))) = t" "rlog (new_state (handle x (node_at s n))) = l"
    "role_fine ids (cast s') (new_state (handle x (node_at s n)))"
    "past s' \<subseteq> insert (n, new_state (handle x (node_at s n))) (past s)"
  using step
proof cases
  case (completes n x)
  with inv ids have e: "event ids mut s n x" by (simp add: event_def)
  have "cluster_inv ids s'" "attempts ids s'"
    using inv_complete [OF inv(1) ids completes(2-4) event_wf [OF e]] logs_complete [OF e] completes(1) by (simp_all add: logs_inv_def)
  then have "role_fine ids (cast s') (new_state (handle x (node_at s n)))"
    using completes(1) by (intro seen_role_fine [of ids s' n]) auto
  moreover from l completes(1) have "role (new_state (handle x (node_at s n))) = LEADER
      \<and> current_term (new_state (handle x (node_at s n))) = t \<and> rlog (new_state (handle x (node_at s n))) = l"
    by (auto simp: leads_insert)
  ultimately show thesis using that [OF e] completes(1) by auto
next
  case (fails n x)
  with inv ids have e: "event ids mut s n x" by (simp add: event_def)
  let ?k' = "new_state (handle x (node_at s n))"
  from l fails(1) have k': "role ?k' = LEADER" "hard ?k' = hard (node_at s n)" "current_term ?k' = t" "rlog ?k' = l"
    by (auto simp: seen_def fail_def leads_def split: if_splits)
  have c: "cast s' = cast s" by (rule same_past) (simp add: fails(1))
  have "role_fine ids (cast s') ?k'" using attempt_role_fine [OF e k'(2)] by (simp add: c)
  then show thesis by (rule that [OF e k'(1,3,4)]) (auto simp: fails(1))
next
  case (restarts n i)
  show thesis
  proof (cases "running (node_at s n)")
    case True
    with l restarts restart_running [OF inv(1) restarts(2)] show thesis by simp
  next
    case False
    then have "role (recovered_node (platter s n i) (node_at s n)) = FOLLOWER"
      using inv(1) restarts(2) by (simp add: cluster_inv_def node_fine_def Let_def)
    moreover have "seen s' = insert (n, recovered_node (platter s n i) (node_at s n)) (seen s)"
      by (simp add: restarts(1) seen_def restart_def Let_def)
    ultimately show thesis using l by (simp add: leads_insert)
  qed
qed (use l in \<open>simp_all add: crash_def request_def seen_def\<close>)

text \<open>A newly elected leader has what a majority \<open>Q\<close> stored, if the earlier ones have.\<close>

lemma elected_has:
  assumes e: "event ids mut s n x" and held: "held ids s" and wise: "wise ids s"
  defines "k' \<equiv> new_state (handle x (node_at s n))"
  assumes lead: "role k' = LEADER" "t < current_term k'" and rf: "role_fine ids (cast s') k'"
    and past': "past s' \<subseteq> insert (n, k') (past s)"
    and y: "mark y i t" "lasting s t i y" "majority_of ids Q"
    and Q: "\<And>f k2. f \<in> Q \<Longrightarrow> (f, k2) \<in> past s' \<Longrightarrow> t < current_term k2 \<Longrightarrow> stored (past s) f t i y"
  shows "same_upto i (rlog k') y"
proof -
  note E = eventD [OF e]
  have "node_id k' = n" using handle_ids E(23) by (simp add: k'_def)
  with rf lead(1) obtain R where R: "majority_of ids R" "\<forall>f \<in> R. cast s' f (current_term k') n" by (auto simp: role_fine_def)
  obtain f where f: "f \<in> Q" "f \<in> R" by (rule majorities.witness [OF y(3) R(1)])
  then obtain k2 where k2: "(f, k2) \<in> past s'" "current_term k2 = current_term k'" "voted_for k2 = Some n"
    using R(2) by (auto simp: cast_def)
  have st: "stored (past s) f t i y" by (rule Q [OF f(1) k2(1)]) (use k2(2) lead(2) in simp)
  show ?thesis
  proof (cases "(f, k2) \<in> past s")
    case True
    then have "pledged ids s f (current_term k') n" using k2 by (auto simp: pledged_def cast_def)
    from wise_new_state [OF e wise st y(1,2), folded k'_def, OF _ lead(2) this] lead(1) show ?thesis by simp
  next
    case False
    with k2(1) past' have "f = n" by auto
    with event_keeps(2) [OF e held _ y(1,2)] st show ?thesis by (simp add: k'_def)
  qed
qed

lemma majority_lasts:
  assumes "reachable ids mut s" and ids: "ids_ok ids" and mut: "\<And>m. mut m = m"
    and y: "mark y i t" "majority_of ids Q" "\<forall>f \<in> Q. stored P f t i y"
    and P: "\<forall>f k1 k2. (f, k1) \<in> P \<longrightarrow> (f, k2) \<in> past s \<longrightarrow> current_term k1 < current_term k2 \<longrightarrow> (f, k1) \<in> past s"
  shows "lasting s t i y"
  using assms(1) P
proof induction
  case starts
  have "role k = FOLLOWER" if "(f, k) \<in> seen (initial ids)" for f k
    using that by (auto simp: seen_def initial_def new_rnode_def)
  then have "\<not> leads (seen (initial ids)) t' l" for t' l by (fastforce simp: leads_def)
  then show ?case by (simp add: lasting_def)
next
  case (moves s s')
  have mok: "mut_ok mut" using mut by (simp add: mut_ok_def)
  have inv: "cluster_inv ids s" "logs_inv ids s"
    by (rule reachable_inv [OF moves(1) ids mok], rule reachable_logs [OF moves(1) ids mok])
  note step = step_past [OF inv ids mok moves(2)]
  have prior: "(f, k1) \<in> past s" if k: "(f, k1) \<in> P" "(f, k2) \<in> past s" "current_term k1 < current_term k2" for f k1 k2
  proof -
    have "(f, k1) \<in> past s'" using moves.prems k step by blast
    moreover have "(f, k1) \<noteq> (n, k) \<or> (f, k1) \<in> past s" if "\<forall>p. (n, p) \<in> past s \<longrightarrow> current_term p \<le> current_term k" for n k
      using that k(2,3) by fastforce
    ultimately show ?thesis using step by blast
  qed
  then have old: "lasting s t i y" using moves.IH prior by blast
  show ?case
    unfolding lasting_def
  proof (intro allI impI)
    fix t' l assume t': "t < t'" "leads (seen s') t' l"
    show "same_upto i l y"
    proof (cases "leads (seen s) t' l")
      case True
      with old t'(1) show ?thesis by (simp add: lasting_def)
    next
      case False
      obtain n x where e: "event ids mut s n x" and k': "role (new_state (handle x (node_at s n))) = LEADER"
        "current_term (new_state (handle x (node_at s n))) = t'" "rlog (new_state (handle x (node_at s n))) = l"
        "role_fine ids (cast s') (new_state (handle x (node_at s n)))"
        "past s' \<subseteq> insert (n, new_state (handle x (node_at s n))) (past s)"
        by (rule step_seen [OF inv ids mok moves(2) t'(2) False])
      have hw: "held ids s" "wise ids s" using reachable_held_wise [OF moves(1) ids mut] by auto
      have "stored (past s) f t i y" if f: "f \<in> Q" "(f, k2) \<in> past s'" "t < current_term k2" for f k2
      proof -
        from y(3) f(1) obtain k1 where k1: "(f, k1) \<in> P" "current_term k1 = t" "same_upto i (rlog k1) y" by (auto simp: stored_def)
        with moves.prems f have "(f, k1) \<in> past s'" by blast
        moreover have "k1 \<noteq> new_state (handle x (node_at s n))" using k1(2) k'(2) t'(1) by auto
        ultimately have "(f, k1) \<in> past s" using k'(5) by auto
        with k1 show ?thesis by (auto simp: stored_def)
      qed
      from elected_has [OF e hw k'(1) _ k'(4,5) y(1) old y(2) this] t'(1) k'(2,3) show ?thesis by simp
    qed
  qed
qed

theorem chosen_lasts:
  assumes "reachable ids mut s" and "ids_ok ids" and "\<And>m. mut m = m" and "chosen ids (past s) t i y"
  shows "lasting s t i y"
proof -
  from assms(4) obtain Q where "mark y i t" "majority_of ids Q" "\<forall>f \<in> Q. stored (past s) f t i y" by (auto simp: chosen_def)
  from majority_lasts [OF assms(1-3) this] show ?thesis by blast
qed

end
