(* ===== verification/Node_Applied.thy ===== *)
theory Node_Applied
  imports Node_Effects
begin

text \<open>
  What the handlers do to the state machine: a handler that commits applies every entry up to the new commit index,
  each once and in order, and no other handler touches the store. \<open>applied_ok\<close> says that the store is the replay of
  the applied part of the log.
\<close>

declare block.simps [simp del]

section \<open>The store of a log\<close>

definition log_store :: "raft_log \<Rightarrow> kv_store" where
  "log_store l = kv_run (map le_command l) kv_init"

definition applied_ok :: "rnode \<Rightarrow> bool" where
  "applied_ok k \<longleftrightarrow> 0 \<le> last_applied k \<and> last_applied k \<le> commit_index k \<and> commit_index k \<le> int (length (rlog k))
     \<and> kv k = log_store (take (nat (last_applied k)) (rlog k))"

text \<open>\<open>applies k k'\<close>: the store of \<open>k'\<close> is that of \<open>k\<close> after the entries of its own log in between.\<close>

definition applies :: "rnode \<Rightarrow> rnode \<Rightarrow> bool" where
  "applies k k' \<longleftrightarrow> last_applied k \<le> last_applied k'
     \<and> (last_applied k' = last_applied k \<or> last_applied k' \<le> commit_index k')
     \<and> kv k' = kv_run (map le_command (take (nat (last_applied k' - last_applied k)) (drop (nat (last_applied k)) (rlog k')))) (kv k)"

lemma kv_run_append: "kv_run (a @ b) s = kv_run b (kv_run a s)"
  by (simp add: kv_run_def)

lemma log_store_run: "kv_run (map le_command b) (log_store a) = log_store (a @ b)"
  by (simp add: log_store_def kv_run_append)

lemma applies_still: "last_applied k' = last_applied k \<Longrightarrow> kv k' = kv k \<Longrightarrow> applies k k'"
  by (simp add: applies_def)

lemma applies_from: "applies k1 k' \<Longrightarrow> last_applied k1 = last_applied k \<Longrightarrow> kv k1 = kv k \<Longrightarrow> applies k k'"
  by (simp add: applies_def)

lemma applies_ok:
  assumes k: "applied_ok k" and "applies k k'" and same: "same_upto (nat (last_applied k)) (rlog k) (rlog k')"
    and c: "commit_index k \<le> commit_index k'" "commit_index k' \<le> int (length (rlog k'))"
  shows "applied_ok k'"
proof -
  note A = assms(2) [unfolded applies_def] and K = k [unfolded applied_ok_def]
  have b: "0 \<le> last_applied k'" "last_applied k' \<le> commit_index k'" using A K c by auto
  have "take (nat (last_applied k)) (rlog k) = take (nat (last_applied k)) (rlog k')" using same by (simp add: same_upto_def)
  moreover have "nat (last_applied k) + nat (last_applied k' - last_applied k) = nat (last_applied k')" using A K by linarith
  ultimately have "kv k' = log_store (take (nat (last_applied k')) (rlog k'))"
    using A K log_store_run take_add [of "nat (last_applied k)" "nat (last_applied k' - last_applied k)" "rlog k'"] by simp
  with b c(2) show ?thesis by (simp add: applied_ok_def)
qed

section \<open>The handlers\<close>

lemma apply_one_store: "kv (fst (apply_one k)) = kv_apply (le_command (rlog k ! nat (last_applied k))) (kv k)"
  by (simp add: apply_one_def Let_def split: option.split)

lemma apply_spec_applies:
  "0 \<le> last_applied k \<Longrightarrow> commit_index k \<le> int (length (rlog k)) \<Longrightarrow> applies k (fst (apply_spec n k))"
proof (induction n arbitrary: k)
  case 0
  then show ?case by (simp add: applies_still)
next
  case (Suc n)
  show ?case
  proof (cases "last_applied k < commit_index k")
    case True
    let ?k1 = "fst (apply_one k)"
    let ?k' = "fst (apply_spec n ?k1)"
    note one = apply_one_same [of k]
    have l1: "rlog ?k1 = rlog k" using one by (simp add: same_protocol_def)
    have l': "rlog ?k' = rlog k" using apply_spec_same [of n ?k1] l1 by (simp add: same_protocol_def)
    have "applies ?k1 ?k'" by (rule Suc.IH) (use Suc.prems one l1 in simp_all)
    then have A: "last_applied k + 1 \<le> last_applied ?k'" "last_applied ?k' = last_applied k + 1 \<or> last_applied ?k' \<le> commit_index ?k'"
      "kv ?k' = kv_run (map le_command (take (nat (last_applied ?k' - (last_applied k + 1))) (drop (nat (last_applied k + 1)) (rlog k))))
        (kv_apply (le_command (rlog k ! nat (last_applied k))) (kv k))"
      using one by (simp_all add: applies_def apply_one_store l')
    have c': "commit_index ?k' = commit_index k" using apply_spec_same [of n ?k1] one by simp
    have lt: "nat (last_applied k) < length (rlog k)" using Suc.prems True by linarith
    have n: "nat (last_applied ?k' - last_applied k) = Suc (nat (last_applied ?k' - (last_applied k + 1)))"
      "nat (last_applied k + 1) = Suc (nat (last_applied k))" using A(1) Suc.prems by simp_all
    have "take (nat (last_applied ?k' - last_applied k)) (drop (nat (last_applied k)) (rlog k))
        = rlog k ! nat (last_applied k) # take (nat (last_applied ?k' - (last_applied k + 1))) (drop (nat (last_applied k + 1)) (rlog k))"
      unfolding n by (simp flip: Cons_nth_drop_Suc [OF lt])
    with A True show ?thesis by (auto simp: applies_def l' c' case_prod_beta)
  qed (simp add: applies_still)
qed

lemma apply_committed_applies:
  "0 \<le> last_applied k \<Longrightarrow> commit_index k \<le> int (length (rlog k)) \<Longrightarrow> applies k (fst (apply_committed_spec k))"
  by (simp add: apply_committed_spec_def apply_spec_applies)

lemma advance_commit_applies:
  assumes "0 \<le> last_applied k" and "commit_index (fst (advance_commit_spec k)) \<le> int (length (rlog k))"
  shows "applies k (fst (advance_commit_spec k))"
proof (cases "role k = LEADER")
  case True
  let ?n = "nat (last_index (rlog k) - commit_index k)" and ?i = "last_index (rlog k)"
  from advance_spec_commit [of ?i ?n k] show ?thesis
  proof (elim disjE exE conjE)
    fix j assume j: "advance_spec ?n ?i k = apply_committed_spec (k\<lparr>commit_index := j\<rparr>)"
    have e: "fst (advance_commit_spec k) = fst (apply_committed_spec (k\<lparr>commit_index := j\<rparr>))"
      using True j by (simp add: advance_commit_spec_def)
    have "j \<le> int (length (rlog k))" using assms(2) apply_committed_same(3) [of "k\<lparr>commit_index := j\<rparr>"] by (simp add: e)
    then have "applies (k\<lparr>commit_index := j\<rparr>) (fst (apply_committed_spec (k\<lparr>commit_index := j\<rparr>)))"
      using assms(1) by (intro apply_committed_applies) simp_all
    then show ?thesis unfolding e by (rule applies_from) simp_all
  qed (use True in \<open>simp add: advance_commit_spec_def applies_still\<close>)
qed (simp add: advance_commit_spec_def applies_still)

lemma follow_applied [simp]: "last_applied (follow t l k) = last_applied k" "kv (follow t l k) = kv k"
  by (simp_all add: follow_def)

lemma dispatch_applies:
  assumes a: "0 \<le> last_applied k" and c: "commit_index (new_state (dispatch_spec frm msg k)) \<le> int (length (rlog (new_state (dispatch_spec frm msg k))))"
  shows "applies k (new_state (dispatch_spec frm msg k))"
proof (cases msg)
  case (MRequestVote rv)
  then show ?thesis by (intro applies_still) (simp_all add: request_vote_spec_def reply_vote_spec_def Let_def)
next
  case (MRequestVoteReply r)
  then show ?thesis by (intro applies_still) (simp_all add: request_vote_reply_spec_def Let_def lead_def)
next
  case (MAppendEntries ae)
  let ?k1 = "follow (ae_term ae) (Some (ae_leader_id ae)) k"
  obtain l ws app where t: "take_spec (ae_prev_log_index ae + 1) (ae_entries ae) (rlog ?k1) = (l, ws, app)"
    by (cases "take_spec (ae_prev_log_index ae + 1) (ae_entries ae) (rlog ?k1)")
  let ?k2 = "?k1\<lparr>rlog := l, commit_index := min (ae_leader_commit ae) (ae_prev_log_index ae + int (length (ae_entries ae)))\<rparr>"
  have cases: "new_state (append_entries_spec frm ae k) \<in> {k, ?k1, ?k1\<lparr>rlog := l\<rparr>}
      \<or> new_state (append_entries_spec frm ae k) = fst (apply_committed_spec ?k2)"
    using t by (auto simp: append_entries_spec_def Let_def case_prod_beta)
  then show ?thesis
  proof
    assume e: "new_state (append_entries_spec frm ae k) = fst (apply_committed_spec ?k2)"
    have "applies ?k2 (fst (apply_committed_spec ?k2))"
      by (rule apply_committed_applies)
        (use a c e apply_committed_same [of ?k2] in \<open>simp_all add: MAppendEntries same_protocol_def\<close>)
    then show ?thesis unfolding MAppendEntries dispatch_spec.simps e by (rule applies_from) simp_all
  qed (use MAppendEntries in \<open>auto intro: applies_still\<close>)
next
  case (MAppendEntriesReply r)
  let ?i = "max (match_for k frm) (aer_match_index r)"
  let ?k1 = "k\<lparr>match_index := (match_index k)(frm \<mapsto> ?i), next_index := (next_index k)(frm \<mapsto> ?i + 1)\<rparr>"
  have "applies k (fst (advance_commit_spec ?k1))" if "commit_index (fst (advance_commit_spec ?k1)) \<le> int (length (rlog (fst (advance_commit_spec ?k1))))"
    by (rule applies_from [OF advance_commit_applies])
      (use that a advance_commit_same(1) [of ?k1] in \<open>simp_all add: same_protocol_def\<close>)
  then show ?thesis using c MAppendEntriesReply
    by (auto simp: append_entries_reply_spec_def Let_def case_prod_beta intro: applies_still split: if_splits)
next
  case (MClientRequest r)
  let ?e = "log_create (rlog k) (current_term k) (creq_command r)"
  let ?k1 = "k\<lparr>rlog := rlog k @ [?e], pending_clients := (pending_clients k)(le_index ?e \<mapsto> (frm, creq_request_id r))\<rparr>"
  have "applies k (fst (advance_commit_spec ?k1))" if "commit_index (fst (advance_commit_spec ?k1)) \<le> int (length (rlog (fst (advance_commit_spec ?k1))))"
    by (rule applies_from [OF advance_commit_applies])
      (use that a advance_commit_same(1) [of ?k1] in \<open>simp_all add: same_protocol_def\<close>)
  then show ?thesis using c MClientRequest
    by (auto simp: client_request_spec_def Let_def case_prod_beta intro: applies_still split: if_splits)
qed (simp add: applies_still)

theorem handle_applies:
  assumes "0 \<le> last_applied k" and "commit_index (new_state (handle x k)) \<le> int (length (rlog (new_state (handle x k))))"
  shows "applies k (new_state (handle x k))"
proof (cases x)
  case (Receives frm msg)
  with assms show ?thesis by (simp add: dispatch_applies)
next
  case ElectionTimer
  then show ?thesis by (intro applies_still) (simp_all add: election_timeout_spec_def Let_def lead_def)
next
  case HeartbeatTimer
  then show ?thesis by (intro applies_still) (simp_all add: heartbeat_spec_def)
qed

end
