(* ===== verification/Cluster_Agree.thy ===== *)
theory Cluster_Agree
  imports Cluster_Commit Node_Applied
begin

text \<open>
  What the nodes of a reachable cluster agree on. A commit index always covers entries that are chosen
  (\<open>covered\<close>), so of any two states of any two nodes the committed parts of the logs agree, a leader of a later
  term has all of them, and the stores are replays of one sequence of commands. The results hold for a cluster that
  messages reach as they were sent; Log Matching does not need that.
\<close>

declare block.simps [simp del]

section \<open>What a commit index covers\<close>

definition covered :: "NodeId list \<Rightarrow> states \<Rightarrow> rnode \<Rightarrow> bool" where
  "covered ids P k \<longleftrightarrow> 0 \<le> commit_index k \<and> (commit_index k = 0 \<or> (\<exists>t i x. chosen ids P t i x \<and> t \<le> current_term k
     \<and> nat (commit_index k) \<le> i \<and> same_upto (nat (commit_index k)) (rlog k) x))"

definition idle :: "NodeId list \<Rightarrow> cluster \<Rightarrow> bool" where
  "idle ids s \<longleftrightarrow> (\<forall>n \<in> set ids. \<not> running (node_at s n) \<longrightarrow>
     commit_index (node_at s n) = 0 \<and> last_applied (node_at s n) = 0 \<and> kv (node_at s n) = kv_init \<and> rlog (node_at s n) = [])"

definition agreed :: "NodeId list \<Rightarrow> cluster \<Rightarrow> bool" where
  "agreed ids s \<longleftrightarrow> (\<forall>(n, k) \<in> past s. covered ids (past s) k \<and> applied_ok k)"

lemma covered_mono: "covered ids P k \<Longrightarrow> P \<subseteq> P' \<Longrightarrow> covered ids P' k"
  unfolding covered_def using chosen_mono by blast

lemma covered_same:
  "covered ids P k \<Longrightarrow> commit_index k' = commit_index k \<Longrightarrow> current_term k \<le> current_term k' \<Longrightarrow>
     same_upto (nat (commit_index k)) (rlog k) (rlog k') \<Longrightarrow> covered ids P k'"
  unfolding covered_def using same_upto_sym same_upto_trans by (metis order_trans)

lemma covered_length: "covered ids P k \<Longrightarrow> nat (commit_index k) \<le> length (rlog k)"
  by (auto simp: covered_def same_upto_def)

text \<open>A leader commits what a majority acknowledged in its term.\<close>

lemma committable_chosen:
  assumes book: "book_ok s k" and k: "peers k = peers_of ids n" "log_wf (rlog k)" and n: "n \<in> set ids" "distinct ids"
    and c: "committable k c" "0 < c" "c \<le> last_index (rlog k)"
    and P: "(n, k) \<in> P" "past s \<subseteq> P"
  shows "chosen ids P (current_term k) (nat c) (rlog k)"
proof -
  let ?F = "filter (\<lambda>p. match_for k p \<ge> c) (peers k)"
  let ?Q = "set (n # ?F)"
  have len: "c \<le> int (length (rlog k))" using c(3) k(2) by (simp add: last_index_wf)
  have "majority_of ids ?Q"
    by (rule majority_votes [where k = k]) (use n k(1) c(1) in \<open>auto simp: peers_of_def committable_def replicas_def\<close>)
  moreover have "stored P f (current_term k) (nat c) (rlog k)" if f: "f \<in> ?Q" for f
  proof (cases "f = n")
    case True
    with P(1) len show ?thesis by (auto simp: stored_def intro!: exI [of _ k] same_upto_refl)
  next
    case False
    with f have m: "c \<le> match_for k f" by auto
    with c(2) book_okD(3) [OF book, of f] have "holds_upto s f (current_term k) (match_for k f) (rlog k)" by auto
    with P(2) m show ?thesis unfolding holds_upto_def stored_def by (meson nat_mono same_upto_mono subsetD)
  qed
  moreover have "mark (rlog k) (nat c) (current_term k)"
    using c len by (simp add: mark_def committable_def trm_def nat_diff_distrib)
  ultimately show ?thesis by (auto simp: chosen_def)
qed

section \<open>The commit index of one event\<close>

lemma event_commits:
  assumes e: "event ids mut s n x" and all: "agreed ids s"
    and lasts: "\<And>t i y. chosen ids (past s) t i y \<Longrightarrow> lasting s t i y"
  defines "k' \<equiv> new_state (handle x (node_at s n))"
  shows "covered ids (insert (n, k') (past s)) k' \<and> commit_index (node_at s n) \<le> commit_index k'
    \<and> same_upto (nat (commit_index (node_at s n))) (rlog (node_at s n)) (rlog k')"
proof -
  note E = eventD [OF e]
  let ?k = "node_at s n" and ?P = "insert (n, k') (past s)"
  have com: "covered ids (past s) ?k" using all E(19) by (auto simp: agreed_def)
  have com': "covered ids ?P ?k" by (rule covered_mono [OF com]) blast
  have pos: "0 \<le> commit_index ?k" using com by (simp add: covered_def)
  have le_t: "current_term ?k \<le> current_term k'" using new_term [OF e] by (simp add: k'_def)
  have wf: "log_wf (rlog k')" unfolding k'_def by (rule event_wf [OF e])
  have ext: "same_upto (nat (commit_index ?k)) (rlog ?k) l" if "prefix (rlog ?k) l" for l
    using prefix_same_upto [OF that covered_length [OF com]] .
  have counted: ?thesis if "role k' = LEADER" "commit_rule_ok ?k k'" "prefix (rlog ?k) (rlog k')"
  proof (cases "commit_index k' = commit_index ?k")
    case True
    with covered_same [OF com' _ le_t ext] that(3) ext show ?thesis by simp
  next
    case False
    with that(2) have c: "commit_index ?k < commit_index k'" "commit_index k' \<le> last_index (rlog k')" "committable k' (commit_index k')"
      by (auto simp: commit_rule_ok_def)
    have "chosen ids ?P (current_term k') (nat (commit_index k')) (rlog k')"
    proof (rule committable_chosen)
      show "book_ok s k'" using event_book [OF e] that(1) by (simp add: k'_def)
      show "peers k' = peers_of ids n" using handle_ids node_now(8) [OF E(1,5,6)] by (simp add: k'_def)
    qed (use c pos wf E(3,5) in \<open>auto simp: ids_ok_def\<close>)
    moreover have "same_upto (nat (commit_index k')) (rlog k') (rlog k')"
      using c wf by (intro same_upto_refl) (simp add: last_index_wf)
    ultimately have "covered ids ?P k'" using c pos unfolding covered_def by fastforce
    with c ext [OF that(3)] show ?thesis by simp
  qed
  have still: ?thesis if "rlog k' = rlog ?k" "commit_index k' = commit_index ?k"
    using covered_same [OF com' that(2) le_t] ext [of "rlog k'"] that by simp
  show ?thesis
    using event_effect [OF e, folded k'_def]
  proof cases
    case (merges ae frm)
    obtain k0 where k0: "(frm, k0) \<in> past s" "quotes k0 ae" "leads (seen s) (ae_term ae) (rlog k0)"
      "matching_logs (rlog ?k) (rlog k0)" by (rule event_quote [OF e [unfolded merges(1)]])
    have "accepts ?k ae" using merges by (simp add: accepts_def)
    from quote_merge [OF k0(2) this E(21) k0(4)] merges
    have b: "between (rlog ?k) (rlog k0) (rlog k')" "prefix (rlog k0) (rlog k')" by simp_all
    have kept: "same_upto (nat (commit_index ?k)) (rlog ?k) (rlog k')"
    proof (cases "commit_index ?k = 0")
      case False
      with com obtain t i y where y: "chosen ids (past s) t i y" "t \<le> current_term ?k" "nat (commit_index ?k) \<le> i"
        "same_upto (nat (commit_index ?k)) (rlog ?k) y" by (auto simp: covered_def)
      from y(1) obtain f where f: "stored (past s) f t i y" "mark y i t"
        unfolding chosen_def using majorities.witness by metis
      have "same_upto (nat (commit_index ?k)) (rlog k') y"
      proof (rule between_keeps [OF b(1) y(4)])
        fix p assume "p < nat (commit_index ?k)" "p < length (rlog k0)"
        with leader_agrees [OF E(8,9) f lasts [OF y(1)] k0(3)] y(2,3) merges(2)
        show "rlog k0 ! p = y ! p" by simp
      qed
      with y(4) show ?thesis using same_upto_sym same_upto_trans by blast
    qed simp
    show ?thesis
    proof (cases "commit_index ?k < ae_leader_commit ae")
      case False
      then have "commit_index k' = commit_index ?k" using merges by simp
      with covered_same [OF com' this le_t kept] kept show ?thesis by simp
    next
      case True
      have com0: "covered ids (past s) k0" using all k0(1) by (auto simp: agreed_def)
      have lc: "ae_leader_commit ae \<le> commit_index k0" "ae_term ae = current_term k0"
        and new: "ae_prev_log_index ae + int (length (ae_entries ae)) = int (length (rlog k0))"
        using k0(2) by (auto simp: quotes_def)
      have c': "commit_index k' = ae_leader_commit ae"
        using True merges new lc(1) covered_length [OF com0] by auto
      with True pos lc(1) have "commit_index k0 \<noteq> 0" by simp
      with com0 obtain t i y where y: "chosen ids (past s) t i y" "t \<le> current_term k0" "nat (commit_index k0) \<le> i"
        "same_upto (nat (commit_index k0)) (rlog k0) y" by (auto simp: covered_def)
      have le: "nat (commit_index k') \<le> nat (commit_index k0)" using c' lc(1) by simp
      from same_upto_prefix [OF same_upto_sym [OF same_upto_mono [OF y(4) le]] b(2)]
      have "same_upto (nat (commit_index k')) (rlog k') y" by (rule same_upto_sym)
      moreover have "current_term k' = ae_term ae" using merges by (simp add: hard_def follow_def)
      moreover have "chosen ids ?P t i y" by (rule chosen_mono [OF y(1)]) blast
      ultimately have "covered ids ?P k'" using y(2,3) le lc(2) True pos c' unfolding covered_def
        by (intro conjI disjI2 exI [of _ t] exI [of _ i] exI [of _ y]) simp_all
      with kept True c' show ?thesis by simp
    qed
  qed (use counted still in simp_all)
qed

section \<open>Along a run\<close>

lemma idle_down:
  "running k \<Longrightarrow> commit_index (down k) = 0 \<and> last_applied (down k) = 0 \<and> kv (down k) = kv_init \<and> rlog (down k) = []"
  by (simp add: down_def reset_memory_def SENTINEL_INDEX_def)

lemma step_nodes: "cstep ids mut s s' \<Longrightarrow>
    node_at s' m = node_at s m \<or> running (node_at s' m) \<or> running (node_at s m) \<and> node_at s' m = down (node_at s m)"
  using handle_ids
  by (auto elim!: cstep.cases simp: complete_def fail_def crash_def restart_def request_def Let_def down_def)

lemma reachable_idle: "reachable ids mut s \<Longrightarrow> idle ids s"
proof (induction rule: reachable.induct)
  case starts
  show ?case by (simp add: idle_def initial_def new_rnode_def)
next
  case (moves s s')
  show ?case unfolding idle_def
    using step_nodes [OF moves(2)] moves(3) idle_down unfolding idle_def by metis
qed

lemma fresh_agreed: "commit_index k = 0 \<Longrightarrow> last_applied k = 0 \<Longrightarrow> kv k = kv_init \<Longrightarrow> covered ids P k \<and> applied_ok k"
  by (simp add: covered_def applied_ok_def log_store_def)

lemma agreed_insert:
  assumes "agreed ids s" and "past s' = insert (n, k) (past s)" and "covered ids (past s') k" "applied_ok k"
  shows "agreed ids s'"
  using assms covered_mono [of ids "past s" _ "past s'"] by (fastforce simp: agreed_def)

theorem reachable_agreed:
  assumes "reachable ids mut s" and ids: "ids_ok ids" and mut: "\<And>m. mut m = m"
  shows "agreed ids s"
  using assms(1)
proof induction
  case starts
  then show ?case
    using fresh_agreed by (auto simp: agreed_def initial_def new_rnode_def SENTINEL_INDEX_def)
next
  case (moves s s')
  have mok: "mut_ok mut" using mut by (simp add: mut_ok_def)
  have inv: "cluster_inv ids s" "logs_inv ids s"
    by (rule reachable_inv [OF moves(1) ids mok], rule reachable_logs [OF moves(1) ids mok])
  note agreed = moves(3) and idle = reachable_idle [OF moves(1)]
  from moves(2) show ?case
  proof cases
    case (completes n x)
    let ?k = "node_at s n" and ?k' = "new_state (handle x (node_at s n))"
    from completes inv ids mok have e: "event ids mut s n x" by (simp add: event_def)
    from event_commits [OF e agreed chosen_lasts [OF moves(1) ids mut]]
    have c: "covered ids (past s') ?k'" "commit_index ?k \<le> commit_index ?k'"
      "same_upto (nat (commit_index ?k)) (rlog ?k) (rlog ?k')" by (simp_all add: completes(1))
    have k: "applied_ok ?k" using agreed eventD(19) [OF e] by (auto simp: agreed_def)
    have len: "commit_index ?k' \<le> int (length (rlog ?k'))" using covered_length [OF c(1)] by simp
    have "applied_ok ?k'"
    proof (rule applies_ok [OF k handle_applies])
      show "same_upto (nat (last_applied ?k)) (rlog ?k) (rlog ?k')"
        using k by (intro same_upto_mono [OF c(3)] nat_mono) (simp add: applied_ok_def)
    qed (use k len c(2) in \<open>simp_all add: applied_ok_def\<close>)
    with agreed_insert [OF agreed _ c(1)] show ?thesis by (simp add: completes(1))
  next
    case (fails n x)
    with agreed show ?thesis by (simp add: agreed_def)
  next
    case (crashes n)
    with agreed show ?thesis by (simp add: agreed_def crashes(1) crash_def)
  next
    case (restarts n i)
    show ?thesis
    proof (cases "running (node_at s n)")
      case True
      have "restart n i s = s" by (rule restart_running [OF inv(1) restarts(2) True])
      with moves(3) restarts show ?thesis by simp
    next
      case False
      let ?k' = "recovered_node (platter s n i) (node_at s n)"
      have "covered ids (past s') ?k' \<and> applied_ok ?k'"
        by (rule fresh_agreed) (use idle False restarts(2) in \<open>simp_all add: idle_def recovered_node_def\<close>)
      moreover have "past s' = insert (n, ?k') (past s)" by (simp add: restarts(1) restart_def Let_def)
      ultimately show ?thesis using agreed_insert [OF agreed] by blast
    qed
  next
    case (requests c n r)
    with agreed show ?thesis by (simp add: agreed_def request_def)
  qed
qed

section \<open>Agreement\<close>

lemma past_logs_match:
  assumes inv: "logs_inv ids s" and "(a, k) \<in> past s" and "(b, l) \<in> past s"
    and "p < length (rlog k)" "p < length (rlog l)" "le_term (rlog k ! p) = le_term (rlog l ! p)"
  shows "same_upto (Suc p) (rlog k) (rlog l)"
proof -
  have "justified (seen s) (rlog k)" "justified (seen s) (rlog l)" "chained (seen s)"
    using inv past_seen [OF assms(2)] past_seen [OF assms(3)] by (auto simp: logs_inv_def logs_just_def)
  from justified_matching [OF this(3,1,2)] assms(4-6) show ?thesis by (simp add: matching_logs_def)
qed

lemma chosen_led:
  assumes "logs_just ids s" and "chosen ids (past s) t i y"
  obtains l where "leads (seen s) t l" "same_upto i l y"
proof -
  from assms(2) obtain f where "stored (past s) f t i y" "mark y i t"
    unfolding chosen_def using majorities.witness by metis
  from stored_leads [OF assms(1) this] that show thesis by blast
qed

lemma chosen_agree:
  assumes "logs_just ids s" "chained (seen s)" and lasts: "\<And>t i y. chosen ids (past s) t i y \<Longrightarrow> lasting s t i y"
    and y: "chosen ids (past s) t i y" "m \<le> i" and z: "chosen ids (past s) u j z" "m \<le> j" and le: "t \<le> u"
  shows "same_upto m y z"
proof -
  obtain l where l: "leads (seen s) t l" "same_upto i l y" by (rule chosen_led [OF assms(1) y(1)])
  obtain b where b: "leads (seen s) u b" "same_upto j b z" by (rule chosen_led [OF assms(1) z(1)])
  have "same_upto m b y"
  proof (cases "t = u")
    case True
    with l(1) b(1) assms(2) have "comparable l b" by (auto simp: chained_def)
    moreover have "m \<le> length l" "m \<le> length b" using l(2) b(2) y(2) z(2) by (simp_all add: same_upto_def)
    ultimately have "same_upto m l b" by (rule comparable_same)
    from same_upto_trans [OF same_upto_sym [OF this] same_upto_mono [OF l(2) y(2)]] show ?thesis .
  next
    case False
    with le have "t < u" by simp
    with lasts [OF y(1)] b(1) have "same_upto i b y" unfolding lasting_def by blast
    from same_upto_mono [OF this y(2)] show ?thesis .
  qed
  from same_upto_trans [OF same_upto_sym [OF this] same_upto_mono [OF b(2) z(2)]] show ?thesis .
qed

lemma committed_agree:
  assumes "reachable ids mut s" and ids: "ids_ok ids" and mut: "\<And>m. mut m = m"
    and k: "(a, k) \<in> past s" and l: "(b, l) \<in> past s" and m: "m \<le> nat (commit_index k)" "m \<le> nat (commit_index l)"
  shows "same_upto m (rlog k) (rlog l)"
proof (cases "m = 0")
  case False
  have mok: "mut_ok mut" using mut by (simp add: mut_ok_def)
  have inv: "logs_just ids s" "chained (seen s)" using reachable_logs [OF assms(1) ids mok] by (simp_all add: logs_inv_def)
  note lasts = chosen_lasts [OF assms(1) ids mut]
  have "covered ids (past s) k" "covered ids (past s) l"
    using reachable_agreed [OF assms(1) ids mut] k l by (auto simp: agreed_def)
  with False m obtain t i y u j z where
    y: "chosen ids (past s) t i y" "nat (commit_index k) \<le> i" "same_upto (nat (commit_index k)) (rlog k) y" and
    z: "chosen ids (past s) u j z" "nat (commit_index l) \<le> j" "same_upto (nat (commit_index l)) (rlog l) z"
    unfolding covered_def by auto
  have ij: "m \<le> i" "m \<le> j" using m y(2) z(2) by simp_all
  have "same_upto m y z"
  proof (cases "t \<le> u")
    case True
    show ?thesis by (rule chosen_agree [OF inv lasts y(1) ij(1) z(1) ij(2) True])
  next
    case False
    then have "u \<le> t" by simp
    from chosen_agree [OF inv lasts z(1) ij(2) y(1) ij(1) this] show ?thesis by (rule same_upto_sym)
  qed
  with same_upto_mono [OF y(3) m(1)] same_upto_mono [OF z(3) m(2)] show ?thesis
    using same_upto_sym same_upto_trans by blast
qed simp

lemma leader_has_committed:
  assumes "reachable ids mut s" and ids: "ids_ok ids" and mut: "\<And>m. mut m = m"
    and k: "(a, k) \<in> past s" and l: "(b, l) \<in> past s" "role l = LEADER" "current_term k < current_term l"
  shows "same_upto (nat (commit_index k)) (rlog k) (rlog l)"
proof (cases "commit_index k = 0")
  case False
  have "covered ids (past s) k" using reachable_agreed [OF assms(1) ids mut] k by (auto simp: agreed_def)
  with False obtain t i y where y: "chosen ids (past s) t i y" "t \<le> current_term k" "nat (commit_index k) \<le> i"
    "same_upto (nat (commit_index k)) (rlog k) y" by (auto simp: covered_def)
  have "leads (seen s) (current_term l) (rlog l)" using leadsI [OF past_seen [OF l(1)] l(2)] .
  moreover have "t < current_term l" using y(2) l(3) by simp
  ultimately have "same_upto i (rlog l) y" using chosen_lasts [OF assms(1) ids mut y(1)] unfolding lasting_def by blast
  from same_upto_trans [OF y(4) same_upto_sym [OF same_upto_mono [OF this y(3)]]] show ?thesis .
qed simp

end
