(* ===== verification/Cluster_Props.thy ===== *)
theory Cluster_Props
  imports Cluster_Agree
begin

text \<open>
  The safety properties of the protocol, for every reachable cluster: Log Matching, Leader Completeness, State Machine
  Safety, and the well-formedness of every state a node is ever in. They are shown to say something by a run of three
  nodes in which an entry is replicated, committed, applied on two nodes, and inherited by the leader of the next term.
\<close>

declare block.simps [simp del]

section \<open>A run\<close>

text \<open>Node 1 leads term 1 and commits an entry that node 2 has; node 2 learns of it, then wins term 2.\<close>

definition cand_1 :: rnode where
  "cand_1 = (new_rnode 1 [2, 3])\<lparr>current_term := 1, voted_for := Some 1, role := CANDIDATE, votes_granted := [1]\<rparr>"

definition voter_2 :: rnode where
  "voter_2 = (new_rnode 2 [1, 3])\<lparr>current_term := 1, voted_for := Some 1\<rparr>"

definition lead_1 :: rnode where "lead_1 = lead (cand_1\<lparr>votes_granted := [1, 2]\<rparr>)"

definition asked_1 :: rnode where
  "asked_1 = lead_1\<lparr>rlog := [first_entry], pending_clients := (pending_clients lead_1)(1 \<mapsto> (9, 7))\<rparr>"

definition holds_2 :: rnode where
  "holds_2 = voter_2\<lparr>rlog := [first_entry], leader_id := Some 1\<rparr>"

definition commits_1 :: rnode where
  "commits_1 = asked_1\<lparr>commit_index := 1, last_applied := 1, kv := log_store [first_entry],
     next_index := (next_index asked_1)(2 \<mapsto> 2), match_index := (match_index asked_1)(2 \<mapsto> 1),
     pending_clients := (pending_clients asked_1)(1 := None)\<rparr>"

definition commits_2 :: rnode where
  "commits_2 = holds_2\<lparr>commit_index := 1, last_applied := 1, kv := log_store [first_entry]\<rparr>"

definition cand_2 :: rnode where
  "cand_2 = commits_2\<lparr>current_term := 2, voted_for := Some 2, role := CANDIDATE, votes_granted := [2], leader_id := None\<rparr>"

definition voter_3 :: rnode where
  "voter_3 = (new_rnode 3 [1, 2])\<lparr>current_term := 2, voted_for := Some 2\<rparr>"

definition lead_2 :: rnode where "lead_2 = lead (cand_2\<lparr>votes_granted := [2, 3]\<rparr>)"

lemmas run_states = cand_1_def voter_2_def lead_1_def asked_1_def holds_2_def commits_1_def commits_2_def cand_2_def
  voter_3_def lead_2_def new_rnode_def first_entry_def

lemmas handler_defs = election_timeout_spec_def request_vote_spec_def
  request_vote_reply_spec_def reply_vote_spec_def append_entries_spec_def append_entries_reply_spec_def client_request_spec_def
  heartbeat_spec_def replicate_all_def replicate_msg_def majority_def cluster_size_def Let_def follow_def lead_def
  up_to_date_def last_index_def last_term_def set_add_def has_entry_def SENTINEL_INDEX_def SENTINEL_TERM_def trm_def
  next_for_def match_for_def log_create_def advance_commit_spec_def apply_committed_spec_def apply_one_def log_store_def
  replicas_def take_spec.simps

lemma handled_1:
  "new_state (handle ElectionTimer (new_rnode 1 [2, 3])) = cand_1"
  "(2, MRequestVote (RequestVote 1 1 0 0)) \<in> set (sent_by (handle ElectionTimer (new_rnode 1 [2, 3])))"
  by (simp_all add: run_states handler_defs)

lemma handled_2:
  "new_state (handle (Receives 1 (MRequestVote (RequestVote 1 1 0 0))) (new_rnode 2 [1, 3])) = voter_2"
  "(1, MRequestVoteReply (RequestVoteReply 1 True))
     \<in> set (sent_by (handle (Receives 1 (MRequestVote (RequestVote 1 1 0 0))) (new_rnode 2 [1, 3])))"
  by (simp_all add: run_states handler_defs)

lemma handled_3: "new_state (handle (Receives 2 (MRequestVoteReply (RequestVoteReply 1 True))) cand_1) = lead_1"
  by (simp add: run_states handler_defs)

lemma handled_4:
  "new_state (handle (Receives 9 (MClientRequest (ClientRequest 7 (put [97] [49])))) lead_1) = asked_1"
  "(2, MAppendEntries (AppendEntries 1 1 0 0 [first_entry] 0))
     \<in> set (sent_by (handle (Receives 9 (MClientRequest (ClientRequest 7 (put [97] [49])))) lead_1))"
  by (simp_all add: run_states handler_defs)

lemma handled_5:
  "new_state (handle (Receives 1 (MAppendEntries (AppendEntries 1 1 0 0 [first_entry] 0))) voter_2) = holds_2"
  "(1, MAppendEntriesReply (AppendEntriesReply 1 True 1))
     \<in> set (sent_by (handle (Receives 1 (MAppendEntries (AppendEntries 1 1 0 0 [first_entry] 0))) voter_2))"
  by (simp_all add: run_states handler_defs)

lemma handled_6: "new_state (handle (Receives 2 (MAppendEntriesReply (AppendEntriesReply 1 True 1))) asked_1) = commits_1"
  by (simp add: run_states handler_defs)

lemma handled_7:
  "new_state (handle HeartbeatTimer commits_1) = commits_1"
  "(2, MAppendEntries (AppendEntries 1 1 1 1 [] 1)) \<in> set (sent_by (handle HeartbeatTimer commits_1))"
  by (simp_all add: run_states handler_defs)

lemma handled_8: "new_state (handle (Receives 1 (MAppendEntries (AppendEntries 1 1 1 1 [] 1))) holds_2) = commits_2"
  by (simp add: run_states handler_defs)

lemma handled_9:
  "new_state (handle ElectionTimer commits_2) = cand_2"
  "(3, MRequestVote (RequestVote 2 2 1 1)) \<in> set (sent_by (handle ElectionTimer commits_2))"
  by (simp_all add: run_states handler_defs)

lemma handled_10:
  "new_state (handle (Receives 2 (MRequestVote (RequestVote 2 2 1 1))) (new_rnode 3 [1, 2])) = voter_3"
  "(2, MRequestVoteReply (RequestVoteReply 2 True))
     \<in> set (sent_by (handle (Receives 2 (MRequestVote (RequestVote 2 2 1 1))) (new_rnode 3 [1, 2])))"
  by (simp_all add: run_states handler_defs)

lemma handled_11: "new_state (handle (Receives 3 (MRequestVoteReply (RequestVoteReply 2 True))) cand_2) = lead_2"
  by (simp add: run_states handler_defs)

text \<open>One event of such a run.\<close>

lemma run_on:
  assumes "reachable [1, 2, 3] (\<lambda>m. m) s" and "node_at s n = k" and "n \<in> {1, 2, 3}" and "running k" and "due (\<lambda>m. m) s n x"
    and "new_state (handle x k) = k'" and "log_wf (rlog k')"
  obtains s' where "reachable [1, 2, 3] (\<lambda>m. m) s'" "node_at s' = (node_at s)(n := k')"
    "sent s' = sent s \<union> sends n (sent_by (handle x k))" "past s' = insert (n, k') (past s)" "cstep [1, 2, 3] (\<lambda>m. m) s s'"
proof -
  have step: "cstep [1, 2, 3] (\<lambda>m. m) s (complete n (handle x (node_at s n)) s)"
    by (rule cstep.completes) (use assms in auto)
  with assms(1) have "reachable [1, 2, 3] (\<lambda>m. m) (complete n (handle x (node_at s n)) s)" by (rule reachable.moves)
  from that [OF this _ _ _ step] assms(2,6) show thesis by (simp add: complete_def)
qed

lemma run_sent: "(to, m) \<in> set ms \<Longrightarrow> (n, to, m) \<in> sends n ms"
  by (force simp: sends_def)

lemma sample_fine: "running k \<and> log_wf (rlog k)"
  if "k \<in> {new_rnode 1 [2, 3], new_rnode 2 [1, 3], new_rnode 3 [1, 2], cand_1, voter_2, lead_1, asked_1, holds_2, commits_1, commits_2, cand_2, voter_3, lead_2}"
  using that first_entry_fits(2) by (auto simp: cand_1_def voter_2_def lead_1_def asked_1_def holds_2_def commits_1_def
      commits_2_def cand_2_def voter_3_def lead_2_def new_rnode_def lead_def)

lemma two_terms:
  obtains s where "reachable [1, 2, 3] (\<lambda>m. m) s" "(1, lead_1) \<in> past s" "(1, commits_1) \<in> past s" "(2, commits_2) \<in> past s" "(2, lead_2) \<in> past s"
proof -
  define s0 where "s0 = initial [1, 2, 3]"
  have 0: "reachable [1, 2, 3] (\<lambda>m. m) s0" "node_at s0 1 = new_rnode 1 [2, 3]" "node_at s0 2 = new_rnode 2 [1, 3]"
    "node_at s0 3 = new_rnode 3 [1, 2]" unfolding s0_def by (rule reachable.starts) (simp_all add: initial_def peers_of_def)
  note fine = sample_fine [THEN conjunct1] sample_fine [THEN conjunct2] and sent = run_sent
  obtain s1 where 1: "reachable [1, 2, 3] (\<lambda>m. m) s1" "node_at s1 = (node_at s0)(1 := cand_1)"
    "sent s1 = sent s0 \<union> sends 1 (sent_by (handle ElectionTimer (new_rnode 1 [2, 3])))" "past s1 = insert (1, cand_1) (past s0)"
    by (rule run_on [OF 0(1,2) _ _ _ handled_1(1)]) (simp_all add: fine)
  obtain s2 where 2: "reachable [1, 2, 3] (\<lambda>m. m) s2" "node_at s2 = (node_at s1)(2 := voter_2)"
    "sent s2 = sent s1 \<union> sends 2 (sent_by (handle (Receives 1 (MRequestVote (RequestVote 1 1 0 0))) (new_rnode 2 [1, 3])))"
    "past s2 = insert (2, voter_2) (past s1)"
    by (rule run_on [where n = 2, OF 1(1) _ _ _ _ handled_2(1)]) (use sent [OF handled_1(2)] in \<open>simp_all add: fine 0 1\<close>)
  obtain s3 where 3: "reachable [1, 2, 3] (\<lambda>m. m) s3" "node_at s3 = (node_at s2)(1 := lead_1)" "past s3 = insert (1, lead_1) (past s2)"
    by (rule run_on [where n = 1, OF 2(1) _ _ _ _ handled_3]) (use sent [OF handled_2(2)] in \<open>simp_all add: fine 0 1 2\<close>)
  define r where "r = request 9 1 (ClientRequest 7 (put [97] [49])) s3"
  have "cstep [1, 2, 3] (\<lambda>m. m) s3 r" unfolding r_def by (rule cstep.requests) simp
  with 3(1) have r: "reachable [1, 2, 3] (\<lambda>m. m) r" "node_at r = node_at s3" "past r = past s3"
    "(9, 1, MClientRequest (ClientRequest 7 (put [97] [49]))) \<in> sent r"
    by (rule reachable.moves) (simp_all add: r_def request_def)
  obtain s4 where 4: "reachable [1, 2, 3] (\<lambda>m. m) s4" "node_at s4 = (node_at r)(1 := asked_1)"
    "sent s4 = sent r \<union> sends 1 (sent_by (handle (Receives 9 (MClientRequest (ClientRequest 7 (put [97] [49])))) lead_1))"
    "past s4 = insert (1, asked_1) (past r)"
    by (rule run_on [where n = 1, OF r(1) _ _ _ _ handled_4(1)]) (use r(4) in \<open>simp_all add: fine r 3\<close>)
  obtain s5 where 5: "reachable [1, 2, 3] (\<lambda>m. m) s5" "node_at s5 = (node_at s4)(2 := holds_2)"
    "sent s5 = sent s4 \<union> sends 2 (sent_by (handle (Receives 1 (MAppendEntries (AppendEntries 1 1 0 0 [first_entry] 0))) voter_2))"
    "past s5 = insert (2, holds_2) (past s4)"
    by (rule run_on [where n = 2, OF 4(1) _ _ _ _ handled_5(1)]) (use sent [OF handled_4(2)] in \<open>simp_all add: fine r 2 3 4\<close>)
  obtain s6 where 6: "reachable [1, 2, 3] (\<lambda>m. m) s6" "node_at s6 = (node_at s5)(1 := commits_1)" "past s6 = insert (1, commits_1) (past s5)"
    by (rule run_on [where n = 1, OF 5(1) _ _ _ _ handled_6]) (use sent [OF handled_5(2)] in \<open>simp_all add: fine 4 5\<close>)
  obtain s7 where 7: "reachable [1, 2, 3] (\<lambda>m. m) s7" "node_at s7 = (node_at s6)(1 := commits_1)"
    "sent s7 = sent s6 \<union> sends 1 (sent_by (handle HeartbeatTimer commits_1))" "past s7 = insert (1, commits_1) (past s6)"
    by (rule run_on [where n = 1, OF 6(1) _ _ _ _ handled_7(1)]) (simp_all add: fine 6, simp add: commits_1_def asked_1_def lead_1_def lead_def)
  obtain s8 where 8: "reachable [1, 2, 3] (\<lambda>m. m) s8" "node_at s8 = (node_at s7)(2 := commits_2)" "past s8 = insert (2, commits_2) (past s7)"
    by (rule run_on [where n = 2, OF 7(1) _ _ _ _ handled_8]) (use sent [OF handled_7(2)] in \<open>simp_all add: fine 5 6 7\<close>)
  obtain s9 where 9: "reachable [1, 2, 3] (\<lambda>m. m) s9" "node_at s9 = (node_at s8)(2 := cand_2)"
    "sent s9 = sent s8 \<union> sends 2 (sent_by (handle ElectionTimer commits_2))" "past s9 = insert (2, cand_2) (past s8)"
    by (rule run_on [where n = 2, OF 8(1) _ _ _ _ handled_9(1)]) (simp_all add: fine 8)
  obtain s10 where 10: "reachable [1, 2, 3] (\<lambda>m. m) s10" "node_at s10 = (node_at s9)(3 := voter_3)"
    "sent s10 = sent s9 \<union> sends 3 (sent_by (handle (Receives 2 (MRequestVote (RequestVote 2 2 1 1))) (new_rnode 3 [1, 2])))"
    "past s10 = insert (3, voter_3) (past s9)"
    by (rule run_on [where n = 3, OF 9(1) _ _ _ _ handled_10(1)])
      (use sent [OF handled_9(2)] in \<open>simp_all add: fine 0 1 2 3 r 4 5 6 7 8 9\<close>)
  obtain s11 where 11: "reachable [1, 2, 3] (\<lambda>m. m) s11" "past s11 = insert (2, lead_2) (past s10)"
    by (rule run_on [where n = 2, OF 10(1) _ _ _ _ handled_11]) (use sent [OF handled_10(2)] in \<open>simp_all add: fine 9 10\<close>)
  show thesis by (rule that [OF 11(1)]) (simp_all add: 11 10 9 8 7 6 5 4 r 3)
qed

lemma run_facts:
  "rlog commits_1 = [first_entry]" "commit_index commits_1 = 1" "last_applied commits_1 = 1" "current_term commits_1 = 1"
  "rlog commits_2 = [first_entry]" "commit_index commits_2 = 1" "last_applied commits_2 = 1" "kv commits_2 = log_store [first_entry]"
  "role lead_2 = LEADER" "current_term lead_2 = 2" "rlog lead_2 = [first_entry]"
  by (simp_all add: commits_1_def commits_2_def asked_1_def lead_1_def cand_1_def holds_2_def lead_2_def cand_2_def lead_def)

lemma run_params: "ids_ok [1, 2, 3]" "mut_ok (\<lambda>m. m)"
  by (simp_all add: ids_ok_def NO_VOTE_def mut_ok_def)

section \<open>Properties\<close>

text \<open>
  C8. Log Matching: if the logs of two states that nodes of a reachable cluster were ever in, at the same or at
  different times, hold an entry of the same term at an index, the logs are the same up to that index, whatever
  was lost, delayed, repeated, crashed in the middle of a write or restarted, and even when the log position in
  vote requests is tampered with.
\<close>

theorem log_matching:
  assumes "reachable ids mut s" and "ids_ok ids" and "mut_ok mut" and "(a, k) \<in> past s" and "(b, l) \<in> past s"
    and "1 \<le> i" "i \<le> last_index (rlog k)" "i \<le> last_index (rlog l)" "trm (rlog k) i = trm (rlog l) i"
  shows "take (nat i) (rlog k) = take (nat i) (rlog l)"
proof -
  have inv: "logs_inv ids s" by (rule reachable_logs [OF assms(1-3)])
  then have "log_wf (rlog k)" "log_wf (rlog l)"
    using past_seen [OF assms(4)] past_seen [OF assms(5)] by (auto simp: logs_inv_def logs_just_def)
  then have "nat (i - 1) < length (rlog k)" "nat (i - 1) < length (rlog l)" using assms(6-8) by (simp_all add: last_index_wf)
  from past_logs_match [OF inv assms(4,5) this] assms(6,9) have "same_upto (Suc (nat (i - 1))) (rlog k) (rlog l)"
    by (simp add: trm_def)
  moreover have "Suc (nat (i - 1)) = nat i" using assms(6) by simp
  ultimately show ?thesis by (simp add: same_upto_def)
qed

theorem log_matching_witness:
  "\<exists>s. reachable [1, 2, 3] (\<lambda>m. m) s \<and> (1, commits_1) \<in> past s \<and> (2, lead_2) \<in> past s
     \<and> take (nat 1) (rlog commits_1) = take (nat 1) (rlog lead_2)"
proof -
  obtain s where s: "reachable [1, 2, 3] (\<lambda>m. m) s" "(1, commits_1) \<in> past s" "(2, lead_2) \<in> past s" by (rule two_terms)
  from log_matching [OF s(1) run_params s(2,3), of 1] s show ?thesis
    by (auto simp: run_facts last_index_def first_entry_def)
qed

text \<open>
  C6. Leader Completeness: every leader's log holds all that any node, at any time and in an earlier term, had
  committed, at the same indexes, when messages arrive as they were sent.
\<close>

theorem leader_completeness:
  assumes "reachable ids mut s" and "ids_ok ids" and "\<And>m. mut m = m"
    and "(a, k) \<in> past s" and "(b, l) \<in> past s" and "role l = LEADER" and "current_term k < current_term l"
  shows "commit_index k \<le> last_index (rlog l) \<and> take (nat (commit_index k)) (rlog l) = take (nat (commit_index k)) (rlog k)"
proof -
  have "mut_ok mut" using assms(3) by (simp add: mut_ok_def)
  from reachable_logs [OF assms(1,2) this] have "log_wf (rlog l)"
    using past_seen [OF assms(5)] by (auto simp: logs_inv_def logs_just_def)
  with leader_has_committed [OF assms] show ?thesis by (auto simp: same_upto_def last_index_wf)
qed

theorem leader_completeness_witness:
  "\<exists>s. reachable [1, 2, 3] (\<lambda>m. m) s \<and> (1, commits_1) \<in> past s \<and> (2, lead_2) \<in> past s \<and> commit_index commits_1 = 1
     \<and> take (nat (commit_index commits_1)) (rlog lead_2) = take (nat (commit_index commits_1)) (rlog commits_1)"
proof -
  obtain s where s: "reachable [1, 2, 3] (\<lambda>m. m) s" "(1, commits_1) \<in> past s" "(2, lead_2) \<in> past s" by (rule two_terms)
  from leader_completeness [OF s(1) run_params(1) refl s(2,3)] s show ?thesis by (auto simp: run_facts)
qed

text \<open>
  C5. State Machine Safety: of two states that nodes were ever in, the one that has applied no more than the other
  has applied the same entries at the same indexes, its store is the replay of their commands in order from the
  empty store, and the other's store is what the further applied commands make of it; so two nodes that have
  applied equally many entries have equal stores.
\<close>

theorem state_machine_safety:
  assumes "reachable ids mut s" and "ids_ok ids" and "\<And>m. mut m = m"
    and "(a, k) \<in> past s" and "(b, l) \<in> past s" and "last_applied k \<le> last_applied l"
  shows "take (nat (last_applied k)) (rlog k) = take (nat (last_applied k)) (rlog l)
    \<and> kv k = kv_run (map le_command (take (nat (last_applied k)) (rlog k))) kv_init
    \<and> kv l = kv_run (map le_command (drop (nat (last_applied k)) (take (nat (last_applied l)) (rlog l)))) (kv k)"
proof -
  have ok: "applied_ok k" "applied_ok l" using reachable_agreed [OF assms(1-3)] assms(4,5) by (auto simp: agreed_def)
  then have "nat (last_applied k) \<le> nat (commit_index k)" "nat (last_applied k) \<le> nat (commit_index l)"
    using assms(6) by (simp_all add: applied_ok_def nat_mono)
  from committed_agree [OF assms(1-5) this]
  have same: "take (nat (last_applied k)) (rlog k) = take (nat (last_applied k)) (rlog l)" by (simp add: same_upto_def)
  let ?t = "take (nat (last_applied l)) (rlog l)"
  have "take (nat (last_applied k)) (rlog l) = take (nat (last_applied k)) ?t"
    using assms(6) by (simp add: min_absorb1 nat_mono)
  then have "log_store ?t = kv_run (map le_command (drop (nat (last_applied k)) ?t)) (log_store (take (nat (last_applied k)) (rlog l)))"
    by (simp only: log_store_run append_take_drop_id)
  with ok same show ?thesis by (simp add: applied_ok_def log_store_def)
qed

theorem state_machine_safety_witness:
  "\<exists>s. reachable [1, 2, 3] (\<lambda>m. m) s \<and> (1, commits_1) \<in> past s \<and> (2, commits_2) \<in> past s \<and> last_applied commits_2 = 1
     \<and> kv commits_1 = kv commits_2 \<and> kv_get [97] (kv commits_2) = Some [49]"
proof -
  obtain s where s: "reachable [1, 2, 3] (\<lambda>m. m) s" "(1, commits_1) \<in> past s" "(2, commits_2) \<in> past s" by (rule two_terms)
  have "kv commits_1 = kv commits_2"
    using state_machine_safety [OF s(1) run_params(1) refl s(2,3)] by (simp add: run_facts)
  moreover have "kv_get [97] (kv commits_2) = Some [49]"
    by (simp add: run_facts log_store_def first_entry_def put_def kv_get_apply)
  ultimately show ?thesis using s run_facts by blast
qed

text \<open>
  C19. Every state a node of a reachable cluster is ever in is well formed: the node is one of the cluster and knows
  its own id, its log is numbered from one without gaps and its terms do not decrease, no term is negative, the
  applied entries are committed ones and the committed ones are in the log, and the store is the one of a
  dictionary, of a version that counts the applied entries.
\<close>

theorem reachable_well_formed:
  assumes "reachable ids mut s" and "ids_ok ids" and "\<And>m. mut m = m" and "(n, k) \<in> past s"
  shows "n \<in> set ids \<and> node_id k = n \<and> log_wf (rlog k) \<and> sorted (map le_term (rlog k)) \<and> 0 \<le> current_term k
    \<and> 0 \<le> last_applied k \<and> last_applied k \<le> commit_index k \<and> commit_index k \<le> last_index (rlog k)
    \<and> kv_wf (kv k) \<and> applied (kv k) = last_applied k"
proof -
  have "mut_ok mut" using assms(3) by (simp add: mut_ok_def)
  from reachable_logs [OF assms(1,2) this] have inv: "logs_just ids s" "ordered (seen s)" "clocks ids s"
    by (simp_all add: logs_inv_def)
  then have 1: "n \<in> set ids" "node_id k = n" "log_wf (rlog k)" "justified (seen s) (rlog k)" "0 \<le> current_term k"
    using past_seen [OF assms(4)] assms(4) by (auto simp: logs_just_def clocks_def)
  moreover have "sorted (map le_term (rlog k))" by (rule justified_sorted [OF inv(2) 1(4)])
  moreover have a: "applied_ok k" using reachable_agreed [OF assms(1-3)] assms(4) by (auto simp: agreed_def)
  moreover have "nat (last_applied k) \<le> length (rlog k)" using a by (simp add: applied_ok_def nat_le_iff)
  then have "kv_wf (kv k)" "applied (kv k) = last_applied k"
    using a by (simp_all add: applied_ok_def log_store_def applied_run applied_init min_absorb2)
  ultimately show ?thesis by (simp add: applied_ok_def last_index_wf)
qed

theorem reachable_well_formed_witness:
  "\<exists>s. reachable [1, 2, 3] (\<lambda>m. m) s \<and> (2, lead_2) \<in> past s \<and> log_wf (rlog lead_2) \<and> applied (kv lead_2) = last_applied lead_2"
proof -
  obtain s where s: "reachable [1, 2, 3] (\<lambda>m. m) s" "(2, lead_2) \<in> past s" by (rule two_terms)
  from reachable_well_formed [OF s(1) run_params(1) refl s(2)] s show ?thesis by auto
qed

text \<open>
  C17. A leader only appends: of two logs that leaders of one term had, one begins with the other, and both leaders
  are the same node.
\<close>

theorem leader_append_only:
  assumes "reachable ids mut s" and "ids_ok ids" and "mut_ok mut"
    and "(a, k) \<in> past s" and "role k = LEADER" and "(b, l) \<in> past s" and "role l = LEADER"
    and "current_term k = current_term l"
  shows "a = b \<and> (prefix (rlog k) (rlog l) \<or> prefix (rlog l) (rlog k))"
proof
  show "a = b" by (rule inv_election_safety [OF reachable_inv [OF assms(1-3)] assms(4-8)])
  have "chained (seen s)" using reachable_logs [OF assms(1-3)] by (simp add: logs_inv_def)
  with leadsI [OF past_seen [OF assms(4)] assms(5)] leadsI [OF past_seen [OF assms(6)] assms(7)] assms(8)
  show "prefix (rlog k) (rlog l) \<or> prefix (rlog l) (rlog k)" by (auto simp: chained_def comparable_def)
qed

theorem leader_append_only_witness:
  "\<exists>s. reachable [1, 2, 3] (\<lambda>m. m) s \<and> (1, lead_1) \<in> past s \<and> (1, commits_1) \<in> past s
     \<and> (prefix (rlog lead_1) (rlog commits_1) \<or> prefix (rlog commits_1) (rlog lead_1)) \<and> rlog lead_1 \<noteq> rlog commits_1"
proof -
  obtain s where s: "reachable [1, 2, 3] (\<lambda>m. m) s" "(1, lead_1) \<in> past s" "(1, commits_1) \<in> past s" by (rule two_terms)
  have "role lead_1 = LEADER" "role commits_1 = LEADER" "current_term lead_1 = current_term commits_1" "rlog lead_1 \<noteq> rlog commits_1"
    by (simp_all add: lead_1_def commits_1_def asked_1_def cand_1_def new_rnode_def lead_def)
  with leader_append_only [OF s(1) run_params s(2) _ s(3)] s show ?thesis by blast
qed

text \<open>
  C16. Progress is monotonic: whatever step the cluster takes, a node that is up before and after it, restarts of
  running nodes included, has committed and applied no less than before, and has the same committed entries.
\<close>

theorem committed_stays:
  assumes "reachable ids mut s" and "ids_ok ids" and "\<And>m. mut m = m" and "cstep ids mut s s'"
    and "n \<in> set ids" and "running (node_at s n)" and "running (node_at s' n)"
  shows "commit_index (node_at s n) \<le> commit_index (node_at s' n) \<and> last_applied (node_at s n) \<le> last_applied (node_at s' n)
    \<and> take (nat (commit_index (node_at s n))) (rlog (node_at s' n)) = take (nat (commit_index (node_at s n))) (rlog (node_at s n))"
proof (cases "node_at s' n = node_at s n")
  case False
  have mok: "mut_ok mut" using assms(3) by (simp add: mut_ok_def)
  have inv: "cluster_inv ids s" "logs_inv ids s"
    by (rule reachable_inv [OF assms(1,2) mok], rule reachable_logs [OF assms(1,2) mok])
  have agreed: "agreed ids s" by (rule reachable_agreed [OF assms(1-3)])
  from assms(4) show ?thesis
  proof cases
    case (completes m x)
    with False have m: "m = n" by (auto simp: complete_def split: if_splits)
    let ?k = "node_at s n" and ?k' = "new_state (handle x (node_at s n))"
    from completes m inv assms(2) mok have e: "event ids mut s n x" by (simp add: event_def)
    have k': "node_at s' n = ?k'" using completes(1) m by (simp add: complete_def)
    from event_commits [OF e agreed chosen_lasts [OF assms(1-3)]]
    have c: "covered ids (insert (n, ?k') (past s)) ?k'" "commit_index ?k \<le> commit_index ?k'"
      "same_upto (nat (commit_index ?k)) (rlog ?k) (rlog ?k')" by simp_all
    have "applied_ok ?k" using agreed eventD(19) [OF e] by (auto simp: agreed_def)
    then have "applies ?k ?k'" using covered_length [OF c(1)] by (intro handle_applies) (simp_all add: applied_ok_def)
    with c(2,3) show ?thesis by (simp add: k' applies_def same_upto_def)
  next
    case (fails m x)
    then show ?thesis using False assms(7) handle_ids by (auto simp: fail_def down_def reset_memory_def split: if_splits)
  next
    case (crashes m)
    then show ?thesis using False assms(7) by (auto simp: crash_def down_def reset_memory_def split: if_splits)
  next
    case (restarts m i)
    then have "m = n" using False by (auto simp: restart_def Let_def split: if_splits)
    with restarts restart_running [OF inv(1), of n i] assms(5,6) False show ?thesis by simp
  next
    case (requests c m r)
    with False show ?thesis by (simp add: request_def)
  qed
qed simp

theorem committed_stays_witness:
  "\<exists>s s'. reachable [1, 2, 3] (\<lambda>m. m) s \<and> cstep [1, 2, 3] (\<lambda>m. m) s s' \<and> running (node_at s' 1)
     \<and> commit_index (node_at s 1) \<le> commit_index (node_at s' 1) \<and> current_term (node_at s' 1) = 1"
proof -
  obtain s1 where 1: "node_at s1 = (node_at (initial [1, 2, 3]))(1 := cand_1)"
    "cstep [1, 2, 3] (\<lambda>m. m) (initial [1, 2, 3]) s1"
    by (rule run_on [where n = 1, OF reachable.starts _ _ _ _ handled_1(1)])
      (use sample_fine in \<open>simp_all add: initial_def peers_of_def\<close>)
  have up: "running (node_at (initial [1, 2, 3]) 1)" "running (node_at s1 1)" "current_term (node_at s1 1) = 1"
    by (simp_all add: 1(1) initial_def new_rnode_def cand_1_def)
  from committed_stays [OF reachable.starts run_params(1) refl 1(2) _ up(1,2)] 1(2) up reachable.starts show ?thesis by auto
qed

end
