(* ===== verification/World_Safety.thy ===== *)
theory World_Safety
  imports World_Runs Cluster_Props
begin

text \<open>
  The protocol's safety carried to whole runs: the checkers of Log Matching and State Machine Safety never report
  anything, whatever the seed and the fault profile; the second one as long as the mutation, which takes the log out
  of the vote, is off. Both are watchers in the sense of \<open>World_Runs\<close>. The Leader Completeness checker is stricter
  than the protocol: it may accuse a leader of an old term.
\<close>

declare block.simps [simp del]

section \<open>What a checker sees of a reachable cluster\<close>

lemma viewed_node:
  assumes "views s v" and "k \<in> set (sorted_nodes v)"
  obtains n where "n \<in> set NODE_IDS" "core k = core (node_at s n)"
proof -
  from assms(2) obtain n where n: "n \<in> fst ` set (view_nodes v)" "k = the (map_of (view_nodes v) n)"
    by (auto simp: sorted_nodes_def)
  then have "(n, k) \<in> set (view_nodes v)"
    by (cases "map_of (view_nodes v) n") (auto simp: map_of_eq_None_iff dest: map_of_SomeD)
  with n(1) assms(1) that show thesis unfolding views_def by (auto simp flip: list.set_map)
qed

text \<open>Either a state a node was in, or a node that is down and has nothing.\<close>

lemma viewed_state:
  assumes reach: "reachable NODE_IDS (mutated mode) s" and "views s v" and "k \<in> set (sorted_nodes v)"
  obtains (past) n l where "(n, l) \<in> past s" "core k = core l"
    | (down) "rlog k = []" "last_applied k = 0" "commit_index k = 0" "\<not> running k"
proof -
  obtain n where n: "n \<in> set NODE_IDS" "core k = core (node_at s n)" by (rule viewed_node [OF assms(2,3)])
  show thesis
  proof (cases "running (node_at s n)")
    case True
    have "cluster_inv NODE_IDS s" by (rule reachable_inv [OF reach NODE_IDS_ok mutated_ok])
    from past [OF node_now(5) [OF this n(1) True] n(2)] show thesis .
  next
    case False
    with reachable_idle [OF reach] n down show thesis by (simp add: idle_def core_eq_iff)
  qed
qed

lemma viewed_log_wf:
  assumes reach: "reachable NODE_IDS (mutated mode) s" and "views s v" and "k \<in> set (sorted_nodes v)"
  shows "log_wf (rlog k)"
  using assms
proof (cases rule: viewed_state)
  case (past n l)
  have "logs_inv NODE_IDS s" by (rule reachable_logs [OF reach NODE_IDS_ok mutated_ok])
  with past show ?thesis using past_seen [OF past(1)] by (auto simp: logs_inv_def logs_just_def core_eq_iff)
qed simp

lemma scan_for_silent:
  "P st \<Longrightarrow> (\<And>x st. x \<in> set xs \<Longrightarrow> P st \<Longrightarrow> \<exists>st'. body x st = Done None st' \<and> P st') \<Longrightarrow>
     \<exists>st'. scan_for body xs st = Done None st' \<and> P st'"
proof (induction xs arbitrary: st)
  case (Cons x xs)
  obtain st1 where "body x st = Done None st1" "P st1" using Cons.prems by force
  with Cons.IH [of st1] Cons.prems(2) show ?case by (simp add: bind_def)
qed (simp add: ret_def)

section \<open>Log Matching\<close>

lemma viewed_logs_match:
  assumes reach: "reachable NODE_IDS (mutated mode) s" and views: "views s v"
    and k: "k \<in> set (sorted_nodes v)" and l: "l \<in> set (sorted_nodes v)"
  shows "Checkers.logs_match (rlog k) (rlog l)"
proof (cases "rlog k = [] \<or> rlog l = []")
  case False
  obtain a k0 where k0: "(a, k0) \<in> past s" "rlog k = rlog k0"
    by (rule viewed_state [OF reach views k]) (use False in \<open>auto simp: core_eq_iff\<close>)
  obtain b l0 where l0: "(b, l0) \<in> past s" "rlog l = rlog l0"
    by (rule viewed_state [OF reach views l]) (use False in \<open>auto simp: core_eq_iff\<close>)
  have inv: "logs_inv NODE_IDS s" by (rule reachable_logs [OF reach NODE_IDS_ok mutated_ok])
  show ?thesis
    unfolding logs_match_def k0(2) l0(2)
  proof (intro allI impI)
    fix i
    assume i: "1 \<le> i \<and> i \<le> int (length (rlog k0)) \<and> i \<le> int (length (rlog l0)) \<and> trm (rlog k0) i = trm (rlog l0) i"
    then have "same_upto (Suc (nat (i - 1))) (rlog k0) (rlog l0)"
      by (intro past_logs_match [OF inv k0(1) l0(1)]) (auto simp: trm_def)
    moreover have "Suc (nat (i - 1)) = nat i" using i by linarith
    ultimately show "take (nat i) (rlog k0) = take (nat i) (rlog l0)" by (simp add: same_upto_def)
  qed
qed (auto simp: logs_match_def)

lemma matching_silent:
  assumes "reachable NODE_IDS (mutated mode) s" and "views s v"
  shows "observe_matching v u = Done None u"
proof -
  have "\<exists>st'. scan_for (\<lambda>(l, r). of_sum (match_pair l r)) (pairs (sorted_nodes v)) u = Done None st' \<and> st' = u"
  proof (rule scan_for_silent)
    fix x :: "rnode \<times> rnode" and st :: unit
    assume x: "x \<in> set (pairs (sorted_nodes v))" and "st = u"
    obtain l r where lr: "x = (l, r)" by (cases x)
    with x have "l \<in> set (sorted_nodes v)" "r \<in> set (sorted_nodes v)" by (auto simp: set_pairs)
    with match_pair_exact [of l r] viewed_log_wf [OF assms] viewed_logs_match [OF assms]
    have "match_pair l r = Inr None" by auto
    with \<open>st = u\<close> show "\<exists>st'. (case x of (l, r) \<Rightarrow> of_sum (match_pair l r)) st = Done None st' \<and> st' = u"
      by (simp add: lr of_sum_def ret_def)
  qed simp
  then show ?thesis by (simp add: observe_matching_def)
qed

interpretation matching: watcher mode "''log_matching''" "\<lambda>_ _. True" for mode
proof
  show "r = None \<and> True"
    if "reachable NODE_IDS (mutated mode) s" "views s v" "checker_name ch = ''log_matching''" "checker_observe v ch = Done r ch'"
    for s v ch r ch'
  proof -
    from that(3) have "ch = LogMatching" by (cases ch) auto
    with that(4) matching_silent [OF that(1,2)] show ?thesis by (auto simp: run_checker_def split: outcome.splits)
  qed
qed simp

section \<open>State Machine Safety\<close>

text \<open>What the checker remembers as applied first, some node had applied.\<close>

fun witnessed :: "checker \<Rightarrow> cluster \<Rightarrow> bool" where
  "witnessed (StateMachineSafety mem) s \<longleftrightarrow> (\<forall>i a. mem i = Some a \<longrightarrow> (\<exists>n k. (n, k) \<in> past s \<and> 1 \<le> i
     \<and> i \<le> last_applied k \<and> ap_term a = le_term (rlog k ! nat (i - 1)) \<and> ap_command a = le_command (rlog k ! nat (i - 1))))"
| "witnessed _ s \<longleftrightarrow> True"

lemma applied_same:
  assumes reach: "reachable NODE_IDS (mutated ''none'') s" and "(a, k) \<in> past s" and "(b, l) \<in> past s"
    and "1 \<le> i" "i \<le> last_applied k" "i \<le> last_applied l"
  shows "i \<le> int (length (rlog k)) \<and> rlog k ! nat (i - 1) = rlog l ! nat (i - 1)"
proof -
  have mut: "mutated ''none'' m = m" for m by (simp add: mutated_def NO_ELECTION_RESTRICTION_def split: message.split)
  have "agreed NODE_IDS s" by (rule reachable_agreed [OF reach NODE_IDS_ok mut])
  with assms have ok: "applied_ok k" "applied_ok l" by (auto simp: agreed_def)
  then have "nat i \<le> nat (commit_index k)" "nat i \<le> nat (commit_index l)"
    using assms(5,6) by (simp_all add: applied_ok_def nat_mono)
  from committed_agree [OF reach NODE_IDS_ok mut assms(2,3) this] have same: "same_upto (nat i) (rlog k) (rlog l)" .
  have "nat (i - 1) < nat i" using assms(4) by simp
  from same_upto_nth [OF same this] ok(1) assms(5) show ?thesis by (simp add: applied_ok_def)
qed

lemma applied_silent:
  assumes reach: "reachable NODE_IDS (mutated ''none'') s" and views: "views s v"
    and "witnessed (StateMachineSafety mem) s"
  shows "\<exists>mem'. observe_state_machine v mem = Done None mem' \<and> witnessed (StateMachineSafety mem') s"
  unfolding observe_state_machine_def
proof (rule scan_for_silent [where P = "\<lambda>m. witnessed (StateMachineSafety m) s"], rule assms(3),
    rule scan_for_silent [where P = "\<lambda>m. witnessed (StateMachineSafety m) s"])
  fix k i mem0 mem
  assume k: "k \<in> set (sorted_nodes v)" and i: "i \<in> set [1..last_applied k]" and w: "witnessed (StateMachineSafety mem) s"
  from reach views k show "\<exists>mem'. check_applied k i mem = Done None mem' \<and> witnessed (StateMachineSafety mem') s"
  proof (cases rule: viewed_state)
    case (past n l)
    have l: "rlog k = rlog l" "last_applied k = last_applied l" using past(2) by (simp_all add: core_eq_iff)
    have i': "1 \<le> i" "i \<le> last_applied l" using i l by auto
    have len: "i \<le> int (length (rlog l))" using applied_same [OF reach past(1,1) i'(1,2,2)] by simp
    have wf: "log_wf (rlog l)" using viewed_log_wf [OF reach views k] l by simp
    have e: "has_entry (rlog k) i" "entry_at (rlog k) i = Inr (rlog l ! nat (i - 1))"
      using wf len i'(1) l by (simp_all add: has_entry_wf entry_at_wf)
    show ?thesis
    proof (cases "mem i")
      case None
      let ?a = "AppliedEntry i (le_term (rlog l ! nat (i - 1))) (le_command (rlog l ! nat (i - 1))) (node_id k)"
      have "witnessed (StateMachineSafety (mem(i \<mapsto> ?a))) s"
        unfolding witnessed.simps
      proof (intro allI impI)
        fix j a assume "(mem(i \<mapsto> ?a)) j = Some a"
        then show "\<exists>n k. (n, k) \<in> past s \<and> 1 \<le> j \<and> j \<le> last_applied k \<and> ap_term a = le_term (rlog k ! nat (j - 1))
            \<and> ap_command a = le_command (rlog k ! nat (j - 1))"
        proof (cases "j = i")
          case True
          with \<open>(mem(i \<mapsto> ?a)) j = Some a\<close> past(1) i' show ?thesis by (intro exI [of _ n] exI [of _ l]) auto
        qed (use w in simp)
      qed
      with None e show ?thesis by (simp add: check_applied_def)
    next
      case (Some a)
      with w obtain m p where p: "(m, p) \<in> past s" "i \<le> last_applied p"
        "ap_term a = le_term (rlog p ! nat (i - 1))" "ap_command a = le_command (rlog p ! nat (i - 1))" unfolding witnessed.simps by metis
      from applied_same [OF reach past(1) p(1) i' p(2)] Some e w p(3,4) show ?thesis by (simp add: check_applied_def)
    qed
  qed (use i in simp)
qed

interpretation machines: watcher "''none''" "''state_machine_safety''" witnessed
proof
  show "witnessed ch s'" if "witnessed ch s" "cstep NODE_IDS (mutated ''none'') s s'" for ch s s'
    using that(1) past_grows [OF that(2)] by (cases ch) (simp_all, blast)
  show "r = None \<and> witnessed ch' s"
    if "reachable NODE_IDS (mutated ''none'') s" "views s v" "checker_name ch = ''state_machine_safety''" "witnessed ch s"
      "checker_observe v ch = Done r ch'" for s v ch r ch'
  proof -
    from that(3) obtain mem where ch: "ch = StateMachineSafety mem" by (cases ch) auto
    with applied_silent [OF that(1,2)] that(4) obtain mem' where
      "observe_state_machine v mem = Done None mem'" "witnessed (StateMachineSafety mem') s" by blast
    with that(5) ch show ?thesis by (auto simp: run_checker_def)
  qed
qed

text \<open>A run without the mutation reports no violation of State Machine Safety.\<close>

lemma machines_quiet:
  assumes "run_raft stream sd p writes keys check strd ''none'' = Done res w"
  shows "\<forall>v \<in> set (res_violations res). v_checker v \<noteq> ''state_machine_safety''"
proof -
  from assms obtain w1 where 1: "raft_cluster check strd (blank_world stream sd p writes keys ''none'') = Done () w1"
    and 2: "raft_run w1 = Done res w" by (auto simp: run_raft_def)
  have "follows ''none'' (all_know ''state_machine_safety'' witnessed) w1"
    by (rule cluster_watched [OF 1]) (auto simp: all_checkers_def)
  from machines.run_fine [OF this 2] show ?thesis by (auto simp: no_report_def)
qed

section \<open>Properties\<close>

text \<open>
  C3. Log Matching of every run: whatever the seed, the fault profile, the stride and the mutation, a run that
  returns reports no violation of Log Matching.
\<close>

theorem run_logs_match:
  assumes "run_raft stream sd p writes keys check strd mutate = Done res w"
  shows "\<forall>v \<in> set (res_violations res). v_checker v \<noteq> ''log_matching''"
proof -
  from assms obtain w1 where 1: "raft_cluster check strd (blank_world stream sd p writes keys mutate) = Done () w1"
    and 2: "raft_run w1 = Done res w" by (auto simp: run_raft_def)
  have "follows mutate (all_know ''log_matching'' (\<lambda>_ _. True)) w1" by (rule cluster_watched [OF 1]) simp
  from matching.run_fine [OF this 2] show ?thesis by (auto simp: no_report_def)
qed

theorem run_logs_match_witness:
  "\<exists>res w. run_raft (\<lambda>_. 0) 0 perfect_profile (- 12) 1 True 1 ''none'' = Done res w
     \<and> (\<forall>v \<in> set (res_violations res). v_checker v \<noteq> ''log_matching'')"
proof -
  obtain res w where "run_raft (\<lambda>_. 0) 0 perfect_profile (- 12) 1 True 1 ''none'' = Done res w" by (rule small_run)
  with run_logs_match [OF this] show ?thesis by blast
qed

text \<open>
  C2. State Machine Safety of every run without the mutation: whatever the seed, the fault profile and the stride, a
  run that returns reports no two nodes that applied different entries at an index, and none that applied an entry
  beyond its log.
\<close>

theorem run_state_machines_agree:
  assumes "run_raft stream sd p writes keys check strd ''none'' = Done res w"
  shows "\<forall>v \<in> set (res_violations res). v_checker v \<noteq> ''state_machine_safety''"
  by (rule machines_quiet [OF assms])

theorem run_state_machines_agree_witness:
  "\<exists>res w. run_raft (\<lambda>_. 0) 0 perfect_profile (- 12) 1 True 1 ''none'' = Done res w
     \<and> (\<forall>v \<in> set (res_violations res). v_checker v \<noteq> ''state_machine_safety'')"
proof -
  obtain res w where "run_raft (\<lambda>_. 0) 0 perfect_profile (- 12) 1 True 1 ''none'' = Done res w" by (rule small_run)
  with run_state_machines_agree [OF this] show ?thesis by blast
qed

text \<open>
  C22. A hang that ends undoes a revival. When a node has taken itself down because its disk failed while the fault
  schedule had it hung, the end of the hang marks it as running on the network without starting it; the supervisor
  then finds it up and does nothing, and it stays down for good.
\<close>

theorem hang_end_prevents_revival:
  assumes "status w n = Some CRASHED" and "map_of (w_nodes w) n = Some (m, d)" and "\<not> running m"
  shows "\<exists>w'. world_act (EndOutage (OutageEpisode at dur n HANG)) w = Done () w' \<and> status w' n = Some RUNNING
    \<and> world_act (Callback (Revive n)) w' = Done () w' \<and> map_of (w_nodes w') n = Some (m, d) \<and> \<not> running m"
  using assms
  by (simp add: end_outage_def note_fired_def net_set_state_def revive_def net_state_def HANG_def CRASH_def block.simps
      bind_def ret_def modify_def Let_def)

theorem hang_end_prevents_revival_witness:
  "\<exists>w m d w'. status w 1 = Some CRASHED \<and> map_of (w_nodes w) 1 = Some (m, d) \<and> \<not> running m
     \<and> world_act (EndOutage (OutageEpisode 5 3 1 HANG)) w = Done () w' \<and> status w' 1 = Some RUNNING
     \<and> world_act (Callback (Revive 1)) w' = Done () w'"
proof -
  have "\<exists>w0 w m d. raft_cluster True 1 (blank_world (\<lambda>_. 0) 0 perfect_profile 5 1 ''none'') = Done () w0
    \<and> world_act (BeginOutage (OutageEpisode 5 3 1 CRASH)) w0 = Done () w \<and> status w 1 = Some CRASHED
    \<and> map_of (w_nodes w) 1 = Some (m, d) \<and> \<not> running m"
    by (simp add: begin_outage_def note_fired_def eval_defs cluster_defs node_defs del: py_done)
  then obtain w :: raft_world and m d where w: "status w 1 = Some CRASHED" "map_of (w_nodes w) 1 = Some (m, d)" "\<not> running m" by blast
  from hang_end_prevents_revival [OF w, of 5 3] w show ?thesis by blast
qed

end
