(* ===== verification/Odd_Runs.thy ===== *)
theory Odd_Runs
  imports Checkers Cluster_Props
begin

text \<open>
  Two runs of three nodes, no message altered, that show where the code says more than the protocol gives. The Leader
  Completeness checker takes every leader it has not seen for one elected after whatever it has seen committed; but a
  candidate may collect a late vote and lead a term that is long over. And a node keeps the promises it made to
  clients when it loses the leadership, so it acknowledges a request when it applies the entry that replaced it.
\<close>

declare block.simps [simp del]

section \<open>A late vote\<close>

text \<open>Node 1 asks for votes in term 1; node 2 grants its vote, then leads term 2 and commits an entry with node 3.\<close>

definition bids_2 :: rnode where
  "bids_2 = voter_2\<lparr>current_term := 2, voted_for := Some 2, role := CANDIDATE, votes_granted := [2]\<rparr>"

definition leads_2 :: rnode where "leads_2 = lead (bids_2\<lparr>votes_granted := [2, 3]\<rparr>)"

definition late_entry :: log_entry where "late_entry = LogEntry 2 1 (put [98] [50])"

definition asked_2 :: rnode where
  "asked_2 = leads_2\<lparr>rlog := [late_entry], pending_clients := (pending_clients leads_2)(1 \<mapsto> (9, 8))\<rparr>"

definition holds_3 :: rnode where
  "holds_3 = voter_3\<lparr>rlog := [late_entry], leader_id := Some 2\<rparr>"

definition ahead_2 :: rnode where
  "ahead_2 = asked_2\<lparr>commit_index := 1, last_applied := 1, kv := log_store [late_entry],
     next_index := (next_index asked_2)(3 \<mapsto> 2), match_index := (match_index asked_2)(3 \<mapsto> 1),
     pending_clients := (pending_clients asked_2)(1 := None)\<rparr>"

lemmas late_states = bids_2_def leads_2_def late_entry_def asked_2_def holds_3_def ahead_2_def

lemma late_1:
  "new_state (handle ElectionTimer voter_2) = bids_2"
  "(3, MRequestVote (RequestVote 2 2 0 0)) \<in> set (sent_by (handle ElectionTimer voter_2))"
  by (simp_all add: late_states run_states handler_defs)

lemma late_2:
  "new_state (handle (Receives 2 (MRequestVote (RequestVote 2 2 0 0))) (new_rnode 3 [1, 2])) = voter_3"
  "(2, MRequestVoteReply (RequestVoteReply 2 True))
     \<in> set (sent_by (handle (Receives 2 (MRequestVote (RequestVote 2 2 0 0))) (new_rnode 3 [1, 2])))"
  by (simp_all add: run_states handler_defs)

lemma late_3: "new_state (handle (Receives 3 (MRequestVoteReply (RequestVoteReply 2 True))) bids_2) = leads_2"
  by (simp add: late_states run_states handler_defs)

lemma late_4:
  "new_state (handle (Receives 9 (MClientRequest (ClientRequest 8 (put [98] [50])))) leads_2) = asked_2"
  "(3, MAppendEntries (AppendEntries 2 2 0 0 [late_entry] 0))
     \<in> set (sent_by (handle (Receives 9 (MClientRequest (ClientRequest 8 (put [98] [50])))) leads_2))"
  by (simp_all add: late_states run_states handler_defs)

lemma late_5:
  "new_state (handle (Receives 2 (MAppendEntries (AppendEntries 2 2 0 0 [late_entry] 0))) voter_3) = holds_3"
  "(2, MAppendEntriesReply (AppendEntriesReply 2 True 1))
     \<in> set (sent_by (handle (Receives 2 (MAppendEntries (AppendEntries 2 2 0 0 [late_entry] 0))) voter_3))"
  by (simp_all add: late_states run_states handler_defs)

lemma late_6: "new_state (handle (Receives 3 (MAppendEntriesReply (AppendEntriesReply 2 True 1))) asked_2) = ahead_2"
  by (simp add: late_states run_states handler_defs)

lemma late_wf: "log_wf [late_entry]"
  by (simp add: log_wf_def late_entry_def)

lemma late_fine: "running k \<and> log_wf (rlog k)"
  if "k \<in> {new_rnode 1 [2, 3], new_rnode 2 [1, 3], new_rnode 3 [1, 2], cand_1, voter_2, lead_1, bids_2, leads_2, asked_2, voter_3, holds_3, ahead_2}"
proof -
  show ?thesis using that late_wf by (auto simp: cand_1_def voter_2_def lead_1_def voter_3_def bids_2_def leads_2_def asked_2_def
      holds_3_def ahead_2_def new_rnode_def lead_def)
qed

section \<open>What the checker makes of it\<close>

definition look :: "cluster \<Rightarrow> cluster_view" where
  "look s = \<lparr>view_tick = 0, view_nodes = map (\<lambda>n. (n, node_at s n)) [1, 2, 3], view_history = []\<rparr>"

lemma look_nodes: "sorted_nodes (look s) = [node_at s 1, node_at s 2, node_at s 3]"
  by (simp add: sorted_nodes_def look_def)

lemma late_entry_at: "has_entry [late_entry] 1" "entry_at [late_entry] 1 = Inr late_entry"
  using late_wf by (simp_all add: has_entry_wf entry_at_wf)

lemma has_entry_Nil: "has_entry [] i \<longleftrightarrow> i = 0"
  by (auto simp: has_entry_def last_index_def SENTINEL_INDEX_def)

lemmas observe_defs = observe_completeness_def look_nodes leaders_def bind_def for_each_def block.simps ret_def
  remember_committed_def lacks_def of_sum_def has_entry_Nil

lemma late_facts:
  "node_id lead_1 = 1 \<and> running lead_1 \<and> role lead_1 = LEADER \<and> current_term lead_1 = 1 \<and> commit_index lead_1 = 0 \<and> rlog lead_1 = []"
  "role cand_1 = CANDIDATE \<and> commit_index cand_1 = 0" "role voter_2 = FOLLOWER \<and> commit_index voter_2 = 0"
  "role bids_2 = CANDIDATE \<and> commit_index bids_2 = 0" "role voter_3 = FOLLOWER \<and> commit_index voter_3 = 0"
  "role holds_3 = FOLLOWER \<and> commit_index holds_3 = 0" "role (new_rnode n ps) = FOLLOWER \<and> commit_index (new_rnode n ps) = 0"
  "node_id leads_2 = 2 \<and> running leads_2 \<and> role leads_2 = LEADER \<and> current_term leads_2 = 2 \<and> commit_index leads_2 = 0"
  "node_id asked_2 = 2 \<and> running asked_2 \<and> role asked_2 = LEADER \<and> current_term asked_2 = 2 \<and> commit_index asked_2 = 0"
  "node_id ahead_2 = 2 \<and> running ahead_2 \<and> role ahead_2 = LEADER \<and> current_term ahead_2 = 2 \<and> commit_index ahead_2 = 1 \<and> rlog ahead_2 = [late_entry]"
  by (simp_all add: lead_1_def cand_1_def voter_2_def bids_2_def voter_3_def holds_3_def leads_2_def asked_2_def ahead_2_def
      lead_def new_rnode_def SENTINEL_INDEX_def)

lemma no_leader_yet:
  assumes "\<forall>k \<in> {node_at s 1, node_at s 2, node_at s 3}. commit_index k = 0 \<and> role k \<noteq> LEADER"
  shows "observe_completeness (look s) st = Done None st"
  using assms by (simp add: observe_defs)

lemma leader_seen:
  assumes "node_at s 1 = cand_1" "node_at s 2 \<in> {leads_2, asked_2}" "node_at s 3 \<in> {voter_3, holds_3}"
  shows "observe_completeness (look s) \<lparr>committed = [], checked_terms = c\<rparr> = Done None \<lparr>committed = [], checked_terms = c(2 \<mapsto> 2)\<rparr>"
  using assms by (auto simp: observe_defs late_facts fun_upd_idem)

lemma commit_seen:
  assumes "node_at s 1 = cand_1" "node_at s 2 = ahead_2" "node_at s 3 = holds_3"
  shows "observe_completeness (look s) \<lparr>committed = [], checked_terms = c(2 \<mapsto> 2)\<rparr>
    = Done None \<lparr>committed = [(1, late_entry)], checked_terms = c(2 \<mapsto> 2)\<rparr>"
  using assms late_entry_at by (simp add: observe_defs late_facts)

lemma accused:
  assumes "node_at s 1 = lead_1" "node_at s 2 = ahead_2" "node_at s 3 = holds_3"
  shows "observe_completeness (look s) \<lparr>committed = [(1, late_entry)], checked_terms = [2 \<mapsto> 2]\<rparr>
    = Done (Some (LeaderLacks 1 1 late_entry None)) \<lparr>committed = [(1, late_entry)], checked_terms = [2 \<mapsto> 2, 1 \<mapsto> 1]\<rparr>"
  using assms by (simp add: observe_defs late_facts)

text \<open>The run, its states in order.\<close>

inductive leads_to :: "cluster list \<Rightarrow> bool" where
  leads_start: "leads_to [initial [1, 2, 3]]"
| leads_step: "leads_to (ss @ [s]) \<Longrightarrow> cstep [1, 2, 3] (\<lambda>m. m) s s' \<Longrightarrow> leads_to (ss @ [s, s'])"

text \<open>Node 2 takes over in term 2 and commits an entry with node 3, whatever node 1 does meanwhile.\<close>

lemma second_term:
  assumes "reachable [1, 2, 3] (\<lambda>m. m) s2" and "node_at s2 2 = voter_2" and "node_at s2 3 = new_rnode 3 [1, 2]"
  obtains s3 s4 s5 r s6 s7 s8 where "node_at s3 = (node_at s2)(2 := bids_2)" "node_at s4 = (node_at s3)(3 := voter_3)"
    "node_at s5 = (node_at s4)(2 := leads_2)" "node_at r = node_at s5" "node_at s6 = (node_at r)(2 := asked_2)"
    "node_at s7 = (node_at s6)(3 := holds_3)" "node_at s8 = (node_at s7)(2 := ahead_2)"
    "cstep [1, 2, 3] (\<lambda>m. m) s2 s3" "cstep [1, 2, 3] (\<lambda>m. m) s3 s4" "cstep [1, 2, 3] (\<lambda>m. m) s4 s5" "cstep [1, 2, 3] (\<lambda>m. m) s5 r"
    "cstep [1, 2, 3] (\<lambda>m. m) r s6" "cstep [1, 2, 3] (\<lambda>m. m) s6 s7" "cstep [1, 2, 3] (\<lambda>m. m) s7 s8"
    "reachable [1, 2, 3] (\<lambda>m. m) s8" "sent s2 \<subseteq> sent s8"
    "past s8 = {(2, ahead_2), (3, holds_3), (2, asked_2), (2, leads_2), (3, voter_3), (2, bids_2)} \<union> past s2"
proof -
  note fine = late_fine [THEN conjunct1] late_fine [THEN conjunct2] and sent = run_sent
  obtain s3 where 3: "reachable [1, 2, 3] (\<lambda>m. m) s3" "node_at s3 = (node_at s2)(2 := bids_2)"
    "sent s3 = sent s2 \<union> sends 2 (sent_by (handle ElectionTimer voter_2))" "past s3 = insert (2, bids_2) (past s2)"
    "cstep [1, 2, 3] (\<lambda>m. m) s2 s3"
    by (rule run_on [where n = 2, OF assms(1) _ _ _ _ late_1(1)]) (simp_all add: fine assms)
  obtain s4 where 4: "reachable [1, 2, 3] (\<lambda>m. m) s4" "node_at s4 = (node_at s3)(3 := voter_3)"
    "sent s4 = sent s3 \<union> sends 3 (sent_by (handle (Receives 2 (MRequestVote (RequestVote 2 2 0 0))) (new_rnode 3 [1, 2])))"
    "past s4 = insert (3, voter_3) (past s3)" "cstep [1, 2, 3] (\<lambda>m. m) s3 s4"
    by (rule run_on [where n = 3, OF 3(1) _ _ _ _ late_2(1)]) (use sent [OF late_1(2)] in \<open>simp_all add: fine assms 3\<close>)
  obtain s5 where 5: "reachable [1, 2, 3] (\<lambda>m. m) s5" "node_at s5 = (node_at s4)(2 := leads_2)"
    "sent s5 = sent s4 \<union> sends 2 (sent_by (handle (Receives 3 (MRequestVoteReply (RequestVoteReply 2 True))) bids_2))"
    "past s5 = insert (2, leads_2) (past s4)" "cstep [1, 2, 3] (\<lambda>m. m) s4 s5"
    by (rule run_on [where n = 2, OF 4(1) _ _ _ _ late_3]) (use sent [OF late_2(2)] in \<open>simp_all add: fine 3 4\<close>)
  define r where "r = request 9 2 (ClientRequest 8 (put [98] [50])) s5"
  have step: "cstep [1, 2, 3] (\<lambda>m. m) s5 r" unfolding r_def by (rule cstep.requests) simp
  with 5(1) have r: "reachable [1, 2, 3] (\<lambda>m. m) r" "node_at r = node_at s5" "past r = past s5" "sent s5 \<subseteq> sent r"
    "(9, 2, MClientRequest (ClientRequest 8 (put [98] [50]))) \<in> sent r"
    by (rule reachable.moves) (auto simp: r_def request_def)
  obtain s6 where 6: "reachable [1, 2, 3] (\<lambda>m. m) s6" "node_at s6 = (node_at r)(2 := asked_2)"
    "sent s6 = sent r \<union> sends 2 (sent_by (handle (Receives 9 (MClientRequest (ClientRequest 8 (put [98] [50])))) leads_2))"
    "past s6 = insert (2, asked_2) (past r)" "cstep [1, 2, 3] (\<lambda>m. m) r s6"
    by (rule run_on [where n = 2, OF r(1) _ _ _ _ late_4(1)]) (use r(5) in \<open>simp_all add: fine r 5\<close>)
  obtain s7 where 7: "reachable [1, 2, 3] (\<lambda>m. m) s7" "node_at s7 = (node_at s6)(3 := holds_3)"
    "sent s7 = sent s6 \<union> sends 3 (sent_by (handle (Receives 2 (MAppendEntries (AppendEntries 2 2 0 0 [late_entry] 0))) voter_3))"
    "past s7 = insert (3, holds_3) (past s6)" "cstep [1, 2, 3] (\<lambda>m. m) s6 s7"
    by (rule run_on [where n = 3, OF 6(1) _ _ _ _ late_5(1)]) (use sent [OF late_4(2)] in \<open>simp_all add: fine r 4 5 6\<close>)
  obtain s8 where 8: "reachable [1, 2, 3] (\<lambda>m. m) s8" "node_at s8 = (node_at s7)(2 := ahead_2)"
    "sent s8 = sent s7 \<union> sends 2 (sent_by (handle (Receives 3 (MAppendEntriesReply (AppendEntriesReply 2 True 1))) asked_2))"
    "past s8 = insert (2, ahead_2) (past s7)" "cstep [1, 2, 3] (\<lambda>m. m) s7 s8"
    by (rule run_on [where n = 2, OF 7(1) _ _ _ _ late_6]) (use sent [OF late_5(2)] in \<open>simp_all add: fine r 4 5 6 7\<close>)
  show thesis
  proof (rule that [OF 3(2) 4(2) 5(2) r(2) 6(2) 7(2) 8(2) 3(5) 4(5) 5(5) step 6(5) 7(5) 8(5) 8(1)])
    show "sent s2 \<subseteq> sent s8" using 3(3) 4(3) 5(3) r(4) 6(3) 7(3) 8(3) by auto
    show "past s8 = {(2, ahead_2), (3, holds_3), (2, asked_2), (2, leads_2), (3, voter_3), (2, bids_2)} \<union> past s2"
      by (simp add: 3 4 5 r 6 7 8)
  qed
qed

lemma late_run:
  obtains ss s where "leads_to (ss @ [s])" "node_at s 1 = lead_1" "node_at s 2 = ahead_2" "node_at s 3 = holds_3"
    "scan_for observe_completeness (map look (ss @ [s])) \<lparr>committed = [], checked_terms = Map.empty\<rparr>
     = Done (Some (LeaderLacks 1 1 late_entry None)) \<lparr>committed = [(1, late_entry)], checked_terms = [2 \<mapsto> 2, 1 \<mapsto> 1]\<rparr>"
proof -
  define s0 where "s0 = initial [1, 2, 3]"
  have 0: "reachable [1, 2, 3] (\<lambda>m. m) s0" "node_at s0 1 = new_rnode 1 [2, 3]" "node_at s0 2 = new_rnode 2 [1, 3]"
    "node_at s0 3 = new_rnode 3 [1, 2]" unfolding s0_def by (rule reachable.starts) (simp_all add: initial_def peers_of_def)
  note fine = late_fine [THEN conjunct1] late_fine [THEN conjunct2] and sent = run_sent
  obtain s1 where 1: "reachable [1, 2, 3] (\<lambda>m. m) s1" "node_at s1 = (node_at s0)(1 := cand_1)"
    "sent s1 = sent s0 \<union> sends 1 (sent_by (handle ElectionTimer (new_rnode 1 [2, 3])))" "cstep [1, 2, 3] (\<lambda>m. m) s0 s1"
    by (rule run_on [OF 0(1,2) _ _ _ handled_1(1)]) (simp_all add: fine)
  obtain s2 where 2: "reachable [1, 2, 3] (\<lambda>m. m) s2" "node_at s2 = (node_at s1)(2 := voter_2)"
    "sent s2 = sent s1 \<union> sends 2 (sent_by (handle (Receives 1 (MRequestVote (RequestVote 1 1 0 0))) (new_rnode 2 [1, 3])))"
    "cstep [1, 2, 3] (\<lambda>m. m) s1 s2"
    by (rule run_on [where n = 2, OF 1(1) _ _ _ _ handled_2(1)]) (use sent [OF handled_1(2)] in \<open>simp_all add: fine 0 1\<close>)
  obtain s3 s4 s5 r s6 s7 s8 where late: "node_at s3 = (node_at s2)(2 := bids_2)" "node_at s4 = (node_at s3)(3 := voter_3)"
    "node_at s5 = (node_at s4)(2 := leads_2)" "node_at r = node_at s5" "node_at s6 = (node_at r)(2 := asked_2)"
    "node_at s7 = (node_at s6)(3 := holds_3)" "node_at s8 = (node_at s7)(2 := ahead_2)"
    and steps: "cstep [1, 2, 3] (\<lambda>m. m) s2 s3" "cstep [1, 2, 3] (\<lambda>m. m) s3 s4" "cstep [1, 2, 3] (\<lambda>m. m) s4 s5" "cstep [1, 2, 3] (\<lambda>m. m) s5 r"
    "cstep [1, 2, 3] (\<lambda>m. m) r s6" "cstep [1, 2, 3] (\<lambda>m. m) s6 s7" "cstep [1, 2, 3] (\<lambda>m. m) s7 s8"
    and 8: "reachable [1, 2, 3] (\<lambda>m. m) s8" "sent s2 \<subseteq> sent s8"
    by (rule second_term [OF 2(1)]) (simp_all add: 0 1 2)
  have "(2, 1, MRequestVoteReply (RequestVoteReply 1 True)) \<in> sent s2" using sent [OF handled_2(2)] by (simp add: 2)
  then have vote: "(2, 1, MRequestVoteReply (RequestVoteReply 1 True)) \<in> sent s8" using 8(2) by blast
  obtain s9 where 9: "node_at s9 = (node_at s8)(1 := lead_1)" "cstep [1, 2, 3] (\<lambda>m. m) s8 s9"
    by (rule run_on [where n = 1, OF 8(1) _ _ _ _ handled_3]) (use vote in \<open>simp_all add: fine 1 2 late\<close>)
  note now = 0 1(2) 2(2) late 9(1)
  have run: "leads_to ([s0, s1, s2, s3, s4, s5, r, s6, s7, s8] @ [s9])"
    using leads_to.leads_start [folded s0_def] 1(4) 2(4) steps 9(2)
    using leads_to.leads_step [of "[]"] leads_to.leads_step [of "[s0]"] leads_to.leads_step [of "[s0, s1]"]
      leads_to.leads_step [of "[s0, s1, s2]"] leads_to.leads_step [of "[s0, s1, s2, s3]"]
      leads_to.leads_step [of "[s0, s1, s2, s3, s4]"] leads_to.leads_step [of "[s0, s1, s2, s3, s4, s5]"]
      leads_to.leads_step [of "[s0, s1, s2, s3, s4, s5, r]"] leads_to.leads_step [of "[s0, s1, s2, s3, s4, s5, r, s6]"]
      leads_to.leads_step [of "[s0, s1, s2, s3, s4, s5, r, s6, s7]"] by simp
  have "observe_completeness (look s) st = Done None st" if "s \<in> {s0, s1, s2, s3, s4}" for s st
    by (rule no_leader_yet) (use that in \<open>auto simp: now late_facts\<close>)
  moreover have "observe_completeness (look s) \<lparr>committed = [], checked_terms = c\<rparr>
      = Done None \<lparr>committed = [], checked_terms = c(2 \<mapsto> 2)\<rparr>" if "s \<in> {s5, r, s6, s7}" for s c
    by (rule leader_seen) (use that in \<open>auto simp: now\<close>)
  moreover have "observe_completeness (look s8) \<lparr>committed = [], checked_terms = c(2 \<mapsto> 2)\<rparr>
      = Done None \<lparr>committed = [(1, late_entry)], checked_terms = c(2 \<mapsto> 2)\<rparr>" for c
    by (rule commit_seen) (simp_all add: now)
  moreover have "observe_completeness (look s9) \<lparr>committed = [(1, late_entry)], checked_terms = [2 \<mapsto> 2]\<rparr>
      = Done (Some (LeaderLacks 1 1 late_entry None)) \<lparr>committed = [(1, late_entry)], checked_terms = [2 \<mapsto> 2, 1 \<mapsto> 1]\<rparr>"
    by (rule accused) (simp_all add: now)
  ultimately have seen_all: "scan_for observe_completeness (map look ([s0, s1, s2, s3, s4, s5, r, s6, s7, s8] @ [s9]))
      \<lparr>committed = [], checked_terms = Map.empty\<rparr>
    = Done (Some (LeaderLacks 1 1 late_entry None)) \<lparr>committed = [(1, late_entry)], checked_terms = [2 \<mapsto> 2, 1 \<mapsto> 1]\<rparr>"
    by (simp add: bind_def ret_def)
  show thesis by (rule that [OF run _ _ _ seen_all]) (simp_all add: now)
qed

section \<open>A promise to the wrong client\<close>

text \<open>Node 1 leads term 1 and takes request 7; node 2 takes over and commits request 8 at the same index, and node 1
  answers request 7 when it applies it.\<close>

definition deposed_1 :: rnode where
  "deposed_1 = asked_1\<lparr>current_term := 2, voted_for := None, role := FOLLOWER, leader_id := Some 2, votes_granted := [],
     rlog := [late_entry], commit_index := 1, last_applied := 1, kv := log_store [late_entry],
     pending_clients := (pending_clients asked_1)(1 := None)\<rparr>"

lemma late_7:
  "new_state (handle HeartbeatTimer ahead_2) = ahead_2"
  "(1, MAppendEntries (AppendEntries 2 2 0 0 [late_entry] 1)) \<in> set (sent_by (handle HeartbeatTimer ahead_2))"
  by (simp_all add: late_states run_states handler_defs)

lemma late_8:
  "new_state (handle (Receives 2 (MAppendEntries (AppendEntries 2 2 0 0 [late_entry] 1))) asked_1) = deposed_1"
  "(9, MClientReply (ClientReply 7 True None None))
     \<in> set (sent_by (handle (Receives 2 (MAppendEntries (AppendEntries 2 2 0 0 [late_entry] 1))) asked_1))"
  by (simp_all add: deposed_1_def late_states run_states handler_defs)

lemma promise_run:
  obtains s where "reachable [1, 2, 3] (\<lambda>m. m) s"
    "(9, 1, MClientRequest (ClientRequest 7 (put [97] [49]))) \<in> sent s" "(1, 9, MClientReply (ClientReply 7 True None None)) \<in> sent s"
    "past s \<subseteq> {(1, new_rnode 1 [2, 3]), (2, new_rnode 2 [1, 3]), (3, new_rnode 3 [1, 2]), (1, cand_1), (2, voter_2), (1, lead_1),
      (1, asked_1), (2, ahead_2), (3, holds_3), (2, asked_2), (2, leads_2), (3, voter_3), (2, bids_2), (1, deposed_1)}"
    "(1, deposed_1) \<in> past s"
proof -
  define s0 where "s0 = initial [1, 2, 3]"
  have 0: "reachable [1, 2, 3] (\<lambda>m. m) s0" "node_at s0 1 = new_rnode 1 [2, 3]" "node_at s0 2 = new_rnode 2 [1, 3]"
    "node_at s0 3 = new_rnode 3 [1, 2]" unfolding s0_def by (rule reachable.starts) (simp_all add: initial_def peers_of_def)
  have p0: "past s0 = {(1, new_rnode 1 [2, 3]), (2, new_rnode 2 [1, 3]), (3, new_rnode 3 [1, 2])}"
    by (simp add: s0_def initial_def peers_of_def)
  note fine = sample_fine [THEN conjunct1] sample_fine [THEN conjunct2] late_fine [THEN conjunct1] late_fine [THEN conjunct2]
    and sent = run_sent
  obtain s1 where 1: "reachable [1, 2, 3] (\<lambda>m. m) s1" "node_at s1 = (node_at s0)(1 := cand_1)"
    "sent s1 = sent s0 \<union> sends 1 (sent_by (handle ElectionTimer (new_rnode 1 [2, 3])))" "past s1 = insert (1, cand_1) (past s0)"
    by (rule run_on [OF 0(1,2) _ _ _ handled_1(1)]) (simp_all add: fine)
  obtain s2 where 2: "reachable [1, 2, 3] (\<lambda>m. m) s2" "node_at s2 = (node_at s1)(2 := voter_2)"
    "sent s2 = sent s1 \<union> sends 2 (sent_by (handle (Receives 1 (MRequestVote (RequestVote 1 1 0 0))) (new_rnode 2 [1, 3])))"
    "past s2 = insert (2, voter_2) (past s1)"
    by (rule run_on [where n = 2, OF 1(1) _ _ _ _ handled_2(1)]) (use sent [OF handled_1(2)] in \<open>simp_all add: fine 0 1\<close>)
  obtain s3 where 3: "reachable [1, 2, 3] (\<lambda>m. m) s3" "node_at s3 = (node_at s2)(1 := lead_1)" "past s3 = insert (1, lead_1) (past s2)"
    by (rule run_on [where n = 1, OF 2(1) _ _ _ _ handled_3]) (use sent [OF handled_2(2)] in \<open>simp_all add: fine 0 1 2\<close>)
  define r where "r = request 9 1 (ClientRequest 7 (put [97] [49])) s3"
  have "cstep [1, 2, 3] (\<lambda>m. m) s3 r" unfolding r_def by (rule cstep.requests) simp
  with 3(1) have r: "reachable [1, 2, 3] (\<lambda>m. m) r" "node_at r = node_at s3" "past r = past s3"
    "(9, 1, MClientRequest (ClientRequest 7 (put [97] [49]))) \<in> sent r"
    by (rule reachable.moves) (simp_all add: r_def request_def)
  obtain s4 where 4: "reachable [1, 2, 3] (\<lambda>m. m) s4" "node_at s4 = (node_at r)(1 := asked_1)"
    "sent s4 = sent r \<union> sends 1 (sent_by (handle (Receives 9 (MClientRequest (ClientRequest 7 (put [97] [49])))) lead_1))"
    "past s4 = insert (1, asked_1) (past r)"
    by (rule run_on [where n = 1, OF r(1) _ _ _ _ handled_4(1)]) (use r(4) in \<open>simp_all add: fine r 3\<close>)
  obtain s5 where 5: "reachable [1, 2, 3] (\<lambda>m. m) s5" "node_at s5 1 = asked_1" "node_at s5 2 = ahead_2" "sent s4 \<subseteq> sent s5"
    "past s5 = {(2, ahead_2), (3, holds_3), (2, asked_2), (2, leads_2), (3, voter_3), (2, bids_2)} \<union> past s4"
    by (rule second_term [OF 4(1)]) (simp_all add: 0 1 2 3 r 4)
  obtain s6 where 6: "reachable [1, 2, 3] (\<lambda>m. m) s6" "node_at s6 = (node_at s5)(2 := ahead_2)"
    "sent s6 = sent s5 \<union> sends 2 (sent_by (handle HeartbeatTimer ahead_2))" "past s6 = insert (2, ahead_2) (past s5)"
    by (rule run_on [where n = 2, OF 5(1) _ _ _ _ late_7(1)]) (simp_all add: fine 5 late_facts late_wf)
  obtain s7 where 7: "reachable [1, 2, 3] (\<lambda>m. m) s7"
    "sent s7 = sent s6 \<union> sends 1 (sent_by (handle (Receives 2 (MAppendEntries (AppendEntries 2 2 0 0 [late_entry] 1))) asked_1))"
    "past s7 = insert (1, deposed_1) (past s6)"
    by (rule run_on [where n = 1, OF 6(1) _ _ _ _ late_8(1)])
      (use sent [OF late_7(2)] late_fine [of asked_2] in \<open>simp_all add: fine 5 6, simp add: deposed_1_def asked_2_def\<close>)
  show thesis
  proof (rule that [OF 7(1)])
    show "(9, 1, MClientRequest (ClientRequest 7 (put [97] [49]))) \<in> sent s7" using r(4) 4(3) 5(4) 6(3) 7(2) by blast
    show "(1, 9, MClientReply (ClientReply 7 True None None)) \<in> sent s7" using sent [OF late_8(2)] 7(2) by blast
  qed (simp_all add: p0 1 2 3 r 4 5 6 7)
qed

section \<open>Properties\<close>

text \<open>
  C21. The Leader Completeness checker can accuse a correct cluster. There is a run of three nodes, no message
  altered, after whose every step the checker looks at all of them, and it reports that node 1, elected in term 1,
  lacks an entry that was committed in term 2: node 1 got its last vote late. It leads no later term than the
  entry's, so it need not have the entry.
\<close>

theorem completeness_checker_false_alarm:
  "\<exists>ss s st. leads_to (ss @ [s]) \<and> role (node_at s 1) = LEADER \<and> current_term (node_at s 1) = 1
     \<and> commit_index (node_at s 2) = 1 \<and> current_term (node_at s 2) = 2 \<and> rlog (node_at s 2) = [LogEntry 2 1 (put [98] [50])]
     \<and> scan_for observe_completeness (map look (ss @ [s])) \<lparr>committed = [], checked_terms = Map.empty\<rparr>
         = Done (Some (LeaderLacks 1 1 (LogEntry 2 1 (put [98] [50])) None)) st"
proof -
  obtain ss s where "leads_to (ss @ [s])" "node_at s 1 = lead_1" "node_at s 2 = ahead_2"
    "scan_for observe_completeness (map look (ss @ [s])) \<lparr>committed = [], checked_terms = Map.empty\<rparr>
     = Done (Some (LeaderLacks 1 1 late_entry None)) \<lparr>committed = [(1, late_entry)], checked_terms = [2 \<mapsto> 2, 1 \<mapsto> 1]\<rparr>"
    by (rule late_run)
  then show ?thesis using late_facts(1,10) unfolding late_entry_def [symmetric] by metis
qed

text \<open>
  C20. A client can be told that a write is done that is lost. There is a reachable cluster, no message altered, in
  which node 1 has answered request 7 with success, and no node ever applied its command: node 1 took the request as
  leader of term 1, lost the leadership before anyone else had the entry, and answered when it applied the entry
  with which the leader of term 2 replaced it.
\<close>

theorem acknowledged_write_lost:
  "\<exists>s. reachable [1, 2, 3] (\<lambda>m. m) s \<and> (9, 1, MClientRequest (ClientRequest 7 (put [97] [49]))) \<in> sent s
     \<and> (1, 9, MClientReply (ClientReply 7 True None None)) \<in> sent s
     \<and> past s \<subseteq> {(n, k). kv_get [97] (kv k) = None \<and> put [97] [49] \<notin> le_command ` set (take (nat (last_applied k)) (rlog k))}
     \<and> (\<exists>k. (1, k) \<in> past s \<and> role k = FOLLOWER \<and> rlog k = [LogEntry 2 1 (put [98] [50])] \<and> last_applied k = 1)"
proof -
  obtain s where s: "reachable [1, 2, 3] (\<lambda>m. m) s"
    "(9, 1, MClientRequest (ClientRequest 7 (put [97] [49]))) \<in> sent s" "(1, 9, MClientReply (ClientReply 7 True None None)) \<in> sent s"
    "past s \<subseteq> {(1, new_rnode 1 [2, 3]), (2, new_rnode 2 [1, 3]), (3, new_rnode 3 [1, 2]), (1, cand_1), (2, voter_2), (1, lead_1),
      (1, asked_1), (2, ahead_2), (3, holds_3), (2, asked_2), (2, leads_2), (3, voter_3), (2, bids_2), (1, deposed_1)}"
    "(1, deposed_1) \<in> past s" by (rule promise_run)
  have none: "kv_get [97] (kv k) = None \<and> put [97] [49] \<notin> le_command ` set (take (nat (last_applied k)) (rlog k))"
    if "k \<in> {new_rnode 1 [2, 3], new_rnode 2 [1, 3], new_rnode 3 [1, 2], cand_1, voter_2, lead_1, asked_1, ahead_2, holds_3,
        asked_2, leads_2, voter_3, bids_2, deposed_1}" for k
    using that by (auto simp: cand_1_def voter_2_def lead_1_def asked_1_def voter_3_def bids_2_def leads_2_def asked_2_def
        holds_3_def ahead_2_def deposed_1_def new_rnode_def lead_def SENTINEL_INDEX_def late_entry_def log_store_def put_def kv_get_apply)
  have "kv_get [97] (kv k) = None \<and> put [97] [49] \<notin> le_command ` set (take (nat (last_applied k)) (rlog k))"
    if "(n, k) \<in> past s" for n k
    by (rule none) (use subsetD [OF s(4) that] in auto)
  then have "past s \<subseteq> {(n, k). kv_get [97] (kv k) = None \<and> put [97] [49] \<notin> le_command ` set (take (nat (last_applied k)) (rlog k))}"
    by blast
  moreover have "role deposed_1 = FOLLOWER \<and> rlog deposed_1 = [LogEntry 2 1 (put [98] [50])] \<and> last_applied deposed_1 = 1"
    by (simp add: deposed_1_def late_entry_def)
  ultimately show ?thesis using s(1-3,5) by blast
qed

end
