(* ===== verification/Node_Elects.thy ===== *)
theory Node_Elects
  imports Node_Props
begin

text \<open>
  Liveness of an election, on the code: where no message is dropped and no write fails, the handlers
  return and leave on the queue what the next step of the round needs. And where that breaks down: a leader
  that a refused vote request deposes is left without any timer.
\<close>

declare block.simps [simp del]

section \<open>Handlers behind their guards\<close>

lemma reaches_guard: "reaches P m Q \<Longrightarrow> reaches P (guard f m) Q"
  unfolding reaches_def by (fastforce simp: guard_def)

text \<open>\<open>ready D c\<close>: a running node between two events, where writes succeed, the network drops nothing and the
  peers are registered with it.\<close>

definition ready :: "wal_rec list \<Rightarrow> node_ctx \<Rightarrow> bool" where
  "ready D c \<longleftrightarrow> node_ok D c \<and> calm c \<and> writes_succeed (disk c) \<and> arrive_action c = Arrive
     \<and> running (me c) \<and> set (peers (me c)) \<subseteq> {1, 2, 3}"

lemma ready_calm_run: "ready D c \<Longrightarrow> calm_run c (me c) D [] [] c"
  by (simp add: ready_def calm_run_def node_ok_runs)

definition received :: "NodeId \<Rightarrow> message \<Rightarrow> node_ctx \<Rightarrow> node_ctx" where
  "received frm msg c = c\<lparr>trace := trace c @ [[(''kind'', JStr ''raft.recv''), (''tick'', JInt (now c)),
     (''node'', JInt (node_id (me c))), (''frm'', JInt frm), (''msg'', JDesc (DescMessage msg))]]\<rparr>"

lemma received_simps [simp]: "me (received frm msg c) = me c" "arrive_action (received frm msg c) = arrive_action c"
  "disk (received frm msg c) = disk c"
  by (simp_all add: received_def)

lemma ready_received: "ready D c \<Longrightarrow> ready D (received frm msg c)"
  by (simp add: received_def ready_def node_ok_def core_wf_def)

lemma on_message_guard:
  "running (me c) \<Longrightarrow> node_on_message f frm msg c = guard f (dispatch frm msg) (received frm msg c)"
  by (simp add: node_on_message_def whenever_def block.simps node_record_def trace_write_def modify_def received_def
      split: outcome.split)

section \<open>The three legs of an election\<close>

text \<open>The candidate: its election timeout.\<close>

lemma timeout_asks:
  assumes "ready D c" and "length (peers (me c)) = 2" and "0 \<le> current_term (me c)" "current_term (me c) + 1 < 2 ^ 64"
    and "node_id (me c) \<in> {1, 2, 3}" and "heartbeat_timer (me c) = None"
  shows "\<exists>c'. fire_election_timeout f c = Done () c' \<and> core (me c') = core (stands (me c)) \<and> ticking c'
    \<and> heartbeat_timer (me c') = None \<and> calm c' \<and> disk_wal (disk c') (D @ [WState (hard (stands (me c)))]) []
    \<and> (\<forall>p \<in> set (peers (me c)). Arrive (node_id (me c)) p (call_for_votes (stands (me c))) \<in> due_actions c')"
proof -
  let ?c = "c\<lparr>me := (me c)\<lparr>election_timer := None\<rparr>\<rparr>"
  let ?k = "stands (me ?c)"
  have r: "ready D ?c" using assms(1) by (simp add: ready_def node_ok_def core_wf_def voter_ok_def)
  have start: "on_queue ?c (me ?c) D [] [] False {None} {} ?c"
    using ready_calm_run [OF r] assms(6) by (simp add: on_queue_def carries_def)
  have fits: "hard_state_fits (hard ?k)" "node_id (me ?c) \<noteq> NO_VOTE" "1 < majority (me ?c)"
    using assms(2-5) by (auto simp: stands_def hard_def hard_state_fits_def NO_VOTE_def majority_def cluster_size_def)
  have reach: "set (peers (me ?c)) \<subseteq> {0, 1, 2, 3}" "writes_succeed (disk ?c)"
    using assms(1) by (auto simp: ready_def)
  obtain x c' where g: "guard f on_election_timeout ?c = Done x c'"
    and q: "calm_run ?c ?k (D @ [WState (hard ?k)]) [] (map (\<lambda>p. (p, call_for_votes ?k)) (peers (me ?c))) c'"
      "carries True {None} ((\<lambda>p. arrive_action ?c (node_id (me ?c)) p (call_for_votes ?k)) ` set (peers (me ?c))) c'"
    using reachesD [OF reaches_guard [OF due_election_timeout [OF reach(2) fits reach(1)]] start, of f]
    unfolding on_queue_def by blast
  have "core (me c') = core ?k" "calm c'" "disk_wal (disk c') (D @ [WState (hard ?k)]) []"
    using q(1) by (simp_all add: calm_run_def runs_as_def)
  moreover have "core ?k = core (stands (me c))" "call_for_votes ?k = call_for_votes (stands (me c))"
    "hard ?k = hard (stands (me c))"
    by (simp_all add: core_eq_iff stands_def call_for_votes_def hard_def)
  moreover have "fire_election_timeout f c = Done () c'"
    using g assms(1) by (simp add: fire_election_timeout_def block.simps upd_def modify_def whenever_def ready_def)
  moreover have "arrive_action c = Arrive" using assms(1) by (simp add: ready_def)
  ultimately show ?thesis using q(2) by (auto simp: carries_def)
qed

text \<open>A voter: the request it can grant.\<close>

lemma voter_answers:
  assumes "ready D v" and "current_term (me v) < rv_term rv" and "0 \<le> rv_term rv" "rv_term rv < 2 ^ 64"
    and "up_to_date rv (me v)" and "rv_candidate_id rv \<in> {1, 2, 3}" "frm \<in> {1, 2, 3}"
  shows "\<exists>v'. node_on_message g frm (MRequestVote rv) v = Done () v' \<and> current_term (me v') = rv_term rv
    \<and> voted_for (me v') = Some (rv_candidate_id rv) \<and> ticking v'
    \<and> Arrive (node_id (me v)) frm (MRequestVoteReply (RequestVoteReply (rv_term rv) True)) \<in> due_actions v'"
proof -
  let ?v = "received frm (MRequestVote rv) v"
  let ?k = "(follow (rv_term rv) None (me v))\<lparr>voted_for := Some (rv_candidate_id rv)\<rparr>"
  have r: "ready D ?v" by (rule ready_received [OF assms(1)])
  have v: "running (me v)" "arrive_action v = Arrive" "writes_succeed (disk ?v)"
    using assms(1) by (simp_all add: ready_def)
  have "reaches (calm_run ?v (me v) D [] []) (on_request_vote frm rv)
    (\<lambda>_. on_queue ?v ?k (D @ [WState (hard ?k)]) [] [(frm, MRequestVoteReply (RequestVoteReply (rv_term rv) True))] True UNIV
       {arrive_action ?v (node_id (me v)) frm (MRequestVoteReply (RequestVoteReply (rv_term rv) True))})"
    using due_vote [of ?v "me v" rv frm D, OF v(3)] assms(2-7)
    by (auto simp: up_to_date_def hard_def hard_state_fits_def NO_VOTE_def)
  from reachesD [OF reaches_guard [OF this] ready_calm_run [OF r, simplified], of g]
  obtain x v' where g: "guard g (on_request_vote frm rv) ?v = Done x v'"
    and q: "on_queue ?v ?k (D @ [WState (hard ?k)]) [] [(frm, MRequestVoteReply (RequestVoteReply (rv_term rv) True))] True UNIV
       {arrive_action ?v (node_id (me v)) frm (MRequestVoteReply (RequestVoteReply (rv_term rv) True))} v'"
    by blast
  show ?thesis
    using g q assms(2) on_message_guard [OF v(1), of g frm "MRequestVote rv"] v(2) on_queue_me(3,4) [OF q]
    by (intro exI [of _ v']) (simp add: on_queue_def carries_def)
qed

text \<open>The candidate again: the vote that makes the majority.\<close>

lemma vote_wins:
  assumes "ready D c" and "length (peers (me c)) = 2" and "role (me c) = CANDIDATE"
    and "votes_granted (me c) = [node_id (me c)]" and "p \<noteq> node_id (me c)" and "heartbeat_timer (me c) = None"
  shows "\<exists>c'. node_on_message f p (MRequestVoteReply (RequestVoteReply (current_term (me c)) True)) c = Done () c'
    \<and> role (me c') = LEADER \<and> current_term (me c') = current_term (me c)
    \<and> Callback (HeartbeatTimeout (node_id (me c))) \<in> due_actions c'
    \<and> (\<forall>q \<in> set (peers (me c)). Arrive (node_id (me c)) q (replicate_msg (lead (me c)) q) \<in> due_actions c')"
proof -
  let ?msg = "RequestVoteReply (current_term (me c)) True"
  let ?c = "received p (MRequestVoteReply ?msg) c"
  let ?k = "(me c)\<lparr>votes_granted := set_add p (votes_granted (me c))\<rparr>"
  let ?A = "insert (Callback (HeartbeatTimeout (node_id (me c))))
     ((\<lambda>q. arrive_action ?c (node_id (me c)) q (replicate_msg (lead ?k) q)) ` set (peers (me c)))"
  have r: "ready D ?c" by (rule ready_received [OF assms(1)])
  have v: "running (me c)" "arrive_action c = Arrive" "set (peers (me c)) \<subseteq> {0, 1, 2, 3}"
    using assms(1) by (auto simp: ready_def)
  have start: "on_queue ?c (me c) D [] [] False {None} {} ?c"
    using ready_calm_run [OF r] assms(6) by (simp add: on_queue_def carries_def)
  have maj: "majority (me c) \<le> int (length (votes_granted ?k))"
    using assms(2,4,5) by (simp add: majority_def cluster_size_def set_add_def)
  obtain x c' where g: "guard f (on_request_vote_reply p ?msg) ?c = Done x c'"
    and q: "on_queue ?c (lead ?k) D [] ([] @ replicate_all (lead ?k)) False UNIV ?A c'"
    using reachesD [OF reaches_guard [OF due_vote_reply [OF assms(3) maj v(3)]] start, of f] by blast
  have "replicate_msg (lead ?k) = replicate_msg (lead (me c))"
    by (auto simp: replicate_msg_def lead_def next_for_def fun_eq_iff)
  then show ?thesis
    using g q on_message_guard [OF v(1), of f p "MRequestVoteReply ?msg"] v(2) on_queue_me(3,6) [OF q]
    by (intro exI [of _ c']) (simp add: on_queue_def carries_def image_subset_iff)
qed

text \<open>Whoever restarts ticks.\<close>

lemma on_disk_core_wf: "on_disk m d = Done y d' \<Longrightarrow> core_wf d' \<longleftrightarrow> core_wf d"
  by (auto simp: on_disk_Done core_wf_def)

lemma restart_ticks: "core_wf c \<Longrightarrow> sim_node_restart c = Done x c' \<Longrightarrow> ticking c'"
proof -
  assume wf: "core_wf c" and run: "sim_node_restart c = Done x c'"
  have recover: "core_wf d' \<longleftrightarrow> core_wf d" if "storage_recover d = Done y d'" for d d' y
    using that by (auto simp: storage_recover_def of_sum_def bind_def ret_def split: outcome.splits sum.splits
        dest: on_disk_core_wf)
  from run obtain c1 r c2 c3 c4 f k d where c2: "on_disk sim_restart c = Done () c1" "storage_recover c1 = Done r c2"
    and c4: "upd f c2 = Done () c3" "node_record k d c3 = Done () c4" and arm: "arm_election_timer c4 = Done () c'"
    unfolding sim_node_restart_def node_restart_def by (fastforce simp: py_done)
  have "core_wf c2" using wf recover [OF c2(2)] on_disk_core_wf [OF c2(1)] by simp
  with c4 have "core_wf c4" by (auto simp: upd_def modify_def node_record_def trace_write_def core_wf_def)
  with arm arm_election_ticking show ?thesis by blast
qed

section \<open>A deposed leader\<close>

text \<open>\<open>silent c\<close>: no election timeout of this node is set or on the queue.\<close>

definition silent :: "node_ctx \<Rightarrow> bool" where
  "silent c \<longleftrightarrow> core_wf c \<and> arrive_action c = Arrive \<and> election_timer (me c) = None
     \<and> Callback (ElectionTimeout (node_id (me c))) \<notin> due_actions c"

lemma silent_update:
  "silent c \<Longrightarrow> silent (c\<lparr>trace := t\<rparr>)" "silent c \<Longrightarrow> silent (c\<lparr>rng := r, disk := d\<rparr>)"
  "silent c \<Longrightarrow> election_timer m = None \<Longrightarrow> node_id m = node_id (me c) \<Longrightarrow> silent (c\<lparr>me := m\<rparr>)"
  by (simp_all add: silent_def core_wf_def due_actions_def)

lemma silent_record: "silent c \<Longrightarrow> node_record k d c = Done x c' \<Longrightarrow> silent c' \<and> me c' = me c"
  by (auto simp: node_record_def trace_write_def modify_def silent_update)

lemma silent_disk: "silent c \<Longrightarrow> on_disk m c = Done x c' \<Longrightarrow> silent c' \<and> me c' = me c"
  by (auto simp: on_disk_Done silent_update)

lemma silent_persist_sync:
  "silent c \<Longrightarrow> persist c = Done x c' \<Longrightarrow> silent c' \<and> me c' = me c"
  "silent c \<Longrightarrow> storage_sync c = Done x c' \<Longrightarrow> silent c' \<and> me c' = me c"
  by (auto simp: persist_def save_state_def storage_sync_def py_done dest: silent_disk)

lemma silent_cancel_heartbeat:
  assumes "silent c" and "cancel_heartbeat c = Done x c'"
  shows "silent c' \<and> me c' = (me c)\<lparr>heartbeat_timer := None\<rparr>"
proof (cases "heartbeat_timer (me c)")
  case (Some t)
  with assms(2) obtain b c1 where b: "timer_cancel t c = Done b c1"
    and c': "c' = c1\<lparr>me := (me c1)\<lparr>heartbeat_timer := None\<rparr>\<rparr>"
    by (auto simp: cancel_heartbeat_def upd_def py_done)
  have "core_wf c" using assms(1) by (simp add: silent_def)
  note T = timer_cancel_Done [OF b this]
  from T(2) obtain q where q: "c1 = c\<lparr>queue := q\<rparr>" ..
  have "silent c1" using assms(1) T(1,3) by (auto simp: silent_def due_actions_def q)
  with q c' assms(1) show ?thesis by (simp add: silent_def core_wf_def due_actions_def)
qed (use assms in \<open>simp add: cancel_heartbeat_def\<close>)

lemma silent_send:
  assumes "silent c" and "node_send to msg c = Done x c'"
  shows "silent c' \<and> me c' = me c"
proof -
  let ?n = "node_id (me c)"
  obtain t where s: "net_send ?n to msg (c\<lparr>trace := t\<rparr>) = Done x c'"
    using assms(2) by (auto simp: node_send_def node_record_def trace_write_def py_done)
  have wf: "core_wf (c\<lparr>trace := t\<rparr>)" using assms(1) by (simp add: silent_def)
  from net_send_Done(2) [OF s wf] obtain es where es: "sent_copies ?n to msg es (c\<lparr>trace := t\<rparr>) c'" ..
  note eq = conjunct1 [OF es [unfolded sent_copies_def]]
  have me: "me c' = me c" "arrive_action c' = arrive_action c"
    by (rule eq [THEN arg_cong, of me, simplified], rule eq [THEN arg_cong, of arrive_action, simplified])
  have "due_actions c' \<subseteq> insert (Arrive ?n to msg) (due_actions c)"
    using es assms(1) by (auto simp: sent_copies_def due_actions_def delivery_def silent_def)
  then show ?thesis using es assms(1) me by (auto simp: silent_def sent_copies_def)
qed

text \<open>
  A request of a newer term that is refused turns a leader into a follower that has no timer: its own
  election timer was cancelled when it came to power, and \<^verbatim>\<open>become_follower\<close> starts none. Unless another
  node writes to it, it will never stand for election again.
\<close>

lemma deposed_leader_never_times_out:
  assumes "silent c" and "running (me c)" and "role (me c) = LEADER" and "current_term (me c) < rv_term rv"
    and "\<not> up_to_date rv (me c)" and "dispatch frm (MRequestVote rv) c = Done () c'"
  shows "silent c' \<and> running (me c') \<and> role (me c') = FOLLOWER \<and> heartbeat_timer (me c') = None"
proof -
  let ?k = "follow (rv_term rv) None (me c)"
  have s0: "silent (c\<lparr>me := ?k\<rparr>)" using assms(1) by (intro silent_update(3)) (auto simp: silent_def follow_def)
  from assms(6) obtain c1 where bf: "become_follower (rv_term rv) None c = Done () c1"
    and rest: "ite (\<lambda>c. rv_term rv < current_term (me c)) (reply_vote frm False)
         (ite (\<lambda>c. voted_for (me c) \<in> {None, Some (rv_candidate_id rv)} \<and> up_to_date rv (me c))
            (block [upd (\<lambda>m. m\<lparr>voted_for := Some (rv_candidate_id rv)\<rparr>), arm_election_timer,
                    reply_vote frm True]) (reply_vote frm False)) c1 = Done () c'"
    using assms(4) by (auto simp: on_request_vote_def py_done)
  from bf assms(3) obtain c2 k d where c2: "cancel_heartbeat (c\<lparr>me := ?k\<rparr>) = Done () c2" "node_record k d c2 = Done () c1"
    by (auto simp: become_follower_def Let_def upd_def py_done)
  have s1: "silent c1" "me c1 = ?k\<lparr>heartbeat_timer := None\<rparr>"
    using silent_cancel_heartbeat [OF s0 c2(1)] silent_record [OF _ c2(2)] by auto
  have "\<not> up_to_date rv (me c1)" using assms(5) by (simp add: s1(2) up_to_date_def)
  with rest have "reply_vote frm False c1 = Done () c'" by (simp add: ite_Done split: if_splits)
  then obtain c3 c4 m where "persist c1 = Done () c3" "storage_sync c3 = Done () c4" "node_send frm m c4 = Done () c'"
    by (auto simp: reply_vote_def py_done)
  with s1 have "silent c' \<and> me c' = ?k\<lparr>heartbeat_timer := None\<rparr>"
    using silent_persist_sync silent_send by metis
  then show ?thesis using assms(2) by simp
qed

lemma deposed_leader_example:
  fixes k :: rnode
  defines "k \<equiv> lead ((new_rnode 1 [2, 3])\<lparr>current_term := 1, voted_for := Some 1, rlog := [LogEntry 1 1 (put [107] [118])]\<rparr>)"
  shows "\<exists>c'. dispatch 2 (MRequestVote (RequestVote 2 2 0 0)) (example_ctx default_disk_faults k) = Done () c'
    \<and> silent c' \<and> running (me c') \<and> role (me c') = FOLLOWER \<and> heartbeat_timer (me c') = None"
proof -
  let ?c = "example_ctx default_disk_faults k"
  have wf: "log_wf (rlog k)" by (simp add: k_def log_wf_def)
  have k: "voted_for k = Some 1" "current_term k = 1" "running k" "role k = LEADER" "node_id k = 1" "election_timer k = None"
    by (simp_all add: k_def lead_def new_rnode_def)
  have fits: "voted_for k \<noteq> Some NO_VOTE" "hard_state_fits (hard k)"
    using k by (simp_all add: NO_VOTE_def hard_def hard_state_fits_def)
  obtain c' where c': "dispatch 2 (MRequestVote (RequestVote 2 2 0 0)) ?c = Done () c'"
    using reachesD [OF go_request_vote [OF _ fits, of ?c 2 "RequestVote 2 2 0 0"] example_calm_run [OF wf, of default_disk_faults]]
    by auto
  have "silent ?c" using k by (simp add: silent_def due_actions_def)
  from deposed_leader_never_times_out [OF this _ _ _ _ c'] k c' show ?thesis
    by (auto simp: up_to_date_def k_def last_term_def last_index_def)
qed

section \<open>Properties\<close>

text \<open>
  C15. An election succeeds. Let a node of three time out where the network drops nothing and writes do not
  fail (delays, duplicates, the cost of a sync and the generator are any), and let one of its peers,
  anywhere, in a term not newer and with a log not ahead, get the request. The candidate's handler returns
  with the request on its way to every peer and its election timer running again; should it lose power
  then, it comes back with the timer running. The peer's handler returns with the vote given, the answer on
  its way and its own timer running. And whenever that answer reaches the candidate in the state it had, it
  becomes leader of the new term, with an AppendEntries on its way to every peer and its heartbeat running.
\<close>

theorem election_succeeds:
  assumes "ready D c" and "durable_as D (me c)" and "heartbeat_timer (me c) = None"
    and "length (peers (me c)) = 2" and "node_id (me c) \<in> {1, 2, 3} - set (peers (me c))"
    and "0 \<le> current_term (me c)" and "current_term (me c) + 1 < 2 ^ 64"
    and "ready E v" and "node_id (me v) \<in> set (peers (me c))" and "current_term (me v) \<le> current_term (me c)"
    and "(last_term (rlog (me v)), last_index (rlog (me v))) \<le> (last_term (rlog (me c)), last_index (rlog (me c)))"
  shows "let n = node_id (me c); p = node_id (me v); t = current_term (me c) + 1; l = rlog (me c);
      ask = MRequestVote (RequestVote t n (last_index l) (last_term l));
      yes = MRequestVoteReply (RequestVoteReply t True);
      beat = MAppendEntries (AppendEntries t n (last_index l) (last_term l) [] (commit_index (me c)))
    in (\<exists>c1. fire_election_timeout f c = Done () c1 \<and> role (me c1) = CANDIDATE \<and> current_term (me c1) = t
        \<and> ticking c1 \<and> (\<forall>q \<in> set (peers (me c)). Arrive n q ask \<in> due_actions c1)
        \<and> (\<exists>d e. sim_node_crash c1 = Done () d \<and> sim_node_restart d = Done () e \<and> running (me e) \<and> ticking e)
        \<and> (\<forall>c2 D2. ready D2 c2 \<and> me c2 = me c1 \<longrightarrow>
             (\<exists>c3. node_on_message f p yes c2 = Done () c3 \<and> role (me c3) = LEADER \<and> current_term (me c3) = t
                \<and> Callback (HeartbeatTimeout n) \<in> due_actions c3
                \<and> (\<forall>q \<in> set (peers (me c)). Arrive n q beat \<in> due_actions c3))))
      \<and> (\<exists>v1. node_on_message g n ask v = Done () v1 \<and> current_term (me v1) = t \<and> voted_for (me v1) = Some n
           \<and> ticking v1 \<and> Arrive p n yes \<in> due_actions v1)"
proof -
  let ?k = "stands (me c)" and ?n = "node_id (me c)" and ?l = "rlog (me c)"
  have wf: "log_wf ?l" using assms(1) by (simp add: ready_def node_ok_def)
  from timeout_asks [OF assms(1,4,6,7) _ assms(3), of f] assms(5) obtain c1 where
    fire: "fire_election_timeout f c = Done () c1" and k: "core (me c1) = core ?k"
    and c1: "ticking c1" "heartbeat_timer (me c1) = None" "calm c1" "disk_wal (disk c1) (D @ [WState (hard ?k)]) []"
    and asks: "\<forall>p \<in> set (peers (me c)). Arrive ?n p (call_for_votes ?k) \<in> due_actions c1"
    by blast
  have m1: "role (me c1) = CANDIDATE" "current_term (me c1) = current_term (me c) + 1" "votes_granted (me c1) = [?n]"
    "node_id (me c1) = ?n" "peers (me c1) = peers (me c)" "rlog (me c1) = ?l" "commit_index (me c1) = commit_index (me c)"
    "running (me c1)"
    using k assms(1) by (simp_all add: core_eq_iff stands_def ready_def)
  have "log_wf (rec_entries (wal_run (D @ [WState (hard ?k)]) init_recovered))"
    using assms(2) wf by (simp add: durable_as_def)
  from calm_crash_restart [OF c1(3,4) this] obtain d e where
    de: "sim_node_crash c1 = Done () d" "sim_node_restart d = Done () e" by blast
  have wf1: "core_wf c1" using c1(3) by (simp add: calm_def)
  note C = sim_node_crash_Done [OF wf1 disk_wal_keeps [OF c1(4)] de(1)]
  have wfd: "core_wf d" using C(3) by (simp add: moved_def frame_def)
  have "core (me e) = core (recovered_node (wal_run (D @ [WState (hard ?k)]) init_recovered) (down (me c1)))"
    by (rule crash_restart_Done(1) [OF wf1 c1(4) de])
  then have returns: "running (me e)" "ticking e"
    using restart_ticks [OF wfd de(2)] by (simp_all add: core_eq_iff recovered_node_def)
  have wins: "\<exists>c3. node_on_message f (node_id (me v)) (MRequestVoteReply (RequestVoteReply (current_term (me c) + 1) True)) c2 = Done () c3
      \<and> role (me c3) = LEADER \<and> current_term (me c3) = current_term (me c) + 1
      \<and> Callback (HeartbeatTimeout ?n) \<in> due_actions c3
      \<and> (\<forall>q \<in> set (peers (me c)). Arrive ?n q (MAppendEntries (AppendEntries (current_term (me c) + 1) ?n
          (last_index ?l) (last_term ?l) [] (commit_index (me c)))) \<in> due_actions c3)"
    if "ready D2 c2" "me c2 = me c1" for c2 D2
  proof -
    have "node_id (me v) \<noteq> node_id (me c2)" using assms(5,9) that(2) m1(4) by auto
    moreover have "replicate_msg (lead (me c1)) q = MAppendEntries (AppendEntries (current_term (me c) + 1) ?n
        (last_index ?l) (last_term ?l) [] (commit_index (me c)))" for q
      using wf m1 by (simp add: replicate_msg_def Let_def next_for_def lead_def last_term_trm last_index_wf)
    ultimately show ?thesis using vote_wins [OF that(1), of "node_id (me v)" f] m1 that(2) assms(4) c1(2) by simp
  qed
  have answers: "\<exists>v1. node_on_message g ?n (call_for_votes ?k) v = Done () v1 \<and> current_term (me v1) = current_term (me c) + 1
      \<and> voted_for (me v1) = Some ?n \<and> ticking v1
      \<and> Arrive (node_id (me v)) ?n (MRequestVoteReply (RequestVoteReply (current_term (me c) + 1) True)) \<in> due_actions v1"
    using voter_answers [OF assms(8), of "RequestVote (current_term (me c) + 1) ?n (last_index ?l) (last_term ?l)" ?n g]
      assms(5-7,10,11)
    by (simp add: call_for_votes_def stands_def up_to_date_def)
  have ask: "call_for_votes ?k = MRequestVote (RequestVote (current_term (me c) + 1) ?n (last_index ?l) (last_term ?l))"
    by (simp add: call_for_votes_def stands_def)
  show ?thesis
    unfolding Let_def ask [symmetric]
    using fire m1(1,2) c1(1) asks de returns wins answers by blast
qed

lemma example_ready:
  "log_wf (rlog k) \<Longrightarrow> voter_ok k \<Longrightarrow> running k \<Longrightarrow> set (peers k) \<subseteq> {1, 2, 3} \<Longrightarrow>
     ready [] (example_ctx default_disk_faults k)"
  using runs_node_ok [OF example_runs] by (simp add: ready_def example_calm)

theorem election_succeeds_witness:
  "\<exists>c1 v1 c3. fire_election_timeout None (example_ctx default_disk_faults (new_rnode 1 [2, 3])) = Done () c1
     \<and> node_on_message None 1 (MRequestVote (RequestVote 1 1 0 0)) (example_ctx default_disk_faults (new_rnode 2 [1, 3])) = Done () v1
     \<and> Arrive 2 1 (MRequestVoteReply (RequestVoteReply 1 True)) \<in> due_actions v1
     \<and> node_on_message None 2 (MRequestVoteReply (RequestVoteReply 1 True)) (example_ctx default_disk_faults (me c1)) = Done () c3
     \<and> role (me c3) = LEADER \<and> current_term (me c3) = 1
     \<and> Arrive 1 3 (MAppendEntries (AppendEntries 1 1 0 0 [] 0)) \<in> due_actions c3"
proof -
  let ?c = "example_ctx default_disk_faults (new_rnode 1 [2, 3])" and ?v = "example_ctx default_disk_faults (new_rnode 2 [1, 3])"
  note [simp] = new_rnode_def
  have r: "ready [] ?c" "ready [] ?v" by (rule example_ready; simp add: voter_ok_def NO_VOTE_def)+
  have dur: "durable_as [] (me ?c)" using durable_as_new [of 1 "[2, 3]"] by simp
  have s: "length (peers (me ?c)) = 2" "0 \<le> current_term (me ?c)" "current_term (me ?c) + 1 < 2 ^ 64"
    "node_id (me ?c) \<in> {1, 2, 3}" "node_id (me ?c) \<in> {1, 2, 3} - set (peers (me ?c))" "heartbeat_timer (me ?c) = None"
    "node_id (me ?v) \<in> set (peers (me ?c))" "current_term (me ?v) \<le> current_term (me ?c)"
    "(last_term (rlog (me ?v)), last_index (rlog (me ?v))) \<le> (last_term (rlog (me ?c)), last_index (rlog (me ?c)))"
    by simp_all
  obtain c1 where c1: "fire_election_timeout None ?c = Done () c1" "core (me c1) = core (stands (me ?c))"
    using timeout_asks [OF r(1) s(1-4,6), of None] by blast
  then have "ready [] (example_ctx default_disk_faults (me c1))"
    by (intro example_ready) (simp_all add: core_eq_iff stands_def voter_ok_def NO_VOTE_def)
  with c1(1) election_succeeds [OF r(1) dur s(6,1,5,2,3) r(2) s(7-9), of None None] show ?thesis
    by (simp add: Let_def SENTINEL_INDEX_def) (metis example_ctx_simps(1))
qed

end
