(* ===== verification/Demo.thy ===== *)
theory Demo
  imports Sim_Host
begin

text \<open>
  The demonstration of the simulator, \<^verbatim>\<open>groundhog/sim/demo.py\<close>: nodes that ping each other on a timer, count the
  answers, and log every answer on a disk that is synced at every fifth. The count is volatile, the log is not; a
  node whose disk fails takes itself down and a supervisor restarts it. What is shown of it is in \<open>Demo_Props\<close>.
\<close>

declare block.simps [simp del]

section \<open>A node\<close>

definition PING_PERIOD :: "Tick \<times> Tick" where "PING_PERIOD = (20 * MILLISECOND, 40 * MILLISECOND)"
definition DEMO_SYNC_EVERY :: int where "DEMO_SYNC_EVERY = 5"
definition RESTART_DELAY :: Tick where "RESTART_DELAY = 100 * MILLISECOND"
definition PING :: string where "PING = ''ping''"
definition PONG :: string where "PONG = ''pong''"

datatype demo_callback = PingTimer NodeId | Supervise NodeId
datatype demo_described = DescFault exn

type_synonym demo_action = "(string, demo_callback) sim_action"
type_synonym demo_timer = "(demo_action, demo_described) event"

record demo_node =
  dn_node_id :: NodeId
  dn_peers :: "NodeId list"
  dn_running :: bool
  dn_pongs :: int
  dn_unsynced :: int
  dn_timer :: "demo_timer option"

definition new_demo :: "NodeId \<Rightarrow> NodeId list \<Rightarrow> demo_node" where
  "new_demo n others = \<lparr>dn_node_id = n, dn_peers = others, dn_running = True, dn_pongs = 0, dn_unsynced = 0, dn_timer = None\<rparr>"

type_synonym demo_ctx = "(demo_action, demo_described, string, NodeId, demo_node) hostctx"

definition demo_record :: "string \<Rightarrow> demo_described jrecord \<Rightarrow> demo_ctx stmt" where
  "demo_record kind detail c =
     trace_write (dict_update detail [(''kind'', JStr kind), (''tick'', JInt (now c)), (''node'', JInt (dn_node_id (hme c)))]) c"

definition demo_cancel_timer :: "demo_ctx stmt" where
  "demo_cancel_timer c =
     (case dn_timer (hme c) of None \<Rightarrow> Done () c | Some t \<Rightarrow> bind (timer_cancel t) (\<lambda>_. ret ()) c)"

definition demo_on_timer_due :: "NodeId \<Rightarrow> demo_action" where
  "demo_on_timer_due n = Callback (PingTimer n)"

definition demo_arm :: "Tick \<Rightarrow> demo_ctx stmt" where
  "demo_arm extra =
     block [demo_cancel_timer,
       bind (with_rng (between (fst PING_PERIOD) (snd PING_PERIOD))) (\<lambda>d.
       bind (\<lambda>c. clock_after (d + extra) (demo_on_timer_due (dn_node_id (hme c))) ''ping_timer'' (Some (dn_node_id (hme c))) c) (\<lambda>t.
         hupd (\<lambda>m. m\<lparr>dn_timer := Some t\<rparr>)))]"

definition demo_crash :: "demo_ctx stmt" where
  "demo_crash =
     whenever (\<lambda>c. dn_running (hme c))
       (block [hupd (\<lambda>m. m\<lparr>dn_running := False\<rparr>), demo_cancel_timer, hupd (\<lambda>m. m\<lparr>dn_timer := None\<rparr>),
          hupd (\<lambda>m. m\<lparr>dn_pongs := 0, dn_unsynced := 0\<rparr>), bind (on_hdisk sim_crash) (\<lambda>_. ret ()),
          demo_record ''node.crash'' []])"

definition demo_restart :: "demo_ctx stmt" where
  "demo_restart =
     block [on_hdisk sim_restart,
       bind (on_hdisk sim_read_all) (\<lambda>recs. hupd (\<lambda>m. m\<lparr>dn_pongs := int (length recs), dn_running := True\<rparr>)),
       (\<lambda>c. demo_record ''node.restart'' [(''recovered'', JInt (dn_pongs (hme c)))] c), demo_arm 0]"

text \<open>\<^verbatim>\<open>f"pong from {frm}".encode()\<close>\<close>

definition pong_record :: "NodeId \<Rightarrow> exn + bytes" where
  "pong_record frm = utf8_encode (pystr (''pong from '' @ decimal frm))"

definition demo_log_pong :: "(NodeId \<Rightarrow> demo_ctx stmt) \<Rightarrow> NodeId \<Rightarrow> demo_ctx stmt" where
  "demo_log_pong on_failure frm c =
     (case bind (of_sum (pong_record frm)) (\<lambda>b. on_hdisk (sim_append [b])) c of
        Raised e c' \<Rightarrow>
          if is_disk_error e then block [demo_crash, (\<lambda>c. on_failure (dn_node_id (hme c)) c)] c' else Raised e c'
      | Done _ c' \<Rightarrow>
          block [hupd (\<lambda>m. m\<lparr>dn_unsynced := dn_unsynced m + 1\<rparr>),
            whenever (\<lambda>c. dn_unsynced (hme c) \<ge> DEMO_SYNC_EVERY)
              (block [on_hdisk sim_sync, hupd (\<lambda>m. m\<lparr>dn_unsynced := 0\<rparr>), bind (on_hdisk take_owed_ticks) demo_arm])] c'
      | Diverges \<Rightarrow> Diverges)"

definition demo_on_message :: "(NodeId \<Rightarrow> demo_ctx stmt) \<Rightarrow> NodeId \<Rightarrow> string \<Rightarrow> demo_ctx stmt" where
  "demo_on_message on_failure frm msg =
     whenever (\<lambda>c. dn_running (hme c))
       (if msg = PING then (\<lambda>c. net_send (dn_node_id (hme c)) frm PONG c)
        else block [hupd (\<lambda>m. m\<lparr>dn_pongs := dn_pongs m + 1\<rparr>), demo_log_pong on_failure frm])"

definition demo_on_timer :: "demo_ctx stmt" where
  "demo_on_timer =
     block [hupd (\<lambda>m. m\<lparr>dn_timer := None\<rparr>),
       whenever (\<lambda>c. dn_running (hme c))
         (block [(\<lambda>c. for_each (dn_peers (hme c)) (\<lambda>peer c. net_send (dn_node_id (hme c)) peer PING c) c), demo_arm 0])]"

definition demo_start :: "demo_ctx stmt" where
  "demo_start = demo_arm 0"

section \<open>The world\<close>

text \<open>A node that took itself down: the network is told, and a supervisor comes after a while.\<close>

definition demo_self_crash :: "NodeId \<Rightarrow> demo_ctx stmt" where
  "demo_self_crash n =
     block [net_set_state n CRASHED,
       bind (clock_after RESTART_DELAY (Callback (Supervise n)) ''node.supervise'' (Some n)) (\<lambda>_. ret ())]"

record demo_world = "(demo_action, demo_described, string, NodeId, demo_node) hostworld" +
  dw_profile :: fault_profile
  dw_max_ticks :: Tick

definition demo_supervise :: "NodeId \<Rightarrow> demo_world stmt" where
  "demo_supervise n =
     bind (net_state n) (\<lambda>st.
       if st \<noteq> CRASHED then ret ()
       else block [on_host n demo_restart, net_set_state n RUNNING])"

fun demo_act :: "demo_action \<Rightarrow> demo_world stmt" where
  "demo_act (Arrive frm to msg) = net_arrive (\<lambda>n frm msg. on_host n (demo_on_message demo_self_crash frm msg)) frm to msg"
| "demo_act (StartPartition episode) = start_partition episode"
| "demo_act HealPartition = heal_partition"
| "demo_act (BeginOutage episode) = begin_outage (\<lambda>n. on_host n demo_crash) episode"
| "demo_act (EndOutage episode) = end_outage (\<lambda>n. on_host n demo_restart) episode"
| "demo_act (Callback (PingTimer n)) = on_host n demo_on_timer"
| "demo_act (Callback (Supervise n)) = demo_supervise n"

definition blank_demo :: "(nat \<Rightarrow> 32 word) \<Rightarrow> int \<Rightarrow> fault_profile \<Rightarrow> Tick \<Rightarrow> demo_world" where
  "blank_demo stream sd p max_ticks =
     \<lparr>rng = \<lparr>seed = sd, calls = 0, src = stream, pos = 0\<rparr>, queue = empty_queue, now = 0, trace = [], header = [],
      events_run = 0, net_faults = fp_network p, describe_msg = JStr, arrive_action = Arrive, inboxes = [],
      status = Map.empty, held = Map.empty, partition = None, delivered = 0, dropped = 0,
      fault_plan = FaultSchedule [] [], fired = [], hosts = [], dw_profile = p, dw_max_ticks = max_ticks\<rparr>"

definition demo_ids :: "int \<Rightarrow> NodeId list" where
  "demo_ids node_count = [1..node_count]"

definition demo_cluster :: "int \<Rightarrow> demo_world stmt" where
  "demo_cluster node_count =
     block [bind (\<lambda>w. with_rng (generate_schedule (dw_profile w) (demo_ids node_count) (dw_max_ticks w)) w) (\<lambda>sch.
         modify (\<lambda>w. w\<lparr>fault_plan := sch\<rparr>)),
       modify (\<lambda>w. w\<lparr>header := dict_update
         [(''demo'', JStr ''chatter''), (''profile'', JStr (fp_name (dw_profile w))),
          (''network'', JObj (network_faults_describe (fp_network (dw_profile w)))),
          (''faults'', JObj (fault_schedule_describe (fault_plan w)))] (header w)\<rparr>),
       for_each (demo_ids node_count) (\<lambda>n. block [net_register n n,
         (\<lambda>w. register_host n (new_demo n (filter (\<lambda>p. p \<noteq> n) (demo_ids node_count))) (fp_disk (dw_profile w)) w)])]"

definition demo_start_all :: "demo_world stmt" where
  "demo_start_all =
     block [(\<lambda>w. for_each (sort (map fst (hosts w))) (\<lambda>n. on_host n demo_start) w), injector_arm]"

definition demo_run :: "(run_result, demo_world) py" where
  "demo_run = bind demo_start_all (\<lambda>_ w.
     sim_run demo_act [] (\<lambda>e. JDesc (DescFault e)) (map fst (hosts w)) (dw_max_ticks w) w)"

definition run_demo :: "(nat \<Rightarrow> 32 word) \<Rightarrow> int \<Rightarrow> int \<Rightarrow> fault_profile \<Rightarrow> Tick \<Rightarrow> (run_result, demo_world) outcome" where
  "run_demo stream sd node_count p max_ticks = bind (demo_cluster node_count) (\<lambda>_. demo_run) (blank_demo stream sd p max_ticks)"

end
