(* ===== verification/Demo_Props.thy ===== *)
theory Demo_Props
  imports Demo World_Runs
begin

text \<open>
  What the demonstration of the simulator keeps. \<open>demo_holds m d recs synced\<close>: the node \<open>m\<close> runs, its disk \<open>d\<close>
  holds \<open>recs\<close>, as many as it counts, and fewer than five of them are not synced. \<open>demo_down m d recs synced\<close>: it is
  down, counts nothing and its disk still has what was synced. Every handler keeps one of the two, so every run does;
  a crash and restart takes at most the four latest answers.
\<close>

declare block.simps [simp del]

section \<open>The count and the log\<close>

definition demo_holds :: "demo_node \<Rightarrow> sim_storage \<Rightarrow> bytes list \<Rightarrow> bytes list \<Rightarrow> bool" where
  "demo_holds m d recs synced \<longleftrightarrow> dn_running m \<and> dn_pongs m = int (length recs)
     \<and> (\<exists>us. recs = synced @ us \<and> int (length us) \<le> dn_unsynced m) \<and> dn_unsynced m < DEMO_SYNC_EVERY
     \<and> disk_holds d recs synced"

definition demo_down :: "demo_node \<Rightarrow> sim_storage \<Rightarrow> bytes list \<Rightarrow> bytes list \<Rightarrow> bool" where
  "demo_down m d recs synced \<longleftrightarrow> \<not> dn_running m \<and> dn_pongs m = 0 \<and> dn_unsynced m = 0 \<and> disk_cut d recs synced"

definition demo_fine :: "demo_node \<Rightarrow> sim_storage \<Rightarrow> bool" where
  "demo_fine m d \<longleftrightarrow> (\<exists>recs synced. demo_holds m d recs synced \<or> demo_down m d recs synced)"

text \<open>Timers and messages leave the count and the disk alone.\<close>

definition counted :: "demo_ctx \<Rightarrow> bool \<times> int \<times> int \<times> sim_storage" where
  "counted c = (dn_running (hme c), dn_pongs (hme c), dn_unsynced (hme c), hdisk c)"

lemma counted_eq: "counted c' = counted c \<longleftrightarrow> dn_running (hme c') = dn_running (hme c) \<and> dn_pongs (hme c') = dn_pongs (hme c)
    \<and> dn_unsynced (hme c') = dn_unsynced (hme c) \<and> hdisk c' = hdisk c"
  by (simp add: counted_def)

lemma counted_same:
  assumes "counted c' = counted c"
  shows "demo_holds (hme c') (hdisk c') = demo_holds (hme c) (hdisk c)"
    and "demo_down (hme c') (hdisk c') = demo_down (hme c) (hdisk c)"
  using assms by (auto simp: counted_eq demo_holds_def demo_down_def fun_eq_iff)

lemma keeps_counted: "keeps netsim.more m \<Longrightarrow> keeps counted (m :: ('x, demo_ctx) py)"
proof (erule keeps_via)
  fix c c' :: demo_ctx
  assume "netsim.more c' = netsim.more c"
  then have "hme c' = hme c \<and> hdisk c' = hdisk c" by (cases c; cases c') simp
  then show "counted c' = counted c" by (simp add: counted_def)
qed

lemmas keeps_count = keeps_basic keeps_bind keeps_block keeps_for_each keeps_ite keeps_if
  keeps_net [THEN keeps_counted] keeps_send [THEN keeps_counted] keeps_set_state [THEN keeps_counted]

lemma keeps_hupd: "(\<And>m. dn_running (f m) = dn_running m \<and> dn_pongs (f m) = dn_pongs m \<and> dn_unsynced (f m) = dn_unsynced m) \<Longrightarrow>
    keeps counted (hupd f)"
  unfolding hupd_def by (rule keeps_modify) (simp add: counted_eq)

lemma keeps_demo_cancel: "keeps counted demo_cancel_timer"
proof (rule keeps_point)
  fix c :: demo_ctx
  show "\<exists>n. keeps counted n \<and> demo_cancel_timer c = n c"
    unfolding demo_cancel_timer_def
    by (cases "dn_timer (hme c)") (auto intro: keeps_count exI [of _ "Done ()"] exI [of _ "bind (timer_cancel t) (\<lambda>_. ret ())" for t])
qed

lemma keeps_demo_arm: "keeps counted (demo_arm extra)"
  unfolding demo_arm_def
  by (intro keeps_count keeps_demo_cancel keeps_hupd) (auto intro: keeps_point keeps_count)

lemma keeps_demo_self_crash: "keeps counted (demo_self_crash n)"
  unfolding demo_self_crash_def by (intro keeps_count)

section \<open>A crash and a restart\<close>

lemma demo_cancel_Done: "demo_cancel_timer c = Done x c' \<Longrightarrow> counted c' = counted c"
  by (rule keeps_Done [OF keeps_demo_cancel])

lemma demo_holds_cut: "demo_holds m d recs synced \<Longrightarrow> disk_cut d recs synced"
  by (auto simp: demo_holds_def intro: disk_holds_cut)

lemma demo_crash_Done:
  assumes "demo_crash c = Done x c'" and "dn_running (hme c)" and "disk_cut (hdisk c) recs synced"
  shows "demo_down (hme c') (hdisk c') recs synced"
proof -
  from assms(1,2) obtain c1 kept d where c1: "demo_cancel_timer (c\<lparr>hme := (hme c)\<lparr>dn_running := False\<rparr>\<rparr>) = Done () c1"
    and d: "sim_crash \<lparr>drng = rng c1, dsk = hdisk c1\<rparr> = Done kept d"
    and c': "hme c' = (hme c1)\<lparr>dn_timer := None, dn_pongs := 0, dn_unsynced := 0\<rparr>" "hdisk c' = dsk d"
    by (auto simp: demo_crash_def hupd_def on_hdisk_Done demo_record_def trace_write_Done)
  from demo_cancel_Done [OF c1] have "\<not> dn_running (hme c1)" "hdisk c1 = hdisk c" by (auto simp: counted_eq)
  moreover from this have "disk_cut (dsk d) recs synced" using disk_cut_crash [OF _ d] assms(3) by simp
  ultimately show ?thesis by (simp add: demo_down_def c')
qed

lemma demo_restart_step:
  assumes "disk_cut (hdisk c) recs synced" and "0 \<le> dn_unsynced (hme c)" "dn_unsynced (hme c) < DEMO_SYNC_EVERY"
    and "demo_restart c = Done x c'"
  shows "\<exists>n. length synced \<le> n \<and> demo_holds (hme c') (hdisk c') (take n recs) (take n recs)"
proof -
  from assms(4) obtain c0 c2 c1 where 1: "on_hdisk sim_restart c = Done () c0"
    and 2: "bind (on_hdisk sim_read_all) (\<lambda>rs. hupd (\<lambda>m. m\<lparr>dn_pongs := int (length rs), dn_running := True\<rparr>)) c0 = Done () c2"
    and 3: "demo_record ''node.restart'' [(''recovered'', JInt (dn_pongs (hme c2)))] c2 = Done () c1" and arm: "demo_arm 0 c1 = Done () c'"
    unfolding demo_restart_def by auto
  from 1 obtain d1 where d1: "sim_restart \<lparr>drng = rng c, dsk = hdisk c\<rparr> = Done () d1" and c0: "c0 = c\<lparr>rng := drng d1, hdisk := dsk d1\<rparr>"
    by (auto simp: on_hdisk_Done)
  from 2 obtain rs d2 where d2: "sim_read_all \<lparr>drng = drng d1, dsk = dsk d1\<rparr> = Done rs d2"
    and c2: "hme c2 = (hme c)\<lparr>dn_pongs := int (length rs), dn_running := True\<rparr>" "hdisk c2 = dsk d2"
    by (auto simp: on_hdisk_Done hupd_def c0)
  from 3 have c1: "hme c1 = (hme c)\<lparr>dn_pongs := int (length rs), dn_running := True\<rparr>" "hdisk c1 = dsk d2"
    by (auto simp: demo_record_def trace_write_Done c2)
  obtain n where n: "length synced \<le> n" "disk_holds (dsk d1) (take n recs) (take n recs)"
    by (rule disk_cut_restart [OF _ d1]) (use assms(1) in auto)
  from sim_read_all_Done [of "\<lparr>drng = drng d1, dsk = dsk d1\<rparr>"] n(2) d2 have "rs = take n recs" "dsk d2 = fill_cache (dsk d1)" by auto
  with disk_holds_fill [OF n(2)] assms(2,3) have "demo_holds (hme c1) (hdisk c1) (take n recs) (take n recs)"
    by (simp add: demo_holds_def c1)
  with counted_same(1) [OF keeps_Done [OF keeps_demo_arm arm]] n(1) show ?thesis by auto
qed

lemma demo_fine_cut:
  assumes "demo_fine m d"
  obtains recs synced where "disk_cut d recs synced" "0 \<le> dn_unsynced m" "dn_unsynced m < DEMO_SYNC_EVERY"
proof -
  from assms obtain recs synced where "demo_holds m d recs synced \<or> demo_down m d recs synced" by (auto simp: demo_fine_def)
  then have "disk_cut d recs synced \<and> 0 \<le> dn_unsynced m \<and> dn_unsynced m < DEMO_SYNC_EVERY"
    by (auto simp: demo_holds_def demo_down_def DEMO_SYNC_EVERY_def disk_holds_cut)
  with that show thesis by blast
qed

section \<open>An answer arrives\<close>

lemma arm_owed_Done:
  assumes "bind (on_hdisk take_owed_ticks) demo_arm c = Done x c'"
  obtains ex c2 where "hme c2 = hme c" "hdisk c2 = (hdisk c)\<lparr>owed_ticks := 0\<rparr>" "demo_arm ex c2 = Done x c'"
proof (rule that)
  show "demo_arm (owed_ticks (hdisk c)) (c\<lparr>hdisk := (hdisk c)\<lparr>owed_ticks := 0\<rparr>\<rparr>) = Done x c'"
    using assms by (auto simp: on_hdisk_Done take_owed_ticks_def)
qed simp_all

lemma pong_record_errors: "pong_record frm = Inl e \<Longrightarrow> \<not> is_disk_error e"
  by (auto simp: pong_record_def utf8_encode_def split: if_splits)

lemma disk_holds_owed [simp]: "disk_holds (d\<lparr>owed_ticks := t\<rparr>) rs ds = disk_holds d rs ds"
  by (simp add: disk_holds_def online_def)

lemma demo_log_pong_step:
  assumes run: "dn_running (hme c)" "int (length us) \<le> dn_unsynced (hme c)" "dn_unsynced (hme c) < DEMO_SYNC_EVERY"
    and disk: "disk_holds (hdisk c) (synced @ us) synced" and pongs: "dn_pongs (hme c) = int (length (synced @ us)) + 1"
    and step: "demo_log_pong demo_self_crash frm c = Done x c'"
  obtains r where "pong_record frm = Inr r"
    "if dn_running (hme c') then demo_holds (hme c') (hdisk c') (synced @ us @ [r])
       (if dn_unsynced (hme c) + 1 = DEMO_SYNC_EVERY then synced @ us @ [r] else synced)
     else demo_down (hme c') (hdisk c') (synced @ us @ [r]) synced"
proof -
  let ?recs = "\<lambda>r. synced @ us @ [r]"
  let ?kept = "\<lambda>r. if dn_running (hme c') then demo_holds (hme c') (hdisk c') (?recs r)
       (if dn_unsynced (hme c) + 1 = DEMO_SYNC_EVERY then ?recs r else synced)
     else demo_down (hme c') (hdisk c') (?recs r) synced"
  obtain r where r: "pong_record frm = Inr r"
    using step by (cases "pong_record frm") (auto simp: demo_log_pong_def bind_def of_sum_def dest: pong_record_errors split: if_splits)
  have app: "bind (of_sum (pong_record frm)) (\<lambda>b. on_hdisk (sim_append [b])) c = on_hdisk (sim_append [r]) c"
    by (simp add: bind_def of_sum_def r)
  let ?D = "\<lparr>drng = rng c, dsk = hdisk c\<rparr>"
  have D: "disk_holds (dsk ?D) (synced @ us) synced" using disk by simp
  show thesis
  proof (rule that [OF r], cases "on_hdisk (sim_append [r]) c")
    case (Done y c1)
    then obtain d1 where d1: "sim_append [r] ?D = Done y d1" and c1: "c1 = c\<lparr>rng := drng d1, hdisk := dsk d1\<rparr>"
      by (auto simp: on_hdisk_Done)
    note A = sim_append_Done(1) [OF D d1]
    let ?m = "(hme c)\<lparr>dn_unsynced := dn_unsynced (hme c) + 1\<rparr>"
    show "?kept r"
    proof (cases "dn_unsynced (hme c) + 1 = DEMO_SYNC_EVERY")
      case True
      let ?sync = "block [on_hdisk sim_sync, hupd (\<lambda>m. m\<lparr>dn_unsynced := 0\<rparr>), bind (on_hdisk take_owed_ticks) demo_arm] :: demo_ctx stmt"
      have "?sync (c1\<lparr>hme := ?m\<rparr>) = Done () c'"
        using step Done True by (auto simp: demo_log_pong_def app hupd_def c1 simp del: block_Cons_Done) (auto simp: DEMO_SYNC_EVERY_def)
      then obtain d2 where d2: "sim_sync \<lparr>drng = drng d1, dsk = dsk d1\<rparr> = Done () d2"
        and rest: "bind (on_hdisk take_owed_ticks) demo_arm (c1\<lparr>rng := drng d2, hdisk := dsk d2, hme := ?m\<lparr>dn_unsynced := 0\<rparr>\<rparr>) = Done () c'"
        by (auto simp: on_hdisk_Done hupd_def c1 simp del: bind_Done)
      obtain ex c2 where c2: "hme c2 = ?m\<lparr>dn_unsynced := 0\<rparr>" "hdisk c2 = (dsk d2)\<lparr>owed_ticks := 0\<rparr>" and arm: "demo_arm ex c2 = Done () c'"
        by (rule arm_owed_Done [OF rest], rule that) auto
      have "disk_holds (dsk d2) (?recs r) (?recs r)"
        by (rule sim_sync_Done(1) [OF _ d2]) (use A in simp)
      then have "demo_holds (hme c2) (hdisk c2) (?recs r) (?recs r)"
        using run pongs by (simp add: demo_holds_def c2 DEMO_SYNC_EVERY_def)
      then have "demo_holds (hme c') (hdisk c') (?recs r) (?recs r)"
        by (simp add: counted_same(1) [OF keeps_Done [OF keeps_demo_arm arm]])
      moreover from this have "dn_running (hme c')" by (simp add: demo_holds_def)
      ultimately show ?thesis using True by simp
    next
      case False
      then have "dn_unsynced (hme c) + 1 < DEMO_SYNC_EVERY" using run(3) by linarith
      moreover from this step Done run(2) have "hme c' = ?m" "hdisk c' = dsk d1"
        by (auto simp: demo_log_pong_def app hupd_def c1)
      ultimately show ?thesis using False A run pongs by (auto simp: demo_holds_def)
    qed
  next
    case (Raised e c1)
    then obtain d1 where d1: "sim_append [r] ?D = Raised e d1" and c1: "c1 = c\<lparr>rng := drng d1, hdisk := dsk d1\<rparr>"
      by (auto simp: on_hdisk_Raised)
    from step Raised have e: "is_disk_error e" by (auto simp: demo_log_pong_def app split: if_splits)
    with step Raised obtain c2 where crash: "demo_crash c1 = Done () c2" and self: "demo_self_crash (dn_node_id (hme c2)) c2 = Done x c'"
      by (auto simp: demo_log_pong_def app)
    have "disk_torn (dsk d1) (?recs r) synced" using sim_append_Raised(1) [OF D d1] e by simp
    then have "disk_cut (hdisk c1) (?recs r) synced" by (simp add: c1 disk_torn_cut)
    from demo_crash_Done [OF crash _ this] run(1) have "demo_down (hme c2) (hdisk c2) (?recs r) synced" by (simp add: c1)
    then have "demo_down (hme c') (hdisk c') (?recs r) synced"
      by (simp add: counted_same(2) [OF keeps_Done [OF keeps_demo_self_crash self]])
    moreover from this have "\<not> dn_running (hme c')" by (simp add: demo_down_def)
    ultimately show "?kept r" by simp
  next
    case Diverges
    with step show "?kept r" by (simp add: demo_log_pong_def app)
  qed
qed

section \<open>Every handler\<close>

definition tidy :: "demo_ctx \<Rightarrow> bool" where
  "tidy c \<longleftrightarrow> demo_fine (hme c) (hdisk c)"

definition tidies :: "('x, demo_ctx) py \<Rightarrow> bool" where
  "tidies h \<longleftrightarrow> valid tidy h (\<lambda>_. tidy) (\<lambda>_ _. True)"

lemma tidiesI: "(\<And>c x c'. tidy c \<Longrightarrow> h c = Done x c' \<Longrightarrow> tidy c') \<Longrightarrow> tidies h"
  unfolding tidies_def by (rule validI) auto

lemma tidiesD: "tidies h \<Longrightarrow> tidy c \<Longrightarrow> h c = Done x c' \<Longrightarrow> tidy c'"
  unfolding tidies_def by (rule validD_Done)

lemma counted_tidy:
  assumes "counted c' = counted c"
  shows "tidy c' = tidy c"
  by (simp only: tidy_def demo_fine_def counted_same [OF assms])

lemma keeps_tidies: "keeps counted h \<Longrightarrow> tidies h"
  by (rule tidiesI) (erule (1) counted_tidy [THEN iffD2, OF keeps_Done [of counted]])

lemma tidies_crash: "tidies demo_crash"
proof (rule tidiesI)
  fix c c' :: demo_ctx and x
  assume c: "tidy c" and run: "demo_crash c = Done x c'"
  show "tidy c'"
  proof (cases "dn_running (hme c)")
    case True
    from c obtain recs synced where "disk_cut (hdisk c) recs synced" unfolding tidy_def by (elim demo_fine_cut)
    with demo_crash_Done [OF run True] show ?thesis by (auto simp: tidy_def demo_fine_def)
  next
    case False
    with run c show ?thesis by (simp add: demo_crash_def)
  qed
qed

lemma tidies_restart: "tidies demo_restart"
proof (rule tidiesI)
  fix c c' :: demo_ctx and x
  assume c: "tidy c" and run: "demo_restart c = Done x c'"
  from c obtain recs synced where "disk_cut (hdisk c) recs synced" "0 \<le> dn_unsynced (hme c)" "dn_unsynced (hme c) < DEMO_SYNC_EVERY"
    unfolding tidy_def by (elim demo_fine_cut)
  from demo_restart_step [OF this run] show "tidy c'" by (auto simp: tidy_def demo_fine_def)
qed

lemma demo_pong_step:
  assumes holds: "demo_holds (hme c) (hdisk c) recs synced" and msg: "msg \<noteq> PING"
    and run: "demo_on_message demo_self_crash frm msg c = Done x c'"
  obtains r where "pong_record frm = Inr r"
    "if dn_running (hme c') then demo_holds (hme c') (hdisk c') (recs @ [r])
       (if dn_unsynced (hme c) + 1 = DEMO_SYNC_EVERY then recs @ [r] else synced)
     else demo_down (hme c') (hdisk c') (recs @ [r]) synced"
proof -
  let ?c = "c\<lparr>hme := (hme c)\<lparr>dn_pongs := dn_pongs (hme c) + 1\<rparr>\<rparr>"
  from holds obtain us where us: "recs = synced @ us" "int (length us) \<le> dn_unsynced (hme c)"
    and on: "dn_running (hme c)" "dn_unsynced (hme c) < DEMO_SYNC_EVERY" "dn_pongs (hme c) = int (length recs)"
    and d: "disk_holds (hdisk c) recs synced"
    by (auto simp: demo_holds_def)
  from run on(1) msg have log: "demo_log_pong demo_self_crash frm ?c = Done x c'"
    by (simp add: demo_on_message_def hupd_def)
  obtain r where r: "pong_record frm = Inr r" "if dn_running (hme c') then demo_holds (hme c') (hdisk c') (synced @ us @ [r])
       (if dn_unsynced (hme ?c) + 1 = DEMO_SYNC_EVERY then synced @ us @ [r] else synced)
     else demo_down (hme c') (hdisk c') (synced @ us @ [r]) synced"
    by (rule demo_log_pong_step [OF _ _ _ _ _ log, of us synced]) (use us on d in auto)
  show thesis by (rule that [OF r(1)]) (use r(2) us(1) in \<open>simp split: if_splits\<close>)
qed

lemma tidies_message: "tidies (demo_on_message demo_self_crash frm msg)"
proof (rule tidiesI)
  fix c c' :: demo_ctx and x
  assume c: "tidy c" and run: "demo_on_message demo_self_crash frm msg c = Done x c'"
  show "tidy c'"
  proof (cases "dn_running (hme c) \<and> msg \<noteq> PING")
    case True
    with c obtain recs synced where h: "demo_holds (hme c) (hdisk c) recs synced"
      by (auto simp: tidy_def demo_fine_def demo_down_def)
    show ?thesis
      by (rule demo_pong_step [OF h _ run]) (use True in \<open>auto simp: tidy_def demo_fine_def split: if_splits\<close>)
  next
    case False
    have send: "keeps counted (\<lambda>c. net_send (dn_node_id (hme c)) frm PONG c)"
      by (rule keeps_point) (blast intro: keeps_count)
    from False run consider "c' = c" | "net_send (dn_node_id (hme c)) frm PONG c = Done x c'"
      by (cases "dn_running (hme c)") (auto simp: demo_on_message_def)
    then have "counted c' = counted c" by cases (auto dest: keeps_Done [OF send])
    from counted_tidy [OF this] c show ?thesis by blast
  qed
qed

lemma tidies_timer: "tidies demo_on_timer" "tidies demo_start"
proof -
  have "keeps counted (\<lambda>c. net_send (dn_node_id (hme c)) peer PING c)" for peer
    by (rule keeps_point) (blast intro: keeps_count)
  then have each: "keeps counted (for_each peers (\<lambda>peer c. net_send (dn_node_id (hme c)) peer PING c))" for peers
    by (rule keeps_for_each)
  have ping: "keeps counted (\<lambda>c. for_each (dn_peers (hme c)) (\<lambda>peer c. net_send (dn_node_id (hme c)) peer PING c) c)"
    by (rule keeps_point) (blast intro: each)
  have "keeps counted demo_on_timer" unfolding demo_on_timer_def
    by (intro keeps_count keeps_hupd keeps_demo_arm ping) simp
  then show "tidies demo_on_timer" by (rule keeps_tidies)
  show "tidies demo_start" unfolding demo_start_def by (intro keeps_tidies keeps_demo_arm)
qed

section \<open>Every run\<close>

definition all_tidy :: "demo_world \<Rightarrow> bool" where
  "all_tidy w \<longleftrightarrow> (\<forall>(m, d) \<in> ran (map_of (hosts w)). demo_fine m d)"

definition orderly :: "('x, demo_world) py \<Rightarrow> bool" where
  "orderly m \<longleftrightarrow> valid all_tidy m (\<lambda>_. all_tidy) (\<lambda>_ _. True)"

lemma orderlyD: "orderly m \<Longrightarrow> all_tidy w \<Longrightarrow> m w = Done x w' \<Longrightarrow> all_tidy w'"
  unfolding orderly_def by (rule validD_Done)

lemma orderlyI: "(\<And>w x w'. all_tidy w \<Longrightarrow> m w = Done x w' \<Longrightarrow> all_tidy w') \<Longrightarrow> orderly m"
  unfolding orderly_def by (rule validI) auto

lemma orderly_keeps: "keeps hosts m \<Longrightarrow> orderly m"
  by (rule orderlyI) (drule (1) keeps_Done, simp add: all_tidy_def)

lemma keeps_hosts: "keeps netsim.more m \<Longrightarrow> keeps hosts (m :: ('x, demo_world) py)"
proof (erule keeps_via)
  fix w w' :: demo_world
  show "netsim.more w' = netsim.more w \<Longrightarrow> hosts w' = hosts w" by (cases w; cases w') simp
qed

lemma orderly_bind: "orderly m \<Longrightarrow> (\<And>x. orderly (f x)) \<Longrightarrow> orderly (bind m f)"
  unfolding orderly_def by (rule valid_bind)

lemma orderly_block: "orderly (block [])" "orderly m \<Longrightarrow> orderly (block ms) \<Longrightarrow> orderly (block (m # ms))"
  unfolding orderly_def by (auto intro: valid_block_Nil valid_block_Cons)

lemma orderly_if: "(b \<Longrightarrow> orderly m) \<Longrightarrow> (\<not> b \<Longrightarrow> orderly m') \<Longrightarrow> orderly (if b then m else m')"
  by simp

lemma orderly_for_each: "(\<And>x. x \<in> set xs \<Longrightarrow> orderly (f x)) \<Longrightarrow> orderly (for_each xs f)"
  unfolding orderly_def by (rule valid_for_each)

lemma orderly_point: "(\<And>w. \<exists>n. orderly n \<and> m w = n w) \<Longrightarrow> orderly m"
  by (rule orderlyI) (metis orderlyD)

lemma orderly_state: "(\<And>v. orderly (m v)) \<Longrightarrow> orderly (\<lambda>w. m w w)"
  by (rule orderly_point) blast

lemma orderly_host:
  assumes "tidies h"
  shows "orderly (on_host n h)"
proof (rule orderlyI)
  fix w w' :: demo_world and x
  assume w: "all_tidy w" and run: "on_host n h w = Done x w'"
  from run obtain m d c where md: "map_of (hosts w) n = Some (m, d)" and h: "h (host_view m d w) = Done x c"
    and w': "w' = host_back n c w"
    by (auto simp: on_host_def on_part_Done split: option.splits)
  from w md have "tidy (host_view m d w)" by (auto simp: all_tidy_def tidy_def ran_def)
  from tidiesD [OF assms this h] have "demo_fine (hme c) (hdisk c)" by (simp add: tidy_def)
  with w show "all_tidy w'"
    by (auto simp: all_tidy_def w' update_conv' ran_def split: if_splits)
qed

lemmas keeps_host = keeps_basic keeps_state_read keeps_net [THEN keeps_hosts] keeps_send [THEN keeps_hosts]
  keeps_set_state [THEN keeps_hosts] keeps_split [THEN keeps_hosts]

lemmas orderly_rules = orderly_bind orderly_block orderly_if orderly_host keeps_host [THEN orderly_keeps]

lemma keeps_note: "keeps hosts (note_fired what :: demo_world stmt)"
  unfolding note_fired_def by (rule keeps_modify) simp

lemma orderly_arrive: "orderly (net_arrive (\<lambda>n frm msg. on_host n (demo_on_message demo_self_crash frm msg)) frm to msg :: demo_world stmt)"
proof (rule orderlyI)
  fix w w' :: demo_world and x
  assume w: "all_tidy w" and run: "net_arrive (\<lambda>n frm msg. on_host n (demo_on_message demo_self_crash frm msg)) frm to msg w = Done x w'"
  from run consider "hosts w' = hosts w"
    | h where "on_host h (demo_on_message demo_self_crash frm msg) (w\<lparr>delivered := delivered w + 1\<rparr>) = Done x w'"
    by (auto simp: net_arrive_def net_drop_arrived_def net_record_msg_Done modify_Done split: if_splits option.splits node_status.splits)
  then show "all_tidy w'"
  proof cases
    case 1
    with w show ?thesis by (simp add: all_tidy_def)
  next
    case 2
    have "all_tidy (w\<lparr>delivered := delivered w + 1\<rparr>)" using w by (simp add: all_tidy_def)
    from orderlyD [OF orderly_host [OF tidies_message] this 2] show ?thesis .
  qed
qed

lemma orderly_act: "orderly (demo_act a)"
proof (cases a)
  case (Arrive frm to msg)
  then show ?thesis by (simp add: orderly_arrive)
next
  case (Callback t)
  then show ?thesis
    by (cases t) (auto simp: demo_supervise_def intro!: orderly_rules tidies_timer tidies_restart)
qed (auto simp: start_partition_def heal_partition_def begin_outage_def end_outage_def
    intro!: orderly_rules orderly_keeps [OF keeps_note] tidies_crash tidies_restart)

lemma orderly_turn: "orderly (sim_turn demo_act [] show_exn max_ticks)"
proof -
  have queue: "orderly (with_queue m)" for m :: "('x, (demo_action, demo_described) event_queue) py"
    unfolding with_queue_def by (intro orderly_keeps keeps_on_part) simp
  have step: "orderly (modify f)" if "\<And>w. hosts (f w) = hosts w" for f :: "demo_world \<Rightarrow> demo_world"
    using that by (intro orderly_keeps keeps_modify)
  have advance: "orderly (advance_to t)" for t
  proof (rule orderlyI)
    fix w w' :: demo_world and x
    assume "all_tidy w" and "advance_to t w = Done x w'"
    then show "all_tidy w'" by (auto simp: advance_to_def all_tidy_def split: if_splits)
  qed
  have written: "orderly (\<lambda>w. trace_write (f w) w)" for f :: "demo_world \<Rightarrow> demo_described jrecord"
    by (rule orderly_point) (blast intro: orderly_rules)
  have fire: "orderly (fire demo_act [] show_exn e)" for e
    unfolding orderly_def by (rule fire_valid) (use orderly_act in \<open>auto simp: orderly_def\<close>)
  show ?thesis
    unfolding sim_turn_def
    by (intro orderly_bind queue) (auto split: option.split intro!: orderly_rules queue step advance written fire)
qed

lemma orderly_run: "orderly (sim_run demo_act [] show_exn ids max_ticks)"
proof -
  have written: "orderly (\<lambda>w. trace_write (f w) w)" for f :: "demo_world \<Rightarrow> demo_described jrecord"
    by (rule orderly_point) (blast intro: orderly_rules)
  have loop: "orderly (run_loop (sim_turn demo_act [] show_exn max_ticks))"
    unfolding orderly_def
    by (rule run_loop_valid, rule valid_weaken [OF orderly_turn [unfolded orderly_def]]) auto
  have "orderly (\<lambda>w. Done (sim_result reason w) w)" for reason by (rule orderlyI) simp
  with written loop show ?thesis unfolding sim_run_def by (intro orderly_bind) auto
qed

lemma new_demo_fine: "demo_fine (new_demo n others) (new_sim_storage cfg)"
  unfolding demo_fine_def
  by (intro exI [of _ "[]"] disjI1) (simp add: demo_holds_def new_demo_def DEMO_SYNC_EVERY_def)

lemma orderly_register: "orderly (register_host n (new_demo n others) cfg)"
proof (rule orderlyI)
  fix w w' :: demo_world and x
  assume "all_tidy w" and "register_host n (new_demo n others) cfg w = Done x w'"
  then show "all_tidy w'"
    using new_demo_fine [of n others cfg]
    by (auto simp: register_host_def ite_def raise_def modify_def all_tidy_def update_conv' ran_def split: if_splits) blast
qed

lemma blank_tidy: "all_tidy (blank_demo stream sd p max_ticks)"
  by (simp add: all_tidy_def blank_demo_def)

lemma orderly_cluster: "orderly (demo_cluster k)"
proof -
  have register: "orderly (net_register n h :: demo_world stmt)" for n h
    unfolding net_register_def by (intro orderly_keeps keeps_ite keeps_basic keeps_modify) simp
  have plan: "orderly (\<lambda>w. with_rng (f w) w)" for f :: "demo_world \<Rightarrow> ('x, rng) py"
    by (rule orderly_point) (blast intro: orderly_rules)
  have step: "orderly (modify f)" if "\<And>w. hosts (f w) = hosts w" for f :: "demo_world \<Rightarrow> demo_world"
    using that by (intro orderly_keeps keeps_modify)
  have host: "orderly (\<lambda>w. register_host n (new_demo n others) (cfg w) w)" for n others cfg
    by (rule orderly_point) (blast intro: orderly_register)
  show ?thesis
    unfolding demo_cluster_def by (intro orderly_block orderly_bind orderly_for_each register plan step host) simp_all
qed

lemma orderly_start: "orderly demo_start_all"
proof -
  have arm: "orderly (on_host n demo_start)" for n by (rule orderly_host [OF tidies_timer(2)])
  have hosts: "orderly (\<lambda>w. for_each (f w) (\<lambda>n. on_host n demo_start) w)" for f :: "demo_world \<Rightarrow> NodeId list"
    by (rule orderly_state [of "\<lambda>w. for_each (f w) (\<lambda>n. on_host n demo_start)"]) (intro orderly_for_each arm)
  have inject: "orderly (inject_at tick kind action)" for tick kind and action :: demo_action
    unfolding inject_at_def
    by (rule orderly_state [of "\<lambda>w. bind (clock_after (max 0 (tick - now w)) action kind None) (\<lambda>_. ret ())"])
      (intro orderly_rules)
  have plan: "orderly injector_arm"
    unfolding injector_arm_def
    by (rule orderly_state [of "\<lambda>w. block [for_each (fs_partitions (fault_plan w)) (\<lambda>split.
              block [inject_at (pe_at split) ''fault.partition'' (StartPartition split),
                     inject_at (pe_at split + pe_duration split) ''fault.heal'' HealPartition]),
            for_each (fs_outages (fault_plan w)) (\<lambda>outage.
              block [inject_at (oe_at outage) (''fault.'' @ oe_kind outage) (BeginOutage outage),
                     inject_at (oe_at outage + oe_duration outage) ''fault.recover'' (EndOutage outage)])]"])
      (intro orderly_block orderly_for_each inject)
  show ?thesis unfolding demo_start_all_def by (intro orderly_block hosts plan)
qed

section \<open>Properties\<close>

lemma demo_restart_bound:
  assumes "demo_holds (hme c) (hdisk c) recs synced" and "block [demo_crash, demo_restart] c = Done x c'"
  shows "\<exists>n. length recs - 4 \<le> n \<and> demo_holds (hme c') (hdisk c') (take n recs) (take n recs)"
proof -
  from assms(2) obtain c1 where 1: "demo_crash c = Done () c1" and 2: "demo_restart c1 = Done x c'" by auto
  from assms(1) obtain us where us: "recs = synced @ us" "length us \<le> 4" and run: "dn_running (hme c)"
    by (auto simp: demo_holds_def DEMO_SYNC_EVERY_def)
  from demo_crash_Done [OF 1 run demo_holds_cut [OF assms(1)]]
  have "disk_cut (hdisk c1) recs synced" "dn_unsynced (hme c1) = 0" by (simp_all add: demo_down_def)
  with demo_restart_step [OF _ _ _ 2] obtain n where "length synced \<le> n" "demo_holds (hme c') (hdisk c') (take n recs) (take n recs)"
    by (auto simp: DEMO_SYNC_EVERY_def)
  with us show ?thesis by (intro exI [of _ n]) simp
qed

text \<open>
  C34. In every run of the demonstration, whatever the seed, the number of nodes and the faults, a node that runs
  counts exactly the answers its disk would give back, and at most four of them are not yet synced; a node that is
  down counts none.
\<close>

theorem demo_counts_its_log:
  assumes "run_demo stream sd k p max_ticks = Done r w" and "map_of (hosts w) n = Some (m, d)"
  shows "if dn_running m
    then \<exists>recs synced. dn_pongs m = int (length recs) \<and> disk_holds d recs synced \<and> length recs \<le> length synced + 4
    else dn_pongs m = 0"
proof -
  from assms(1) obtain w1 w2 where 1: "demo_cluster k (blank_demo stream sd p max_ticks) = Done () w1"
    and 2: "demo_start_all w1 = Done () w2"
    and 3: "sim_run demo_act [] (\<lambda>e. JDesc (DescFault e)) (map fst (hosts w2)) (dw_max_ticks w2) w2 = Done r w"
    by (auto simp: run_demo_def demo_run_def)
  have "all_tidy w1" by (rule orderlyD [OF orderly_cluster blank_tidy 1])
  from orderlyD [OF orderly_run orderlyD [OF orderly_start this 2] 3] assms(2) have "demo_fine m d"
    by (auto simp: all_tidy_def ran_def)
  then show ?thesis by (fastforce simp: demo_fine_def demo_holds_def demo_down_def DEMO_SYNC_EVERY_def)
qed

lemma two_ids: "[1..2] = [1, 2 :: int]"
  by (simp add: upto.simps)

lemmas demo_eval = two_ids run_demo_def demo_run_def demo_cluster_def demo_start_all_def demo_ids_def blank_demo_def demo_start_def
  demo_arm_def demo_cancel_timer_def demo_on_timer_due_def PING_PERIOD_def on_host_def host_view_def host_back_def hupd_def
  hostctx.defs register_host_def new_demo_def net_register_def generate_schedule_def perfect_profile_def quiet_profile_def
  quiet_by_def SECOND_def MILLISECOND_def MICROSECOND_def empty_queue_def new_sim_storage_def default_disk_faults_def
  dict_update_def injector_arm_def sim_run_def run_loop_def sim_loop_unfold sim_turn_def peek_tick_def drop_cancelled_head_def

theorem demo_counts_its_log_witness:
  "\<exists>r w m d recs. run_demo (\<lambda>_. 0) 0 2 perfect_profile 1 = Done r w \<and> map_of (hosts w) 1 = Some (m, d)
     \<and> dn_running m \<and> dn_pongs m = int (length recs) \<and> (\<exists>synced. disk_holds d recs synced)"
proof -
  have "\<exists>r w m d. run_demo (\<lambda>_. 0) 0 2 perfect_profile 1 = Done r w \<and> map_of (hosts w) 1 = Some (m, d) \<and> dn_running m"
    by (simp add: demo_eval eval_defs del: py_done)
  then obtain r w m d where "run_demo (\<lambda>_. 0) 0 2 perfect_profile 1 = Done r w" "map_of (hosts w) 1 = Some (m, d)" "dn_running m"
    by blast
  with demo_counts_its_log [OF this(1,2)] show ?thesis by auto
qed

end
