(* ===== verification/Trace_File.thy ===== *)
theory Trace_File
  imports Sim_Host "HOL-Library.Char_ord" "HOL-Library.List_Lexorder"
begin

text \<open>
  The trace on disk, \<^verbatim>\<open>groundhog/sim/trace.py\<close>: one line of JSON per record, with the options the code passes to
  \<^verbatim>\<open>json.dumps\<close> (keys sorted, no white space, everything outside printable ASCII escaped). The records a run leaves
  are the field \<open>trace\<close> of the simulation state; here is what a writer makes of them. A described value is a string,
  as it is for the code; \<open>map_jval\<close> puts the texts in. Shown: two traces have the same bytes exactly when they hold
  the same records up to the order of the fields, which is what comparing two runs byte by byte relies on.
\<close>

section \<open>JSON text\<close>

definition hex_digit :: "nat \<Rightarrow> char" where
  "hex_digit n = char_of (if n < 10 then 48 + n else 87 + n)"

definition unicode_escape :: "nat \<Rightarrow> string" where
  "unicode_escape n = [CHR 0x5C, CHR ''u''] @ map hex_digit [n div 4096 mod 16, n div 256 mod 16, n div 16 mod 16, n mod 16]"

definition json_char :: "nat \<Rightarrow> string" where
  "json_char c =
     (if c = 0x22 then [CHR 0x5C, CHR 0x22] else if c = 0x5C then [CHR 0x5C, CHR 0x5C]
      else if c = 10 then [CHR 0x5C, CHR ''n''] else if c = 13 then [CHR 0x5C, CHR ''r'']
      else if c = 9 then [CHR 0x5C, CHR ''t''] else if c = 12 then [CHR 0x5C, CHR ''f'']
      else if c = 8 then [CHR 0x5C, CHR ''b'']
      else if 32 \<le> c \<and> c < 127 then [char_of c]
      else if c < 0x10000 then unicode_escape c
      else let n = c - 0x10000 in unicode_escape (0xD800 + n div 1024 mod 1024) @ unicode_escape (0xDC00 + n mod 1024))"

definition json_string :: "pystr \<Rightarrow> string" where
  "json_string s = [CHR 0x22] @ concat (map json_char s) @ [CHR 0x22]"

fun commas :: "string list \<Rightarrow> string" where
  "commas [] = []"
| "commas [t] = t"
| "commas (t # u # ts) = t @ '','' @ commas (u # ts)"

definition json_field :: "string \<times> string \<Rightarrow> string" where
  "json_field kt = json_string (pystr (fst kt)) @ '':'' @ snd kt"

primrec json_text :: "pystr jval \<Rightarrow> string" where
  "json_text JNull = ''null''"
| "json_text (JBool b) = (if b then ''true'' else ''false'')"
| "json_text (JInt i) = decimal i"
| "json_text (JStr s) = json_string (pystr s)"
| "json_text (JDesc s) = json_string s"
| "json_text (JList vs) = ''['' @ commas (map json_text vs) @ '']''"
| "json_text (JObj kvs) = ''{'' @ commas (map json_field (sort_key fst (map (map_prod id json_text) kvs))) @ ''}''"

section \<open>Writers\<close>

datatype trace_writer = NullTrace | JsonlTrace (tw_stream: string) (tw_lines: int)

fun writer_write :: "pystr jrecord \<Rightarrow> trace_writer \<Rightarrow> trace_writer" where
  "writer_write r NullTrace = NullTrace"
| "writer_write r (JsonlTrace out n) = JsonlTrace (out @ json_text (JObj r) @ [CHR 0x0A]) (n + 1)"

datatype trace_target = Discard | Stdout | FileAt string

definition STDOUT_SPEC :: string where "STDOUT_SPEC = ''-''"

definition trace_target_of :: "string option \<Rightarrow> trace_target" where
  "trace_target_of spec =
     (case spec of None \<Rightarrow> Discard | Some path \<Rightarrow> if path = STDOUT_SPEC then Stdout else FileAt path)"

text \<open>The writer \<^verbatim>\<open>open_trace\<close> yields: a file is opened for writing, so it starts empty.\<close>

definition open_trace :: "string option \<Rightarrow> trace_writer" where
  "open_trace spec = (if trace_target_of spec = Discard then NullTrace else JsonlTrace [] 0)"

definition write_all :: "pystr jrecord list \<Rightarrow> trace_writer \<Rightarrow> trace_writer" where
  "write_all rs t = fold writer_write rs t"

lemma write_all_Jsonl: "write_all rs (JsonlTrace out n) =
    JsonlTrace (out @ concat (map (\<lambda>r. json_text (JObj r) @ [CHR 0x0A]) rs)) (n + int (length rs))"
  unfolding write_all_def by (induction rs arbitrary: out n) simp_all

lemma write_all_Null [simp]: "write_all rs NullTrace = NullTrace"
  unfolding write_all_def by (induction rs) simp_all

section \<open>Decimal numbers\<close>

definition digit_chars :: "char set" where
  "digit_chars = {c. 48 \<le> (of_char c :: nat) \<and> (of_char c :: nat) < 58}"

definition digits_value :: "string \<Rightarrow> nat" where
  "digits_value = foldl (\<lambda>a c. 10 * a + (of_char c - 48)) 0"

lemma of_char_of: "n < 256 \<Longrightarrow> of_char (char_of n :: char) = (n :: nat)"
  by simp

lemma digits_chars: "set (digits n) \<subseteq> digit_chars" "digits n \<noteq> []"
proof (induction n rule: digits.induct)
  case (1 n)
  have "(of_char (char_of (48 + n mod 10) :: char) :: nat) = 48 + n mod 10" by (rule of_char_of) linarith
  then have "char_of (48 + n mod 10) \<in> digit_chars" by (simp add: digit_chars_def)
  with 1 show "set (digits n) \<subseteq> digit_chars" by (subst digits.simps) auto
  show "digits n \<noteq> []" by (subst digits.simps) simp
qed

lemma digits_value [simp]: "digits_value (digits n) = n"
proof (induction n rule: digits.induct)
  case (1 n)
  have c: "(of_char (char_of (48 + n mod 10) :: char) :: nat) = 48 + n mod 10" by (rule of_char_of) linarith
  show ?case
  proof (cases "n < 10")
    case True
    with c show ?thesis by (subst digits.simps) (simp add: digits_value_def)
  next
    case False
    from 1 [OF False] have "digits_value (digits (n div 10)) = n div 10" .
    with c False show ?thesis by (subst digits.simps) (simp add: digits_value_def)
  qed
qed

lemma minus_not_digit: "CHR ''-'' \<notin> digit_chars"
  by (simp add: digit_chars_def)

lemma decimal_chars: "set (decimal i) \<subseteq> insert (CHR ''-'') digit_chars" "decimal i \<noteq> []"
  using digits_chars by (auto simp: decimal_def)

lemma decimal_inj: 
  assumes "decimal i = decimal j"
  shows "i = j"
proof -
  have "hd (digits n) \<noteq> CHR ''-''" for n using digits_chars [of n] minus_not_digit by (metis hd_in_set subsetD)
  then have "\<not> (digits m = ''-'' @ digits n)" for m n by (metis append_Cons list.sel(1))
  with assms have "digits (nat \<bar>i\<bar>) = digits (nat \<bar>j\<bar>) \<and> (i < 0 \<longleftrightarrow> j < 0)"
    by (auto simp: decimal_def split: if_splits) (metis append_Cons append_Nil)+
  moreover from this have "nat \<bar>i\<bar> = nat \<bar>j\<bar>" by (metis digits_value)
  ultimately show ?thesis by linarith
qed

section \<open>Strings can be told apart\<close>

lemma hex_digit_inj: "m < 16 \<Longrightarrow> n < 16 \<Longrightarrow> hex_digit m = hex_digit n \<longleftrightarrow> m = n"
proof
  assume mn: "m < 16" "n < 16" and eq: "hex_digit m = hex_digit n"
  have v: "(of_char (hex_digit k) :: nat) = (if k < 10 then 48 + k else 87 + k)" if "k < 16" for k
    unfolding hex_digit_def by (rule of_char_of) (use that in simp)
  from arg_cong [OF eq, of "of_char :: char \<Rightarrow> nat"] mn show "m = n" by (simp add: v split: if_splits)
qed simp

lemma div_mod_eq:
  assumes "a div c = a' div c" and "a mod c = a' mod (c :: nat)"
  shows "a = a'"
proof -
  have "a = a div c * c + a mod c" by (simp only: div_mult_mod_eq)
  also have "\<dots> = a'" by (simp only: assms div_mult_mod_eq)
  finally show ?thesis .
qed

lemma same_digit:
  assumes "a div (b * c) = a' div (b * c)" and "a div b mod c = a' div b mod (c :: nat)"
  shows "a div b = a' div b"
proof -
  have "a div b div c = a' div b div c" using assms(1) by (simp add: div_mult2_eq)
  then show ?thesis by (rule div_mod_eq) (rule assms(2))
qed

lemma same_hex:
  assumes "m < 65536" "n < 65536" and "m div 4096 mod 16 = n div 4096 mod 16" "m div 256 mod 16 = n div 256 mod 16"
    "m div 16 mod 16 = n div 16 mod 16" "m mod 16 = n mod (16 :: nat)"
  shows "m = n"
proof -
  have "m div (4096 * 16) = n div (4096 * 16)" using assms(1,2) by (simp add: div_less)
  then have "m div (256 * 16) = n div (256 * 16)" using same_digit [of m 4096 16 n] assms(3) by simp
  then have "m div (16 * 16) = n div (16 * 16)" using same_digit [of m 256 16 n] assms(4) by simp
  then have "m div 16 = n div 16" by (rule same_digit) (rule assms(5))
  then show ?thesis by (rule div_mod_eq) (rule assms(6))
qed

lemma unicode_escape_inj:
  assumes "m < 65536" "n < 65536"
  shows "unicode_escape m @ x = unicode_escape n @ y \<longleftrightarrow> m = n \<and> x = y"
  using same_hex [OF assms] by (auto simp: unicode_escape_def hex_digit_inj)

text \<open>The escape of a character, by what comes after the backslash.\<close>

definition short_escape :: "nat \<Rightarrow> bool" where
  "short_escape c \<longleftrightarrow> c \<in> {0x22, 0x5C, 10, 13, 9, 12, 8}"

definition shown :: "nat \<Rightarrow> bool" where
  "shown c \<longleftrightarrow> 32 \<le> c \<and> c < 127 \<and> c \<noteq> 0x22 \<and> c \<noteq> 0x5C"

definition escape_letter :: "nat \<Rightarrow> char" where
  "escape_letter c = (if c = 0x22 then CHR 0x22 else if c = 0x5C then CHR 0x5C else if c = 10 then CHR ''n'' else if c = 13 then CHR ''r''
     else if c = 9 then CHR ''t'' else if c = 12 then CHR ''f'' else CHR ''b'')"

lemma json_char_cases:
  obtains (shown) "shown c" "json_char c = [char_of c]"
    | (short) "short_escape c" "json_char c = [CHR 0x5C, escape_letter c]"
    | (plane) "\<not> shown c" "\<not> short_escape c" "c < 0x10000" "json_char c = unicode_escape c"
    | (wide) "\<not> shown c" "\<not> short_escape c" "0x10000 \<le> c"
        "json_char c = unicode_escape (0xD800 + (c - 0x10000) div 1024 mod 1024) @ unicode_escape (0xDC00 + (c - 0x10000) mod 1024)"
proof (cases "short_escape c")
  case True
  then show thesis by (intro short) (auto simp: short_escape_def json_char_def escape_letter_def)
next
  case False
  show thesis
  proof (cases "shown c")
    case True
    with False show thesis by (intro shown) (auto simp: short_escape_def json_char_def shown_def)
  next
    case False': False
    show thesis
    proof (cases "c < 0x10000")
      case True
      have "json_char c = unicode_escape c" using True False False' by (auto simp: short_escape_def json_char_def shown_def)
      with True False False' show thesis by (intro plane)
    next
      case big: False
      have "json_char c = unicode_escape (0xD800 + (c - 0x10000) div 1024 mod 1024) @ unicode_escape (0xDC00 + (c - 0x10000) mod 1024)"
        using big by (simp add: json_char_def Let_def)
      with big False False' show thesis by (intro wide) simp_all
    qed
  qed
qed

lemma escape_letter_inj: "short_escape c \<Longrightarrow> short_escape d \<Longrightarrow> escape_letter c = escape_letter d \<Longrightarrow> c = d"
  by (auto simp: short_escape_def escape_letter_def)

lemma escape_letter_u: "short_escape c \<Longrightarrow> escape_letter c \<noteq> CHR ''u''"
  by (auto simp: short_escape_def escape_letter_def)

lemma shown_char:
  assumes "shown c"
  shows "char_of c \<noteq> CHR 0x5C" "char_of c \<noteq> CHR 0x22" "shown d \<Longrightarrow> char_of c = (char_of d :: char) \<Longrightarrow> c = d"
proof -
  have recover: "k = of_char x" if "shown k" "char_of k = x" for k :: nat and x
    using that by (auto simp: shown_def)
  show "char_of c \<noteq> CHR 0x5C"
  proof
    assume "char_of c = CHR 0x5C"
    from recover [OF assms this] assms show False by (simp add: shown_def)
  qed
  show "char_of c \<noteq> CHR 0x22"
  proof
    assume "char_of c = CHR 0x22"
    from recover [OF assms this] assms show False by (simp add: shown_def)
  qed
  show "c = d" if "shown d" "char_of c = (char_of d :: char)"
    using recover [OF assms that(2)] recover [OF that(1) refl] by simp
qed

lemma wide_inj:
  assumes "0x10000 \<le> c" "c \<le> 0x10FFFF" "0x10000 \<le> d" "d \<le> (0x10FFFF :: nat)"
    and "(c - 0x10000) div 1024 mod 1024 = (d - 0x10000) div 1024 mod 1024" "(c - 0x10000) mod 1024 = (d - 0x10000) mod 1024"
  shows "c = d"
proof -
  have "(c - 0x10000) div 1024 = (d - 0x10000) div 1024"
    by (rule same_digit [of _ 1024 1024]) (use assms in simp_all)
  then have "c - 0x10000 = d - 0x10000" by (rule div_mod_eq) (rule assms(6))
  with assms(1,3) show ?thesis by simp
qed

text \<open>What a character's text begins with.\<close>

lemma json_char_head:
  shows "shown c \<Longrightarrow> json_char c = [char_of c]"
    and "short_escape c \<Longrightarrow> json_char c = [CHR 0x5C, escape_letter c]"
    and "\<not> shown c \<Longrightarrow> \<not> short_escape c \<Longrightarrow> \<exists>t. json_char c = CHR 0x5C # CHR ''u'' # t"
    and "shown c \<Longrightarrow> \<not> short_escape c"
  by (cases c rule: json_char_cases, auto simp: unicode_escape_def shown_def short_escape_def)+

definition wide_pair :: "nat \<Rightarrow> string" where
  "wide_pair c = unicode_escape (0xD800 + (c - 0x10000) div 1024 mod 1024) @ unicode_escape (0xDC00 + (c - 0x10000) mod 1024)"

lemma json_char_long:
  assumes "\<not> shown c" "\<not> short_escape c"
  shows "json_char c = (if c < 0x10000 then unicode_escape c else wide_pair c)"
  using assms by (cases c rule: json_char_cases) (simp_all add: wide_pair_def)

lemma escape_not_pair: "is_scalar c \<Longrightarrow> c < 0x10000 \<Longrightarrow> unicode_escape c @ x \<noteq> wide_pair d @ y"
proof
  assume c: "is_scalar c" "c < 0x10000" and eq: "unicode_escape c @ x = wide_pair d @ y"
  have "0xD800 + (d - 0x10000) div 1024 mod 1024 < 0xDC00" by simp
  with c eq have "c = 0xD800 + (d - 0x10000) div 1024 mod 1024" by (simp add: wide_pair_def unicode_escape_inj)
  moreover have "(d - 0x10000) div 1024 mod 1024 < 1024" by simp
  ultimately show False using c(1) unfolding is_scalar_def by linarith
qed

lemma wide_pair_inj:
  assumes "is_scalar c" "is_scalar d" "0x10000 \<le> c" "0x10000 \<le> d" and "wide_pair c @ x = wide_pair d @ y"
  shows "c = d \<and> x = y"
proof -
  have "0xD800 + (k - 0x10000) div 1024 mod 1024 < 65536" "0xDC00 + (k - 0x10000) mod 1024 < 65536" for k :: nat by simp_all
  with assms(5) have "(c - 0x10000) div 1024 mod 1024 = (d - 0x10000) div 1024 mod 1024"
    "(c - 0x10000) mod 1024 = (d - 0x10000) mod 1024" "x = y"
    by (simp_all add: wide_pair_def unicode_escape_inj)
  with wide_inj [of c d] assms(1-4) show ?thesis by (simp add: is_scalar_def)
qed

definition text_class :: "nat \<Rightarrow> nat" where
  "text_class c = (if shown c then 0 else if short_escape c then 1 else 2)"

lemma text_class_head:
  assumes "json_char c @ x = u"
  shows "text_class c = (if hd u \<noteq> CHR 0x5C then 0 else if hd (tl u) \<noteq> CHR ''u'' then 1 else 2)"
proof (cases "shown c")
  case True
  with json_char_head(1) [OF True] shown_char(1) [OF True] assms show ?thesis by (auto simp: text_class_def)
next
  case False
  show ?thesis
  proof (cases "short_escape c")
    case True
    with False json_char_head(2) [OF True] escape_letter_u [OF True] assms show ?thesis by (auto simp: text_class_def)
  next
    case short: False
    from json_char_head(3) [OF False short] assms False short show ?thesis by (auto simp: text_class_def)
  qed
qed

lemma json_char_inj:
  assumes sc: "is_scalar c" "is_scalar d" and eq: "json_char c @ x = json_char d @ y"
  shows "c = d \<and> x = y"
proof -
  have same: "text_class c = text_class d" using text_class_head [OF eq] text_class_head [OF refl, of d y] by simp
  consider "shown c" "shown d" | "short_escape c" "short_escape d"
    | "\<not> shown c" "\<not> short_escape c" "\<not> shown d" "\<not> short_escape d"
    using same by (auto simp: text_class_def split: if_splits)
  then show ?thesis
  proof cases
    case 1
    with eq have "char_of c = (char_of d :: char)" "x = y" by (simp_all add: json_char_head(1))
    with shown_char(3) [OF 1] show ?thesis by blast
  next
    case 2
    with eq have "escape_letter c = escape_letter d" "x = y" by (simp_all add: json_char_head(2))
    with escape_letter_inj [OF 2] show ?thesis by blast
  next
    case 3
    note long = json_char_long [OF 3(1,2)] json_char_long [OF 3(3,4)]
    show ?thesis
    proof (cases "c < 0x10000")
      case c: True
      show ?thesis
      proof (cases "d < 0x10000")
        case True
        with eq long c have "unicode_escape c @ x = unicode_escape d @ y" by simp
        with unicode_escape_inj [of c d x y] c True show ?thesis by simp
      next
        case False
        with eq long c have "unicode_escape c @ x = wide_pair d @ y" by simp
        with escape_not_pair [OF sc(1) c] show ?thesis by blast
      qed
    next
      case c: False
      show ?thesis
      proof (cases "d < 0x10000")
        case True
        with eq long c have "unicode_escape d @ y = wide_pair c @ x" by simp
        with escape_not_pair [OF sc(2) True] show ?thesis by blast
      next
        case False
        with eq long c have "wide_pair c @ x = wide_pair d @ y" by simp
        with wide_pair_inj [OF sc] c False show ?thesis by simp
      qed
    qed
  qed
qed

lemma json_string_inj:
  assumes "list_all is_scalar s" "list_all is_scalar t" and "json_string s @ x = json_string t @ y"
  shows "s = t \<and> x = y"
proof -
  have quote: "json_char c @ u \<noteq> CHR 0x22 # v" for c u v
    using shown_char(2) [of c] by (cases c rule: json_char_cases) (auto simp: unicode_escape_def)
  from assms(3) have "concat (map json_char s) @ CHR 0x22 # x = concat (map json_char t) @ CHR 0x22 # y"
    by (simp add: json_string_def)
  with assms(1,2) show ?thesis
  proof (induction s arbitrary: t)
    case Nil
    then show ?case using quote by (cases t) (auto, metis)
  next
    case (Cons c s)
    show ?case
    proof (cases t)
      case Nil
      with Cons.prems(3) quote [of c] show ?thesis by simp
    next
      case t: (Cons d t')
      with Cons.prems json_char_inj [of c d] have "c = d \<and> concat (map json_char s) @ CHR 0x22 # x = concat (map json_char t') @ CHR 0x22 # y"
        by simp
      with Cons.IH [of t'] Cons.prems t show ?thesis by simp
    qed
  qed
qed

lemma pystr_scalar: "list_all is_scalar (pystr s)"
proof -
  have "is_scalar (of_char c)" for c :: char
  proof -
    have "(of_char c :: nat) < 256" by (metis of_char_mod_256 mod_less_divisor zero_less_numeral)
    then show ?thesis unfolding is_scalar_def by linarith
  qed
  then show ?thesis by (simp add: pystr_def list_all_iff)
qed

lemma pystr_inj: "pystr s = pystr t \<Longrightarrow> s = t"
  unfolding pystr_def by (rule map_injective [OF _ inj_of_char]) 

section \<open>Values can be told apart\<close>

text \<open>A value with its fields in order and its strings as Python has them; its text needs no sorting.\<close>

primrec canon :: "pystr jval \<Rightarrow> pystr jval" where
  "canon JNull = JNull"
| "canon (JBool b) = JBool b"
| "canon (JInt i) = JInt i"
| "canon (JStr s) = JDesc (pystr s)"
| "canon (JDesc s) = JDesc s"
| "canon (JList vs) = JList (map canon vs)"
| "canon (JObj kvs) = JObj (sort_key fst (map (map_prod id canon) kvs))"

primrec flat_text :: "pystr jval \<Rightarrow> string" where
  "flat_text JNull = ''null''"
| "flat_text (JBool b) = (if b then ''true'' else ''false'')"
| "flat_text (JInt i) = decimal i"
| "flat_text (JStr s) = json_string (pystr s)"
| "flat_text (JDesc s) = json_string s"
| "flat_text (JList vs) = ''['' @ commas (map flat_text vs) @ '']''"
| "flat_text (JObj kvs) = ''{'' @ commas (map json_field (map (map_prod id flat_text) kvs)) @ ''}''"

lemma sort_key_map: "map f (sort_key (\<lambda>x. g (f x)) xs) = sort_key g (map f xs)"
proof (induction xs)
  case (Cons x xs)
  have "map f (insort_key (\<lambda>x. g (f x)) y ys) = insort_key g (f y) (map f ys)" for y ys
    by (induction ys) simp_all
  with Cons show ?case by simp
qed simp

lemma sort_fields: "map (map_prod id f) (sort_key fst kvs) = sort_key fst (map (map_prod id f) kvs)"
  using sort_key_map [of "map_prod id f" fst kvs] by simp

lemma json_text_flat: "json_text v = flat_text (canon v)"
proof (induction v)
  case (JObj kvs)
  have "map (map_prod id json_text) kvs = map (map_prod id (flat_text \<circ> canon)) kvs"
  proof (rule map_cong [OF refl])
    fix kv
    assume "kv \<in> set kvs"
    moreover obtain k v where "kv = (k, v)" by (cases kv)
    ultimately show "map_prod id json_text kv = map_prod id (flat_text \<circ> canon) kv" using JObj [of kv v] by simp
  qed
  then show ?case by (simp only: json_text.simps canon.simps flat_text.simps sort_fields) (simp add: comp_def map_prod_def split_def)
next
  case (JList vs)
  then have "map json_text vs = map (flat_text \<circ> canon) vs" by simp
  then show ?case by (simp only: json_text.simps canon.simps flat_text.simps map_map)
qed simp_all

text \<open>The strings of a value.\<close>

primrec well_spelt :: "pystr jval \<Rightarrow> bool" where
  "well_spelt JNull = True"
| "well_spelt (JBool b) = True"
| "well_spelt (JInt i) = True"
| "well_spelt (JStr s) = True"
| "well_spelt (JDesc s) = list_all is_scalar s"
| "well_spelt (JList vs) = list_all id (map well_spelt vs)"
| "well_spelt (JObj kvs) = list_all snd (map (map_prod id well_spelt) kvs)"

primrec plain :: "pystr jval \<Rightarrow> bool" where
  "plain JNull = True"
| "plain (JBool b) = True"
| "plain (JInt i) = True"
| "plain (JStr s) = False"
| "plain (JDesc s) = list_all is_scalar s"
| "plain (JList vs) = list_all id (map plain vs)"
| "plain (JObj kvs) = list_all snd (map (map_prod id plain) kvs)"

lemma canon_plain: "well_spelt v \<Longrightarrow> plain (canon v)"
proof (induction v)
  case (JList vs)
  then show ?case by (simp add: list_all_iff)
next
  case (JObj kvs)
  have "plain (canon w)" if "(k, w) \<in> set kvs" for k w
    using JObj.IH [of "(k, w)" w] JObj.prems that by (force simp: list_all_iff)
  then show ?case by (auto simp: list_all_iff)
qed (simp_all add: pystr_scalar)

text \<open>A text that may come after a value does not go on with a number.\<close>

definition stops :: "string \<Rightarrow> bool" where
  "stops r \<longleftrightarrow> (case r of [] \<Rightarrow> True | c # _ \<Rightarrow> c \<noteq> CHR ''-'' \<and> c \<notin> digit_chars)"

lemma stops_simps [simp]: "stops []" "stops (CHR '','' # r)" "stops (CHR '']'' # r)" "stops (CHR ''}'' # r)" "stops (CHR 0x0A # r)"
  by (simp_all add: stops_def digit_chars_def)

lemma decimal_det:
  assumes "stops r" "stops r'" and "decimal i @ r = decimal j @ r'"
  shows "i = j \<and> r = r'"
proof -
  let ?P = "\<lambda>c. c \<in> insert (CHR ''-'') digit_chars"
  have first: "takeWhile ?P (decimal k @ q) = decimal k" if "stops q" for k q
  proof -
    have "takeWhile ?P q = []" using that by (cases q) (auto simp: stops_def)
    with decimal_chars(1) [of k] show ?thesis by (subst takeWhile_append2) auto
  qed
  from first [OF assms(1)] first [OF assms(2)] assms(3) have "decimal i = decimal j" by metis
  with assms(3) decimal_inj show ?thesis by auto
qed

text \<open>The first character of a text gives the kind of the value.\<close>

definition kind_of :: "char \<Rightarrow> nat" where
  "kind_of c = (if c = CHR ''n'' then 0 else if c = CHR ''t'' then 1 else if c = CHR ''f'' then 2
     else if c = CHR 0x22 then 4 else if c = CHR ''['' then 5 else if c = CHR ''{'' then 6 else 3)"

primrec kind :: "pystr jval \<Rightarrow> nat" where
  "kind JNull = 0"
| "kind (JBool b) = (if b then 1 else 2)"
| "kind (JInt i) = 3"
| "kind (JStr s) = 4"
| "kind (JDesc s) = 4"
| "kind (JList vs) = 5"
| "kind (JObj kvs) = 6"

lemma flat_text_head: "flat_text v \<noteq> []" "kind_of (hd (flat_text v)) = kind v"
    "hd (flat_text v) \<noteq> CHR '']'' \<and> hd (flat_text v) \<noteq> CHR ''}''"
proof -
  have digit: "kind_of c = 3" "c \<noteq> CHR '']''" "c \<noteq> CHR ''}''" if "c \<in> insert (CHR ''-'') digit_chars" for c
    using that by (auto simp: kind_of_def digit_chars_def)
  have "hd (decimal i) \<in> insert (CHR ''-'') digit_chars" for i using decimal_chars [of i] by (metis hd_in_set subsetD)
  note num = digit [OF this]
  show "flat_text v \<noteq> []" by (cases v) (auto simp: json_string_def decimal_chars)
  show "kind_of (hd (flat_text v)) = kind v"
    by (cases v) (simp_all add: json_string_def num(1), auto simp: kind_of_def)
  show "hd (flat_text v) \<noteq> CHR '']'' \<and> hd (flat_text v) \<noteq> CHR ''}''"
    by (cases v) (simp_all add: json_string_def num)
qed

lemma same_kind: "flat_text v @ x = flat_text w @ y \<Longrightarrow> kind v = kind w"
  using flat_text_head(1,2) [of v] flat_text_head(1,2) [of w] by (metis hd_append2)

text \<open>Items between commas, up to the bracket that closes them.\<close>

lemma commas_Cons: "commas (t # ts) = t @ (if ts = [] then [] else '','' @ commas ts)"
  by (cases ts) simp_all

lemma commas_det:
  assumes "\<And>a b x y. a \<in> set as \<Longrightarrow> b \<in> set bs \<Longrightarrow> stops x \<Longrightarrow> stops y \<Longrightarrow> f a @ x = f b @ y \<Longrightarrow> a = b \<and> x = y"
    and "\<And>a x. f a @ x \<noteq> e # r" "\<And>a x. f a @ x \<noteq> e # r'"
    and "e \<in> {CHR '']'', CHR ''}''}"
    and "commas (map f as) @ e # r = commas (map f bs) @ e # r'"
  shows "as = bs \<and> r = r'"
  using assms(1,5)
proof (induction as arbitrary: bs)
  case Nil
  show ?case
  proof (cases bs)
    case Nil
    with Nil.prems(2) show ?thesis by simp
  next
    case (Cons b bs')
    with Nil.prems(2) assms(2) [symmetric] show ?thesis by (simp add: commas_Cons)
  qed
next
  case (Cons a as)
  show ?case
  proof (cases bs)
    case Nil
    with Cons.prems(2) assms(3) show ?thesis by (simp add: commas_Cons)
  next
    case bs: (Cons b bs')
    let ?after = "\<lambda>ts r. (if ts = [] then [] else '','' @ commas ts) @ e # r"
    have stop: "stops (?after ts q)" for ts q using assms(4) by auto
    from Cons.prems(2) bs have eq: "f a @ ?after (map f as) r = f b @ ?after (map f bs') r'" by (simp add: commas_Cons)
    from Cons.prems(1) [OF _ _ stop stop eq] bs have ab: "a = b" "?after (map f as) r = ?after (map f bs') r'" by auto
    show ?thesis
    proof (cases "as = []")
      case True
      with ab(2) have "bs' = []" by (cases "bs' = []") (use assms(4) in auto)
      with True ab bs show ?thesis by simp
    next
      case False
      with ab(2) have "bs' \<noteq> []" by (cases "bs' = []") (use assms(4) in auto)
      with False ab have "commas (map f as) @ e # r = commas (map f bs') @ e # r'" by simp
      have "as = bs' \<and> r = r'"
      proof (rule Cons.IH [OF _ \<open>commas (map f as) @ e # r = commas (map f bs') @ e # r'\<close>])
        fix a' b' x y
        assume "a' \<in> set as" "b' \<in> set bs'" "stops x" "stops y" "f a' @ x = f b' @ y"
        then show "a' = b' \<and> x = y" by (intro Cons.prems(1)) (simp_all add: bs)
      qed
      with ab(1) bs show ?thesis by simp
    qed
  qed
qed

lemma field_det:
  assumes "\<And>x y. stops x \<Longrightarrow> stops y \<Longrightarrow> flat_text v @ x = flat_text w @ y \<Longrightarrow> v = w \<and> x = y"
    and "stops x" "stops y" and "json_field (map_prod id flat_text (k, v)) @ x = json_field (map_prod id flat_text (l, w)) @ y"
  shows "(k, v) = (l, w) \<and> x = y"
proof -
  from assms(4) have "json_string (pystr k) @ CHR '':'' # flat_text v @ x = json_string (pystr l) @ CHR '':'' # flat_text w @ y"
    by (simp add: json_field_def)
  from json_string_inj [OF pystr_scalar pystr_scalar this] have "pystr k = pystr l" "flat_text v @ x = flat_text w @ y" by auto
  with assms(1) [OF assms(2,3)] pystr_inj show ?thesis by blast
qed

lemma json_field_quote: "json_field kt @ x \<noteq> CHR '']'' # r" "json_field kt @ x \<noteq> CHR ''}'' # r"
  by (simp_all add: json_field_def json_string_def)

lemma flat_text_det:
  assumes "plain v" "plain w" "stops x" "stops y" and "flat_text v @ x = flat_text w @ y"
  shows "v = w \<and> x = y"
  using assms
proof (induction v arbitrary: w x y)
  case JNull
  with same_kind [OF JNull(5)] show ?case by (cases w) (auto split: if_splits)
next
  case (JBool b)
  with same_kind [OF JBool(5)] show ?case by (cases w) (auto split: if_splits)
next
  case (JInt i)
  with same_kind [OF JInt(5)] decimal_det show ?case by (cases w) (auto split: if_splits)
next
  case (JStr s)
  then show ?case by simp
next
  case (JDesc s)
  with same_kind [OF JDesc(5)] json_string_inj [of s _ x y] show ?case by (cases w) (auto split: if_splits)
next
  case (JList vs)
  from JList.prems(2) same_kind [OF JList.prems(5)] obtain ws where w: "w = JList ws"
    by (cases w) (auto split: if_splits)
  have item: "flat_text a @ q \<noteq> CHR '']'' # r" for a q r
    using flat_text_head(1,3) [of a] by (metis hd_append2 list.sel(1))
  have "vs = ws \<and> x = y"
  proof (rule commas_det [of vs ws flat_text "CHR '']''"])
    fix a b p q
    assume "a \<in> set vs" "b \<in> set ws" "stops p" "stops q" "flat_text a @ p = flat_text b @ q"
    with JList.IH [of a b p q] JList.prems(1,2) w show "a = b \<and> p = q" by (simp add: list_all_iff)
  qed (use item JList.prems(5) w in simp_all)
  with w show ?case by simp
next
  case (JObj kvs)
  from JObj.prems(2) same_kind [OF JObj.prems(5)] obtain lws where w: "w = JObj lws"
    by (cases w) (auto split: if_splits)
  have "kvs = lws \<and> x = y"
  proof (rule commas_det [of kvs lws "\<lambda>kv. json_field (map_prod id flat_text kv)" "CHR ''}''"])
    fix a b p q
    assume ab: "a \<in> set kvs" "b \<in> set lws" "stops p" "stops q"
      and eq: "json_field (map_prod id flat_text a) @ p = json_field (map_prod id flat_text b) @ q"
    obtain k v l u where kv: "a = (k, v)" "b = (l, u)" by (cases a, cases b)
    have "plain v" "plain u" using ab(1,2) JObj.prems(1,2) w kv by (force simp: list_all_iff)+
    with JObj.IH [of a v u] ab(1) kv(1) have "stops p \<Longrightarrow> stops q \<Longrightarrow> flat_text v @ p = flat_text u @ q \<Longrightarrow> v = u \<and> p = q" for p q by simp
    from field_det [OF this ab(3,4)] eq kv show "a = b \<and> p = q" by blast
  qed (use json_field_quote JObj.prems(5) w in \<open>simp_all add: comp_def\<close>)
  with w show ?case by simp
qed

section \<open>Lines\<close>

definition printable :: "char set" where
  "printable = {c. 32 \<le> (of_char c :: nat) \<and> (of_char c :: nat) < 127}"

lemma unicode_escape_printable: "set (unicode_escape n) \<subseteq> printable"
proof -
  have "hex_digit k \<in> printable" if "k < 16" for k
  proof -
    have "(of_char (hex_digit k) :: nat) = (if k < 10 then 48 + k else 87 + k)"
      unfolding hex_digit_def by (rule of_char_of) (use that in simp)
    with that show ?thesis by (simp add: printable_def)
  qed
  then show ?thesis by (simp add: unicode_escape_def) (simp add: printable_def)
qed

lemma json_char_printable: "set (json_char c) \<subseteq> printable"
proof (cases c rule: json_char_cases)
  case shown
  then have "(of_char (char_of c :: char) :: nat) = c" by (simp add: shown_def)
  with shown show ?thesis by (simp add: printable_def shown_def)
next
  case short
  have "CHR 0x5C \<in> printable" "escape_letter c \<in> printable" by (simp_all add: printable_def escape_letter_def)
  with short show ?thesis by simp
qed (simp_all add: unicode_escape_printable)

lemma json_string_printable: "set (json_string s) \<subseteq> printable"
  using json_char_printable by (auto simp: json_string_def) (simp add: printable_def)

lemma commas_printable: "(\<And>t. t \<in> set ts \<Longrightarrow> set t \<subseteq> printable) \<Longrightarrow> set (commas ts) \<subseteq> printable"
proof (induction ts)
  case (Cons t ts)
  then have "set (commas ts) \<subseteq> printable" "set t \<subseteq> printable" by auto
  then show ?case by (auto simp: commas_Cons) (simp_all add: printable_def)
qed simp

lemma flat_text_printable: "set (flat_text v) \<subseteq> printable"
proof (induction v)
  case (JInt i)
  have "insert (CHR ''-'') digit_chars \<subseteq> printable" by (auto simp: digit_chars_def printable_def)
  with decimal_chars(1) [of i] show ?case by auto
next
  case (JList vs)
  have "set (commas (map flat_text vs)) \<subseteq> printable" by (rule commas_printable) (use JList in auto)
  then show ?case by (simp add: printable_def)
next
  case (JObj kvs)
  have colon: "CHR '':'' \<in> printable" by (simp add: printable_def)
  have "set (json_field (map_prod id flat_text kv)) \<subseteq> printable" if "kv \<in> set kvs" for kv
    using JObj [OF that, of "snd kv"] json_string_printable colon by (cases kv) (auto simp: json_field_def)
  then have "set (commas (map json_field (map (map_prod id flat_text) kvs))) \<subseteq> printable" by (intro commas_printable) auto
  then show ?case by (simp add: printable_def)
qed (simp_all add: json_string_printable, simp_all add: printable_def)

lemma json_text_line: "CHR 0x0A \<notin> set (json_text v)"
  using flat_text_printable [of "canon v"] by (auto simp: json_text_flat printable_def)

lemma lines_det:
  assumes "\<And>r. r \<in> set rs \<union> set qs \<Longrightarrow> well_spelt (JObj r)"
    and "concat (map (\<lambda>r. json_text (JObj r) @ [CHR 0x0A]) rs) = concat (map (\<lambda>r. json_text (JObj r) @ [CHR 0x0A]) qs)"
  shows "map (\<lambda>r. canon (JObj r)) rs = map (\<lambda>r. canon (JObj r)) qs"
  using assms
proof (induction rs arbitrary: qs)
  case Nil
  then show ?case by (cases qs) simp_all
next
  case (Cons r rs)
  then obtain q qs' where qs: "qs = q # qs'" by (cases qs) auto
  let ?rest = "\<lambda>rs. CHR 0x0A # concat (map (\<lambda>r. json_text (JObj r) @ [CHR 0x0A]) rs)"
  from Cons.prems(2) qs have "flat_text (canon (JObj r)) @ ?rest rs = flat_text (canon (JObj q)) @ ?rest qs'"
    by (simp only: json_text_flat list.map concat.simps append_assoc append_Cons append_Nil)
  from flat_text_det [OF canon_plain canon_plain _ _ this] Cons.prems(1) qs
  have both: "canon (JObj r) = canon (JObj q)" "?rest rs = ?rest qs'" by auto
  from both(2) have "map (\<lambda>r. canon (JObj r)) rs = map (\<lambda>r. canon (JObj r)) qs'"
    by (intro Cons.IH) (use Cons.prems(1) qs in auto)
  with both(1) qs show ?case by (simp only: list.map)
qed

lemma same_lines:
  assumes "map (\<lambda>r. canon (JObj r)) rs = map (\<lambda>r. canon (JObj r)) qs"
  shows "map (\<lambda>r. json_text (JObj r) @ [CHR 0x0A]) rs = map (\<lambda>r. json_text (JObj r) @ [CHR 0x0A]) qs"
  using arg_cong [OF assms, of "map (\<lambda>v. flat_text v @ [CHR 0x0A])"] by (simp add: json_text_flat comp_def del: canon.simps)

lemma newlines: "length (filter ((=) (CHR 0x0A)) (concat (map (\<lambda>r. json_text (JObj r) @ [CHR 0x0A]) rs))) = length rs"
proof (induction rs)
  case (Cons r rs)
  have "filter ((=) (CHR 0x0A)) (json_text (JObj r)) = []" using json_text_line [of "JObj r"] by (auto simp: filter_empty_conv)
  with Cons show ?case by (simp del: json_text.simps)
qed simp

text \<open>The fields of a record may come in any order.\<close>

lemma canon_any_order:
  assumes "mset kvs = mset kvs'" and "distinct (map fst kvs)"
  shows "canon (JObj kvs) = canon (JObj kvs')"
proof -
  let ?xs = "map (map_prod id canon) kvs" and ?ys = "map (map_prod id canon) kvs'"
  have keys: "distinct (map fst ?xs)" "distinct (map fst ?ys)"
    using assms mset_eq_imp_distinct_iff [of "map fst kvs" "map fst kvs'"] by (simp_all add: comp_def)
  have same: "set ?xs = set ?ys" using mset_eq_setD [OF assms(1)] by simp
  have "sort_key fst ?xs = sort_key fst ?ys"
  proof (rule map_sorted_distinct_set_unique [of fst])
    show "inj_on fst (set (sort_key fst ?xs) \<union> set (sort_key fst ?ys))"
      using keys(1) same by (simp only: set_sort Un_absorb) (simp only: distinct_map)
    show "distinct (map fst (sort_key fst ?xs))" "distinct (map fst (sort_key fst ?ys))"
      using keys by (simp_all only: distinct_map set_sort distinct_sort)
  qed (use same in simp_all)
  then show ?thesis by simp
qed

section \<open>Properties\<close>

text \<open>
  C32. A trace file tells what happened: it has one line per record, and two traces have the same bytes exactly when
  they hold the same records, up to the order in which a record's fields were put in.
\<close>

theorem trace_bytes_decide:
  assumes "\<forall>r \<in> set rs \<union> set qs. well_spelt (JObj r)"
  shows "(tw_stream (write_all rs (open_trace (Some path))) = tw_stream (write_all qs (open_trace (Some path)))
      \<longleftrightarrow> map (\<lambda>r. canon (JObj r)) rs = map (\<lambda>r. canon (JObj r)) qs)
    \<and> length (filter ((=) (CHR 0x0A)) (tw_stream (write_all rs (open_trace (Some path))))) = length rs
      \<and> tw_lines (write_all rs (open_trace (Some path))) = int (length rs)"
proof (intro conjI)
  have new: "open_trace (Some path) = JsonlTrace [] 0" by (simp add: open_trace_def trace_target_of_def)
  show "tw_stream (write_all rs (open_trace (Some path))) = tw_stream (write_all qs (open_trace (Some path)))
      \<longleftrightarrow> map (\<lambda>r. canon (JObj r)) rs = map (\<lambda>r. canon (JObj r)) qs"
    using lines_det [of rs qs] same_lines [of rs qs] assms
    by (auto simp: new write_all_Jsonl simp del: canon.simps json_text.simps)
  show "length (filter ((=) (CHR 0x0A)) (tw_stream (write_all rs (open_trace (Some path))))) = length rs"
    using newlines [of rs] by (simp add: new write_all_Jsonl del: json_text.simps)
  show "tw_lines (write_all rs (open_trace (Some path))) = int (length rs)" by (simp add: new write_all_Jsonl)
qed

text \<open>Two records with a quoted character and one outside ASCII, their fields in other orders.\<close>

theorem trace_bytes_decide_witness:
  "let rs = [[(''kind'', JStr ''note''), (''text'', JDesc [34, 233])], [(''tick'', JInt (- 7)), (''on'', JBool True)]];
       qs = [[(''text'', JDesc [34, 233]), (''kind'', JStr ''note'')], [(''on'', JBool True), (''tick'', JInt (- 7))]];
       us = [[(''kind'', JStr ''note''), (''text'', JDesc [34, 234])], [(''tick'', JInt (- 7)), (''on'', JBool True)]]
   in tw_stream (write_all rs (open_trace (Some ''t''))) = tw_stream (write_all qs (open_trace (Some ''t'')))
     \<and> tw_stream (write_all rs (open_trace (Some ''t''))) \<noteq> tw_stream (write_all us (open_trace (Some ''t'')))"
proof -
  let ?rs = "[[(''kind'', JStr ''note''), (''text'', JDesc [34, 233])], [(''tick'', JInt (- 7)), (''on'', JBool True)]]"
  let ?qs = "[[(''text'', JDesc [34, 233]), (''kind'', JStr ''note'')], [(''on'', JBool True), (''tick'', JInt (- 7))]]"
  let ?us = "[[(''kind'', JStr ''note''), (''text'', JDesc [34, 234])], [(''tick'', JInt (- 7)), (''on'', JBool True)]]"
  have spelt: "\<forall>r \<in> set ?rs \<union> set ?qs. well_spelt (JObj r)" "\<forall>r \<in> set ?rs \<union> set ?us. well_spelt (JObj r)"
    by (simp_all add: is_scalar_def)
  have "map (\<lambda>r. canon (JObj r)) ?rs = map (\<lambda>r. canon (JObj r)) ?qs"
    "map (\<lambda>r. canon (JObj r)) ?rs \<noteq> map (\<lambda>r. canon (JObj r)) ?us" by code_simp+
  with trace_bytes_decide [OF spelt(1), of "''t''"] trace_bytes_decide [OF spelt(2), of "''t''"]
  show ?thesis unfolding Let_def by blast
qed

end
