(* ===== verification/Command_Line.thy ===== *)
theory Command_Line
  imports Trace_File Demo_Props Naive World_Safety
begin

text \<open>
  The command line, \<^verbatim>\<open>groundhog/cli.py\<close> and \<^verbatim>\<open>groundhog/__main__.py\<close>: what the four commands run, print and answer to
  the shell, from the arguments as \<^verbatim>\<open>argparse\<close> hands them over, and the restart that fixes the hash seed. A printed line
  is the value it is made of (\<open>printed\<close>), a trace is kept with the place it goes to. \<open>streams\<close> stands for
  \<^verbatim>\<open>random.Random\<close>: the words that a seed gives. Shown: a scan of seeds reports exactly the runs that violate
  something, the command line printed for a replay drops the mutation, and the process restarts itself at most once.
\<close>

declare block.simps [simp del]

section \<open>The hash seed\<close>

definition REQUIRED_HASH_SEED :: string where "REQUIRED_HASH_SEED = ''0''"
definition REEXEC_MARKER :: string where "REEXEC_MARKER = ''GROUNDHOG_REEXECED''"
definition HASH_SEED_VAR :: string where "HASH_SEED_VAR = ''PYTHONHASHSEED''"

type_synonym environment = "string \<Rightarrow> string option"

datatype startup = Proceeds | Refuses exn | Restarts environment

definition ensure_deterministic_hashing :: "environment \<Rightarrow> startup" where
  "ensure_deterministic_hashing env =
     (if env HASH_SEED_VAR = Some REQUIRED_HASH_SEED then Proceeds
      else if env REEXEC_MARKER = Some ''1'' then Refuses RuntimeError
      else Restarts (env(HASH_SEED_VAR \<mapsto> REQUIRED_HASH_SEED, REEXEC_MARKER \<mapsto> ''1'')))"

definition reexec_argv :: "string list \<Rightarrow> string list \<Rightarrow> string list" where
  "reexec_argv orig_argv argv =
     (if orig_argv \<noteq> [] then drop 1 orig_argv else [''-m'', ''groundhog''] @ drop 1 argv)"

text \<open>
  The exit status of a process started in an environment. \<open>give_env\<close> is what the system makes of the environment a
  process asks for its child; an uncaught exception is status 1. The depth bounds the children of children.
\<close>

fun process_status :: "(environment \<Rightarrow> environment) \<Rightarrow> (environment \<Rightarrow> int) \<Rightarrow> nat \<Rightarrow> environment \<Rightarrow> int option" where
  "process_status give_env command 0 env = None"
| "process_status give_env command (Suc depth) env =
     (case ensure_deterministic_hashing env of
        Proceeds \<Rightarrow> Some (command env)
      | Refuses _ \<Rightarrow> Some 1
      | Restarts env' \<Rightarrow> process_status give_env command depth (give_env env'))"

section \<open>Arguments\<close>

definition DEFAULT_SEED :: int where "DEFAULT_SEED = 4471"
definition DEMO_NODES :: int where "DEMO_NODES = 3"
definition NAIVE_WRITES :: int where "NAIVE_WRITES = 40"
definition NAIVE_KEYS :: int where "NAIVE_KEYS = 3"
definition RAFT_KEYS :: int where "RAFT_KEYS = 3"
definition REPLICATOR_IMPLEMENTED :: bool where "REPLICATOR_IMPLEMENTED = True"
definition RAFT_IMPLEMENTED :: bool where "RAFT_IMPLEMENTED = True"

record demo_args =
  da_seed :: int
  da_trace :: "string option"
  da_ms :: int
  da_nodes :: int
  da_faults :: string

record naive_args =
  na_seed :: int
  na_scan :: "string option"
  na_faults :: string
  na_writes :: int
  na_keys :: int
  na_trace :: "string option"

record raft_args =
  ra_seed :: int
  ra_faults :: string
  ra_writes :: int
  ra_trace :: "string option"
  ra_scan :: "string option"
  ra_mutate :: string
  ra_no_check :: bool

text \<open>What a command gets when no option is given.\<close>

definition demo_defaults :: demo_args where
  "demo_defaults = \<lparr>da_seed = DEFAULT_SEED, da_trace = None, da_ms = 1000, da_nodes = DEMO_NODES, da_faults = ''quiet''\<rparr>"

definition naive_defaults :: naive_args where
  "naive_defaults = \<lparr>na_seed = DEFAULT_SEED, na_scan = None, na_faults = ''quiet'', na_writes = NAIVE_WRITES,
     na_keys = NAIVE_KEYS, na_trace = None\<rparr>"

definition raft_defaults :: raft_args where
  "raft_defaults = \<lparr>ra_seed = DEFAULT_SEED, ra_faults = ''quiet'', ra_writes = 20, ra_trace = None, ra_scan = None,
     ra_mutate = ''none'', ra_no_check = False\<rparr>"

datatype namespace = NoCommand | DemoCommand demo_args | NaiveCommand naive_args | RaftCommand raft_args

section \<open>What the console shows\<close>

datatype printed =
  NotWritten
| DemoRan run_result string
| DemoNetwork int int
| DemoScheduled nat nat
| DemoCount NodeId int nat
| NaiveSummary naive_result
| NotTrustworthy
| NaiveStore NodeId "(pystr \<times> pystr) list"
| Diverged divergence
| LostLine lost_write
| SeedsBroke int int string
| RaftSummary raft_result
| ViolationLine violation
| ReplayLine violation string
| NotSettled
| RaftStore NodeId Index "(pystr \<times> pystr) list"
| SeedsViolated int int string
| MutationActive string
| HelpText

datatype run_trace = DemoTrace "demo_described jrecord list" | NaiveTrace "naive_described jrecord list"
  | RaftTrace "described jrecord list"

record console =
  lines_out :: "printed list"
  traced :: "(trace_target \<times> run_trace) list"

definition print_out :: "printed list \<Rightarrow> console stmt" where
  "print_out ls = modify (\<lambda>c. c\<lparr>lines_out := lines_out c @ ls\<rparr>)"

definition leave_trace :: "string option \<Rightarrow> run_trace \<Rightarrow> console \<Rightarrow> console" where
  "leave_trace spec tr c = c\<lparr>traced := traced c @ [(trace_target_of spec, tr)]\<rparr>"

text \<open>\<^verbatim>\<open>with open_trace(spec) as trace\<close> around a run, and a run with a \<^verbatim>\<open>NullTrace\<close>.\<close>

definition with_trace :: "('w \<Rightarrow> run_trace) \<Rightarrow> string option \<Rightarrow> ('r, 'w) outcome \<Rightarrow> ('r \<times> 'w, console) py" where
  "with_trace tr spec out c =
     (case out of Done r w \<Rightarrow> Done (r, w) (leave_trace spec (tr w) c)
      | Raised e w \<Rightarrow> Raised e (leave_trace spec (tr w) c) | Diverges \<Rightarrow> Diverges)"

definition untraced :: "('r, 'w) outcome \<Rightarrow> ('r, console) py" where
  "untraced out c = (case out of Done r _ \<Rightarrow> Done r c | Raised e _ \<Rightarrow> Raised e c | Diverges \<Rightarrow> Diverges)"

section \<open>A range of seeds\<close>

definition is_py_space :: "char \<Rightarrow> bool" where
  "is_py_space ch \<longleftrightarrow> (let n = of_char ch :: nat in (9 \<le> n \<and> n \<le> 13) \<or> (28 \<le> n \<and> n \<le> 32) \<or> n = 133 \<or> n = 160)"

definition py_strip :: "string \<Rightarrow> string" where
  "py_strip s = rev (dropWhile is_py_space (rev (dropWhile is_py_space s)))"

definition is_digit :: "char \<Rightarrow> bool" where
  "is_digit ch \<longleftrightarrow> (let n = of_char ch :: nat in 48 \<le> n \<and> n < 58)"

text \<open>Digits with single underscores between them.\<close>

fun digit_groups :: "string \<Rightarrow> bool" where
  "digit_groups [] = False"
| "digit_groups [c] = is_digit c"
| "digit_groups (c # d # s) = (is_digit c \<and> (if d = CHR ''_'' then digit_groups s else digit_groups (d # s)))"

definition INT_MAX_STR_DIGITS :: nat where "INT_MAX_STR_DIGITS = 4300"

definition py_int :: "string \<Rightarrow> exn + int" where
  "py_int s =
     (let t = py_strip s;
          body = (if t \<noteq> [] \<and> hd t \<in> {CHR ''-'', CHR ''+''} then tl t else t);
          ds = filter is_digit body
      in if digit_groups body \<and> length ds \<le> INT_MAX_STR_DIGITS
         then Inr ((if hd t = CHR ''-'' then -1 else 1) * int (digits_value ds)) else Inl ValueError)"

text \<open>\<^verbatim>\<open>start, _, stop = scan.partition(":")\<close> and \<^verbatim>\<open>range(int(start), int(stop))\<close>.\<close>

definition scan_range :: "string \<Rightarrow> exn + int list" where
  "scan_range scan =
     (case py_int (takeWhile (\<lambda>c. c \<noteq> CHR '':'') scan) of Inl e \<Rightarrow> Inl e
      | Inr start \<Rightarrow> (case py_int (drop 1 (dropWhile (\<lambda>c. c \<noteq> CHR '':'') scan)) of Inl e \<Rightarrow> Inl e
          | Inr stop \<Rightarrow> Inr [start..stop - 1]))"

primrec scan_over :: "(int \<Rightarrow> ('r, console) py) \<Rightarrow> ('r \<Rightarrow> bool) \<Rightarrow> ('r \<Rightarrow> printed list) \<Rightarrow> int list \<Rightarrow>
    int \<Rightarrow> int \<Rightarrow> (int \<times> int, console) py" where
  "scan_over run bad report [] broken checked = ret (broken, checked)"
| "scan_over run bad report (sd # seeds) broken checked =
     bind (run sd) (\<lambda>r.
       if bad r then bind (print_out (report r)) (\<lambda>_. scan_over run bad report seeds (broken + 1) (checked + 1))
       else scan_over run bad report seeds broken (checked + 1))"

section \<open>The commands\<close>

definition cmd_demo :: "(int \<Rightarrow> nat \<Rightarrow> 32 word) \<Rightarrow> demo_args \<Rightarrow> (int, console) py" where
  "cmd_demo streams args =
     bind (of_sum (profile_by_name (da_faults args))) (\<lambda>profile.
     bind (with_trace (\<lambda>w. DemoTrace (trace w)) (da_trace args)
        (run_demo (streams (da_seed args)) (da_seed args) (da_nodes args) profile (da_ms args * MILLISECOND))) (\<lambda>(result, w).
     bind (print_out
        ([DemoRan result (fp_name profile), DemoNetwork (delivered w) (dropped w),
          DemoScheduled (length (fs_partitions (fault_plan w))) (length (fs_outages (fault_plan w)))]
         @ map (\<lambda>(n, m, d). DemoCount n (dn_pongs m) (length (durable_records d))) (sort_key fst (hosts w)))) (\<lambda>_.
     ret 0)))"

definition naive_bad :: "naive_result \<Rightarrow> bool" where
  "naive_bad r \<longleftrightarrow> \<not> (nr_agrees r \<and> kept_its_promises r)"

definition scan_seeds :: "(int \<Rightarrow> nat \<Rightarrow> 32 word) \<Rightarrow> naive_args \<Rightarrow> string \<Rightarrow> string \<Rightarrow> (int, console) py" where
  "scan_seeds streams args scan profile_name =
     bind (of_sum (profile_by_name (na_faults args))) (\<lambda>profile.
     bind (of_sum (scan_range scan)) (\<lambda>seeds.
     bind (scan_over (\<lambda>sd. untraced (run_naive (streams sd) sd profile (na_writes args) (na_keys args)))
            naive_bad (\<lambda>r. [NaiveSummary r]) seeds 0 0) (\<lambda>(broken, checked).
     bind (print_out [SeedsBroke broken checked profile_name]) (\<lambda>_.
     ret (if broken \<noteq> 0 then 1 else 0)))))"

definition cmd_naive :: "(int \<Rightarrow> nat \<Rightarrow> 32 word) \<Rightarrow> naive_args \<Rightarrow> (int, console) py" where
  "cmd_naive streams args =
     (if \<not> REPLICATOR_IMPLEMENTED then bind (print_out [NotWritten]) (\<lambda>_. ret 2)
      else bind (of_sum (profile_by_name (na_faults args))) (\<lambda>profile.
        case na_scan args of Some scan \<Rightarrow> scan_seeds streams args scan (fp_name profile)
        | None \<Rightarrow>
            bind (with_trace (\<lambda>w. NaiveTrace (trace w)) (na_trace args)
               (run_naive (streams (na_seed args)) (na_seed args) profile (na_writes args) (na_keys args))) (\<lambda>(result, _).
            bind (print_out
               ([NaiveSummary result] @ (if nr_quiescent result then [] else [NotTrustworthy])
                @ map (\<lambda>(n, s). NaiveStore n s) (sort_key fst (nr_stores result))
                @ map Diverged (nr_divergences result) @ map LostLine (nr_lost result))) (\<lambda>_.
            ret (if nr_agrees result \<and> kept_its_promises result then 0 else 1)))))"

text \<open>The run that \<^verbatim>\<open>raft\<close> makes of a seed.\<close>

definition raft_run_of :: "(int \<Rightarrow> nat \<Rightarrow> 32 word) \<Rightarrow> raft_args \<Rightarrow> fault_profile \<Rightarrow> int \<Rightarrow> (raft_result, raft_world) outcome" where
  "raft_run_of streams args profile sd =
     run_raft (streams sd) sd profile (ra_writes args) RAFT_KEYS (\<not> ra_no_check args) 1 (ra_mutate args)"

definition scan_raft_seeds :: "(int \<Rightarrow> nat \<Rightarrow> 32 word) \<Rightarrow> raft_args \<Rightarrow> string \<Rightarrow> fault_profile \<Rightarrow> (int, console) py" where
  "scan_raft_seeds streams args scan profile =
     bind (of_sum (scan_range scan)) (\<lambda>seeds.
     bind (scan_over (\<lambda>sd. untraced (raft_run_of streams args profile sd))
            (\<lambda>r. res_violations r \<noteq> [])
            (\<lambda>r. [ViolationLine (hd (res_violations r)), ReplayLine (hd (res_violations r)) (ra_faults args)]) seeds 0 0) (\<lambda>(broken, checked).
     bind (print_out ([SeedsViolated broken checked (fp_name profile)]
            @ (if ra_mutate args \<noteq> ''none'' then [MutationActive (ra_mutate args)] else []))) (\<lambda>_.
     ret (if broken \<noteq> 0 then 1 else 0))))"

definition cmd_raft :: "(int \<Rightarrow> nat \<Rightarrow> 32 word) \<Rightarrow> raft_args \<Rightarrow> (int, console) py" where
  "cmd_raft streams args =
     (if \<not> RAFT_IMPLEMENTED then bind (print_out [NotWritten]) (\<lambda>_. ret 2)
      else bind (of_sum (profile_by_name (ra_faults args))) (\<lambda>profile.
        case ra_scan args of Some scan \<Rightarrow> scan_raft_seeds streams args scan profile
        | None \<Rightarrow>
            bind (with_trace (\<lambda>w. RaftTrace (trace w)) (ra_trace args) (raft_run_of streams args profile (ra_seed args))) (\<lambda>(result, _).
            bind (print_out
               ([RaftSummary result]
                @ concat (map (\<lambda>v. [ViolationLine v, ReplayLine v (ra_faults args)]) (res_violations result))
                @ (if res_violations result = [] \<and> \<not> res_quiescent result then [NotSettled] else []))) (\<lambda>_.
            bind (for_each (sort_key fst (res_stores result)) (\<lambda>(n, s) c.
               case map_of (res_committed result) n of None \<Rightarrow> Raised KeyError c
               | Some i \<Rightarrow> print_out [RaftStore n i s] c)) (\<lambda>_.
            ret (if res_violations result \<noteq> [] then 1 else 0))))))"

definition cli_main :: "(int \<Rightarrow> nat \<Rightarrow> 32 word) \<Rightarrow> namespace \<Rightarrow> (int, console) py" where
  "cli_main streams ns =
     (case ns of NoCommand \<Rightarrow> bind (print_out [HelpText]) (\<lambda>_. ret 0)
      | DemoCommand args \<Rightarrow> cmd_demo streams args
      | NaiveCommand args \<Rightarrow> cmd_naive streams args
      | RaftCommand args \<Rightarrow> cmd_raft streams args)"

text \<open>The command that \<^verbatim>\<open>violation.reproduce(faults=...)\<close> spells out, as the parser reads it.\<close>

definition reproduce :: "violation \<Rightarrow> string \<Rightarrow> namespace" where
  "reproduce v faults = RaftCommand (raft_defaults\<lparr>ra_seed := v_seed v, ra_faults := faults,
     ra_trace := Some (''violation-'' @ decimal (v_seed v) @ ''.jsonl'')\<rparr>)"

section \<open>A scan\<close>

lemma untraced_Done: "untraced out c = Done r c' \<longleftrightarrow> c' = c \<and> (\<exists>w. out = Done r w)"
  by (auto simp: untraced_def split: outcome.splits)

text \<open>What a run of a seed leaves, for a scan that comes to its end.\<close>

definition result_of :: "('r, 'w) outcome \<Rightarrow> 'r option" where
  "result_of out = (case out of Done r _ \<Rightarrow> Some r | _ \<Rightarrow> None)"

definition run_is :: "('r \<Rightarrow> bool) \<Rightarrow> ('r, 'w) outcome \<Rightarrow> bool" where
  "run_is bad out \<longleftrightarrow> (case result_of out of None \<Rightarrow> False | Some r \<Rightarrow> bad r)"

lemma scan_over_Done:
  assumes "scan_over (\<lambda>sd. untraced (out sd)) bad report seeds b k c = Done (b', k') c'"
  shows "b' = b + int (length (filter (\<lambda>sd. run_is bad (out sd)) seeds))" and "k' = k + int (length seeds)"
    and "lines_out c' = lines_out c @ concat (map (\<lambda>sd. report (the (result_of (out sd)))) (filter (\<lambda>sd. run_is bad (out sd)) seeds))"
    and "traced c' = traced c" and "\<And>sd. sd \<in> set seeds \<Longrightarrow> result_of (out sd) \<noteq> None"
proof -
  have "b' = b + int (length (filter (\<lambda>sd. run_is bad (out sd)) seeds)) \<and> k' = k + int (length seeds)
    \<and> lines_out c' = lines_out c @ concat (map (\<lambda>sd. report (the (result_of (out sd)))) (filter (\<lambda>sd. run_is bad (out sd)) seeds))
    \<and> traced c' = traced c \<and> (\<forall>sd \<in> set seeds. result_of (out sd) \<noteq> None)"
    using assms
  proof (induction seeds arbitrary: b k c)
    case Nil
    then show ?case by (simp add: ret_def)
  next
    case (Cons sd seeds)
    then obtain r w where r: "out sd = Done r w"
      and rest: "(if bad r then bind (print_out (report r)) (\<lambda>_. scan_over (\<lambda>sd. untraced (out sd)) bad report seeds (b + 1) (k + 1))
        else scan_over (\<lambda>sd. untraced (out sd)) bad report seeds b (k + 1)) c = Done (b', k') c'"
      by (auto simp: untraced_Done)
    then have is_bad: "run_is bad (out sd) = bad r" "result_of (out sd) = Some r" by (simp_all add: run_is_def result_of_def)
    show ?case
    proof (cases "bad r")
      case True
      with rest have "scan_over (\<lambda>sd. untraced (out sd)) bad report seeds (b + 1) (k + 1) (c\<lparr>lines_out := lines_out c @ report r\<rparr>)
          = Done (b', k') c'" by (auto simp: print_out_def modify_Done)
      from Cons.IH [OF this] True is_bad show ?thesis by simp
    next
      case False
      with rest have "scan_over (\<lambda>sd. untraced (out sd)) bad report seeds b (k + 1) c = Done (b', k') c'" by simp
      from Cons.IH [OF this] False is_bad show ?thesis by simp
    qed
  qed
  then show "b' = b + int (length (filter (\<lambda>sd. run_is bad (out sd)) seeds))" "k' = k + int (length seeds)"
    "lines_out c' = lines_out c @ concat (map (\<lambda>sd. report (the (result_of (out sd)))) (filter (\<lambda>sd. run_is bad (out sd)) seeds))"
    "traced c' = traced c" "\<And>sd. sd \<in> set seeds \<Longrightarrow> result_of (out sd) \<noteq> None" by blast+
qed

section \<open>Properties\<close>

definition violates :: "(raft_result, raft_world) outcome \<Rightarrow> bool" where
  "violates = run_is (\<lambda>r. res_violations r \<noteq> [])"

definition first_violation :: "(raft_result, raft_world) outcome \<Rightarrow> violation" where
  "first_violation out = hd (res_violations (the (result_of out)))"

text \<open>
  C30. A scan is exact: a seed scan that ends has run every seed of its range, answers the shell with 1 exactly when
  some run violated an invariant and with 0 otherwise, prints the first violation of every such run with the line to
  replay it, in the order of the seeds, and then the two counts.
\<close>

theorem scan_is_exact:
  assumes "scan_raft_seeds streams args scan profile c = Done code c'"
  shows "\<exists>seeds bad. scan_range scan = Inr seeds \<and> bad = filter (\<lambda>sd. violates (raft_run_of streams args profile sd)) seeds
    \<and> list_all (\<lambda>sd. result_of (raft_run_of streams args profile sd) \<noteq> None) seeds \<and> code = (if bad = [] then 0 else 1)
    \<and> lines_out c' = lines_out c
        @ concat (map (\<lambda>sd. [ViolationLine (first_violation (raft_run_of streams args profile sd)),
             ReplayLine (first_violation (raft_run_of streams args profile sd)) (ra_faults args)]) bad)
        @ [SeedsViolated (int (length bad)) (int (length seeds)) (fp_name profile)]
        @ (if ra_mutate args \<noteq> ''none'' then [MutationActive (ra_mutate args)] else [])"
proof -
  let ?run = "raft_run_of streams args profile"
  from assms(1) obtain seeds b k c1 where seeds: "scan_range scan = Inr seeds"
    and loop: "scan_over (\<lambda>sd. untraced (?run sd)) (\<lambda>r. res_violations r \<noteq> [])
       (\<lambda>r. [ViolationLine (hd (res_violations r)), ReplayLine (hd (res_violations r)) (ra_faults args)]) seeds 0 0 c = Done (b, k) c1"
    and c': "c' = c1\<lparr>lines_out := lines_out c1 @ [SeedsViolated b k (fp_name profile)]
        @ (if ra_mutate args \<noteq> ''none'' then [MutationActive (ra_mutate args)] else [])\<rparr>" "code = (if b \<noteq> 0 then 1 else 0)"
    by (cases "scan_range scan") (auto simp: scan_raft_seeds_def print_out_def modify_Done of_sum_def ret_def raise_def)
  note S = scan_over_Done [OF loop]
  show ?thesis
    by (intro exI [of _ seeds] exI conjI refl seeds)
      (use S c' in \<open>auto simp: first_violation_def violates_def list_all_iff\<close>)
qed

text \<open>A scan of one seed, with a client that writes nothing.\<close>

definition scan_example :: raft_args where
  "scan_example = raft_defaults\<lparr>ra_faults := ''perfect'', ra_writes := - 12\<rparr>"

lemma seeds_example: "scan_range ''0:1'' = Inr [0]"
  by code_simp

lemma scan_example_run:
  obtains res w where "raft_run_of (\<lambda>_ _. 0) scan_example perfect_profile 0 = Done res w"
  by (simp add: raft_run_of_def scan_example_def raft_defaults_def RAFT_KEYS_def run_raft_def raft_run_def raft_start_def
      client_issue_def injector_arm_def sim_run_def run_loop_def sim_loop_unfold sim_turn_def peek_tick_def
      drop_cancelled_head_def raft_verdict_def leader_ids_def eval_defs cluster_defs node_defs del: py_done)

theorem scan_is_exact_witness:
  "\<exists>code c'. scan_raft_seeds (\<lambda>_ _. 0) scan_example ''0:1'' perfect_profile \<lparr>lines_out = [], traced = []\<rparr> = Done code c'
     \<and> (code = 0 \<longleftrightarrow> SeedsViolated 0 1 ''perfect'' \<in> set (lines_out c'))"
proof -
  let ?c = "\<lparr>lines_out = [], traced = []\<rparr>" and ?scan = "scan_raft_seeds (\<lambda>_ _. 0) scan_example ''0:1'' perfect_profile"
  obtain res w where "raft_run_of (\<lambda>_ _. 0) scan_example perfect_profile 0 = Done res w" by (rule scan_example_run)
  then obtain code c' where run: "?scan ?c = Done code c'"
    by (cases "res_violations res = []")
      (simp_all add: scan_raft_seeds_def seeds_example of_sum_def ret_def bind_def untraced_def print_out_def modify_def)
  from scan_is_exact [OF run] seeds_example have "code = 0 \<longleftrightarrow> SeedsViolated 0 1 ''perfect'' \<in> set (lines_out c')"
    by (auto simp: perfect_profile_def split: if_splits)
  with run show ?thesis by blast
qed

text \<open>
  C31. The line printed to replay a violation does not always replay it: it leaves out the mutation, and without the
  mutation no run reports a violation of State Machine Safety. So the replay of such a violation, which only a mutated
  run can have reported, never shows it.
\<close>

theorem replay_forgets_mutation:
  "valid (\<lambda>c. lines_out c = []) (cli_main streams (reproduce (Violation ''state_machine_safety'' sd t what) faults))
     (\<lambda>_ c. ViolationLine (Violation ''state_machine_safety'' sd t what) \<notin> set (lines_out c))
     (\<lambda>_ c. ViolationLine (Violation ''state_machine_safety'' sd t what) \<notin> set (lines_out c))"
proof -
  let ?line = "ViolationLine (Violation ''state_machine_safety'' sd t what)"
  let ?ok = "\<lambda>c. ?line \<notin> set (lines_out c)"
  obtain args where args: "reproduce (Violation ''state_machine_safety'' sd t what) faults = RaftCommand args"
    "ra_mutate args = ''none''" "ra_scan args = None"
    by (simp add: reproduce_def raft_defaults_def)
  let ?quiet = "\<lambda>(res, w) c. lines_out c = [] \<and> (\<forall>v \<in> set (res_violations res). v_checker v \<noteq> ''state_machine_safety'')"
  have run: "valid (\<lambda>c. lines_out c = []) (with_trace (\<lambda>w. RaftTrace (trace w)) (ra_trace args) (raft_run_of streams args profile s))
      ?quiet (\<lambda>_. ?ok)" for profile s
    using machines_quiet [of "streams s" s profile "ra_writes args" RAFT_KEYS "\<not> ra_no_check args" 1]
    by (auto simp: valid_def with_trace_def leave_trace_def raft_run_of_def args split: outcome.splits)
  have shown: "valid (?quiet rw) (print_out (f (fst rw))) (\<lambda>_. ?ok) (\<lambda>_. ?ok)"
    if "\<And>res. ?line \<in> set (f res) \<Longrightarrow> Violation ''state_machine_safety'' sd t what \<in> set (res_violations res)" for rw f
    unfolding print_out_def by (rule valid_modify) (use that in \<open>force split: prod.splits\<close>)
  have stores: "valid ?ok (for_each ns (\<lambda>(n, s) c. case map_of cs n of None \<Rightarrow> Raised KeyError c
      | Some i \<Rightarrow> print_out [RaftStore n i s] c)) (\<lambda>_. ?ok) (\<lambda>_. ?ok)" for ns cs
    by (rule valid_for_each) (auto simp: valid_def print_out_def modify_def split: option.splits)
  have "valid (\<lambda>c. lines_out c = []) (cmd_raft streams args) (\<lambda>_. ?ok) (\<lambda>_. ?ok)"
  proof -
    have named: "valid (\<lambda>c. lines_out c = []) (of_sum r) (\<lambda>_ c. lines_out c = []) (\<lambda>_. ?ok)" for r :: "exn + fault_profile"
      by (auto simp: valid_def of_sum_def ret_def raise_def split: sum.splits)
    have done_with: "valid ?ok (ret code) (\<lambda>_. ?ok) (\<lambda>_. ?ok)" for code :: int by (rule valid_ret)
    show ?thesis
      unfolding cmd_raft_def RAFT_IMPLEMENTED_def args(3) option.case not_True_eq_False if_False
    proof (rule valid_bind [OF named], rule valid_bind [OF run])
      fix rw :: "raft_result \<times> raft_world"
      obtain res w where rw: "rw = (res, w)" by (cases rw)
      let ?out = "\<lambda>result. [RaftSummary result]
                @ concat (map (\<lambda>v. [ViolationLine v, ReplayLine v (ra_faults args)]) (res_violations result))
                @ (if res_violations result = [] \<and> \<not> res_quiescent result then [NotSettled] else [])"
      have part: "valid (?quiet rw) (print_out (?out (fst rw))) (\<lambda>_. ?ok) (\<lambda>_. ?ok)"
        by (rule shown) (auto split: if_splits)
      have first: "valid (\<lambda>c. lines_out c = [] \<and> (\<forall>v \<in> set (res_violations res). v_checker v \<noteq> ''state_machine_safety''))
          (print_out (?out res)) (\<lambda>_. ?ok) (\<lambda>_. ?ok)"
        using part by (simp only: rw fst_conv prod.case)
      show "valid (?quiet rw) (case rw of (result, _) \<Rightarrow> bind (print_out (?out result)) (\<lambda>_.
            bind (for_each (sort_key fst (res_stores result)) (\<lambda>(n, s) c.
               case map_of (res_committed result) n of None \<Rightarrow> Raised KeyError c
               | Some i \<Rightarrow> print_out [RaftStore n i s] c)) (\<lambda>_.
            ret (if res_violations result \<noteq> [] then 1 else 0 :: int)))) (\<lambda>_. ?ok) (\<lambda>_. ?ok)"
        unfolding rw prod.case
        by (rule valid_bind [OF first], rule valid_bind, rule stores, rule done_with)
    qed
  qed
  then show ?thesis by (simp add: cli_main_def args(1))
qed

text \<open>
  C33. The hash seed is settled before anything runs, and without restarting for ever: where the system hands a child the
  marker it was given, a process restarts at most once, whatever else the system does to the environment; the command
  then runs with the hash seed that replay needs, or not at all.
\<close>

theorem hash_seed_settled:
  assumes "\<And>env. give_env env REEXEC_MARKER = env REEXEC_MARKER"
  shows "\<exists>status. process_status give_env command 2 env = Some status
    \<and> (status = 1 \<or> (\<exists>e. e HASH_SEED_VAR = Some REQUIRED_HASH_SEED \<and> status = command e))"
proof -
  let ?child = "give_env (env(HASH_SEED_VAR \<mapsto> REQUIRED_HASH_SEED, REEXEC_MARKER \<mapsto> ''1''))"
  have "?child REEXEC_MARKER = Some ''1''" by (simp add: assms)
  then show ?thesis
    by (auto simp: numeral_2_eq_2 ensure_deterministic_hashing_def)
qed

text \<open>A system that hands every variable on, and one that strips the hash seed.\<close>

theorem hash_seed_settled_witness:
  "process_status (\<lambda>e. e) (\<lambda>e. if e HASH_SEED_VAR = Some ''0'' then 0 else 7) 2 Map.empty = Some 0
     \<and> (\<exists>status. process_status (\<lambda>e. e(HASH_SEED_VAR := None)) (\<lambda>e. if e HASH_SEED_VAR = Some ''0'' then 0 else 7) 2 Map.empty
           = Some status \<and> status \<in> {0, 1})"
proof -
  have "REEXEC_MARKER \<noteq> HASH_SEED_VAR" by (simp add: REEXEC_MARKER_def HASH_SEED_VAR_def)
  then have "\<And>env. (env(HASH_SEED_VAR := None)) REEXEC_MARKER = env REEXEC_MARKER" for env :: environment by simp
  from hash_seed_settled [of "\<lambda>e. e(HASH_SEED_VAR := None)" "\<lambda>e. if e HASH_SEED_VAR = Some ''0'' then 0 else 7" Map.empty, OF this]
  have "\<exists>status. process_status (\<lambda>e. e(HASH_SEED_VAR := None)) (\<lambda>e. if e HASH_SEED_VAR = Some ''0'' then 0 else 7) 2 Map.empty
           = Some status \<and> status \<in> {0, 1}" by (auto simp: REQUIRED_HASH_SEED_def)
  moreover have "process_status (\<lambda>e. e) (\<lambda>e. if e HASH_SEED_VAR = Some ''0'' then 0 else 7) 2 Map.empty = Some 0"
    by (simp add: numeral_2_eq_2 ensure_deterministic_hashing_def REQUIRED_HASH_SEED_def REEXEC_MARKER_def HASH_SEED_VAR_def)
  ultimately show ?thesis by blast
qed

end
