(* ===== verification/Spec2Isabelle.thy ===== *)
theory Spec2Isabelle
  imports Sim_World Naive_Props File_Storage World_Safety Odd_Runs Node_Elects Demo_Props Trace_File Command_Line
begin

text \<open>
  A verification development for Groundhog, a Raft key-value store that runs inside a deterministic simulator. Paths
  below are relative to \<^verbatim>\<open>src/groundhog\<close>.

  \<^bold>\<open>The program.\<close> A Raft node (\<^verbatim>\<open>raft/node.py\<close>) handles messages and timeouts. It keeps a log (\<^verbatim>\<open>log.py\<close>) and a key-value
  store (\<^verbatim>\<open>kv.py\<close>), writes records of its term, vote and log to a storage (\<^verbatim>\<open>raft/persist.py\<close>, framed by \<^verbatim>\<open>codec.py\<close>) and
  sends messages (\<^verbatim>\<open>messages.py\<close>). Everything it touches is simulated: a seeded generator (\<^verbatim>\<open>sim/rng.py\<close>), an event queue
  (\<^verbatim>\<open>sim/event.py\<close>), a clock (\<^verbatim>\<open>clock.py\<close>), a network that drops, delays, duplicates and splits (\<^verbatim>\<open>sim/net.py\<close>), a disk that
  loses and tears what is not synced (\<^verbatim>\<open>sim/disk.py\<close>), and a schedule of crashes, hangs and partitions (\<^verbatim>\<open>sim/faults.py\<close>).
  \<^verbatim>\<open>sim/world.py\<close> is the loop that fires events; \<^verbatim>\<open>raft/world.py\<close> puts three nodes, their disks and a client into it and lets
  the checkers of \<^verbatim>\<open>invariants/\<close> look after every event. \<^verbatim>\<open>naive/\<close> is replication done wrong on the same simulator,
  \<^verbatim>\<open>sim/demo.py\<close> nodes that only ping each other, \<^verbatim>\<open>storage.py\<close> the log in a real file, \<^verbatim>\<open>sim/trace.py\<close> the trace as JSON
  lines, \<^verbatim>\<open>cli.py\<close> and \<^verbatim>\<open>__main__.py\<close> the command line.

  \<^bold>\<open>How code becomes definitions.\<close> A method is a function from the state it may touch to an \<open>outcome\<close>: \<open>Done\<close> with a
  value and the new state, \<open>Raised\<close> with the exception and the state at that moment, or \<open>Diverges\<close> (\<open>GH_Prelude\<close>: \<open>py\<close>, \<open>bind\<close>,
  \<open>block\<close>, and the triple \<open>valid\<close>). State is records that extend each other as the objects own each other: \<open>simcore\<close>
  (generator, queue, time, trace), \<open>netsim\<close>, \<open>faultsim\<close>, then \<open>raft_world\<close>, or \<open>hostworld\<close> for the two small worlds. A node runs on
  its own view (\<open>node_ctx\<close>, \<open>hostctx\<close>), which is written back afterwards. Callbacks are data: an event carries an action and
  \<open>world_act\<close>, \<open>naive_act\<close> or \<open>demo_act\<close> says what it runs. Bytes and checksums are words, Python integers are \<open>int\<close>, a string is
  its list of code points (\<open>pystr\<close>), a dict an association list in insertion order.

  \<^bold>\<open>Theories.\<close>
  \<^item> Standard library: \<open>GH_Prelude\<close>, \<open>Py_Bytes\<close> (struct, crc32, UTF-8).
  \<^item> Data: \<open>Codec\<close>, \<open>Kv\<close>, \<open>Raft_Log\<close>, \<open>Messages\<close>, \<open>Persist\<close>; shown: encodings come back, a torn image is a prefix of its
    records, replaying the written records rebuilds the log and the hard state.
  \<^item> Simulator: \<open>Rng\<close>, \<open>Event_Queue\<close>, \<open>Clock\<close>, \<open>Storage\<close> (the interface, a locale with \<open>Sim_Disk\<close> and \<open>File_Storage\<close> as its
    interpretations), \<open>Sim_Disk\<close>, \<open>Sim_Net\<close>, \<open>Sim_Faults\<close>, \<open>Sim_World\<close>; shown: the queue with lazy cancellation refines a
    sorted list, synced records survive, a schedule is well formed, time and the stop reason are what they say.
  \<^item> The node: \<open>Raft_Node\<close> follows \<^verbatim>\<open>node.py\<close> method by method. \<open>Node_Spec\<close> says what each handler does as a pure function
    to a new state, records and messages; \<open>Node_Run\<close> and \<open>Node_Refines\<close> show that the handlers implement it, disk errors
    included, \<open>Node_Recovery\<close> adds crash and restart, \<open>Node_Calm\<close> runs it where nothing fails and \<open>Node_Sends\<close> says what is
    on the queue afterwards. \<open>Node_Facts\<close>, \<open>Node_Effects\<close> and \<open>Node_Applied\<close> say what the specifications keep and change;
    \<open>Node_Props\<close> states the node's properties about the code. \<open>Node_Elects\<close> shows that an election succeeds where nothing
    fails, and that a leader deposed by a request it refuses is left without a timer.
  \<^item> The protocol: \<open>Cluster\<close> is a step relation over nodes, disks and sent messages whose steps are the specifications, with
    two histories that only grow (every state a node was in, every leader's state when its disk failed). \<open>Log_Agreement\<close>,
    \<open>Cluster_Logs\<close>, \<open>Logs_Kept\<close>, \<open>Logs_Steps\<close> give Log Matching; \<open>Cluster_Commit\<close> that what a majority took stays in the logs of
    later leaders; \<open>Cluster_Agree\<close> that committed and applied entries agree; \<open>Cluster_Props\<close> collects the safety properties with
    a run of three nodes that commits in two terms.
  \<^item> The world: \<open>Raft_World\<close> follows \<^verbatim>\<open>raft/world.py\<close>. \<open>World_Moves\<close> and \<open>World_Refines\<close> show that every event of the simulator is
    some steps of the cluster (\<open>represents\<close>); \<open>World_Runs\<close> carries invariants of the cluster to whole runs through the locales
    \<open>observer\<close> and \<open>watcher\<close>, and \<open>World_Safety\<close> concludes that the checkers of Election Safety, Log Matching and State Machine
    Safety never report anything. \<open>Checkers\<close> models the checkers and shows when they report. \<open>Odd_Runs\<close> holds two runs in
    which the code deviates: a lost write that is acknowledged, and a false alarm of the Leader Completeness checker.
  \<^item> The rest: \<open>Sim_Host\<close>, \<open>Naive\<close>, \<open>Naive_Props\<close>, \<open>Demo\<close>, \<open>Demo_Props\<close>, \<open>Trace_File\<close>, \<open>Command_Line\<close>.

  \<^bold>\<open>How the layers meet.\<close> Code to specification: \<open>dispatch_refines\<close> and its companions for timeouts and client requests.
  Specification to protocol: a step of \<open>Cluster\<close> applies the specification to one node and moves its disk and messages.
  Protocol to run: \<open>event_is_cluster_steps\<close>. So what is proved by induction over cluster steps is true of the nodes in every
  world a run passes through, for every seed, fault profile, stride and number of writes; the mutation that takes
  the log out of the vote is a parameter of the cluster, and only properties that survive it are claimed with it. The cluster
  allows more than the code: messages may be missing, nodes may time out or restart at any moment. That suits what holds of
  all its runs; what must happen (\<open>election_succeeds\<close>) is shown of the code itself, with the events it leaves on the queue.

  \<^bold>\<open>Loops and bounds.\<close> Loops that may not end are \<open>partial_function (option)\<close> (\<open>below_loop\<close>, the rejection loop; \<open>timeline\<close>, the
  drawing of a schedule; \<open>sim_loop\<close>, the simulator); not ending is \<open>Diverges\<close>. Schedules are shown to be drawn, for sensible
  profiles and a fair generator. Recursions with a counter get the counter the code's loop has (the commit search counts
  down from the last index, the application loop counts up to the commit index). \<open>process_status\<close> has a depth; two is enough.
  The theorems about runs are about runs that return: no claim is made that an arbitrary run does, since a profile may
  be one whose events never stop before \<^verbatim>\<open>max_ticks\<close>.

  \<^bold>\<open>Parameters.\<close> \<^verbatim>\<open>random.Random(seed)\<close> is the stream of 32-bit words it gives (\<open>src\<close>, \<open>streams\<close>); \<^verbatim>\<open>heapq\<close> is a priority queue; the
  environment a child process gets is what the system makes of it (\<open>give_env\<close>).

  \<^bold>\<open>Not modelled.\<close> The text that \<^verbatim>\<open>describe()\<close>, \<^verbatim>\<open>summary()\<close> and \<^verbatim>\<open>__str__\<close> lay out (a record or a printed line holds the value
  instead), the parsing of arguments by \<^verbatim>\<open>argparse\<close> (the commands start from the parsed arguments), errors of opening the
  trace file, the creation of directories and files in \<^verbatim>\<open>storage.py\<close>, and a truncation that fails or is undone by a crash when a
  file is opened.
\<close>

end
